(* ===== verification/Prelude.thy ===== *)
theory Prelude
  imports Main "HOL-Library.Word"
begin

text \<open>
  What every component of the model shares: the C library's character classes as the code
  uses them, NUL-terminated text, block moves on arrays, loops with an early exit, and the
  lemma collections of the development.

  A C string is a \<^typ>\<open>string\<close>; reading at its end reads the terminating NUL
  (\<open>peek\<close>), and a pointer that walks over it is the remaining suffix. The model never
  tests a suffix for emptiness: like the code, it tests the character under the pointer, so
  a list that holds a NUL character itself is cut there as it is in C.
\<close>

unbundle bit_operations_syntax

named_theorems alloc_simps \<open>how the operations change the count of live allocations\<close>
named_theorems ctype_simps \<open>the character classes, unfolded to character codes\<close>
named_theorems loop_simps \<open>unfolding of the loops on constructors\<close>

subsection \<open>Machine types\<close>

type_synonym u8 = "8 word"
type_synonym u16 = "16 word"
type_synonym u32 = "32 word"
type_synonym u64 = "64 word"

named_theorems word_int \<open>comparisons and small arithmetic of machine words, read as integers\<close>

lemma word_cmp_int [word_int]:
  "(x :: 'a::len word) \<le> y \<longleftrightarrow> uint x \<le> uint y"
  "x < y \<longleftrightarrow> uint x < uint y"
  by (simp_all add: word_le_def word_less_def)

lemma word_eq_int: "(x :: 'a::len word) = y \<longleftrightarrow> uint x = uint y"
  by (rule word_uint_eq_iff)

lemma uint_bounds [simp]: "uint (x :: u16) \<le> 65535" "uint (y :: u32) \<le> 4294967295"
  using uint_bounded [of x] uint_bounded [of y] by simp_all

lemma uint_not_negative [simp]: "\<not> uint (w :: 'a::len word) + 1 < 0" "\<not> uint w < 0"
  using unsigned_greater_eq [where ?'a = int, of w] by linarith+

lemma uint_succ:
  "uint (x :: u16) \<noteq> 65535 \<Longrightarrow> uint (x + 1) = uint x + 1"
  "uint (y :: u32) \<noteq> 4294967295 \<Longrightarrow> uint (y + 1) = uint y + 1"
proof -
  assume "uint x \<noteq> 65535"
  with uint_bounds(1) [of x] have "uint x + 1 < 65536" by linarith
  then show "uint (x + 1) = uint x + 1" by (simp add: uint_word_ariths)
next
  assume "uint y \<noteq> 4294967295"
  with uint_bounds(2) [of y] have "uint y + 1 < 4294967296" by linarith
  then show "uint (y + 1) = uint y + 1" by (simp add: uint_word_ariths)
qed

lemma uint_pred:
  "uint (x :: u16) \<noteq> 0 \<Longrightarrow> uint (x - 1) = uint x - 1"
  "uint (y :: u32) \<noteq> 0 \<Longrightarrow> uint (y - 1) = uint y - 1"
proof -
  assume "uint x \<noteq> 0"
  then have "0 \<le> uint x - 1" using unsigned_greater_eq [where ?'a = int, of x] by linarith
  moreover have "uint x - 1 < 65536" using uint_bounds(1) [of x] by linarith
  ultimately show "uint (x - 1) = uint x - 1" by (simp add: uint_word_ariths)
next
  assume "uint y \<noteq> 0"
  then have "0 \<le> uint y - 1" using unsigned_greater_eq [where ?'a = int, of y] by linarith
  moreover have "uint y - 1 < 4294967296" using uint_bounds(2) [of y] by linarith
  ultimately show "uint (y - 1) = uint y - 1" by (simp add: uint_word_ariths)
qed

lemma uint_succ_less: "x < y \<Longrightarrow> uint (x + 1 :: 'a::len word) = uint x + 1"
proof -
  assume "x < y"
  then have "(uint x + 1) mod 2 ^ LENGTH('a) = uint x + 1"
    using uint_bounded [of y] unsigned_greater_eq [where ?'a = int, of x]
    unfolding word_less_def by (intro mod_pos_pos_trivial) linarith+
  then show ?thesis by (simp add: uint_word_ariths)
qed

lemma uint_pred_less: "y < x \<Longrightarrow> uint (x - 1 :: 'a::len word) = uint x - 1"
proof -
  assume "y < x"
  then have "(uint x - 1) mod 2 ^ LENGTH('a) = uint x - 1"
    using uint_bounded [of x] unsigned_greater_eq [where ?'a = int, of y]
    unfolding word_less_def by (intro mod_pos_pos_trivial) linarith+
  then show ?thesis by (simp add: uint_word_ariths)
qed

lemma word_const_int [word_int]:
  "(x :: u16) = 0xffff \<longleftrightarrow> uint x = 65535" "(y :: u32) = 0xffffffff \<longleftrightarrow> uint y = 4294967295"
  "(z :: 'a::len word) = 0 \<longleftrightarrow> uint z = 0"
  by (simp_all add: word_uint_eq_iff)

lemma unat_word_of_nat: "n < 2 ^ LENGTH('a) \<Longrightarrow> unat (word_of_nat n :: 'a::len word) = n"
  by (simp add: unsigned_of_nat take_bit_nat_eq_self)

lemma word_of_nat_unat: "word_of_nat (unat (w :: 'a::len word)) = w"
  by simp

subsection \<open>Characters (the C locale)\<close>

definition ccode :: "char \<Rightarrow> nat" where
  "ccode c = of_char c"

definition NUL :: char where
  "NUL = CHR 0x00"

definition isspace :: "char \<Rightarrow> bool" where
  "isspace c \<longleftrightarrow> ccode c = 32 \<or> (9 \<le> ccode c \<and> ccode c \<le> 13)"

definition isdigit :: "char \<Rightarrow> bool" where
  "isdigit c \<longleftrightarrow> 48 \<le> ccode c \<and> ccode c \<le> 57"

definition isupper :: "char \<Rightarrow> bool" where
  "isupper c \<longleftrightarrow> 65 \<le> ccode c \<and> ccode c \<le> 90"

definition islower :: "char \<Rightarrow> bool" where
  "islower c \<longleftrightarrow> 97 \<le> ccode c \<and> ccode c \<le> 122"

definition isalnum :: "char \<Rightarrow> bool" where
  "isalnum c \<longleftrightarrow> isdigit c \<or> isupper c \<or> islower c"

definition isxdigit :: "char \<Rightarrow> bool" where
  "isxdigit c \<longleftrightarrow>
     isdigit c \<or> (65 \<le> ccode c \<and> ccode c \<le> 70) \<or> (97 \<le> ccode c \<and> ccode c \<le> 102)"

definition isgraph :: "char \<Rightarrow> bool" where
  "isgraph c \<longleftrightarrow> 33 \<le> ccode c \<and> ccode c \<le> 126"

definition ispunct :: "char \<Rightarrow> bool" where
  "ispunct c \<longleftrightarrow> isgraph c \<and> \<not> isalnum c"

definition tolower :: "char \<Rightarrow> char" where
  "tolower c = (if isupper c then char_of (ccode c + 32) else c)"

lemmas ctype_defs [ctype_simps] =
  isspace_def isdigit_def isupper_def islower_def isalnum_def isxdigit_def isgraph_def
  ispunct_def

lemma ccode_NUL [simp]: "ccode NUL = 0"
  by (simp add: ccode_def NUL_def)

lemma ccode_bound [simp]: "ccode c < 256"
  by (simp add: ccode_def)

lemma ccode_inject [simp]: "ccode c = ccode d \<longleftrightarrow> c = d"
  by (simp add: ccode_def)

lemma ctype_NUL [simp]:
  "\<not> isspace NUL" "\<not> isdigit NUL" "\<not> isalnum NUL" "\<not> isxdigit NUL" "\<not> isgraph NUL"
  "\<not> ispunct NUL" "\<not> isupper NUL"
  by (simp_all add: ctype_simps)

lemma isdigit_not_isspace: "isdigit c \<Longrightarrow> \<not> isspace c"
  by (simp add: ctype_simps)

lemma isgraph_not_isspace: "isgraph c \<Longrightarrow> \<not> isspace c"
  by (auto simp: ctype_simps)

lemma isdigit_isxdigit: "isdigit c \<Longrightarrow> isxdigit c"
  by (simp add: ctype_simps)

lemma ccode_char_of [simp]: "ccode (char_of n) = n mod 256"
  by (simp add: ccode_def)

lemma ccode_tolower: "ccode (tolower c) = (if isupper c then ccode c + 32 else ccode c)"
  by (auto simp: tolower_def isupper_def)

lemma tolower_NUL_iff [simp]: "tolower c = NUL \<longleftrightarrow> c = NUL"
proof -
  have "tolower c = NUL \<longleftrightarrow> ccode (tolower c) = ccode NUL" by (simp only: ccode_inject)
  also have "\<dots> \<longleftrightarrow> ccode c = ccode NUL" by (simp only: ccode_tolower ccode_NUL) (simp add: isupper_def)
  finally show ?thesis by (simp only: ccode_inject)
qed

lemma tolower_idem [simp]: "tolower (tolower c) = tolower c"
  by (simp only: ccode_inject [symmetric] ccode_tolower) (simp add: isupper_def ccode_tolower)

subsection \<open>NUL-terminated text\<close>

definition peek :: "string \<Rightarrow> char" where
  "peek s = (case s of [] \<Rightarrow> NUL | c # _ \<Rightarrow> c)"

definition cstr :: "string \<Rightarrow> bool" where
  "cstr s \<longleftrightarrow> NUL \<notin> set s"

lemma peek_simps [simp]: "peek [] = NUL" "peek (c # s) = c"
  by (simp_all add: peek_def)

lemma peek_NUL_iff: "cstr s \<Longrightarrow> peek s = NUL \<longleftrightarrow> s = []"
  by (cases s) (auto simp: cstr_def)

lemma peek_nonempty: "peek s \<noteq> NUL \<Longrightarrow> s \<noteq> []"
  by (cases s) auto

lemma isdigit_peek_nonempty: "isdigit (peek s) \<Longrightarrow> s \<noteq> []"
  by (rule peek_nonempty) auto

lemma cstr_drop: "cstr s \<Longrightarrow> cstr (drop n s)"
  by (auto simp: cstr_def dest: in_set_dropD)

lemma cstr_simps [simp]:
  "cstr []" "cstr (c # s) \<longleftrightarrow> c \<noteq> NUL \<and> cstr s" "cstr (s @ t) \<longleftrightarrow> cstr s \<and> cstr t"
  by (auto simp: cstr_def)

text \<open>\<open>strncasecmp (s, kw, strlen (kw)) == 0\<close> for a keyword \<open>kw\<close>: a case-blind prefix test.\<close>

fun casepfx :: "string \<Rightarrow> string \<Rightarrow> bool" where
  "casepfx s [] \<longleftrightarrow> True"
| "casepfx s (k # ks) \<longleftrightarrow> tolower (peek s) = tolower k \<and> casepfx (tl s) ks"

lemma casepfx_length: "cstr kw \<Longrightarrow> casepfx s kw \<Longrightarrow> length kw \<le> length s"
proof (induction s kw rule: casepfx.induct)
  case (2 s k ks)
  then have "tolower (peek s) \<noteq> NUL" by simp
  then have "s \<noteq> []" by auto
  with 2 show ?case by (cases s) auto
qed simp

lemma option_eqI: "(\<And>w. a = Some w \<longleftrightarrow> b = Some w) \<Longrightarrow> a = b"
  by (cases a) force+

subsection \<open>Arrays\<close>

text \<open>
  \<open>memmove\<close> inside one array: \<open>cnt\<close> elements from index \<open>src\<close> to index \<open>dst\<close>.
\<close>

definition memmove :: "'a list \<Rightarrow> nat \<Rightarrow> nat \<Rightarrow> nat \<Rightarrow> 'a list" where
  "memmove xs dst src cnt = take dst xs @ take cnt (drop src xs) @ drop (dst + cnt) xs"

lemma length_memmove [simp]:
  "src + cnt \<le> length xs \<Longrightarrow> dst + cnt \<le> length xs \<Longrightarrow> length (memmove xs dst src cnt) = length xs"
  by (simp add: memmove_def)

lemma memmove_open_gap:
  assumes "i \<le> length xs"
  shows "(memmove (xs @ [y]) (Suc i) i (length xs - i))[i := z] = take i xs @ z # drop i xs"
proof (cases "i = length xs")
  case False
  with assms have "i < length xs" by simp
  then show ?thesis
    by (simp add: memmove_def take_Suc_conv_app_nth list_update_append)
qed (simp add: memmove_def list_update_append)

lemma memmove_close_gap:
  "i + n \<le> length xs \<Longrightarrow>
   take (length xs - n) (memmove xs i (i + n) (length xs - (i + n))) = take i xs @ drop (i + n) xs"
proof (cases "i + n = length xs")
  case True
  then have "length xs - n = i" by simp
  with True show ?thesis by (simp add: memmove_def)
qed (auto simp: memmove_def min_def)

subsection \<open>Loops with an early exit\<close>

text \<open>
  \<open>for (z = 0; z < n; ++z) if (f (xs[z], state)) return -1;\<close> with a step that threads the
  object and the allocator; a step answers whether it failed.
\<close>

fun for_each :: "('r \<Rightarrow> 's \<Rightarrow> 'm \<Rightarrow> bool \<times> 's \<times> 'm) \<Rightarrow> 'r list \<Rightarrow> 's \<Rightarrow> 'm \<Rightarrow> bool \<times> 's \<times> 'm" where
  "for_each f [] s m = (False, s, m)"
| "for_each f (r # rs) s m =
     (case f r s m of (True, s', m') \<Rightarrow> (True, s', m') | (False, s', m') \<Rightarrow> for_each f rs s' m')"

lemma for_each_append:
  "for_each f (xs @ ys) s m =
     (case for_each f xs s m of (True, s', m') \<Rightarrow> (True, s', m') | (False, s', m') \<Rightarrow> for_each f ys s' m')"
  by (induction xs arbitrary: s m) (auto split: prod.splits bool.splits)

end
