(* ===== verification/Memlimit.thy ===== *)
theory Memlimit
  imports Prelude
begin

text \<open>
  The accounting allocator of libdank/utils/memlimit.c. Its static counters are a record that
  every operation threads. What is outside the program is a parameter: whether libc's
  allocator or mmap serves request number \<open>n\<close> for \<open>s\<close> bytes (\<open>os_alloc\<close>), and the
  answers of getrlimit, sysinfo and getrusage (\<open>sysenv\<close>). Addresses play no role: a block
  is the value the component keeps in it, and an allocation answers whether it succeeded.
  The mutex around the counters makes each operation one atomic step, which is how the
  model runs it.
\<close>

subsection \<open>State\<close>

datatype errno = E_NONE | ENOMEM | EINTR | EAGAIN | ECONNRESET | EINVAL | EIO

record mem =
  allocs_used :: int
  allocs_reqd :: nat
  allocs_fail :: nat
  poisoned_idx :: int
  memory_usage_limit :: u64
  static_usage :: u64
  errno :: errno
  os_alloc :: "nat \<Rightarrow> nat \<Rightarrow> bool"

record sysenv =
  env_rlimit :: "u64 option"            \<comment> \<open>getrlimit (RLIMIT_AS): rlim_cur, or an error\<close>
  env_sysinfo :: "(u64 \<times> u64) option"    \<comment> \<open>sysinfo: mem_unit and totalram, or an error\<close>
  env_maxrss :: "u64 option"            \<comment> \<open>getrusage: ru_maxrss, or an error\<close>
  env_setrlimit :: "u64 \<Rightarrow> bool"         \<comment> \<open>whether setrlimit accepts the limit\<close>

definition init_mem :: "(nat \<Rightarrow> nat \<Rightarrow> bool) \<Rightarrow> mem" where
  "init_mem os = \<lparr>allocs_used = 0, allocs_reqd = 0, allocs_fail = 0, poisoned_idx = -1,
     memory_usage_limit = 0, static_usage = 0, errno = E_NONE, os_alloc = os\<rparr>"

definition outstanding_allocs :: "mem \<Rightarrow> int" where
  "outstanding_allocs m = allocs_used m"

subsection \<open>Allocation\<close>

definition check_alloc_req :: "nat \<Rightarrow> mem \<Rightarrow> bool \<times> mem" where
  "check_alloc_req s m =
     (if s = 0 then (False, m)
      else let m1 = m\<lparr>allocs_reqd := Suc (allocs_reqd m)\<rparr> in
        if poisoned_idx m1 = 0 then (False, m1\<lparr>errno := ENOMEM\<rparr>)
        else if poisoned_idx m1 > 0 then (True, m1\<lparr>poisoned_idx := poisoned_idx m1 - 1\<rparr>)
        else (True, m1))"

definition Malloc :: "nat \<Rightarrow> mem \<Rightarrow> bool \<times> mem" where
  "Malloc s m =
     (case check_alloc_req s m of
        (True, m1) \<Rightarrow>
          (if os_alloc m1 (allocs_reqd m1) s
           then (True, m1\<lparr>allocs_used := allocs_used m1 + 1\<rparr>)
           else (False, m1\<lparr>allocs_fail := Suc (allocs_fail m1), errno := ENOMEM\<rparr>))
      | (False, m1) \<Rightarrow> (False, m1\<lparr>errno := ENOMEM\<rparr>))"

text \<open>\<open>Realloc\<close> of a null pointer (\<open>orig = False\<close>) makes a block; otherwise it moves one.\<close>

definition Realloc :: "bool \<Rightarrow> nat \<Rightarrow> mem \<Rightarrow> bool \<times> mem" where
  "Realloc orig s m =
     (case check_alloc_req s m of
        (True, m1) \<Rightarrow>
          (if os_alloc m1 (allocs_reqd m1) s
           then (True, m1\<lparr>allocs_used := allocs_used m1 + (if orig then 0 else 1)\<rparr>)
           else (False, m1\<lparr>allocs_fail := Suc (allocs_fail m1), errno := ENOMEM\<rparr>))
      | (False, m1) \<Rightarrow> (False, m1\<lparr>errno := ENOMEM\<rparr>))"

text \<open>\<open>Free\<close> of a pointer that is null (\<open>obj = False\<close>) does nothing.\<close>

definition Free :: "bool \<Rightarrow> mem \<Rightarrow> mem" where
  "Free obj m = (if obj then m\<lparr>allocs_used := allocs_used m - 1\<rparr> else m)"

definition Mmalloc :: "nat \<Rightarrow> mem \<Rightarrow> bool \<times> mem" where
  "Mmalloc len m =
     (case check_alloc_req len m of
        (True, m1) \<Rightarrow>
          (if os_alloc m1 (allocs_reqd m1) len
           then (True, m1\<lparr>allocs_used := allocs_used m1 + 1, errno := E_NONE\<rparr>)
           else (False, m1\<lparr>allocs_fail := Suc (allocs_fail m1), errno := ENOMEM\<rparr>))
      | (False, m1) \<Rightarrow> (False, m1\<lparr>allocs_fail := Suc (allocs_fail m1), errno := ENOMEM\<rparr>))"

text \<open>\<open>unmapped\<close> is munmap's answer: whether the range was unmapped.\<close>

definition Mfree :: "bool \<Rightarrow> mem \<Rightarrow> bool \<times> mem" where
  "Mfree unmapped m =
     (if unmapped then (True, m\<lparr>allocs_used := allocs_used m - 1\<rparr>) else (False, m))"

definition track_allocation :: "mem \<Rightarrow> bool \<times> mem" where
  "track_allocation m =
     (case check_alloc_req 1 m of
        (True, m1) \<Rightarrow> (True, m1\<lparr>allocs_used := allocs_used m1 + 1\<rparr>)
      | (False, m1) \<Rightarrow> (False, m1\<lparr>errno := ENOMEM, allocs_fail := Suc (allocs_fail m1)\<rparr>))"

definition track_deallocation :: "mem \<Rightarrow> mem" where
  "track_deallocation m = m\<lparr>allocs_used := allocs_used m - 1\<rparr>"

definition track_failloc :: "mem \<Rightarrow> mem" where
  "track_failloc m = m\<lparr>allocs_fail := Suc (allocs_fail m)\<rparr>"

definition failloc_on_n :: "int \<Rightarrow> mem \<Rightarrow> mem" where
  "failloc_on_n n m = m\<lparr>poisoned_idx := n\<rparr>"

subsection \<open>The memory limit\<close>

definition KIBIBYTE :: u64 where "KIBIBYTE = 1024"

definition DEFAULT_APP_MEMLIMIT :: u64 where
  "DEFAULT_APP_MEMLIMIT = 256 * (KIBIBYTE * KIBIBYTE)"

definition determine_static_usage :: "sysenv \<Rightarrow> u64" where
  "determine_static_usage env =
     (case env_maxrss env of None \<Rightarrow> DEFAULT_APP_MEMLIMIT | Some rss \<Rightarrow> rss * KIBIBYTE)"

text \<open>\<open>RLIM_INFINITY\<close> is the greatest value of the unsigned 64-bit rlim_t.\<close>

definition determine_sysmem :: "sysenv \<Rightarrow> u64" where
  "determine_sysmem env =
     (let by_sysinfo = (case env_sysinfo env of None \<Rightarrow> 0 | Some (mem_unit, totalram) \<Rightarrow> mem_unit * totalram)
      in case env_rlimit env of
           None \<Rightarrow> by_sysinfo
         | Some cur \<Rightarrow> if cur = 0 \<or> cur = - 1 then by_sysinfo else cur)"

definition limit_memory :: "sysenv \<Rightarrow> u64 \<Rightarrow> mem \<Rightarrow> int \<times> mem" where
  "limit_memory env s m =
     (if memory_usage_limit m \<noteq> 0 then (-1, m)
      else
        let s1 = (if s \<noteq> 0 then s else DEFAULT_APP_MEMLIMIT);
            m1 = m\<lparr>memory_usage_limit := determine_sysmem env,
                   static_usage := determine_static_usage env\<rparr>;
            s2 = s1 + static_usage m1
        in if s2 > memory_usage_limit m1 then (-1, m1)
           else if s2 \<noteq> 0
           then ((if env_setrlimit env s2 then 0 else -1), m1\<lparr>memory_usage_limit := s2\<rparr>)
           else (0, m1))"

text \<open>\<open>used\<close> is what \<open>mem_used ()\<close> reads from mallinfo.\<close>

definition size_palloc_req :: "u64 \<Rightarrow> u32 \<Rightarrow> mem \<Rightarrow> u64" where
  "size_palloc_req used p m =
     (if memory_usage_limit m = 0 then 0
      else
        let left0 = memory_usage_limit m - used;
            reqsize = left0 div 100 * ucast p;
            left1 = left0 div 10 * 9
        in if reqsize > left1 then left1 else reqsize)"

text \<open>
  \<open>Palloc\<close> answers the block size and the number of objects, or a failure. The division by
  an object size of 0 is undefined behaviour (the outer \<open>None\<close>).
\<close>

definition Palloc :: "u64 \<Rightarrow> u64 \<Rightarrow> u32 \<Rightarrow> mem \<Rightarrow> ((u64 \<times> u32) option \<times> mem) option" where
  "Palloc used osiz p m =
     (if p = 0 \<or> p > 100 then Some (None, m)
      else
        let m1 = m\<lparr>allocs_reqd := Suc (allocs_reqd m)\<rparr>;
            rsiz = size_palloc_req used p m1
        in if rsiz < osiz then Some (None, m1\<lparr>allocs_fail := Suc (allocs_fail m1)\<rparr>)
           else if osiz = 0 then None
           else
             let rsiz' = rsiz - rsiz mod osiz
             in if os_alloc m1 (allocs_reqd m1) (unat rsiz')
                then Some (Some (rsiz', ucast (rsiz' div osiz)),
                           m1\<lparr>allocs_used := allocs_used m1 + 1\<rparr>)
                else Some (None, m1\<lparr>allocs_fail := Suc (allocs_fail m1)\<rparr>))"

subsection \<open>Sequences of allocator calls\<close>

datatype memop = DoMalloc nat | DoRealloc bool nat | DoMmalloc nat | DoTrack
  | DoFree bool | DoMfree bool | DoUntrack

fun mem_step :: "memop \<Rightarrow> mem \<Rightarrow> bool \<times> mem" where
  "mem_step (DoMalloc s) m = Malloc s m"
| "mem_step (DoRealloc orig s) m = Realloc orig s m"
| "mem_step (DoMmalloc s) m = Mmalloc s m"
| "mem_step DoTrack m = track_allocation m"
| "mem_step (DoFree obj) m = (True, Free obj m)"
| "mem_step (DoMfree unmapped) m = Mfree unmapped m"
| "mem_step DoUntrack m = (True, track_deallocation m)"

fun mem_run :: "memop list \<Rightarrow> mem \<Rightarrow> bool list \<times> mem" where
  "mem_run [] m = ([], m)"
| "mem_run (x # xs) m =
     (let (ok, m1) = mem_step x m; (oks, m2) = mem_run xs m1 in (ok # oks, m2))"

text \<open>How many live blocks a call adds, given its answer.\<close>

fun delta :: "memop \<Rightarrow> bool \<Rightarrow> int" where
  "delta (DoMalloc s) ok = of_bool ok"
| "delta (DoRealloc orig s) ok = of_bool (ok \<and> \<not> orig)"
| "delta (DoMmalloc s) ok = of_bool ok"
| "delta DoTrack ok = of_bool ok"
| "delta (DoFree obj) ok = - of_bool obj"
| "delta (DoMfree unmapped) ok = - of_bool unmapped"
| "delta DoUntrack ok = - 1"

text \<open>The calls that ask for memory, with a size that is not 0.\<close>

fun acquires :: "memop \<Rightarrow> bool" where
  "acquires (DoMalloc s) = (s \<noteq> 0)"
| "acquires (DoRealloc orig s) = (s \<noteq> 0)"
| "acquires (DoMmalloc s) = (s \<noteq> 0)"
| "acquires DoTrack = True"
| "acquires _ = False"

subsection \<open>Lemmas\<close>

lemmas mem_op_defs =
  check_alloc_req_def Malloc_def Realloc_def Free_def Mmalloc_def Mfree_def
  track_allocation_def track_deallocation_def track_failloc_def

lemma Malloc_used [alloc_simps]:
  "Malloc s m = (ok, m') \<Longrightarrow> allocs_used m' = allocs_used m + of_bool ok"
  by (auto simp: mem_op_defs Let_def split: if_splits)

lemma Realloc_used [alloc_simps]:
  "Realloc orig s m = (ok, m') \<Longrightarrow> allocs_used m' = allocs_used m + of_bool (ok \<and> \<not> orig)"
  by (auto simp: mem_op_defs Let_def split: if_splits)

lemma Free_used [simp]: "allocs_used (Free obj m) = allocs_used m - of_bool obj"
  by (simp add: Free_def)

lemma Free_False [simp]: "Free False m = m"
  by (simp add: Free_def)

lemma Free_os [simp]: "os_alloc (Free obj m) = os_alloc m"
  by (simp add: Free_def)

lemma Free_poison [simp]: "poisoned_idx (Free obj m) = poisoned_idx m"
  by (simp add: Free_def)

text \<open>An allocator that never refuses: no poison, and an operating system with memory.\<close>

definition plentiful :: "mem \<Rightarrow> bool" where
  "plentiful m \<longleftrightarrow> poisoned_idx m < 0 \<and> (\<forall>n s. os_alloc m n s)"

lemma Malloc_plentiful:
  "plentiful m \<Longrightarrow> 0 < s \<Longrightarrow> \<exists>m'. Malloc s m = (True, m') \<and> plentiful m'"
  by (auto simp: mem_op_defs plentiful_def Let_def)

lemma Realloc_plentiful:
  "plentiful m \<Longrightarrow> 0 < s \<Longrightarrow> \<exists>m'. Realloc orig s m = (True, m') \<and> plentiful m'"
  by (auto simp: mem_op_defs plentiful_def Let_def)

lemma Free_plentiful [simp]: "plentiful (Free obj m) = plentiful m"
  by (simp add: plentiful_def)

lemma init_mem_plentiful [simp]: "plentiful (init_mem (\<lambda>n s. True))"
  by (simp add: plentiful_def init_mem_def)

text \<open>An allocator that never fails and one that always does, for the concrete runs.\<close>

abbreviation plenty_mem :: mem where
  "plenty_mem \<equiv> init_mem (\<lambda>n s. True)"

abbreviation scarce_mem :: mem where
  "scarce_mem \<equiv> init_mem (\<lambda>n s. False)"

lemma mem_step_used: "mem_step x m = (ok, m') \<Longrightarrow> allocs_used m' = allocs_used m + delta x ok"
  by (cases x) (auto simp: mem_op_defs Let_def split: if_splits)

lemma mem_step_poisoned:
  assumes "acquires x" "\<forall>n s. os_alloc m n s" "0 \<le> poisoned_idx m"
  shows "fst (mem_step x m) = (0 < poisoned_idx m) \<and>
    poisoned_idx (snd (mem_step x m)) = max 0 (poisoned_idx m - 1) \<and>
    os_alloc (snd (mem_step x m)) = os_alloc m"
  using assms by (cases x) (auto simp: mem_op_defs Let_def)

lemma mem_run_poisoned:
  assumes "\<forall>x\<in>set xs. acquires x" "\<forall>n s. os_alloc m n s" "poisoned_idx m = int n"
  shows "fst (mem_run xs m) = replicate (min n (length xs)) True @ replicate (length xs - n) False"
  using assms
proof (induction xs arbitrary: m n)
  case (Cons x xs)
  obtain ok m1 where s: "mem_step x m = (ok, m1)" by (cases "mem_step x m")
  from Cons.prems s have "ok = (0 < n)" "poisoned_idx m1 = int (n - 1)" "os_alloc m1 = os_alloc m"
    using mem_step_poisoned [of x m] by auto
  moreover from this Cons.prems
  have "fst (mem_run xs m1) = replicate (min (n - 1) (length xs)) True @ replicate (length xs - (n - 1)) False"
    by (intro Cons.IH) auto
  ultimately show ?case
    by (cases n) (auto simp: s split: prod.splits)
qed simp

subsection \<open>Properties\<close>


text \<open>
  \<open>failloc_on_n (n)\<close> does what its comment says: when the operating system has memory,
  exactly the next \<open>n\<close> requests of nonzero size succeed, through whichever entry point they
  come, and every later one fails.
\<close>

lemma failloc_on_n_exact:
  assumes "\<forall>x\<in>set xs. acquires x" and "\<forall>k s. os_alloc m k s"
  shows "fst (mem_run xs (failloc_on_n (int n) m)) =
           replicate (min n (length xs)) True @ replicate (length xs - n) False"
  by (rule mem_run_poisoned) (use assms in \<open>simp_all add: failloc_on_n_def\<close>)

lemma failloc_on_n_exact_example:
  "fst (mem_run [DoMalloc 8, DoTrack, DoRealloc True 16] (failloc_on_n (int 2) (init_mem (\<lambda>k s. True))))
     = replicate (min 2 (length [DoMalloc 8, DoTrack, DoRealloc True 16])) True
       @ replicate (length [DoMalloc 8, DoTrack, DoRealloc True 16] - 2) False"
  by (rule failloc_on_n_exact) (simp_all add: init_mem_def)

text \<open>
  A percentage allocation never takes more than nine tenths of what is left below the
  limit, and holds exactly the objects it reports, while the memory in use is below the
  limit and the object count fits the 32 bits it is stored in.
\<close>

lemma Palloc_bounded:
  assumes "Palloc used osiz p m = Some (Some (rsiz, num), m')"
    and "used \<le> memory_usage_limit m" and "unat (rsiz div osiz) < 2 ^ 32"
  shows "unat rsiz \<le> (unat (memory_usage_limit m) - unat used) div 10 * 9
    \<and> unat num * unat osiz = unat rsiz"
proof -
  define l where "l = memory_usage_limit m - used"
  define r where "r = size_palloc_req used p (m\<lparr>allocs_reqd := Suc (allocs_reqd m)\<rparr>)"
  from assms(1) have rsiz: "rsiz = r - r mod osiz" and num: "num = ucast (rsiz div osiz)" and "osiz \<noteq> 0"
    by (auto simp: Palloc_def Let_def r_def split: if_splits)
  have l: "unat l = unat (memory_usage_limit m) - unat used"
    using assms(2) by (simp add: l_def unat_sub)
  have "unat l < 2 ^ 64" using unsigned_less [where ?'a = nat, of l] by simp
  then have cap: "unat (l div 10 * 9) = unat l div 10 * 9"
    by (simp add: unat_word_ariths unat_div)
  have "r \<le> l div 10 * 9"
    by (auto simp: r_def size_palloc_req_def l_def Let_def)
  then have "unat r \<le> unat l div 10 * 9" by (simp add: word_le_nat_alt cap)
  moreover have ur: "unat rsiz = unat r - unat r mod unat osiz"
    by (simp add: rsiz unat_sub unat_mod word_le_nat_alt)
  moreover have "unat num = unat (rsiz div osiz)"
    using assms(3) by (simp add: num unsigned_ucast_eq take_bit_nat_eq_self_iff)
  ultimately show ?thesis by (auto simp: l unat_div ur minus_mod_eq_div_mult intro: le_trans [OF div_times_less_eq_dividend])
qed

definition palloc_example :: mem where
  "palloc_example = (init_mem (\<lambda>n s. True))\<lparr>memory_usage_limit := 10000\<rparr>"

lemma Palloc_bounded_example:
  "unat (4320 :: u64) \<le> (unat (memory_usage_limit palloc_example) - unat (1000 :: u64)) div 10 * 9
     \<and> unat (270 :: u32) * unat (16 :: u64) = unat (4320 :: u64)"
proof (rule Palloc_bounded)
  show "Palloc 1000 16 48 palloc_example =
     Some (Some (4320, 270), palloc_example\<lparr>allocs_reqd := 1, allocs_used := 1\<rparr>)"
    by (simp add: Palloc_def size_palloc_req_def palloc_example_def init_mem_def Let_def)
  show "(1000 :: u64) \<le> memory_usage_limit palloc_example"
    by (simp add: palloc_example_def)
  show "unat ((4320 :: u64) div 16) < 2 ^ 32" by simp
qed

end
