(* ===== verification/Allocsteps.thy ===== *)
theory Allocsteps
  imports Memlimit
begin

text \<open>
  The contract of the library's allocating operations, as locales: what one step on an object
  promises of its invariant and of the allocator's live count, and what a loop over such steps
  and the "work on a clone, then commit or roll back" pattern of the code do. The components
  interpret the locales on their own steps.
\<close>

subsection \<open>Work on a clone, then commit or roll back\<close>

text \<open>
  The shape of merge_portsets, merge_ipsets and purge_ipsets: copy the object, run the step
  for every range of the operand on the copy, throw the copy away when a step fails, and
  otherwise free the old contents and assign the copy. The answer says whether it failed.
\<close>

definition on_clone ::
  "('s \<Rightarrow> mem \<Rightarrow> bool \<times> 's \<times> mem) \<Rightarrow> ('s \<Rightarrow> mem \<Rightarrow> mem) \<Rightarrow> ('r \<Rightarrow> 's \<Rightarrow> mem \<Rightarrow> bool \<times> 's \<times> mem) \<Rightarrow>
   'r list \<Rightarrow> 's \<Rightarrow> mem \<Rightarrow> bool \<times> 's \<times> mem" where
  "on_clone clone release step rs s m =
     (case clone s m of
        (True, _, m1) \<Rightarrow> (True, s, m1)
      | (False, c, m1) \<Rightarrow>
          (case for_each step rs c m1 of
             (True, c', m2) \<Rightarrow> (True, s, release c' m2)
           | (False, c', m2) \<Rightarrow> (False, c', release s m2)))"

lemma on_clone_committed:
  assumes "on_clone clone release step rs s m = (False, s', m')"
  obtains c m1 m2 where "clone s m = (False, c, m1)" "for_each step rs c m1 = (False, s', m2)"
  using assms by (auto simp: on_clone_def split: prod.splits bool.splits)

subsection \<open>The contract of one allocating step\<close>

text \<open>
  \<open>owns s\<close> counts the heap blocks the object holds. A step keeps the object's invariant,
  and the allocator's live count moves exactly as the object's blocks do: nothing leaks and
  nothing is freed twice, on the failing path too. With a plentiful allocator it succeeds.
\<close>

locale alloc_step =
  fixes step :: "'r \<Rightarrow> 's \<Rightarrow> mem \<Rightarrow> bool \<times> 's \<times> mem"
    and inv :: "'s \<Rightarrow> bool" and ok :: "'r \<Rightarrow> bool" and owns :: "'s \<Rightarrow> int"
  assumes step_inv: "inv s \<Longrightarrow> ok r \<Longrightarrow> step r s m = (e, s', m') \<Longrightarrow> inv s'"
    and step_balance: "inv s \<Longrightarrow> ok r \<Longrightarrow> step r s m = (e, s', m') \<Longrightarrow>
      allocs_used m' = allocs_used m + owns s' - owns s"
    and step_plenty: "inv s \<Longrightarrow> ok r \<Longrightarrow> plentiful m \<Longrightarrow>
      \<exists>s' m'. step r s m = (False, s', m') \<and> plentiful m'"
begin

lemma loop_inv:
  "inv s \<Longrightarrow> \<forall>r\<in>set rs. ok r \<Longrightarrow> for_each step rs s m = (e, s', m') \<Longrightarrow> inv s'"
proof (induction rs arbitrary: s m)
  case (Cons r rs)
  then show ?case
    by (cases "step r s m") (auto split: bool.splits dest: step_inv)
qed simp

lemma loop_balance:
  "inv s \<Longrightarrow> \<forall>r\<in>set rs. ok r \<Longrightarrow> for_each step rs s m = (e, s', m') \<Longrightarrow>
   allocs_used m' = allocs_used m + owns s' - owns s"
proof (induction rs arbitrary: s m)
  case (Cons r rs)
  obtain e1 s1 m1 where st: "step r s m = (e1, s1, m1)" by (cases "step r s m")
  have "allocs_used m1 = allocs_used m + owns s1 - owns s" "inv s1"
    using Cons.prems st step_balance step_inv by auto
  moreover from this have "\<not> e1 \<Longrightarrow> allocs_used m' = allocs_used m1 + owns s' - owns s1"
    using Cons.prems st by (intro Cons.IH) auto
  ultimately show ?case using Cons.prems st by (auto split: bool.splits)
qed simp

lemma loop_plenty:
  "inv s \<Longrightarrow> \<forall>r\<in>set rs. ok r \<Longrightarrow> plentiful m \<Longrightarrow>
   \<exists>s' m'. for_each step rs s m = (False, s', m') \<and> plentiful m'"
proof (induction rs arbitrary: s m)
  case (Cons r rs)
  then obtain s1 m1 where st: "step r s m = (False, s1, m1)" "plentiful m1"
    using step_plenty by force
  then have "inv s1" using Cons.prems step_inv by auto
  with Cons st show ?case by simp
qed simp

end

subsection \<open>Steps run on a clone\<close>

text \<open>
  \<open>cloneable\<close> is what the copy needs of its source to satisfy the invariant itself.
\<close>

locale commit = alloc_step +
  fixes clone :: "'b \<Rightarrow> mem \<Rightarrow> bool \<times> 'b \<times> mem" and release :: "'b \<Rightarrow> mem \<Rightarrow> mem"
    and elems :: "'b \<Rightarrow> 'c set" and cloneable :: "'b \<Rightarrow> bool"
  assumes clone_ok: "cloneable s \<Longrightarrow> clone s m = (False, c, m') \<Longrightarrow>
      inv c \<and> elems c = elems s \<and> allocs_used m' = allocs_used m + owns c"
    and clone_fails: "cloneable s \<Longrightarrow> clone s m = (True, c, m') \<Longrightarrow> allocs_used m' = allocs_used m"
    and clone_plenty: "cloneable s \<Longrightarrow> plentiful m \<Longrightarrow>
      \<exists>c m'. clone s m = (False, c, m') \<and> plentiful m'"
    and release_used: "allocs_used (release s m) = allocs_used m - owns s"
    and release_plenty: "plentiful (release s m) = plentiful m"
begin

lemma on_clone_atomic: "on_clone clone release step rs s m = (True, s', m') \<Longrightarrow> s' = s"
  by (auto simp: on_clone_def split: prod.splits bool.splits)

lemma on_clone_inv:
  assumes "cloneable s" "\<forall>r\<in>set rs. ok r" "on_clone clone release step rs s m = (False, s', m')"
  shows "inv s'"
proof -
  from assms(3) obtain c m1 m2
    where c: "clone s m = (False, c, m1)" and l: "for_each step rs c m1 = (False, s', m2)"
    by (rule on_clone_committed)
  from clone_ok [OF assms(1) c] have "inv c" by simp
  then show ?thesis by (rule loop_inv [OF _ assms(2) l])
qed

lemma on_clone_balance:
  assumes c: "cloneable s" and r: "\<forall>r\<in>set rs. ok r"
    and o: "on_clone clone release step rs s m = (e, s', m')"
  shows "allocs_used m' = allocs_used m + owns s' - owns s"
proof -
  obtain e1 d m1 where cl: "clone s m = (e1, d, m1)" by (cases "clone s m")
  show ?thesis
  proof (cases e1)
    case True
    with o cl clone_fails [OF c, of m d m1] show ?thesis by (simp add: on_clone_def)
  next
    case False
    obtain e2 d' m2 where lp: "for_each step rs d m1 = (e2, d', m2)"
      by (cases "for_each step rs d m1")
    from False cl have d: "inv d" "allocs_used m1 = allocs_used m + owns d"
      using clone_ok [OF c, of m d m1] by auto
    have "allocs_used m2 = allocs_used m1 + owns d' - owns d"
      by (rule loop_balance [OF d(1) r lp])
    with False cl lp o d show ?thesis
      by (cases e2) (auto simp: on_clone_def release_used)
  qed
qed

lemma on_clone_plenty:
  assumes "cloneable s" "\<forall>r\<in>set rs. ok r" "plentiful m"
  shows "\<exists>s' m'. on_clone clone release step rs s m = (False, s', m') \<and> plentiful m'"
proof -
  from assms obtain d m1 where cl: "clone s m = (False, d, m1)" "plentiful m1"
    using clone_plenty by blast
  moreover from this assms obtain d' m2 where "for_each step rs d m1 = (False, d', m2)" "plentiful m2"
    using loop_plenty clone_ok by blast
  ultimately show ?thesis by (simp add: on_clone_def release_plenty)
qed

end

end
