(* ===== verification/Ranges.thy ===== *)
theory Ranges
  imports Allocsteps
begin

text \<open>
  The abstract specification of the two range sets of the library (port sets and IPv4 sets):
  sets of integers between 0 and a greatest value, kept as a list of closed intervals that is
  sorted, disjoint and never adjacent. \<open>ins\<close> and \<open>del\<close> are the reference operations the two
  array implementations refine; \<open>canonical_unique\<close> says that the list is determined by the
  set, so that comparing arrays compares sets.

  The locales extend the allocating step to a step that adds a range to a set and to one that
  removes a range, and prove once what the loops over a whole operand do.
\<close>

type_synonym ivl = "int \<times> int"

fun covers :: "ivl list \<Rightarrow> int set" where
  "covers [] = {}"
| "covers ((a, b) # rs) = {a..b} \<union> covers rs"

fun wf_from :: "int \<Rightarrow> int \<Rightarrow> ivl list \<Rightarrow> bool" where
  "wf_from lo hi [] \<longleftrightarrow> True"
| "wf_from lo hi ((a, b) # rs) \<longleftrightarrow> lo \<le> a \<and> a \<le> b \<and> b \<le> hi \<and> wf_from (b + 2) hi rs"

abbreviation canonical :: "int \<Rightarrow> ivl list \<Rightarrow> bool" where
  "canonical hi \<equiv> wf_from 0 hi"

fun absorb :: "ivl \<Rightarrow> ivl list \<Rightarrow> ivl list" where
  "absorb (a, b) [] = [(a, b)]"
| "absorb (a, b) ((c, d) # rs) =
     (if b + 1 < c then (a, b) # (c, d) # rs else absorb (a, max b d) rs)"

fun ins :: "ivl \<Rightarrow> ivl list \<Rightarrow> ivl list" where
  "ins (l, u) [] = [(l, u)]"
| "ins (l, u) ((a, b) # rs) =
     (if b + 1 < l then (a, b) # ins (l, u) rs
      else if u + 1 < a then (l, u) # (a, b) # rs
      else absorb (min l a, max u b) rs)"

fun del :: "ivl \<Rightarrow> ivl list \<Rightarrow> ivl list" where
  "del (l, u) [] = []"
| "del (l, u) ((a, b) # rs) =
     (if a < l then [(a, min b (l - 1))] else []) @
     (if u < b then [(max a (u + 1), b)] else []) @ del (l, u) rs"

fun total_width :: "ivl list \<Rightarrow> int" where
  "total_width [] = 0"
| "total_width ((a, b) # rs) = b - a + 1 + total_width rs"

subsection \<open>The reference operations compute union and difference\<close>

lemma wf_from_mono: "wf_from lo hi rs \<Longrightarrow> lo' \<le> lo \<Longrightarrow> wf_from lo' hi rs"
  by (cases rs rule: covers.cases) auto

lemma wf_from_append_right: "wf_from lo hi (xs @ ys) \<Longrightarrow> wf_from lo hi ys"
proof (induction lo hi xs rule: wf_from.induct)
  case (2 lo hi a b rs)
  then show ?case by (auto elim: wf_from_mono)
qed simp

lemma wf_from_append_left: "wf_from lo hi (xs @ ys) \<Longrightarrow> wf_from lo hi xs"
  by (induction lo hi xs rule: wf_from.induct) auto

lemma wf_from_covers: "wf_from lo hi rs \<Longrightarrow> x \<in> covers rs \<Longrightarrow> lo \<le> x \<and> x \<le> hi"
proof (induction lo hi rs rule: wf_from.induct)
  case (2 lo hi a b rs)
  then show ?case using wf_from_mono by fastforce
qed simp

lemma covers_absorb:
  "wf_from lo hi rs \<Longrightarrow> a \<le> b \<Longrightarrow> a \<le> lo \<Longrightarrow> covers (absorb (a, b) rs) = {a..b} \<union> covers rs"
proof (induction "(a, b)" rs arbitrary: b lo rule: absorb.induct)
  case (2 b c d rs)
  show ?case
  proof (cases "b + 1 < c")
    case False
    with "2.prems" have "covers (absorb (a, max b d) rs) = {a..max b d} \<union> covers rs"
      by (intro "2.hyps" [OF False, of "d + 2"]) auto
    moreover have "{a..max b d} = {a..b} \<union> {c..d}" using False "2.prems" by auto
    ultimately show ?thesis using False by auto
  qed simp
qed simp

lemma wf_absorb:
  "wf_from lo hi rs \<Longrightarrow> lo' \<le> a \<Longrightarrow> a \<le> b \<Longrightarrow> b \<le> hi \<Longrightarrow> wf_from lo' hi (absorb (a, b) rs)"
proof (induction "(a, b)" rs arbitrary: b lo rule: absorb.induct)
  case (2 b c d rs)
  then show ?case by (cases "b + 1 < c") auto
qed simp

lemma absorb_stays:
  "wf_from (b + 2) hi rs \<Longrightarrow> absorb (a, b) rs = (a, b) # rs"
  by (cases rs rule: covers.cases) auto

lemma covers_ins:
  "wf_from lo hi rs \<Longrightarrow> l \<le> u \<Longrightarrow> covers (ins (l, u) rs) = {l..u} \<union> covers rs"
proof (induction "(l, u)" rs arbitrary: lo rule: ins.induct)
  case (2 a b rs)
  show ?case
  proof (cases "b + 1 < l \<or> u + 1 < a")
    case True
    with 2 show ?thesis by auto
  next
    case False
    with "2.prems" have "covers (absorb (min l a, max u b) rs) = {min l a..max u b} \<union> covers rs"
      by (intro covers_absorb [of "b + 2" hi]) auto
    moreover have "{min l a..max u b} = {l..u} \<union> {a..b}" using False "2.prems" by auto
    ultimately show ?thesis using False by auto
  qed
qed simp

lemma wf_ins:
  "wf_from lo hi rs \<Longrightarrow> lo \<le> l \<Longrightarrow> l \<le> u \<Longrightarrow> u \<le> hi \<Longrightarrow> wf_from lo hi (ins (l, u) rs)"
proof (induction "(l, u)" rs arbitrary: lo rule: ins.induct)
  case (2 a b rs)
  then show ?case by (auto intro: wf_absorb)
qed simp

lemma covers_del:
  "wf_from lo hi rs \<Longrightarrow> l \<le> u \<Longrightarrow> covers (del (l, u) rs) = covers rs - {l..u}"
proof (induction "(l, u)" rs arbitrary: lo rule: del.induct)
  case (2 a b rs)
  have "covers (del (l, u) rs) = covers rs - {l..u}"
    using "2.prems" by (intro "2.hyps") auto
  moreover have "{a..b} - {l..u} =
      (if a < l then {a..min b (l - 1)} else {}) \<union> (if u < b then {max a (u + 1)..b} else {})"
    using "2.prems" by (intro set_eqI) (simp add: min_def max_def, arith)
  ultimately show ?case by (simp add: Un_Diff Un_assoc)
qed simp

lemma wf_del:
  "wf_from lo hi rs \<Longrightarrow> l \<le> u \<Longrightarrow> wf_from lo hi (del (l, u) rs)"
proof (induction "(l, u)" rs arbitrary: lo rule: del.induct)
  case (2 a b rs)
  have "wf_from (b + 2) hi (del (l, u) rs)"
    using "2.prems" by (intro "2.hyps") auto
  then show ?case using "2.prems" by (auto elim: wf_from_mono)
qed simp

lemma del_beyond: "wf_from lo hi rs \<Longrightarrow> u < lo \<Longrightarrow> l \<le> u \<Longrightarrow> del (l, u) rs = rs"
  by (induction "(l, u)" rs arbitrary: lo rule: del.induct) auto

lemma del_Cons:
  assumes "wf_from lo hi ((a, b) # rs)" "l \<le> u"
  shows "l > b \<or> u < a \<Longrightarrow> del (l, u) ((a, b) # rs) = (a, b) # del (l, u) rs"
    and "l \<le> a \<Longrightarrow> a \<le> u \<Longrightarrow> u < b \<Longrightarrow> del (l, u) ((a, b) # rs) = (u + 1, b) # rs"
    and "l \<le> a \<Longrightarrow> b \<le> u \<Longrightarrow> del (l, u) ((a, b) # rs) = del (l, u) rs"
    and "a < l \<Longrightarrow> l \<le> b \<Longrightarrow> b \<le> u \<Longrightarrow> del (l, u) ((a, b) # rs) = (a, l - 1) # del (l, u) rs"
    and "a < l \<Longrightarrow> u < b \<Longrightarrow> del (l, u) ((a, b) # rs) = (a, l - 1) # (u + 1, b) # rs"
  using assms del_beyond [of "b + 2" hi rs u l] by auto

subsection \<open>The insertion by index\<close>

text \<open>
  The form of \<open>ins\<close> the array code computes: skip the intervals that end before the new one,
  then append, insert, or grow the interval found and eat those it reaches.
\<close>

fun skip :: "int \<Rightarrow> ivl list \<Rightarrow> nat" where
  "skip l [] = 0"
| "skip l ((a, b) # rs) = (if l \<le> b + 1 then 0 else Suc (skip l rs))"

fun eat :: "int \<Rightarrow> ivl list \<Rightarrow> int \<times> nat" where
  "eat u [] = (u, 0)"
| "eat u ((a, b) # rs) =
     (if u + 1 < a then (u, 0) else let (up, n) = eat (max u b) rs in (up, Suc n))"

lemma skip_le: "skip l rs \<le> length rs"
  by (induction l rs rule: skip.induct) auto

lemma skip_beyond: "wf_from lo hi rs \<Longrightarrow> \<forall>x \<in> covers rs. x + 1 < l \<Longrightarrow> skip l rs = length rs"
proof (induction lo hi rs rule: wf_from.induct)
  case (2 lo hi a b rs)
  then have "b \<in> covers ((a, b) # rs)" by simp
  with "2.prems"(2) have "b + 1 < l" by blast
  moreover have "skip l rs = length rs" using 2 by simp
  ultimately show ?case by simp
qed simp

lemma skip_last: "wf_from lo hi (rs @ [(l, u)]) \<Longrightarrow> skip l rs = length rs"
proof (induction rs arbitrary: lo)
  case (Cons p rs)
  obtain a b where p: "p = (a, b)" by (cases p)
  with Cons.prems have wf: "wf_from (b + 2) hi (rs @ [(l, u)])" by simp
  then have "b + 2 \<le> l" using wf_from_append_right [OF wf] by simp
  with Cons.IH [OF wf] p show ?case by simp
qed simp

lemma eat_le: "snd (eat u rs) \<le> length rs"
  by (induction u rs rule: eat.induct) (auto split: prod.splits)

lemma absorb_eat: "absorb (a, u) rs = (a, fst (eat u rs)) # drop (snd (eat u rs)) rs"
  by (induction u rs arbitrary: a rule: eat.induct) (auto split: prod.splits)

lemma ins_skip: "ins (l, u) rs = take (skip l rs) rs @ ins (l, u) (drop (skip l rs) rs)"
  by (induction l rs rule: skip.induct) auto

lemma ins_append: "skip l rs = length rs \<Longrightarrow> ins (l, u) rs = rs @ [(l, u)]"
  using ins_skip [of l u rs] by simp

lemma skip_stops: "skip l rs < length rs \<Longrightarrow> rs ! skip l rs = (a, b) \<Longrightarrow> l \<le> b + 1"
  by (induction l rs rule: skip.induct) (auto split: if_splits)

lemma ins_at:
  assumes "skip l rs < length rs" "rs ! skip l rs = (a, b)"
  shows "u + 1 < a \<Longrightarrow> ins (l, u) rs = take (skip l rs) rs @ (l, u) # drop (skip l rs) rs"
    and "\<not> u + 1 < a \<Longrightarrow> ins (l, u) rs = take (skip l rs) rs @ absorb (min l a, max u b) (drop (Suc (skip l rs)) rs)"
proof -
  have d: "drop (skip l rs) rs = (a, b) # drop (Suc (skip l rs)) rs"
    using assms by (metis Cons_nth_drop_Suc)
  have s: "\<not> b + 1 < l" using skip_stops [OF assms] by simp
  show "u + 1 < a \<Longrightarrow> ins (l, u) rs = take (skip l rs) rs @ (l, u) # drop (skip l rs) rs"
    using ins_skip [of l u rs] s by (simp add: d)
  show "\<not> u + 1 < a \<Longrightarrow> ins (l, u) rs = take (skip l rs) rs @ absorb (min l a, max u b) (drop (Suc (skip l rs)) rs)"
    using ins_skip [of l u rs] s by (simp add: d)
qed

subsection \<open>The canonical list is determined by the set\<close>

lemma canonical_unique:
  "wf_from lo hi rs \<Longrightarrow> wf_from lo' hi' rs' \<Longrightarrow> covers rs = covers rs' \<Longrightarrow> rs = rs'"
proof (induction rs arbitrary: lo lo' rs')
  case Nil
  then show ?case by (cases rs' rule: covers.cases) auto
next
  case (Cons p r)
  obtain a b where p: "p = (a, b)" by (cases p)
  obtain c d r' where rs': "rs' = (c, d) # r'"
    using Cons.prems p by (cases rs' rule: covers.cases) auto
  have wf: "a \<le> b" "wf_from (b + 2) hi r" "c \<le> d" "wf_from (d + 2) hi' r'"
    using Cons.prems p rs' by auto
  have eq: "{a..b} \<union> covers r = {c..d} \<union> covers r'" using Cons.prems p rs' by simp
  have low: "\<And>x. x \<in> {a..b} \<union> covers r \<Longrightarrow> a \<le> x" "\<And>x. x \<in> {c..d} \<union> covers r' \<Longrightarrow> c \<le> x"
    using wf wf_from_covers by fastforce+
  from wf eq low have ac: "a = c" by (metis antisym atLeastAtMost_iff order_refl UnI1)
  have "b + 1 \<notin> {a..b} \<union> covers r" "d + 1 \<notin> {c..d} \<union> covers r'"
    using wf wf_from_covers by fastforce+
  have bd: "b = d"
  proof (rule ccontr)
    assume "b \<noteq> d"
    then consider "b + 1 \<in> {c..d}" | "d + 1 \<in> {a..b}" using ac wf by fastforce
    then show False
      using eq \<open>b + 1 \<notin> {a..b} \<union> covers r\<close> \<open>d + 1 \<notin> {c..d} \<union> covers r'\<close> by cases blast+
  qed
  have "covers r \<inter> {a..b} = {}" "covers r' \<inter> {a..b} = {}"
    using wf bd wf_from_covers by fastforce+
  with eq ac bd have "covers r = covers r'" by blast
  with Cons.IH wf show ?case by (simp add: p rs' ac bd)
qed

lemma finite_covers [simp]: "finite (covers rs)"
  by (induction rs rule: covers.induct) auto

lemma card_covers: "wf_from lo hi rs \<Longrightarrow> int (card (covers rs)) = total_width rs"
proof (induction lo hi rs rule: wf_from.induct)
  case (2 lo hi a b rs)
  then have "{a..b} \<inter> covers rs = {}" using wf_from_covers by fastforce
  with 2 show ?case by (simp add: card_Un_disjoint)
qed simp

lemma total_width_le: "wf_from 0 hi rs \<Longrightarrow> 0 \<le> hi \<Longrightarrow> total_width rs \<le> hi + 1"
proof -
  assume wf: "wf_from 0 hi rs" and "0 \<le> hi"
  have "covers rs \<subseteq> {0..hi}" using wf_from_covers [OF wf] by auto
  from card_mono [OF _ this] \<open>0 \<le> hi\<close> card_covers [OF wf] show ?thesis by simp
qed

lemma total_width_nonneg: "wf_from lo hi rs \<Longrightarrow> 0 \<le> total_width rs"
  using card_covers by fastforce

subsection \<open>Steps that add or remove a range\<close>

locale range_add = alloc_step +
  fixes elems :: "'b \<Rightarrow> int set" and rng :: "'a \<Rightarrow> int set"
  assumes step_adds: "inv s \<Longrightarrow> ok r \<Longrightarrow> step r s m = (False, s', m') \<Longrightarrow> elems s' = elems s \<union> rng r"
begin

lemma loop_adds:
  "inv s \<Longrightarrow> \<forall>r\<in>set rs. ok r \<Longrightarrow> for_each step rs s m = (False, s', m') \<Longrightarrow>
   elems s' = elems s \<union> (\<Union>r\<in>set rs. rng r)"
proof (induction rs arbitrary: s m)
  case (Cons r rs)
  obtain e1 s1 m1 where st: "step r s m = (e1, s1, m1)" by (cases "step r s m")
  with Cons.prems have e1: "\<not> e1" by (cases e1) auto
  with Cons.prems st have "inv s1" "elems s1 = elems s \<union> rng r"
    using step_inv step_adds by auto
  moreover from this have "elems s' = elems s1 \<union> (\<Union>r\<in>set rs. rng r)"
    using Cons.prems st e1 by (intro Cons.IH) auto
  ultimately show ?case by auto
qed simp

end

locale range_del = alloc_step +
  fixes elems :: "'b \<Rightarrow> int set" and rng :: "'a \<Rightarrow> int set"
  assumes step_dels: "inv s \<Longrightarrow> ok r \<Longrightarrow> step r s m = (False, s', m') \<Longrightarrow> elems s' = elems s - rng r"
begin

lemma loop_dels:
  "inv s \<Longrightarrow> \<forall>r\<in>set rs. ok r \<Longrightarrow> for_each step rs s m = (False, s', m') \<Longrightarrow>
   elems s' = elems s - (\<Union>r\<in>set rs. rng r)"
proof (induction rs arbitrary: s m)
  case (Cons r rs)
  obtain e1 s1 m1 where st: "step r s m = (e1, s1, m1)" by (cases "step r s m")
  with Cons.prems have e1: "\<not> e1" by (cases e1) auto
  with Cons.prems st have "inv s1" "elems s1 = elems s - rng r"
    using step_inv step_dels by auto
  moreover from this have "elems s' = elems s1 - (\<Union>r\<in>set rs. rng r)"
    using Cons.prems st e1 by (intro Cons.IH) auto
  ultimately show ?case by auto
qed simp

end

subsection \<open>The loop that removes a range in place\<close>

text \<open>
  What cut_portset and del_iprange do at each index \<open>z\<close>, by how the range \<open>l..u\<close> lies to the
  range \<open>a..b\<close> there, in terms of the intervals \<open>ivs\<close> the object holds. Only the split in
  the middle needs memory.
\<close>

locale range_cutter =
  fixes loop :: "'r \<Rightarrow> nat \<Rightarrow> 's \<Rightarrow> mem \<Rightarrow> bool \<times> 's \<times> mem"
    and ivs :: "'s \<Rightarrow> ivl list" and iv :: "'r \<Rightarrow> ivl" and inv :: "'s \<Rightarrow> bool" and owns :: "'s \<Rightarrow> int"
  assumes loop_end: "length (ivs s) \<le> z \<Longrightarrow> loop r z s m = (False, s, m)"
    and loop_apart: "inv s \<Longrightarrow> z < length (ivs s) \<Longrightarrow> ivs s ! z = (a, b) \<Longrightarrow> iv r = (l, u) \<Longrightarrow>
      l > b \<or> u < a \<Longrightarrow> loop r z s m = loop r (Suc z) s m"
    and loop_lower: "inv s \<Longrightarrow> z < length (ivs s) \<Longrightarrow> ivs s ! z = (a, b) \<Longrightarrow> iv r = (l, u) \<Longrightarrow>
      l \<le> a \<Longrightarrow> a \<le> u \<Longrightarrow> u < b \<Longrightarrow>
      \<exists>s'. loop r z s m = (False, s', m) \<and> ivs s' = (ivs s)[z := (u + 1, b)] \<and> inv s' \<and> owns s' = owns s"
    and loop_all: "inv s \<Longrightarrow> z < length (ivs s) \<Longrightarrow> ivs s ! z = (a, b) \<Longrightarrow> iv r = (l, u) \<Longrightarrow>
      l \<le> a \<Longrightarrow> a \<le> b \<Longrightarrow> b \<le> u \<Longrightarrow>
      \<exists>s' m'. loop r z s m = loop r z s' m' \<and> ivs s' = take z (ivs s) @ drop (Suc z) (ivs s) \<and> inv s' \<and>
        allocs_used m' = allocs_used m + owns s' - owns s \<and> plentiful m' = plentiful m"
    and loop_upper: "inv s \<Longrightarrow> z < length (ivs s) \<Longrightarrow> ivs s ! z = (a, b) \<Longrightarrow> iv r = (l, u) \<Longrightarrow>
      a < l \<Longrightarrow> l \<le> b \<Longrightarrow> b \<le> u \<Longrightarrow>
      \<exists>s'. loop r z s m = loop r (Suc z) s' m \<and> ivs s' = (ivs s)[z := (a, l - 1)] \<and> inv s' \<and> owns s' = owns s"
    and loop_mid: "inv s \<Longrightarrow> z < length (ivs s) \<Longrightarrow> ivs s ! z = (a, b) \<Longrightarrow> iv r = (l, u) \<Longrightarrow>
      a < l \<Longrightarrow> l \<le> u \<Longrightarrow> u < b \<Longrightarrow>
      \<exists>e s' m'. loop r z s m = (e, s', m') \<and> inv s' \<and> (e \<longrightarrow> s' = s) \<and>
        (\<not> e \<longrightarrow> ivs s' = take z (ivs s) @ (a, l - 1) # (u + 1, b) # drop (Suc z) (ivs s)) \<and>
        allocs_used m' = allocs_used m + owns s' - owns s \<and> (plentiful m \<longrightarrow> \<not> e \<and> plentiful m')"
begin

lemma loop_refines:
  assumes "inv s" "iv r = (l, u)" "l \<le> u" "wf_from lo hi (drop z (ivs s))" "z \<le> length (ivs s)"
    "loop r z s m = (e, s', m')"
  shows "(e \<longrightarrow> s' = s \<and> lo < l) \<and> (\<not> e \<longrightarrow> ivs s' = take z (ivs s) @ del (l, u) (drop z (ivs s))) \<and>
    inv s' \<and> allocs_used m' = allocs_used m + owns s' - owns s \<and> (plentiful m \<longrightarrow> \<not> e \<and> plentiful m')"
  using assms
proof (induction "length (ivs s) - z" arbitrary: s z m lo rule: less_induct)
  case less
  show ?case
  proof (cases "z = length (ivs s)")
    case True
    with less.prems loop_end [of s z r m] show ?thesis by simp
  next
    case False
    with less.prems have z: "z < length (ivs s)" by simp
    obtain a b where at: "ivs s ! z = (a, b)" by (cases "ivs s ! z")
    have dr: "drop z (ivs s) = (a, b) # drop (Suc z) (ivs s)" using z at by (metis Cons_nth_drop_Suc)
    have tk: "take (Suc z) (ivs s) = take z (ivs s) @ [(a, b)]" using z at by (simp add: take_Suc_conv_app_nth)
    note wf = less.prems(4) [unfolded dr]
    note del = del_Cons [OF wf less.prems(3)]
    from wf have ab: "lo \<le> a" "a \<le> b" "wf_from (b + 2) hi (drop (Suc z) (ivs s))" by simp_all
    note lu = less.prems(3)
    note at = less.prems(1) z at less.prems(2)
    consider (apart) "l > b \<or> u < a" | (lower) "l \<le> a" "a \<le> u" "u < b"
      | (all) "l \<le> a" "b \<le> u" | (upper) "a < l" "l \<le> b" "b \<le> u" | (mid) "a < l" "u < b"
      using lu by linarith
    then show ?thesis
    proof cases
      case apart
      have "loop r (Suc z) s m = (e, s', m')" using loop_apart [OF at apart] less.prems(6) by simp
      moreover have "length (ivs s) - Suc z < length (ivs s) - z" using z by linarith
      ultimately have "(e \<longrightarrow> s' = s \<and> b + 2 < l) \<and>
          (\<not> e \<longrightarrow> ivs s' = take (Suc z) (ivs s) @ del (l, u) (drop (Suc z) (ivs s))) \<and>
          inv s' \<and> allocs_used m' = allocs_used m + owns s' - owns s \<and> (plentiful m \<longrightarrow> \<not> e \<and> plentiful m')"
        using z by (intro less.hyps less.prems(1-3) ab(3)) simp_all
      with ab del(1) [OF apart] show ?thesis
        by (auto simp: dr tk simp del: del.simps)
    next
      case lower
      with loop_lower [OF at lower, of m] less.prems(6) del(2) z show ?thesis
        by (auto simp: dr upd_conv_take_nth_drop simp del: del.simps)
    next
      case all
      from loop_all [OF at all(1) ab(2) all(2), of m] less.prems(6) obtain s1 m1
        where l: "loop r z s1 m1 = (e, s', m')" and s1: "ivs s1 = take z (ivs s) @ drop (Suc z) (ivs s)" "inv s1"
          "allocs_used m1 = allocs_used m + owns s1 - owns s" "plentiful m1 = plentiful m" by auto
      have "wf_from (b + 2) hi (drop z (ivs s1))" using s1 z ab by simp
      from less.hyps [OF _ s1(2) less.prems(2,3) this _ l] s1 z ab all del(3) show ?thesis
        by (auto simp: dr simp del: del.simps)
    next
      case upper
      from loop_upper [OF at upper, of m] less.prems(6) obtain s1
        where l: "loop r (Suc z) s1 m = (e, s', m')" and s1: "ivs s1 = (ivs s)[z := (a, l - 1)]" "inv s1"
          "owns s1 = owns s" by auto
      have "wf_from (b + 2) hi (drop (Suc z) (ivs s1))" using s1 z ab by simp
      from less.hyps [OF _ s1(2) less.prems(2,3) this _ l] s1 z ab upper del(4) show ?thesis
        by (auto simp: dr upd_conv_take_nth_drop simp del: del.simps)
    next
      case mid
      from loop_mid [OF at mid(1) lu mid(2), of m] less.prems(6) del(5) [OF mid] mid ab show ?thesis
        by (auto simp: dr simp del: del.simps)
    qed
  qed
qed

end

locale commit_add =
  commit step inv ok owns clone release elems cloneable + range_add step inv ok owns elems rng
  for step :: "'r \<Rightarrow> 's \<Rightarrow> mem \<Rightarrow> bool \<times> 's \<times> mem"
    and inv ok owns clone release and elems :: "'s \<Rightarrow> int set" and cloneable rng
begin

lemma on_clone_adds:
  assumes "cloneable s" "\<forall>r\<in>set rs. ok r" "on_clone clone release step rs s m = (False, s', m')"
  shows "elems s' = elems s \<union> (\<Union>r\<in>set rs. rng r)"
proof -
  from assms(3) obtain c m1 m2
    where c: "clone s m = (False, c, m1)" and l: "for_each step rs c m1 = (False, s', m2)"
    by (rule on_clone_committed)
  from clone_ok [OF assms(1) c] have "inv c" "elems c = elems s" by simp_all
  with loop_adds [OF _ assms(2) l] show ?thesis by simp
qed

end

locale commit_del =
  commit step inv ok owns clone release elems cloneable + range_del step inv ok owns elems rng
  for step :: "'r \<Rightarrow> 's \<Rightarrow> mem \<Rightarrow> bool \<times> 's \<times> mem"
    and inv ok owns clone release and elems :: "'s \<Rightarrow> int set" and cloneable rng
begin

lemma on_clone_dels:
  assumes "cloneable s" "\<forall>r\<in>set rs. ok r" "on_clone clone release step rs s m = (False, s', m')"
  shows "elems s' = elems s - (\<Union>r\<in>set rs. rng r)"
proof -
  from assms(3) obtain c m1 m2
    where c: "clone s m = (False, c, m1)" and l: "for_each step rs c m1 = (False, s', m2)"
    by (rule on_clone_committed)
  from clone_ok [OF assms(1) c] have "inv c" "elems c = elems s" by simp_all
  with loop_dels [OF _ assms(2) l] show ?thesis by simp
qed

end

end
