(* ===== verification/Ustring.thy ===== *)
theory Ustring
  imports Allocsteps
begin

text \<open>
  The growable string of libdank/objects/objustring.c. The members \<open>string\<close> and \<open>current\<close>
  are the text printed so far, \<open>total\<close> is the size of the block (0 for a null pointer). The
  formatting itself is libc's vsnprintf: an operation takes the text it produces. The code
  also copes with C libraries whose vsnprintf answers a negative number for a short buffer;
  the model has the C99 behaviour, which answers the length.
\<close>

definition BUFSIZ :: nat where "BUFSIZ = 8192"

record ustring =
  us_text :: string
  us_total :: nat

definition init_ustring :: ustring where
  "init_ustring = \<lparr>us_text = [], us_total = 0\<rparr>"

text \<open>\<open>sizeof (ustring)\<close> on the 64-bit targets.\<close>

definition create_ustring :: "mem \<Rightarrow> ustring option \<times> mem" where
  "create_ustring m =
     (case Malloc 24 m of (True, m1) \<Rightarrow> (Some init_ustring, m1) | (False, m1) \<Rightarrow> (None, m1))"

definition reset_ustring :: "ustring \<Rightarrow> mem \<Rightarrow> ustring \<times> mem" where
  "reset_ustring u m = (init_ustring, Free (us_total u \<noteq> 0) m)"

text \<open>\<open>free_ustring\<close> of a pointer to a possibly null ustring; the pointer becomes null.\<close>

definition free_ustring :: "ustring option \<Rightarrow> mem \<Rightarrow> ustring option \<times> mem" where
  "free_ustring uo m =
     (case uo of None \<Rightarrow> (None, m)
      | Some u \<Rightarrow> (case reset_ustring u m of (_, m1) \<Rightarrow> (None, Free True m1)))"

text \<open>
  The loop of \<open>vprintUString\<close>: while the text and its NUL do not fit, grow the block and
  format again. Every turn makes the block larger, so the loop ends.
\<close>

function vprintUString :: "ustring \<Rightarrow> string \<Rightarrow> mem \<Rightarrow> int \<times> ustring \<times> mem" where
  "vprintUString u t m =
     (if length t \<ge> us_total u - length (us_text u) then
        let heap = us_total u + length t + BUFSIZ in
        case Realloc (us_total u \<noteq> 0) heap m of
          (False, m1) \<Rightarrow> (-1, u, m1)
        | (True, m1) \<Rightarrow> vprintUString (u\<lparr>us_total := heap\<rparr>) t m1
      else (int (length t), u\<lparr>us_text := us_text u @ t\<rparr>, m))"
  by pat_completeness auto
termination
  by (relation "measure (\<lambda>(u, t, m). Suc (length (us_text u) + length t) - us_total u)")
    (auto simp: BUFSIZ_def)

declare vprintUString.simps [simp del]

definition printUString :: "ustring \<Rightarrow> string \<Rightarrow> mem \<Rightarrow> int \<times> ustring \<times> mem" where
  "printUString u t m = vprintUString u t m"

subsection \<open>Lemmas\<close>

text \<open>The text and its NUL always fit the block, and a null block has no text.\<close>

definition ustring_ok :: "ustring \<Rightarrow> bool" where
  "ustring_ok u \<longleftrightarrow> (if us_total u = 0 then us_text u = [] else length (us_text u) < us_total u)"

definition us_owns :: "ustring \<Rightarrow> int" where
  "us_owns u = of_bool (us_total u \<noteq> 0)"

text \<open>One growth is always enough.\<close>

lemma vprint_fits:
  "length t < us_total u - length (us_text u) \<Longrightarrow>
   printUString u t m = (int (length t), u\<lparr>us_text := us_text u @ t\<rparr>, m)"
  by (simp add: printUString_def vprintUString.simps [of u])

lemma vprint_grows:
  assumes "ustring_ok u" "\<not> length t < us_total u - length (us_text u)"
  shows "printUString u t m =
    (case Realloc (us_total u \<noteq> 0) (us_total u + length t + BUFSIZ) m of
       (False, m1) \<Rightarrow> (-1, u, m1)
     | (True, m1) \<Rightarrow> (int (length t),
         u\<lparr>us_text := us_text u @ t, us_total := us_total u + length t + BUFSIZ\<rparr>, m1))"
proof -
  let ?u = "u\<lparr>us_total := us_total u + length t + BUFSIZ\<rparr>"
  have "length t < us_total ?u - length (us_text ?u)"
    using assms(1) by (auto simp: ustring_ok_def BUFSIZ_def split: if_splits)
  then have "vprintUString ?u t m1 = (int (length t), ?u\<lparr>us_text := us_text u @ t\<rparr>, m1)" for m1
    using vprint_fits [of t ?u m1] by (simp add: printUString_def)
  with assms(2) show ?thesis
    by (simp add: printUString_def vprintUString.simps [of u] Let_def split: prod.splits bool.splits)
qed

lemma printUString_cases:
  assumes "ustring_ok u" "printUString u t m = (r, u', m')"
  obtains (failed) "r = -1" "u' = u" "allocs_used m' = allocs_used m"
  | (printed) "r = int (length t)" "us_text u' = us_text u @ t" "ustring_ok u'"
      "allocs_used m' = allocs_used m + us_owns u' - us_owns u"
proof (cases "length t < us_total u - length (us_text u)")
  case True
  with assms printed show ?thesis
    by (auto simp: vprint_fits ustring_ok_def us_owns_def split: if_splits)
next
  case False
  obtain ok m1 where R: "Realloc (us_total u \<noteq> 0) (us_total u + length t + BUFSIZ) m = (ok, m1)"
    by (cases "Realloc (us_total u \<noteq> 0) (us_total u + length t + BUFSIZ) m")
  note used = Realloc_used [OF R] and res = assms(2) [unfolded vprint_grows [OF assms(1) False] R]
  show ?thesis
  proof (cases ok)
    case True
    with res have r: "r = int (length t)" and m': "m' = m1"
      and u': "u' = u\<lparr>us_text := us_text u @ t, us_total := us_total u + length t + BUFSIZ\<rparr>"
      by simp_all
    have "ustring_ok u'"
      using assms(1) by (simp add: u' ustring_ok_def BUFSIZ_def split: if_splits)
    moreover have "allocs_used m' = allocs_used m + us_owns u' - us_owns u"
      using used True by (simp add: u' m' us_owns_def BUFSIZ_def)
    ultimately show ?thesis by (intro printed) (simp_all add: r u')
  next
    case False
    with res used show ?thesis by (intro failed) auto
  qed
qed

lemma printUString_plenty:
  assumes "ustring_ok u" "plentiful m"
  shows "\<exists>u' m'. printUString u t m = (int (length t), u', m') \<and> us_text u' = us_text u @ t \<and>
    ustring_ok u' \<and> plentiful m'"
proof (cases "length t < us_total u - length (us_text u)")
  case True
  with assms show ?thesis by (auto simp: vprint_fits ustring_ok_def split: if_splits)
next
  case False
  obtain m1 where R: "Realloc (us_total u \<noteq> 0) (us_total u + length t + BUFSIZ) m = (True, m1)"
    and m1: "plentiful m1"
    using Realloc_plentiful [OF assms(2), of "us_total u + length t + BUFSIZ"] by (auto simp: BUFSIZ_def)
  let ?u = "u\<lparr>us_text := us_text u @ t, us_total := us_total u + length t + BUFSIZ\<rparr>"
  have "ustring_ok ?u" using assms(1) by (simp add: ustring_ok_def BUFSIZ_def split: if_splits)
  moreover have "printUString u t m = (int (length t), ?u, m1)"
    by (simp add: vprint_grows [OF assms(1) False] R [simplified])
  ultimately show ?thesis using m1 by simp
qed

lemma init_ustring_ok [simp]: "ustring_ok init_ustring"
  by (simp add: init_ustring_def ustring_ok_def)

text \<open>
  The stringizers print a sequence of pieces and stop at the first that fails: a loop of steps
  that keep the ustring's invariant and its block count.
\<close>

definition print_step :: "string \<Rightarrow> ustring \<Rightarrow> mem \<Rightarrow> bool \<times> ustring \<times> mem" where
  "print_step t u m = (case printUString u t m of (r, u', m') \<Rightarrow> (r < 0, u', m'))"

interpretation us: alloc_step print_step ustring_ok "\<lambda>_. True" us_owns
proof unfold_locales
  fix u t m e u' m'
  assume u: "ustring_ok u" and st: "print_step t u m = (e, u', m')"
  obtain r where p: "printUString u t m = (r, u', m')"
    using st by (auto simp: print_step_def split: prod.splits)
  from u p show "ustring_ok u'" by (cases rule: printUString_cases) (use u in auto)
  from u p show "allocs_used m' = allocs_used m + us_owns u' - us_owns u"
    by (cases rule: printUString_cases) auto
next
  fix u t m
  assume "ustring_ok u" "plentiful m"
  then show "\<exists>u' m'. print_step t u m = (False, u', m') \<and> plentiful m'"
    using printUString_plenty [of u m t] by (auto simp: print_step_def)
qed

lemma print_step_text:
  assumes "ustring_ok u" "print_step t u m = (False, u', m')"
  shows "us_text u' = us_text u @ t"
proof -
  obtain r where "printUString u t m = (r, u', m')" "\<not> r < 0"
    using assms(2) by (auto simp: print_step_def split: prod.splits)
  with assms(1) show ?thesis by (cases rule: printUString_cases) auto
qed

lemma print_loop_text:
  "ustring_ok u \<Longrightarrow> for_each print_step ts u m = (False, u', m') \<Longrightarrow> us_text u' = us_text u @ concat ts"
proof (induction ts arbitrary: u m)
  case (Cons t ts)
  obtain e u1 m1 where st: "print_step t u m = (e, u1, m1)" by (cases "print_step t u m")
  with Cons.prems have e: "\<not> e" by (cases e) auto
  with Cons.prems st have "ustring_ok u1" "us_text u1 = us_text u @ t"
    using us.step_inv print_step_text by auto
  moreover from this have "us_text u' = us_text u1 @ concat ts"
    using Cons.prems st e by (intro Cons.IH) auto
  ultimately show ?case by simp
qed simp

end
