(* ===== verification/Strings.thy ===== *)
theory Strings
  imports Memlimit
begin

text \<open>
  The bounded string functions and the allocating copies of libdank/utils/string.c.

  A buffer is the list of its bytes. The functions that scan a fixed number of bytes answer
  \<open>None\<close> when that runs past the buffer (undefined behaviour in C) and \<open>Some\<close> of what they
  return otherwise; a pointer into the buffer is its index. Strings that end at a NUL are
  read with \<open>peek\<close>, so they never run past their end.
\<close>

subsection \<open>Searching for a character\<close>

fun strnchr :: "string \<Rightarrow> char \<Rightarrow> nat \<Rightarrow> nat option option" where
  "strnchr s c 0 = Some None"
| "strnchr [] c (Suc n) = None"
| "strnchr (x # s) c (Suc n) = (if x = c then Some (Some 0) else map_option (map_option Suc) (strnchr s c n))"

text \<open>\<open>i\<close> is the offset of the pointer, \<open>found\<close> the last match.\<close>

fun strnrchr_loop :: "string \<Rightarrow> char \<Rightarrow> nat \<Rightarrow> nat \<Rightarrow> nat option \<Rightarrow> nat option option" where
  "strnrchr_loop s c 0 i found = Some found"
| "strnrchr_loop [] c (Suc n) i found = None"
| "strnrchr_loop (x # s) c (Suc n) i found =
     strnrchr_loop s c n (Suc i) (if x = c then Some i else found)"

definition strnrchr :: "string \<Rightarrow> char \<Rightarrow> nat \<Rightarrow> nat option option" where
  "strnrchr s c n = strnrchr_loop s c n 0 None"

subsection \<open>Bounded copies\<close>

definition cpart :: "string \<Rightarrow> string" where
  "cpart s = takeWhile (\<lambda>c. c \<noteq> NUL) s"

text \<open>libc's strncpy: the source up to its NUL, padded with NULs to \<open>n\<close> bytes.\<close>

definition strncpy :: "string \<Rightarrow> string \<Rightarrow> nat \<Rightarrow> string" where
  "strncpy dest src n =
     take n (cpart src) @ replicate (n - length (cpart src)) NUL @ drop n dest"

definition sstrncpy :: "string \<Rightarrow> string \<Rightarrow> nat \<Rightarrow> string option" where
  "sstrncpy dest src n =
     (if n = 0 \<or> length dest < n then None else Some ((strncpy dest src n)[n - 1 := NUL]))"

text \<open>
  \<open>sstrncat\<close> on the strings: \<open>strlen (dest) + 1\<close> beyond \<open>n\<close> makes the unsigned bound wrap to
  a huge number, and libc's strncat then runs over the buffer.
\<close>

definition sstrncat :: "string \<Rightarrow> string \<Rightarrow> nat \<Rightarrow> string option" where
  "sstrncat dest src n =
     (if n < length (cpart dest) + 1 then None
      else Some (cpart dest @ take (n - length (cpart dest) - 1) (cpart src)))"

subsection \<open>Searching for a string\<close>

text \<open>
  The brute-force loop that strnstr, strncasestr and (without a bound) strcasestr share:
  \<open>hay\<close> is the offset of haystack, \<open>k\<close> that of the needle, and the pointer h is at
  \<open>hay + k\<close>; \<open>len\<close> is what the bound leaves at h.
\<close>

function search_loop ::
  "(char \<Rightarrow> char \<Rightarrow> bool) \<Rightarrow> string \<Rightarrow> string \<Rightarrow> nat \<Rightarrow> nat \<Rightarrow> nat \<Rightarrow> nat option" where
  "search_loop eq hs nd hay k len =
     (if peek (drop k nd) \<noteq> NUL then
        if len = 0 \<or> peek (drop (hay + k) hs) = NUL then None
        else if \<not> eq (peek (drop (hay + k) hs)) (peek (drop k nd))
        then search_loop eq hs nd (Suc hay) 0 (len - 1 + k)
        else search_loop eq hs nd hay (Suc k) (len - 1)
      else Some hay)"
  by pat_completeness auto
termination
proof (relation "measures [\<lambda>(eq, hs, nd, hay, k, len). length hs - hay, \<lambda>(eq, hs, nd, hay, k, len). length nd - k]",
    goal_cases)
  case (2 eq hs nd hay k len)
  then have "drop (hay + k) hs \<noteq> []" by (intro peek_nonempty) simp
  then show ?case by auto
next
  case (3 eq hs nd hay k len)
  then have "drop k nd \<noteq> []" by (intro peek_nonempty) simp
  then show ?case by auto
qed simp

declare search_loop.simps [simp del]

definition strnstr :: "string \<Rightarrow> string \<Rightarrow> nat \<Rightarrow> nat option" where
  "strnstr haystack needle len = search_loop (=) haystack needle 0 0 len"

definition strncasestr :: "string \<Rightarrow> string \<Rightarrow> nat \<Rightarrow> nat option" where
  "strncasestr haystack needle len =
     search_loop (\<lambda>a b. tolower a = tolower b) haystack needle 0 0 len"

text \<open>strcasestr has no bound; the whole haystack is one that never binds.\<close>

definition strcasestr :: "string \<Rightarrow> string \<Rightarrow> nat option" where
  "strcasestr haystack needle =
     search_loop (\<lambda>a b. tolower a = tolower b) haystack needle 0 0 (length haystack)"

subsection \<open>Copies on the heap\<close>

definition Strdup :: "string option \<Rightarrow> mem \<Rightarrow> string option \<times> mem" where
  "Strdup so m =
     (case so of None \<Rightarrow> (None, m)
      | Some s \<Rightarrow> (case Malloc (length (cpart s) + 1) m of
          (True, m1) \<Rightarrow> (Some (cpart s), m1) | (False, m1) \<Rightarrow> (None, m1)))"

text \<open>\<open>Wstrndup\<close> is the same loop over wide characters of \<open>wsz\<close> bytes.\<close>

definition Strndup :: "string option \<Rightarrow> nat \<Rightarrow> mem \<Rightarrow> string option \<times> mem" where
  "Strndup so n m =
     (case so of None \<Rightarrow> (None, m)
      | Some s \<Rightarrow>
          let copy = take n (cpart s) in
          (case Malloc (length copy + 1) m of
             (True, m1) \<Rightarrow> (Some copy, m1) | (False, m1) \<Rightarrow> (None, m1)))"

definition Memdup :: "'a \<Rightarrow> nat \<Rightarrow> mem \<Rightarrow> 'a option \<times> mem" where
  "Memdup src n m =
     (case Malloc n m of (True, m1) \<Rightarrow> (Some src, m1) | (False, m1) \<Rightarrow> (None, m1))"

subsection \<open>Lemmas\<close>

lemma cpart_cstr [simp]: "cstr s \<Longrightarrow> cpart s = s"
  by (auto simp: cpart_def cstr_def takeWhile_eq_all_conv)

lemma cstr_cpart [simp]: "cstr (cpart s)"
  by (auto simp: cpart_def cstr_def dest: set_takeWhileD)

lemma cstr_take: "cstr s \<Longrightarrow> cstr (take n s)"
  by (auto simp: cstr_def dest: in_set_takeD)

lemma strnchr_finds:
  "n \<le> length s \<Longrightarrow> strnchr s c n =
     Some (if c \<in> set (take n s) then Some (length (takeWhile (\<lambda>x. x \<noteq> c) s)) else None)"
  by (induction s c n rule: strnchr.induct) auto

lemma strnrchr_loop_finds:
  "n \<le> length s \<Longrightarrow> \<exists>r. strnrchr_loop s c n i found = Some r \<and>
     (if c \<in> set (take n s)
      then \<exists>j<n. r = Some (i + j) \<and> s ! j = c \<and> (\<forall>k. j < k \<longrightarrow> k < n \<longrightarrow> s ! k \<noteq> c)
      else r = found)"
proof (induction s c n i found rule: strnrchr_loop.induct)
  case (3 x s c n i found)
  then obtain r where r: "strnrchr_loop s c n (Suc i) (if x = c then Some i else found) = Some r"
    and cs: "if c \<in> set (take n s)
      then \<exists>j<n. r = Some (Suc i + j) \<and> s ! j = c \<and> (\<forall>k. j < k \<longrightarrow> k < n \<longrightarrow> s ! k \<noteq> c)
      else r = (if x = c then Some i else found)" by auto
  show ?case
  proof (cases "c \<in> set (take n s)")
    case True
    with cs obtain j where "j < n" "r = Some (Suc i + j)" "s ! j = c"
      "\<forall>k. j < k \<longrightarrow> k < n \<longrightarrow> s ! k \<noteq> c" by auto
    with r True show ?thesis
      by (auto intro!: exI [of _ "Suc j"] simp: nth_Cons split: nat.splits)
  next
    case False
    then have "s ! k \<noteq> c" if "k < n" for k
      using that "3.prems" by (force simp: in_set_conv_nth)
    with r cs False show ?thesis by (auto intro!: exI [of _ 0] simp: nth_Cons split: nat.splits)
  qed
qed auto

lemma Memdup_used [alloc_simps]:
  "Memdup x n m = (r, m') \<Longrightarrow> allocs_used m' = allocs_used m + of_bool (r \<noteq> None)"
  by (auto simp: Memdup_def split: prod.splits bool.splits dest: Malloc_used)

lemma Memdup_Some: "Memdup x n m = (Some y, m') \<Longrightarrow> y = x"
  by (auto simp: Memdup_def split: prod.splits bool.splits)

lemma Memdup_plentiful:
  "plentiful m \<Longrightarrow> 0 < n \<Longrightarrow> \<exists>m'. Memdup x n m = (Some x, m') \<and> plentiful m'"
  using Malloc_plentiful [of m n] by (auto simp: Memdup_def)

text \<open>The needle occurs at offset \<open>i\<close> within the first \<open>len\<close> bytes of the haystack.\<close>

definition occurs :: "(char \<Rightarrow> char \<Rightarrow> bool) \<Rightarrow> string \<Rightarrow> string \<Rightarrow> nat \<Rightarrow> nat \<Rightarrow> bool" where
  "occurs eq hs nd len i \<longleftrightarrow>
     i + length nd \<le> min len (length hs) \<and> (\<forall>j < length nd. eq (hs ! (i + j)) (nd ! j))"

lemma peek_drop: "i < length s \<Longrightarrow> peek (drop i s) = s ! i"
  by (simp add: Cons_nth_drop_Suc [symmetric])

lemma peek_drop_NUL: "cstr s \<Longrightarrow> peek (drop i s) = NUL \<longleftrightarrow> length s \<le> i"
  by (simp add: peek_NUL_iff cstr_drop)

lemma search_loop_correct:
  assumes "cstr hs" "cstr nd"
    and "len + hay + k = L" "k \<le> length nd" "hay + k \<le> length hs"
    and "\<forall>j<k. eq (hs ! (hay + j)) (nd ! j)"
    and "\<forall>i<hay. \<not> occurs eq hs nd L i"
  shows "case search_loop eq hs nd hay k len of
      None \<Rightarrow> \<forall>i. \<not> occurs eq hs nd L i
    | Some i \<Rightarrow> occurs eq hs nd L i \<and> (\<forall>i'<i. \<not> occurs eq hs nd L i')"
  using assms
proof (induction eq hs nd hay k len rule: search_loop.induct)
  case (1 eq hs nd hay k len)
  note prems = "1.prems" and IH = "1.IH"
  have nd: "peek (drop k nd) = NUL \<longleftrightarrow> k = length nd"
    using prems by (auto simp: peek_drop_NUL)
  have hs: "peek (drop (hay + k) hs) = NUL \<longleftrightarrow> hay + k = length hs"
    using prems by (auto simp: peek_drop_NUL)
  consider (found) "k = length nd"
    | (spent) "k < length nd" "len = 0 \<or> hay + k = length hs"
    | (differs) "k < length nd" "len \<noteq> 0" "hay + k < length hs" "\<not> eq (hs ! (hay + k)) (nd ! k)"
    | (agrees) "k < length nd" "len \<noteq> 0" "hay + k < length hs" "eq (hs ! (hay + k)) (nd ! k)"
    using prems by fastforce
  then show ?case
  proof cases
    case found
    with prems nd show ?thesis
      by (simp add: search_loop.simps [of eq hs nd hay] occurs_def)
  next
    case spent
    have "\<not> occurs eq hs nd L i" for i
    proof (cases "i < hay")
      case False
      with spent prems show ?thesis by (auto simp: occurs_def)
    qed (use prems in blast)
    with spent nd hs show ?thesis by (auto simp: search_loop.simps [of eq hs nd hay])
  next
    case differs
    then have "\<not> occurs eq hs nd L hay" by (auto simp: occurs_def)
    with differs prems nd hs show ?thesis
      using IH(1) by (simp add: search_loop.simps [of eq hs nd hay k] peek_drop less_Suc_eq)
  next
    case agrees
    with prems nd hs show ?thesis
      using IH(2) by (simp add: search_loop.simps [of eq hs nd hay k] peek_drop less_Suc_eq)
  qed
qed

lemma search_loop_least:
  assumes "cstr hs" "cstr nd"
  shows "search_loop eq hs nd 0 0 L =
    (if \<exists>i. occurs eq hs nd L i then Some (LEAST i. occurs eq hs nd L i) else None)"
proof -
  have "case search_loop eq hs nd 0 0 L of
      None \<Rightarrow> \<forall>i. \<not> occurs eq hs nd L i
    | Some i \<Rightarrow> occurs eq hs nd L i \<and> (\<forall>i'<i. \<not> occurs eq hs nd L i')"
    using assms by (intro search_loop_correct) auto
  then show ?thesis
    by (auto split: option.splits intro!: Least_equality [symmetric] simp: not_less [symmetric])
qed

subsection \<open>Properties\<close>

text \<open>
  C23: \<open>strnstr\<close> answers the first place where the needle occurs whole within the first \<open>len\<close>
  bytes of the haystack, and null when there is none; \<open>strncasestr\<close> does the same up to the
  case of letters.
\<close>

theorem strnstr_first_occurrence:
  assumes "cstr hs" and "cstr nd"
  shows "strnstr hs nd len =
      (if \<exists>i. occurs (=) hs nd len i then Some (LEAST i. occurs (=) hs nd len i) else None)
    \<and> strncasestr hs nd len =
      (if \<exists>i. occurs (\<lambda>a b. tolower a = tolower b) hs nd len i
       then Some (LEAST i. occurs (\<lambda>a b. tolower a = tolower b) hs nd len i) else None)"
  by (simp only: strnstr_def strncasestr_def search_loop_least [OF assms] simp_thms)

theorem strnstr_first_occurrence_witness:
  "strnstr ''haystack'' ''st'' 5 =
      (if \<exists>i. occurs (=) ''haystack'' ''st'' 5 i then Some (LEAST i. occurs (=) ''haystack'' ''st'' 5 i) else None)
    \<and> strncasestr ''haystack'' ''st'' 5 =
      (if \<exists>i. occurs (\<lambda>a b. tolower a = tolower b) ''haystack'' ''st'' 5 i
       then Some (LEAST i. occurs (\<lambda>a b. tolower a = tolower b) ''haystack'' ''st'' 5 i) else None)"
  by (rule strnstr_first_occurrence) (simp_all add: NUL_def)

end
