(* ===== verification/Portset.thy ===== *)
theory Portset
  imports Ranges Ustring Strings
begin

text \<open>
  The port sets of libdank/objects/portset.c and portset.h: an array of closed ranges of
  16-bit ports. \<open>rangecount\<close> is the length of the list and the null pointer is the empty list
  (the code frees the array whenever it becomes empty). The integer promotions of C are kept:
  a sum or difference of two ports is computed in \<open>int\<close> and reduced to 16 bits when stored.
\<close>

subsection \<open>Data\<close>

record portrange =
  plower :: u16
  pupper :: u16

record portset =
  pranges :: "portrange list"

abbreviation prange :: "u16 \<Rightarrow> u16 \<Rightarrow> portrange" where
  "prange l u \<equiv> \<lparr>plower = l, pupper = u\<rparr>"

definition PORTRANGE_ALL :: portrange where
  "PORTRANGE_ALL = prange 0 0xffff"

definition init_portrange :: "u16 \<Rightarrow> u16 \<Rightarrow> portrange" where
  "init_portrange l u = (if l > u then prange u l else prange l u)"

definition init_portset :: portset where
  "init_portset = \<lparr>pranges = []\<rparr>"

definition free_portset :: "portset \<Rightarrow> mem \<Rightarrow> portset \<times> mem" where
  "free_portset p m = (init_portset, Free (pranges p \<noteq> []) m)"

subsection \<open>Queries\<close>

definition portset_empty :: "portset \<Rightarrow> bool" where
  "portset_empty ps \<longleftrightarrow> length (pranges ps) = 0"

definition portset_complete :: "portset \<Rightarrow> bool" where
  "portset_complete ps \<longleftrightarrow>
     length (pranges ps) = 1 \<and> plower (pranges ps ! 0) = 0 \<and> pupper (pranges ps ! 0) = 65535"

definition portset_portcount :: "portset \<Rightarrow> u16" where
  "portset_portcount ps = foldl (\<lambda>count r. count + (pupper r - plower r + 1)) 0 (pranges ps)"

definition port_in_range :: "portrange \<Rightarrow> u16 \<Rightarrow> bool" where
  "port_in_range p port \<longleftrightarrow> port \<ge> plower p \<and> port \<le> pupper p"

fun contains_port_loop :: "portrange list \<Rightarrow> u16 \<Rightarrow> bool" where
  "contains_port_loop [] port = False"
| "contains_port_loop (r # rs) port =
     (if port < plower r then False
      else if port \<le> pupper r then True
      else contains_port_loop rs port)"

definition contains_port :: "portset \<Rightarrow> u16 \<Rightarrow> bool" where
  "contains_port p port = contains_port_loop (pranges p) port"

text \<open>
  \<open>contains_portset\<close>: the inner loop runs over \<open>super->rangecount\<close> indices but reads
  \<open>sub->ranges\<close>. A read past the end of that array is the result \<open>None\<close>.
\<close>

fun contains_inner :: "portrange list \<Rightarrow> portrange \<Rightarrow> nat \<Rightarrow> nat \<Rightarrow> nat option" where
  "contains_inner subs subpr supercount 0 = Some supercount"
| "contains_inner subs subpr supercount (Suc todo) =
     (let superz = supercount - Suc todo in
      if superz < length subs then
        (if port_in_range (subs ! superz) (plower subpr) \<and> port_in_range (subs ! superz) (pupper subpr)
         then Some superz
         else contains_inner subs subpr supercount todo)
      else None)"

fun contains_outer :: "portrange list \<Rightarrow> nat \<Rightarrow> portrange list \<Rightarrow> bool option" where
  "contains_outer subs supercount [] = Some True"
| "contains_outer subs supercount (subpr # todo) =
     (case contains_inner subs subpr supercount supercount of
        None \<Rightarrow> None
      | Some superz \<Rightarrow>
          if superz = supercount then Some False else contains_outer subs supercount todo)"

definition contains_portset :: "portset \<Rightarrow> portset \<Rightarrow> bool option" where
  "contains_portset super sub =
     contains_outer (pranges sub) (length (pranges super)) (pranges sub)"

definition portsets_equal :: "portset \<Rightarrow> portset \<Rightarrow> bool" where
  "portsets_equal p0 p1 =
     (if length (pranges p0) \<noteq> length (pranges p1) then False
      else if length (pranges p0) = 0 then True
      else pranges p0 = pranges p1)"

fun portset_cmp_loop :: "portrange list \<Rightarrow> portrange list \<Rightarrow> int" where
  "portset_cmp_loop (r0 # rs0) (r1 # rs1) =
     (let ret = (if plower r0 < plower r1 then -1 else if plower r0 > plower r1 then 1
                 else if pupper r0 < pupper r1 then -1 else if pupper r0 > pupper r1 then 1 else 0)
      in if ret \<noteq> 0 then ret else portset_cmp_loop rs0 rs1)"
| "portset_cmp_loop rs0 rs1 =
     (if length rs0 < length rs1 then -1 else if length rs0 > length rs1 then 1 else 0)"

definition portset_cmp :: "portset \<Rightarrow> portset \<Rightarrow> int" where
  "portset_cmp ps0 ps1 = portset_cmp_loop (pranges ps0) (pranges ps1)"

definition swap_portsets :: "portset \<Rightarrow> portset \<Rightarrow> portset \<times> portset" where
  "swap_portsets p0 p1 = (p0\<lparr>pranges := pranges p1\<rparr>, p1\<lparr>pranges := pranges p0\<rparr>)"

subsection \<open>The iterator\<close>

record portset_iterator =
  psi_ps :: portset
  psi_priter :: int
  psi_pridx :: nat

definition init_portset_iterator :: "portset \<Rightarrow> portset_iterator" where
  "init_portset_iterator ps = \<lparr>psi_ps = ps, psi_priter = -1, psi_pridx = 0\<rparr>"

text \<open>The port of the call is \<open>Some\<close> of what is stored through the pointer, \<open>None\<close> is the answer 0.\<close>

definition portset_iterate :: "portset_iterator \<Rightarrow> u16 option \<times> portset_iterator" where
  "portset_iterate psi =
     (if psi_priter psi < 0 \<and> psi_pridx psi \<ge> length (pranges (psi_ps psi)) then (None, psi)
      else
        let k = (if psi_priter psi < 0 then 0 else psi_priter psi);
            pr = pranges (psi_ps psi) ! psi_pridx psi;
            port = word_of_int (uint (plower pr) + k);
            k' = k + 1
        in (Some port,
            psi\<lparr>psi_priter := (if k' > uint (pupper pr) - uint (plower pr) then -1 else k')\<rparr>))"

subsection \<open>Changing the array\<close>

text \<open>What Realloc leaves in the new slot; every caller overwrites it before it is read.\<close>

definition indeterminate_portrange :: portrange where
  "indeterminate_portrange = prange 0 0"

definition extend_portset :: "portset \<Rightarrow> mem \<Rightarrow> bool \<times> portset \<times> mem" where
  "extend_portset p m =
     (case Realloc (pranges p \<noteq> []) (4 * (length (pranges p) + 1)) m of
        (False, m1) \<Rightarrow> (True, p, m1)
      | (True, m1) \<Rightarrow> (False, p\<lparr>pranges := pranges p @ [indeterminate_portrange]\<rparr>, m1))"

definition append_portset :: "portset \<Rightarrow> portrange \<Rightarrow> mem \<Rightarrow> bool \<times> portset \<times> mem" where
  "append_portset p pr m =
     (case extend_portset p m of
        (True, p1, m1) \<Rightarrow> (True, p1, m1)
      | (False, p1, m1) \<Rightarrow>
          (False, p1\<lparr>pranges := (pranges p1)[length (pranges p1) - 1 := pr]\<rparr>, m1))"

definition insert_portset :: "portset \<Rightarrow> nat \<Rightarrow> portrange \<Rightarrow> mem \<Rightarrow> bool \<times> portset \<times> mem" where
  "insert_portset p pre pr m =
     (case extend_portset p m of
        (True, p1, m1) \<Rightarrow> (True, p1, m1)
      | (False, p1, m1) \<Rightarrow>
          let moved = memmove (pranges p1) (pre + 1) pre (length (pranges p1) - pre - 1)
          in (False, p1\<lparr>pranges := moved[pre := pr]\<rparr>, m1))"

definition remove_portset :: "portset \<Rightarrow> nat \<Rightarrow> nat \<Rightarrow> mem \<Rightarrow> portset \<times> mem" where
  "remove_portset p at cnt m =
     (let n = length (pranges p);
          moved = (if n > at + cnt then memmove (pranges p) at (at + cnt) (n - (at + cnt)) else pranges p)
      in (p\<lparr>pranges := take (n - cnt) moved\<rparr>,
          if n - cnt = 0 then Free (pranges p \<noteq> []) m else m))"

text \<open>The first loop of \<open>merge_portset\<close>: the index \<open>z\<close> where it stops.\<close>

fun merge_skip :: "portrange \<Rightarrow> portrange list \<Rightarrow> nat" where
  "merge_skip merge [] = 0"
| "merge_skip merge (cur # rs) =
     (if uint (plower merge) \<le> uint (pupper cur) + 1 \<or> pupper cur = 0xffff then 0
      else Suc (merge_skip merge rs))"

text \<open>The second loop: the final \<open>cur->upper\<close>, and how many ranges were eaten (\<open>zin - z\<close>).\<close>

fun merge_eat :: "u16 \<Rightarrow> portrange list \<Rightarrow> u16 \<times> nat" where
  "merge_eat cur_upper [] = (cur_upper, 0)"
| "merge_eat cur_upper (tmp # rs) =
     (if uint cur_upper < uint (plower tmp) - 1 \<and> plower tmp \<noteq> 0 then (cur_upper, 0)
      else
        let (up, n) = merge_eat (if pupper tmp > cur_upper then pupper tmp else cur_upper) rs
        in (up, Suc n))"

definition merge_portset :: "portset \<Rightarrow> portrange \<Rightarrow> mem \<Rightarrow> bool \<times> portset \<times> mem" where
  "merge_portset p merge m =
     (let rs = pranges p; z = merge_skip merge rs in
      if z = length rs then append_portset p merge m
      else
        let cur = rs ! z in
        if uint (pupper merge) + 1 < uint (plower cur) \<and> pupper merge \<noteq> 0
        then insert_portset p z merge m
        else
          let cur1 = (if uint (plower merge) \<le> uint (plower cur) - 1 \<and> plower cur \<noteq> 0
                      then cur\<lparr>plower := plower merge\<rparr> else cur)
          in if pupper merge > pupper cur1
             then
               let (up, eaten) = merge_eat (pupper merge) (drop (z + 1) rs);
                   p1 = p\<lparr>pranges := rs[z := cur1\<lparr>pupper := up\<rparr>]\<rparr>;
                   (p2, m2) = (if eaten > 0 then remove_portset p1 (z + 1) eaten m else (p1, m))
               in (False, p2, m2)
             else (False, p\<lparr>pranges := rs[z := cur1]\<rparr>, m))"

text \<open>When the copy fails, the target holds a count without an array and no caller reads it.\<close>

definition clone_portset :: "portset \<Rightarrow> mem \<Rightarrow> bool \<times> portset \<times> mem" where
  "clone_portset src m =
     (if length (pranges src) = 0 then (False, init_portset, m)
      else case Memdup (pranges src) (4 * length (pranges src)) m of
             (None, m1) \<Rightarrow> (True, init_portset, m1)
           | (Some rs, m1) \<Rightarrow> (False, \<lparr>pranges = rs\<rparr>, m1))"

definition merge_portsets :: "portset \<Rightarrow> portset \<Rightarrow> mem \<Rightarrow> bool \<times> portset \<times> mem" where
  "merge_portsets portsum add m =
     on_clone clone_portset (\<lambda>p m. snd (free_portset p m)) (\<lambda>r p m. merge_portset p r m)
       (pranges add) portsum m"

function cut_loop :: "portrange \<Rightarrow> nat \<Rightarrow> portset \<Rightarrow> mem \<Rightarrow> bool \<times> portset \<times> mem" where
  "cut_loop ct z p m =
     (if z < length (pranges p) then
        let cur = pranges p ! z in
        if plower ct > pupper cur \<or> pupper ct < plower cur then cut_loop ct (z + 1) p m
        else if plower ct \<le> plower cur then
          (if pupper cur > pupper ct
           then (False, p\<lparr>pranges := (pranges p)[z := cur\<lparr>plower := pupper ct + 1\<rparr>]\<rparr>, m)
           else let (p1, m1) = remove_portset p z 1 m in cut_loop ct z p1 m1)
        else if pupper ct \<ge> pupper cur
        then cut_loop ct (z + 1) (p\<lparr>pranges := (pranges p)[z := cur\<lparr>pupper := plower ct - 1\<rparr>]\<rparr>) m
        else
          (case insert_portset p z (init_portrange (plower cur) (plower ct - 1)) m of
             (True, p1, m1) \<Rightarrow> (True, p1, m1)
           | (False, p1, m1) \<Rightarrow>
               (False, p1\<lparr>pranges := (pranges p1)[z + 1 := (pranges p1 ! (z + 1))\<lparr>plower := pupper ct + 1\<rparr>]\<rparr>, m1))
      else (False, p, m))"
  by pat_completeness auto
termination
  by (relation "measure (\<lambda>(ct, z, p, m). length (pranges p) - z)")
    (auto simp: remove_portset_def Let_def)

declare cut_loop.simps [simp del]

definition cut_portset :: "portset \<Rightarrow> portrange \<Rightarrow> mem \<Rightarrow> bool \<times> portset \<times> mem" where
  "cut_portset p ct m = cut_loop ct 0 p m"

subsection \<open>Abstraction\<close>

definition piv :: "portrange \<Rightarrow> ivl" where
  "piv r = (uint (plower r), uint (pupper r))"

definition prng :: "portrange \<Rightarrow> int set" where
  "prng r = {uint (plower r)..uint (pupper r)}"

definition ports :: "portset \<Rightarrow> int set" where
  "ports p = covers (map piv (pranges p))"

definition portset_ok :: "portset \<Rightarrow> bool" where
  "portset_ok p \<longleftrightarrow> canonical 65535 (map piv (pranges p))"

text \<open>The ranges \<open>merge_portset\<close> adds correctly: ordered, and not the range of port 0 alone.\<close>

definition prange_ok :: "portrange \<Rightarrow> bool" where
  "prange_ok r \<longleftrightarrow> plower r \<le> pupper r"

definition addable :: "portrange \<Rightarrow> bool" where
  "addable r \<longleftrightarrow> plower r \<le> pupper r \<and> pupper r \<noteq> 0"

definition portset_owns :: "portset \<Rightarrow> int" where
  "portset_owns p = of_bool (pranges p \<noteq> [])"

subsection \<open>The array operations\<close>

lemma extend_portset_cases:
  assumes "extend_portset p m = (e, p', m')"
  obtains (failed) "e" "p' = p" "allocs_used m' = allocs_used m"
  | (grown) "\<not> e" "pranges p' = pranges p @ [indeterminate_portrange]"
      "allocs_used m' = allocs_used m + 1 - portset_owns p"
  using assms
  by (auto simp: extend_portset_def portset_owns_def split: prod.splits bool.splits
      dest!: Realloc_used)

lemma extend_portset_plenty:
  "plentiful m \<Longrightarrow> \<exists>p' m'. extend_portset p m = (False, p', m') \<and> plentiful m'"
  using Realloc_plentiful [of m "4 * (length (pranges p) + 1)" "pranges p \<noteq> []"]
  by (auto simp: extend_portset_def)

lemma append_portset_cases:
  assumes "append_portset p r m = (e, p', m')"
  obtains (failed) "e" "p' = p" "allocs_used m' = allocs_used m"
  | (grown) "\<not> e" "pranges p' = pranges p @ [r]"
      "allocs_used m' = allocs_used m + 1 - portset_owns p"
proof -
  obtain e1 p1 m1 where x: "extend_portset p m = (e1, p1, m1)" by (cases "extend_portset p m")
  then show ?thesis
    by (cases rule: extend_portset_cases) (use assms that x in \<open>auto simp: append_portset_def\<close>)
qed

lemma insert_portset_cases:
  assumes "insert_portset p z r m = (e, p', m')" "z \<le> length (pranges p)"
  obtains (failed) "e" "p' = p" "allocs_used m' = allocs_used m"
  | (grown) "\<not> e" "pranges p' = take z (pranges p) @ r # drop z (pranges p)"
      "allocs_used m' = allocs_used m + 1 - portset_owns p"
proof -
  obtain e1 p1 m1 where x: "extend_portset p m = (e1, p1, m1)" by (cases "extend_portset p m")
  then show ?thesis
    by (cases rule: extend_portset_cases)
      (use assms that x memmove_open_gap [OF assms(2)] in \<open>auto simp: insert_portset_def Let_def\<close>)
qed

lemma insert_portset_plenty:
  "plentiful m \<Longrightarrow> \<exists>p' m'. insert_portset p z r m = (False, p', m') \<and> plentiful m'"
  using extend_portset_plenty [of m p] by (auto simp: insert_portset_def Let_def)

lemma append_portset_plenty:
  "plentiful m \<Longrightarrow> \<exists>p' m'. append_portset p r m = (False, p', m') \<and> plentiful m'"
  using extend_portset_plenty [of m p] by (auto simp: append_portset_def)

lemma remove_portset_cases:
  assumes "remove_portset p z n m = (p', m')" "z + n \<le> length (pranges p)"
  shows "pranges p' = take z (pranges p) @ drop (z + n) (pranges p)
    \<and> allocs_used m' = allocs_used m + portset_owns p' - portset_owns p
    \<and> plentiful m' = plentiful m"
proof -
  have "take (length (pranges p) - n)
      (if length (pranges p) > z + n
       then memmove (pranges p) z (z + n) (length (pranges p) - (z + n)) else pranges p)
    = take z (pranges p) @ drop (z + n) (pranges p)"
  proof (cases "length (pranges p) > z + n")
    case False
    with assms(2) have "length (pranges p) - n = z" by simp
    with False show ?thesis by simp
  qed (use memmove_close_gap [OF assms(2)] in simp)
  with assms show ?thesis
    by (auto simp: remove_portset_def Let_def portset_owns_def split: if_splits)
qed

subsection \<open>Merging a range refines \<open>ins\<close>\<close>

lemma merge_skip_le: "merge_skip r rs \<le> length rs"
  by (induction rs) auto

lemma merge_skip_stops:
  "merge_skip r rs < length rs \<Longrightarrow> uint (plower r) \<le> uint (pupper (rs ! merge_skip r rs)) + 1"
  by (induction rs) (auto simp: word_int intro: order_trans [OF uint_bounds(1)] split: if_splits)

lemma merge_skip_ins:
  "ins (piv r) (map piv rs) =
     map piv (take (merge_skip r rs) rs) @ ins (piv r) (map piv (drop (merge_skip r rs) rs))"
  by (induction rs) (auto simp: piv_def)

lemma merge_eat_absorb:
  "wf_from lo 65535 (map piv rs) \<Longrightarrow> merge_eat u rs = (u', n) \<Longrightarrow>
   n \<le> length rs \<and> absorb (a, uint u) (map piv rs) = (a, uint u') # map piv (drop n rs)"
proof (induction u rs arbitrary: lo u' n rule: merge_eat.induct)
  case (2 u t rs)
  have t: "uint u < uint (plower t) - 1 \<and> plower t \<noteq> 0 \<longleftrightarrow> uint u + 1 < uint (plower t)"
    by (auto simp: word_int)
  show ?case
  proof (cases "uint u + 1 < uint (plower t)")
    case True
    with 2 t show ?thesis by (auto simp: piv_def)
  next
    case False
    let ?u = "if pupper t > u then pupper t else u"
    obtain n' where eat: "merge_eat ?u rs = (u', n')" "n = Suc n'"
      using "2.prems"(2) False t by (auto split: prod.splits)
    have "uint ?u = max (uint u) (uint (pupper t))" by (auto simp: word_int)
    with "2.IH" [OF _ _ eat(1)] "2.prems" False t eat(2) show ?thesis
      by (auto simp: piv_def)
  qed
qed simp

lemma merge_portset_refines:
  assumes ok: "portset_ok p" and r: "addable r"
    and mp: "merge_portset p r m = (False, p', m')"
  shows "map piv (pranges p') = ins (piv r) (map piv (pranges p))"
proof -
  let ?rs = "pranges p" let ?z = "merge_skip r ?rs"
  have skip: "ins (piv r) (map piv ?rs) = map piv (take ?z ?rs) @ ins (piv r) (map piv (drop ?z ?rs))"
    by (rule merge_skip_ins)
  show ?thesis
  proof (cases "?z = length ?rs")
    case True
    with mp have "append_portset p r m = (False, p', m')"
      by (simp add: merge_portset_def Let_def)
    then have "pranges p' = ?rs @ [r]" by (cases rule: append_portset_cases) auto
    with skip True show ?thesis by (simp add: piv_def)
  next
    case False
    then have z: "?z < length ?rs" using merge_skip_le [of r ?rs] by simp
    define cur where "cur = ?rs ! ?z"
    have rs: "drop ?z ?rs = cur # drop (Suc ?z) ?rs" using z by (simp add: Cons_nth_drop_Suc cur_def)
    have stop: "uint (plower r) \<le> uint (pupper cur) + 1" using merge_skip_stops [OF z] by (simp add: cur_def)
    have lu: "uint (plower r) \<le> uint (pupper r)" "uint (pupper r) \<noteq> 0"
      using r by (auto simp: addable_def word_int)
    have "wf_from 0 65535 (map piv (take ?z ?rs) @ map piv (drop ?z ?rs))"
      using ok by (simp add: portset_ok_def flip: map_append)
    then have "wf_from 0 65535 (map piv (drop ?z ?rs))" by (rule wf_from_append_right)
    then have wf: "uint (plower cur) \<le> uint (pupper cur)"
      "wf_from (uint (pupper cur) + 2) 65535 (map piv (drop (Suc ?z) ?rs))"
      by (simp_all add: rs piv_def)
    note mp' = mp [unfolded merge_portset_def Let_def, folded cur_def]
    define cur1 where "cur1 = (if uint (plower r) \<le> uint (plower cur) - 1 \<and> plower cur \<noteq> 0
                      then cur\<lparr>plower := plower r\<rparr> else cur)"
    have cur1: "uint (plower cur1) = min (uint (plower r)) (uint (plower cur))" "pupper cur1 = pupper cur"
      by (auto simp: cur1_def word_int)
    show ?thesis
    proof (cases "uint (pupper r) + 1 < uint (plower cur)")
      case True
      with mp' False lu have "insert_portset p ?z r m = (False, p', m')" by (simp add: word_int)
      then have "pranges p' = take ?z ?rs @ r # drop ?z ?rs"
        by (cases rule: insert_portset_cases) (use z in auto)
      with skip rs stop True show ?thesis by (simp add: piv_def)
    next
      case apart: False
      show ?thesis
      proof (cases "pupper r > pupper cur1")
        case True
        obtain u n where eat: "merge_eat (pupper r) (drop (?z + 1) ?rs) = (u, n)"
          by (cases "merge_eat (pupper r) (drop (?z + 1) ?rs)")
        from wf(2) eat have n: "n \<le> length (drop (Suc ?z) ?rs)" and
          ab: "\<And>a. absorb (a, uint (pupper r)) (map piv (drop (Suc ?z) ?rs)) =
            (a, uint u) # map piv (drop n (drop (Suc ?z) ?rs))"
          using merge_eat_absorb [OF wf(2)] by auto
        let ?p1 = "p\<lparr>pranges := ?rs[?z := cur1\<lparr>pupper := u\<rparr>]\<rparr>"
        have "pranges p' = take ?z ?rs @ cur1\<lparr>pupper := u\<rparr> # drop n (drop (Suc ?z) ?rs)"
        proof (cases "n > 0")
          case True
          with mp' False apart \<open>pupper r > pupper cur1\<close> eat
          have "remove_portset ?p1 (?z + 1) n m = (p', m')"
            by (auto simp: cur1_def split: prod.splits if_splits)
          moreover have "?z + 1 + n \<le> length (pranges ?p1)" using n z by simp
          ultimately show ?thesis
            using remove_portset_cases z
            by (fastforce simp: upd_conv_take_nth_drop take_Suc_conv_app_nth)
        next
          case False
          with mp' \<open>?z \<noteq> length ?rs\<close> apart \<open>pupper r > pupper cur1\<close> eat have "p' = ?p1"
            by (auto simp: cur1_def split: prod.splits if_splits)
          with z False show ?thesis by (simp add: upd_conv_take_nth_drop)
        qed
        with skip rs stop apart ab True cur1 show ?thesis
          by (simp add: piv_def word_int max_def)
      next
        case up: False
        with mp' False apart have "p' = p\<lparr>pranges := ?rs[?z := cur1]\<rparr>"
          by (auto simp: cur1_def split: prod.splits if_splits)
        with z have "pranges p' = take ?z ?rs @ cur1 # drop (Suc ?z) ?rs"
          by (simp add: upd_conv_take_nth_drop)
        with skip rs stop apart up cur1 absorb_stays [OF wf(2)] show ?thesis
          by (simp add: piv_def word_int max_def)
      qed
    qed
  qed
qed

subsection \<open>What a merge does to the object and the allocator\<close>

lemma init_portset_simps [simp]:
  "pranges init_portset = []" "portset_owns init_portset = 0" "ports init_portset = {}"
  "portset_ok init_portset"
  by (simp_all add: init_portset_def portset_owns_def ports_def portset_ok_def)

lemma addable_piv: "addable r \<Longrightarrow> 0 \<le> fst (piv r) \<and> fst (piv r) \<le> snd (piv r) \<and> snd (piv r) \<le> 65535"
  using uint_bounds(1) [of "pupper r"] by (auto simp: addable_def piv_def word_int)

lemma merge_portset_cases:
  assumes ok: "portset_ok p" and mp: "merge_portset p r m = (e, p', m')"
  obtains (app) "append_portset p r m = (e, p', m')"
  | (ins) "insert_portset p (merge_skip r (pranges p)) r m = (e, p', m')"
  | (rem) p1 z n where "\<not> e" "pranges p \<noteq> []" "length (pranges p1) = length (pranges p)"
      "remove_portset p1 z n m = (p', m')" "z + n \<le> length (pranges p1)"
  | (upd) "\<not> e" "length (pranges p') = length (pranges p)" "m' = m"
proof -
  let ?rs = "pranges p" let ?z = "merge_skip r ?rs"
  define cur where "cur = ?rs ! ?z"
  define cur1 where "cur1 = (if uint (plower r) \<le> uint (plower cur) - 1 \<and> plower cur \<noteq> 0
                      then cur\<lparr>plower := plower r\<rparr> else cur)"
  note mp' = mp [unfolded merge_portset_def Let_def, folded cur_def, folded cur1_def]
  show ?thesis
  proof (cases "?z = length ?rs")
    case True
    with mp' app show ?thesis by simp
  next
    case z: False
    show ?thesis
    proof (cases "uint (pupper r) + 1 < uint (plower cur) \<and> pupper r \<noteq> 0")
      case True
      with z mp' ins show ?thesis by simp
    next
      case apart: False
      show ?thesis
      proof (cases "pupper r > pupper cur1")
        case True
        obtain u n where eat: "merge_eat (pupper r) (drop (?z + 1) ?rs) = (u, n)"
          by (cases "merge_eat (pupper r) (drop (?z + 1) ?rs)")
        let ?p1 = "p\<lparr>pranges := ?rs[?z := cur1\<lparr>pupper := u\<rparr>]\<rparr>"
        have "wf_from 0 65535 (map piv (take (?z + 1) ?rs) @ map piv (drop (?z + 1) ?rs))"
          using ok by (simp add: portset_ok_def flip: map_append)
        then have "wf_from 0 65535 (map piv (drop (?z + 1) ?rs))" by (rule wf_from_append_right)
        from merge_eat_absorb [OF this eat] have "n \<le> length (drop (?z + 1) ?rs)" by blast
        with z have n: "?z + 1 + n \<le> length (pranges ?p1)"
          using merge_skip_le [of r ?rs] by simp
        have "(False, if n > 0 then remove_portset ?p1 (?z + 1) n m else (?p1, m)) = (e, p', m')"
          using mp' z apart True eat by (simp split: if_splits prod.splits)
        then show ?thesis
          using rem [of ?p1 "?z + 1" n] upd n z by (fastforce split: if_splits)
      next
        case False
        with mp' z apart have "(False, p\<lparr>pranges := ?rs[?z := cur1]\<rparr>, m) = (e, p', m')" by simp
        then show ?thesis using upd by auto
      qed
    qed
  qed
qed

lemma merge_portset_fails:
  assumes "portset_ok p" "merge_portset p r m = (True, p', m')"
  shows "p' = p \<and> allocs_used m' = allocs_used m"
  using assms
proof (cases rule: merge_portset_cases)
  case app
  then show ?thesis by (cases rule: append_portset_cases) auto
next
  case ins
  then show ?thesis by (cases rule: insert_portset_cases) (auto simp: merge_skip_le)
qed auto

lemma merge_portset_balance:
  assumes "portset_ok p" "merge_portset p r m = (e, p', m')"
  shows "allocs_used m' = allocs_used m + portset_owns p' - portset_owns p"
  using assms
proof (cases rule: merge_portset_cases)
  case app
  then show ?thesis by (cases rule: append_portset_cases) (auto simp: portset_owns_def)
next
  case ins
  then show ?thesis
    by (cases rule: insert_portset_cases) (auto simp: portset_owns_def merge_skip_le)
next
  case (rem p1 z n)
  from remove_portset_cases [OF rem(4,5)] rem(2,3) show ?thesis by (auto simp: portset_owns_def)
next
  case upd
  then show ?thesis by (cases "pranges p = []") (auto simp: portset_owns_def)
qed

lemma merge_portset_plenty:
  assumes "portset_ok p" "plentiful m"
  shows "\<exists>p' m'. merge_portset p r m = (False, p', m') \<and> plentiful m'"
proof -
  obtain e p' m' where mp: "merge_portset p r m = (e, p', m')" by (cases "merge_portset p r m")
  from assms(1) mp have "\<not> e \<and> plentiful m'"
  proof (cases rule: merge_portset_cases)
    case (rem p1 z n)
    from remove_portset_cases [OF rem(4,5)] rem(1) assms(2) show ?thesis by simp
  qed (use append_portset_plenty [OF assms(2), of p r] assms(2)
        insert_portset_plenty [OF assms(2), of p "merge_skip r (pranges p)" r] in auto)
  with mp show ?thesis by auto
qed

lemma merge_portset_inv:
  assumes "portset_ok p" "addable r" "merge_portset p r m = (e, p', m')"
  shows "portset_ok p'"
proof (cases e)
  case True
  with assms have "p' = p" using merge_portset_fails [of p r m p' m'] by simp
  with assms(1) show ?thesis by simp
next
  case False
  with assms have "map piv (pranges p') = ins (piv r) (map piv (pranges p))"
    using merge_portset_refines [of p r m p' m'] by simp
  moreover have "wf_from 0 65535 (ins (piv r) (map piv (pranges p)))"
    using assms(1) addable_piv [OF assms(2)] wf_ins [of 0 65535 _ "fst (piv r)" "snd (piv r)"]
    by (simp add: portset_ok_def)
  ultimately show ?thesis by (simp add: portset_ok_def)
qed

lemma merge_portset_adds:
  assumes "portset_ok p" "addable r" "merge_portset p r m = (False, p', m')"
  shows "ports p' = ports p \<union> prng r"
  using merge_portset_refines [OF assms] assms(1) addable_piv [OF assms(2)]
    covers_ins [of 0 65535 "map piv (pranges p)" "fst (piv r)" "snd (piv r)"]
  by (auto simp: ports_def portset_ok_def prng_def piv_def)

lemma clone_portset_cases:
  assumes "clone_portset p m = (e, c, m')"
  obtains (failed) "e" "allocs_used m' = allocs_used m"
  | (copied) "\<not> e" "pranges c = pranges p" "allocs_used m' = allocs_used m + portset_owns c"
proof (cases "pranges p = []")
  case True
  with assms that show ?thesis by (simp add: clone_portset_def portset_owns_def)
next
  case False
  obtain x m1 where x: "Memdup (pranges p) (4 * length (pranges p)) m = (x, m1)"
    by (cases "Memdup (pranges p) (4 * length (pranges p)) m")
  from Memdup_used [OF x] Memdup_Some [of "pranges p" _ m _ m1] assms that x False show ?thesis
    by (cases x) (auto simp: clone_portset_def portset_owns_def)
qed

lemma clone_portset_plenty:
  "plentiful m \<Longrightarrow> \<exists>c m'. clone_portset p m = (False, c, m') \<and> plentiful m'"
proof (cases "pranges p = []")
  case False
  assume "plentiful m"
  from Memdup_plentiful [OF this, of "4 * length (pranges p)" "pranges p"] False show ?thesis
    by (auto simp: clone_portset_def)
qed (simp add: clone_portset_def)

lemma free_portset_used [simp]:
  "allocs_used (snd (free_portset p m)) = allocs_used m - portset_owns p"
  "plentiful (snd (free_portset p m)) = plentiful m"
  by (simp_all add: free_portset_def portset_owns_def)

interpretation pm: commit_add "\<lambda>r p m. merge_portset p r m" portset_ok addable portset_owns
  clone_portset "\<lambda>p m. snd (free_portset p m)" ports portset_ok prng
proof unfold_locales
  fix s m c m'
  assume "portset_ok s" and c: "clone_portset s m = (False, c, m')"
  from c show "portset_ok c \<and> ports c = ports s \<and> allocs_used m' = allocs_used m + portset_owns c"
    by (cases rule: clone_portset_cases) (use \<open>portset_ok s\<close> in \<open>auto simp: portset_ok_def ports_def\<close>)
next
  fix s m c m'
  assume c: "clone_portset s m = (True, c, m')"
  then show "allocs_used m' = allocs_used m" by (cases rule: clone_portset_cases) auto
qed (simp_all add: merge_portset_inv merge_portset_balance merge_portset_plenty merge_portset_adds
      clone_portset_plenty)

subsection \<open>Cutting a range refines \<open>del\<close>\<close>

interpretation pcl: range_cutter cut_loop "\<lambda>p. map piv (pranges p)" piv "\<lambda>_. True" portset_owns
proof (unfold_locales, goal_cases)
  case (1 s z r m)
  then show ?case by (simp add: cut_loop.simps [of r z s m])
next
  case (2 s z a b r l u m)
  then have "plower r > pupper (pranges s ! z) \<or> pupper r < plower (pranges s ! z)"
    by (auto simp: piv_def word_int)
  with 2 show ?case by (simp add: cut_loop.simps [of r z s m])
next
  case (3 s z a b r l u m)
  let ?c = "pranges s ! z"
  have c: "plower r \<le> plower ?c" "plower ?c \<le> pupper r" "pupper r < pupper ?c"
    using 3 by (auto simp: piv_def word_int)
  then have "\<not> (plower r > pupper ?c \<or> pupper r < plower ?c)" by auto
  with c 3(2) have l: "cut_loop r z s m = (False, s\<lparr>pranges := (pranges s)[z := ?c\<lparr>plower := pupper r + 1\<rparr>]\<rparr>, m)"
    by (simp add: cut_loop.simps [of r z s m] Let_def)
  have "piv (?c\<lparr>plower := pupper r + 1\<rparr>) = (u + 1, b)"
    using 3 uint_succ_less [OF c(3)] by (auto simp: piv_def)
  with l 3(1) show ?case by (auto simp: map_update portset_owns_def)
next
  case (4 s z a b r l u m)
  let ?c = "pranges s ! z"
  have c: "plower r \<le> plower ?c" "\<not> pupper r < pupper ?c" "\<not> (plower r > pupper ?c \<or> pupper r < plower ?c)"
    using 4 by (auto simp: piv_def word_int)
  obtain s1 m1 where rm: "remove_portset s z 1 m = (s1, m1)" by (cases "remove_portset s z 1 m")
  with c 4(2) have "cut_loop r z s m = cut_loop r z s1 m1"
    by (simp add: cut_loop.simps [of r z s m] Let_def)
  with remove_portset_cases [OF rm] 4(2) show ?case
    by (intro exI [of _ s1] exI [of _ m1]) (simp add: take_map drop_map)
next
  case (5 s z a b r l u m)
  let ?c = "pranges s ! z"
  have c: "\<not> plower r \<le> plower ?c" "pupper ?c \<le> pupper r" "\<not> (plower r > pupper ?c \<or> pupper r < plower ?c)"
    using 5 by (auto simp: piv_def word_int)
  with 5(2) have l: "cut_loop r z s m =
      cut_loop r (Suc z) (s\<lparr>pranges := (pranges s)[z := ?c\<lparr>pupper := plower r - 1\<rparr>]\<rparr>) m"
    by (simp add: cut_loop.simps [of r z s m] Let_def)
  have "piv (?c\<lparr>pupper := plower r - 1\<rparr>) = (a, l - 1)"
    using 5 c uint_pred_less [of "plower ?c" "plower r"] by (auto simp: piv_def)
  with l 5(1) show ?case by (auto simp: map_update portset_owns_def)
next
  case (6 s z a b r l u m)
  let ?c = "pranges s ! z" let ?x = "init_portrange (plower (pranges s ! z)) (plower r - 1)"
  have c: "\<not> plower r \<le> plower ?c" "\<not> pupper ?c \<le> pupper r" "\<not> (plower r > pupper ?c \<or> pupper r < plower ?c)"
    using 6 by (auto simp: piv_def word_int)
  have w: "uint (plower r - 1) = l - 1" "uint (pupper r + 1) = u + 1"
    using 6 c uint_pred_less [of "plower ?c" "plower r"] uint_succ_less [of "pupper r" "pupper ?c"]
    by (auto simp: piv_def)
  obtain e s1 m1 where i: "insert_portset s z ?x m = (e, s1, m1)" by (cases "insert_portset s z ?x m")
  with c 6(2) have l: "cut_loop r z s m = (if e then (True, s1, m1) else
      (False, s1\<lparr>pranges := (pranges s1)[Suc z := (pranges s1 ! Suc z)\<lparr>plower := pupper r + 1\<rparr>]\<rparr>, m1))"
    by (simp add: cut_loop.simps [of r z s m] Let_def)
  have pl: "plentiful m \<Longrightarrow> \<not> e \<and> plentiful m1" using insert_portset_plenty [of m s z ?x] i by simp
  have z: "z \<le> length (pranges s)" using 6(2) by simp
  have dr: "drop z (pranges s) = ?c # drop (Suc z) (pranges s)" using 6(2) by (simp add: Cons_nth_drop_Suc)
  from i z show ?case
  proof (cases rule: insert_portset_cases)
    case failed
    with l pl 6(1) show ?thesis by auto
  next
    case grown
    let ?s = "s1\<lparr>pranges := (pranges s1)[Suc z := (pranges s1 ! Suc z)\<lparr>plower := pupper r + 1\<rparr>]\<rparr>"
    have "pranges ?s = take z (pranges s) @ ?x # ?c\<lparr>plower := pupper r + 1\<rparr> # drop (Suc z) (pranges s)"
      using grown(2) z 6(2) by (simp add: dr nth_append list_update_append)
    moreover have "piv ?x = (a, l - 1)" "piv (?c\<lparr>plower := pupper r + 1\<rparr>) = (u + 1, b)"
      using 6 w c by (auto simp: init_portrange_def piv_def word_int)
    moreover have "portset_owns ?s = 1" using grown by (simp_all add: portset_owns_def)
    ultimately show ?thesis using l grown pl by (auto simp: take_map drop_map)
  qed
qed

lemma cut_portset_spec:
  assumes "portset_ok p" "prange_ok r" "cut_portset p r m = (e, p', m')"
  shows "(e \<longrightarrow> p' = p) \<and> (\<not> e \<longrightarrow> map piv (pranges p') = del (piv r) (map piv (pranges p))) \<and>
    allocs_used m' = allocs_used m + portset_owns p' - portset_owns p \<and>
    (plentiful m \<longrightarrow> \<not> e \<and> plentiful m')"
  using pcl.loop_refines [of r "uint (plower r)" "uint (pupper r)" 0 65535 0 p m e p' m'] assms
  by (simp add: portset_ok_def prange_ok_def cut_portset_def piv_def [of r] word_int)

lemma cut_portset_inv:
  assumes "portset_ok p" "prange_ok r" "cut_portset p r m = (e, p', m')"
  shows "portset_ok p'"
proof (cases e)
  case True
  with cut_portset_spec [OF assms] assms(1) show ?thesis by simp
next
  case False
  have "wf_from 0 65535 (del (piv r) (map piv (pranges p)))"
    using assms(1,2) wf_del [of 0 65535 _ "uint (plower r)" "uint (pupper r)"]
    by (simp add: portset_ok_def prange_ok_def piv_def word_int)
  with cut_portset_spec [OF assms] False show ?thesis by (simp add: portset_ok_def)
qed

lemma cut_portset_dels:
  assumes "portset_ok p" "prange_ok r" "cut_portset p r m = (False, p', m')"
  shows "ports p' = ports p - prng r"
  using cut_portset_spec [OF assms] assms(1,2)
    covers_del [of 0 65535 "map piv (pranges p)" "uint (plower r)" "uint (pupper r)"]
  by (simp add: ports_def portset_ok_def prng_def piv_def [of r] prange_ok_def word_int)

interpretation pc: range_del "\<lambda>r p m. cut_portset p r m" portset_ok prange_ok portset_owns ports prng
proof unfold_locales
  fix r s m
  assume "portset_ok s" "prange_ok r" "plentiful m"
  moreover obtain e p' m' where "cut_portset s r m = (e, p', m')" by (cases "cut_portset s r m")
  ultimately show "\<exists>p' m'. cut_portset s r m = (False, p', m') \<and> plentiful m'"
    using cut_portset_spec by force
qed (use cut_portset_spec in \<open>auto simp: cut_portset_inv cut_portset_dels\<close>)

subsection \<open>Properties of the queries\<close>

lemma contains_port_loop_covers:
  "wf_from lo 65535 (map piv rs) \<Longrightarrow> contains_port_loop rs x \<longleftrightarrow> uint x \<in> covers (map piv rs)"
proof (induction rs arbitrary: lo)
  case (Cons r rs)
  then have wf: "uint (plower r) \<le> uint (pupper r)" "wf_from (uint (pupper r) + 2) 65535 (map piv rs)"
    by (simp_all add: piv_def [of r])
  have "uint x \<notin> covers (map piv rs)" if "uint x < uint (plower r)"
    using wf_from_covers [OF wf(2), of "uint x"] wf(1) that by auto
  with Cons.IH [OF wf(2)] show ?case by (auto simp: piv_def [of r] word_int)
qed simp

lemma piv_inject: "piv r = piv s \<longleftrightarrow> r = s"
  by (cases r; cases s) (simp add: piv_def word_uint_eq_iff)

lemma map_piv_inject: "map piv rs = map piv ss \<longleftrightarrow> rs = ss"
  by (rule inj_map_eq_map) (auto simp: inj_def piv_inject)

lemma portcount_loop:
  "word_of_int (int (card (covers (map piv rs)))) = foldl (\<lambda>count r. count + (pupper r - plower r + 1)) 0 rs"
  if "wf_from lo 65535 (map piv rs)" for rs :: "portrange list"
proof -
  have step: "foldl (\<lambda>count r. count + (pupper r - plower r + 1)) c rs
      = c + word_of_int (total_width (map piv rs))" for c :: u16
    by (induction rs arbitrary: c) (auto simp: piv_def wi_hom_syms)
  show ?thesis using step [of 0] card_covers [OF that] by simp
qed

lemma portset_cmp_loop_zero: "portset_cmp_loop rs ss = 0 \<longleftrightarrow> rs = ss"
  by (induction rs ss rule: portset_cmp_loop.induct) (auto simp: Let_def not_less)

lemma portset_cmp_loop_flip: "portset_cmp_loop ss rs = - portset_cmp_loop rs ss"
  by (induction rs ss rule: portset_cmp_loop.induct) (auto simp: Let_def not_less)

lemma portset_cmp_loop_trans:
  "portset_cmp_loop rs ss < 0 \<Longrightarrow> portset_cmp_loop ss ts < 0 \<Longrightarrow> portset_cmp_loop rs ts < 0"
proof (induction rs ss arbitrary: ts rule: portset_cmp_loop.induct)
  case (1 r0 rs0 r1 rs1)
  then show ?case
    by (cases ts) (auto simp: Let_def not_less split: if_splits)
qed (auto split: if_splits elim: portset_cmp_loop.elims)

subsection \<open>Properties\<close>

text \<open>
  C16: Merging one range into a port set. From a well-formed set and a range \<open>lower \<le> upper\<close>
  that is not the range of port 0 alone (\<open>addable\<close>; on that one range the guard of the code is
  wrong, see \<open>merge_port_zero_overreaches\<close>), \<open>merge_portset\<close> either answers success with a
  well-formed set of exactly the union of the ports, or fails and leaves the set as it was.
  The allocator's live count follows the array: nothing leaks. With memory it succeeds.
\<close>

theorem merge_portset_correct:
  assumes "portset_ok p" "addable r" "merge_portset p r m = (failed, p', m')"
  shows "portset_ok p' \<and> ports p' = (if failed then ports p else ports p \<union> prng r) \<and>
    (failed \<longrightarrow> p' = p) \<and>
    allocs_used m' - portset_owns p' = allocs_used m - portset_owns p \<and>
    (plentiful m \<longrightarrow> \<not> failed)"
proof (intro conjI impI)
  show "portset_ok p'" by (rule pm.step_inv [OF assms])
  show "allocs_used m' - portset_owns p' = allocs_used m - portset_owns p"
    using pm.step_balance [OF assms] by simp
  show "p' = p" if failed using merge_portset_fails assms that by simp
  then show "ports p' = (if failed then ports p else ports p \<union> prng r)"
    using pm.step_adds [OF assms(1,2), of m p' m'] assms(3) by auto
  show "\<not> failed" if "plentiful m" using pm.step_plenty [OF assms(1,2) that] assms(3) by auto
qed

definition web_ports :: portset where
  "web_ports = \<lparr>pranges = [prange 80 80, prange 443 443, prange 8000 8100]\<rparr>"

lemma merge_portset_correct_witness:
  "ports (fst (snd (merge_portset web_ports (prange 81 8000) plenty_mem)))
     = ports web_ports \<union> prng (prange 81 8000)"
proof -
  obtain p' m' where mp: "merge_portset web_ports (prange 81 8000) plenty_mem = (False, p', m')"
    by (simp add: merge_portset_def web_ports_def remove_portset_def Let_def)
  have "ports p' = ports web_ports \<union> prng (prange 81 8000)"
    using merge_portset_correct [OF _ _ mp]
    by (simp add: web_ports_def portset_ok_def addable_def piv_def)
  with mp show ?thesis by simp
qed

text \<open>
  C2: Merging a whole port set whose ranges are all \<open>addable\<close>, that is, \<open>lower \<le> upper\<close> and not the
  range of port 0 alone (which \<open>merge_portset\<close> gets wrong: \<open>merge_port_zero_overreaches\<close>).
  \<open>merge_portsets\<close> is atomic: it works on a clone, so a failure of any allocation leaves the sum
  untouched and releases everything it had allocated; otherwise the sum is well formed and holds
  exactly the union. With memory it succeeds.
\<close>

theorem merge_portsets_atomic_union:
  assumes "portset_ok s" "\<forall>r \<in> set (pranges t). addable r"
    "merge_portsets s t m = (failed, s', m')"
  shows "(failed \<longrightarrow> s' = s) \<and> (\<not> failed \<longrightarrow> portset_ok s' \<and> ports s' = ports s \<union> ports t) \<and>
    allocs_used m' - portset_owns s' = allocs_used m - portset_owns s \<and>
    (plentiful m \<longrightarrow> \<not> failed)"
proof -
  note o = assms(3) [unfolded merge_portsets_def]
  have t: "ports t = (\<Union>r \<in> set (pranges t). prng r)"
  proof -
    have "covers (map piv rs) = (\<Union>r \<in> set rs. prng r)" for rs
      by (induction rs) (auto simp: piv_def prng_def)
    then show ?thesis by (simp add: ports_def)
  qed
  have "allocs_used m' = allocs_used m + portset_owns s' - portset_owns s"
    by (rule pm.on_clone_balance [OF assms(1,2) o])
  moreover have "plentiful m \<Longrightarrow> \<not> failed" using pm.on_clone_plenty [OF assms(1,2)] o by fastforce
  moreover have "failed \<Longrightarrow> s' = s" using pm.on_clone_atomic o by simp
  moreover have "portset_ok s' \<and> ports s' = ports s \<union> ports t" if "\<not> failed"
    using that pm.on_clone_inv [OF assms(1,2), of m s' m'] pm.on_clone_adds [OF assms(1,2), of m s' m'] o t
    by simp
  ultimately show ?thesis by auto
qed

definition high_ports :: portset where
  "high_ports = \<lparr>pranges = [prange 81 100, prange 8101 65535]\<rparr>"

lemma merge_portsets_atomic_union_witness:
  "merge_portsets web_ports high_ports scarce_mem = (True, web_ports, snd (snd (merge_portsets web_ports high_ports scarce_mem)))
   \<and> ports (fst (snd (merge_portsets web_ports high_ports plenty_mem))) = ports web_ports \<union> ports high_ports"
proof
  have pre: "portset_ok web_ports" "\<forall>r \<in> set (pranges high_ports). addable r"
    by (simp_all add: web_ports_def high_ports_def portset_ok_def addable_def piv_def)
  obtain f s' m' where s: "merge_portsets web_ports high_ports scarce_mem = (f, s', m')"
    by (cases "merge_portsets web_ports high_ports scarce_mem")
  have f by (rule ccontr)
    (use s in \<open>simp add: merge_portsets_def on_clone_def clone_portset_def web_ports_def Memdup_def
      mem_op_defs init_mem_def Let_def\<close>)
  with s merge_portsets_atomic_union [OF pre s]
  show "merge_portsets web_ports high_ports scarce_mem = (True, web_ports, snd (snd (merge_portsets web_ports high_ports scarce_mem)))"
    by simp
  obtain g u n where u: "merge_portsets web_ports high_ports plenty_mem = (g, u, n)"
    by (cases "merge_portsets web_ports high_ports plenty_mem")
  have "ports u = ports web_ports \<union> ports high_ports"
    using merge_portsets_atomic_union [OF pre u] by simp
  with u show "ports (fst (snd (merge_portsets web_ports high_ports plenty_mem))) = ports web_ports \<union> ports high_ports"
    by simp
qed

text \<open>
  C21: Cutting a range out of a port set leaves exactly the difference, or, when the one
  insertion it may need fails, the set as it was; the set stays well formed and the live
  count follows the array.
\<close>

theorem cut_portset_correct:
  assumes "portset_ok p" "plower r \<le> pupper r" "cut_portset p r m = (failed, p', m')"
  shows "portset_ok p' \<and> ports p' = (if failed then ports p else ports p - prng r) \<and>
    (failed \<longrightarrow> p' = p) \<and>
    allocs_used m' - portset_owns p' = allocs_used m - portset_owns p \<and>
    (plentiful m \<longrightarrow> \<not> failed)"
proof -
  from assms(2) have r: "prange_ok r" by (simp add: prange_ok_def)
  note spec = cut_portset_spec [OF assms(1) r assms(3)]
  have "\<not> failed \<Longrightarrow> ports p' = ports p - prng r"
    using pc.step_dels [OF assms(1) r, of m p' m'] assms(3) by simp
  with spec pc.step_inv [OF assms(1) r assms(3)] show ?thesis by auto
qed

lemma cut_portset_correct_witness:
  "ports (fst (snd (cut_portset web_ports (prange 443 8050) plenty_mem)))
     = ports web_ports - prng (prange 443 8050)"
proof -
  obtain f p' m' where c: "cut_portset web_ports (prange 443 8050) plenty_mem = (f, p', m')"
    by (cases "cut_portset web_ports (prange 443 8050) plenty_mem")
  have "ports p' = ports web_ports - prng (prange 443 8050)"
    using cut_portset_correct [OF _ _ c] by (simp add: web_ports_def portset_ok_def piv_def)
  with c show ?thesis by simp
qed

text \<open>
  On well-formed port sets the array answers for the set: the early-exit scan of
  \<open>contains_port\<close> decides membership, the bytewise comparison of \<open>portsets_equal\<close> decides
  equality of the two sets of ports, and \<open>portset_portcount\<close> counts them, modulo 2^16.
\<close>

lemma portset_queries_correct:
  assumes "portset_ok p" "portset_ok q"
  shows "(contains_port p x \<longleftrightarrow> uint x \<in> ports p) \<and>
    (portsets_equal p q \<longleftrightarrow> ports p = ports q) \<and>
    portset_portcount p = word_of_int (int (card (ports p)))"
proof (intro conjI)
  show "contains_port p x \<longleftrightarrow> uint x \<in> ports p"
    using assms(1) contains_port_loop_covers by (simp add: contains_port_def ports_def portset_ok_def)
  have "portsets_equal p q \<longleftrightarrow> pranges p = pranges q" by (auto simp: portsets_equal_def)
  then show "portsets_equal p q \<longleftrightarrow> ports p = ports q"
    using assms canonical_unique [of 0 65535 "map piv (pranges p)" 0 65535 "map piv (pranges q)"]
    by (auto simp: ports_def portset_ok_def map_piv_inject)
  show "portset_portcount p = word_of_int (int (card (ports p)))"
    using portcount_loop assms(1) by (simp add: portset_portcount_def ports_def portset_ok_def)
qed

lemma portset_queries_correct_example:
  "contains_port web_ports 8050 \<and> \<not> portsets_equal web_ports high_ports \<and>
   portset_portcount web_ports = word_of_int (int (card (ports web_ports)))"
proof -
  have ok: "portset_ok web_ports" "portset_ok high_ports"
    by (simp_all add: web_ports_def high_ports_def portset_ok_def piv_def)
  have "uint (8050 :: u16) \<in> ports web_ports" "80 \<in> ports web_ports" "80 \<notin> ports high_ports"
    by (simp_all add: web_ports_def high_ports_def ports_def piv_def)
  with portset_queries_correct [OF ok, of 8050] show ?thesis by auto
qed

text \<open>
  \<open>portset_cmp\<close> is a strict total order on port sets: zero exactly for equal arrays,
  antisymmetric and transitive, so that it can order a search tree.
\<close>

lemma portset_cmp_order:
  "(portset_cmp p q = 0 \<longleftrightarrow> pranges p = pranges q) \<and> portset_cmp q p = - portset_cmp p q \<and>
   (portset_cmp p q < 0 \<longrightarrow> portset_cmp q s < 0 \<longrightarrow> portset_cmp p s < 0)"
  unfolding portset_cmp_def portset_cmp_loop_zero
  using portset_cmp_loop_flip [of "pranges q" "pranges p"] portset_cmp_loop_trans
  by metis

lemma portset_cmp_order_witness:
  "portset_cmp web_ports init_portset = - portset_cmp init_portset web_ports \<and>
   portset_cmp init_portset high_ports < 0"
proof -
  have "portset_cmp init_portset web_ports < 0" "portset_cmp web_ports high_ports < 0"
    by (simp_all add: portset_cmp_def web_ports_def high_ports_def Let_def)
  with portset_cmp_order [of init_portset web_ports high_ports] show ?thesis by simp
qed

text \<open>
  The range of port 0 alone is not merged correctly. The guard on \<open>merge->upper\<close> that
  keeps \<open>merge->upper + 1\<close> apart from a wrapped value sends the range 0-0 to the branch of
  overlapping ranges, and the first range of the set grows down to 0: every port below the
  set is added.
\<close>

lemma merge_port_zero_overreaches:
  assumes "portset_ok p" "pranges p = r # rs" "1 < plower r"
  shows "merge_portset p (prange 0 0) m = (False, p\<lparr>pranges := prange 0 (pupper r) # rs\<rparr>, m)
    \<and> {0..uint (pupper r)} \<subseteq> ports (p\<lparr>pranges := prange 0 (pupper r) # rs\<rparr>)"
proof
  have "uint (plower r) > 1" using assms(3) by (simp add: word_less_def)
  then have "\<not> 0 < uint (pupper r) \<Longrightarrow> False" using assms(1,2) by (simp add: portset_ok_def piv_def)
  with assms show "merge_portset p (prange 0 0) m = (False, p\<lparr>pranges := prange 0 (pupper r) # rs\<rparr>, m)"
    by (auto simp: merge_portset_def Let_def word_int)
qed (auto simp: ports_def piv_def)

lemma merge_port_zero_overreaches_example:
  "fst (snd (merge_portset web_ports (prange 0 0) plenty_mem))
     = \<lparr>pranges = [prange 0 80, prange 443 443, prange 8000 8100]\<rparr>"
  using merge_port_zero_overreaches [of web_ports "prange 80 80" "[prange 443 443, prange 8000 8100]" plenty_mem]
  by (simp add: web_ports_def portset_ok_def piv_def)

end
