(* ===== verification/Parse.thy ===== *)
theory Parse
  imports Portset
begin

text \<open>
  The parsers of libdank/utils/parse.c and parse.h for white space, tokens, IPv4 addresses,
  ports and port ranges.

  A parser reads a string up to its NUL (its end, see \<open>peek\<close>) and answers how many bytes it
  took with the value it stored, or \<open>None\<close> for -1. The flag \<open>silent\<close> only chooses whether an
  error is logged. What a failing call leaves in its output parameter is read by no caller.
\<close>

subsection \<open>Decimal numbers as printf prints them\<close>

definition digit :: "nat \<Rightarrow> char" where
  "digit d = char_of (48 + d)"

fun dec :: "nat \<Rightarrow> string" where
  "dec n = (if n < 10 then [digit n] else dec (n div 10) @ [digit (n mod 10)])"

declare dec.simps [simp del]

subsection \<open>White space and tokens\<close>

definition parse_whitespace :: "string \<Rightarrow> nat" where
  "parse_whitespace text = length (takeWhile isspace text)"

definition is_key_char :: "char \<Rightarrow> bool" where
  "is_key_char c \<longleftrightarrow> \<not> isspace c \<and> isgraph c \<and> c \<noteq> CHR ''='' \<and> c \<noteq> CHR 0x22"

text \<open>The token's offset, if there is one, and the value of \<open>len\<close>, which counts the space too.\<close>

definition parse_next_graph :: "string \<Rightarrow> nat option \<times> nat" where
  "parse_next_graph buf =
     (let ws = parse_whitespace buf; toke = drop ws buf in
      if isgraph (peek toke)
      then (Some ws, ws + 1 + length (takeWhile (\<lambda>c. \<not> isspace c \<and> isgraph c) (tl toke)))
      else (None, ws))"

subsection \<open>Addresses\<close>

definition INET_ADDRSTRLEN :: nat where "INET_ADDRSTRLEN = 16"

definition INET_ADDRSTRMIN :: nat where "INET_ADDRSTRMIN = 7"

definition is_addr_char :: "char \<Rightarrow> bool" where
  "is_addr_char c \<longleftrightarrow> isdigit c \<or> c = CHR ''.''"

text \<open>
  \<open>Inet_pton\<close> is the C library's inet_pton for AF_INET, which is not under src/: the address
  in network byte order that a text stands for, if it does.
\<close>

definition parse_ipv4address :: "(string \<Rightarrow> u32 option) \<Rightarrow> string \<Rightarrow> (nat \<times> u32) option" where
  "parse_ipv4address Inet_pton buf =
     (let ws = parse_whitespace buf;
          iptext = drop ws buf;
          ipbuf = takeWhile is_addr_char (take (INET_ADDRSTRLEN - 1) iptext);
          b = length ipbuf
      in if b \<ge> INET_ADDRSTRLEN \<or> b < INET_ADDRSTRMIN then None
         else case Inet_pton ipbuf of None \<Rightarrow> None | Some s \<Rightarrow> Some (ws + b, s))"

subsection \<open>Ports\<close>

text \<open>
  \<open>p\<close> is an unsigned long that never exceeds 65535 before the next digit, so it cannot
  wrap; \<open>k\<close> counts the digits.
\<close>

fun port_scan :: "string \<Rightarrow> nat \<Rightarrow> nat \<Rightarrow> (nat \<times> nat) option" where
  "port_scan [] p k = Some (p, k)"
| "port_scan (c # cur) p k =
     (if isdigit c then
        let p' = p * 10 + (ccode c - 48)
        in if p' > 65535 then None else port_scan cur p' (Suc k)
      else Some (p, k))"

definition parse_port :: "string \<Rightarrow> (nat \<times> u16) option" where
  "parse_port buf =
     (case port_scan buf 0 0 of
        None \<Rightarrow> None
      | Some (p, k) \<Rightarrow> if k = 0 then None else Some (k, word_of_nat p))"

definition port_end :: "string \<Rightarrow> bool" where
  "port_end buf \<longleftrightarrow> isspace (peek buf) \<or> peek buf = CHR '','' \<or> peek buf = NUL \<or> peek buf = CHR 0x22"

definition parse_portrange :: "string \<Rightarrow> (nat \<times> portrange) option" where
  "parse_portrange start =
     (let finish = (\<lambda>n r. if port_end (drop n start) then Some (n, r) else None);
          ws = parse_whitespace start;
          buf = drop ws start
      in if peek buf = CHR '':'' \<or> peek buf = CHR ''-'' then
           (case parse_port (tl buf) of
              None \<Rightarrow> None
            | Some (i, u) \<Rightarrow> finish (ws + 1 + i) (prange 0 u))
         else
           (case parse_port buf of
              None \<Rightarrow> None
            | Some (i, l) \<Rightarrow>
                let b1 = drop i buf in
                if (peek b1 = CHR ''-'' \<or> peek b1 = CHR '':'') \<and> isdigit (peek (tl b1)) then
                  (case parse_port (tl b1) of
                     None \<Rightarrow> None
                   | Some (j, u) \<Rightarrow> finish (ws + i + 1 + j) (if l > u then prange u l else prange l u))
                else if peek b1 = CHR '':'' \<or> peek b1 = CHR ''-''
                then finish (ws + i + 1) (prange l 65535)
                else finish (ws + i) (prange l l)))"

subsection \<open>Lemmas\<close>

lemma ccode_digit [simp]: "d < 10 \<Longrightarrow> ccode (digit d) = 48 + d"
  by (simp add: digit_def ccode_def)

lemma isdigit_digit [simp]: "d < 10 \<Longrightarrow> isdigit (digit d)"
  by (simp add: isdigit_def)

lemma dec_nonempty [simp]: "dec n \<noteq> []"
  by (subst dec.simps) simp

lemma dec_digits: "c \<in> set (dec n) \<Longrightarrow> isdigit c"
  by (induction n rule: dec.induct) (subst (asm) (2) dec.simps, auto split: if_splits)

lemma isdigit_not_space: "isdigit c \<Longrightarrow> \<not> isspace c"
  by (auto simp: isdigit_def isspace_def)

lemma isdigit_peek_dec [simp]: "isdigit (peek (dec n @ s))"
  using dec_digits [of "hd (dec n)" n] dec_nonempty [of n] by (cases "dec n") auto

lemma parse_whitespace_none: "\<not> isspace (peek s) \<Longrightarrow> parse_whitespace s = 0"
  by (cases s) (auto simp: parse_whitespace_def)

lemma parse_whitespace_append:
  "\<forall>c \<in> set ws. isspace c \<Longrightarrow> \<not> isspace (peek t) \<Longrightarrow> drop (parse_whitespace (ws @ t)) (ws @ t) = t"
proof -
  assume a: "\<forall>c \<in> set ws. isspace c" "\<not> isspace (peek t)"
  have "takeWhile isspace (ws @ t) = ws"
    using a by (cases t) (auto simp: takeWhile_append takeWhile_eq_all_conv [THEN iffD2])
  then show ?thesis by (simp add: parse_whitespace_def)
qed

lemma port_scan_stops: "\<not> isdigit (peek s) \<Longrightarrow> port_scan s p k = Some (p, k)"
  by (cases s) auto

lemma port_scan_append:
  "\<forall>c \<in> set s. isdigit c \<Longrightarrow> port_scan s p k = Some (p', k') \<Longrightarrow> port_scan (s @ t) p k = port_scan t p' k'"
  by (induction s p k rule: port_scan.induct) (auto simp: Let_def split: if_splits)

lemma port_scan_dec: "n \<le> 65535 \<Longrightarrow> port_scan (dec n) 0 0 = Some (n, length (dec n))"
proof (induction n rule: dec.induct)
  case (1 n)
  show ?case
  proof (cases "n < 10")
    case True
    then show ?thesis by (simp add: dec.simps [of n])
  next
    case False
    then have "dec n = dec (n div 10) @ [digit (n mod 10)]" by (subst dec.simps) simp
    moreover have "port_scan (dec (n div 10)) 0 0 = Some (n div 10, length (dec (n div 10)))"
      using 1 False by simp
    ultimately show ?thesis
      using port_scan_append [of "dec (n div 10)" 0 0] dec_digits "1.prems" by simp
  qed
qed

lemma parse_port_dec:
  assumes "\<not> isdigit (peek t)"
  shows "parse_port (dec (unat x) @ t) = Some (length (dec (unat x)), x)"
proof -
  have "unat x \<le> 65535" using unsigned_less [of x, where ?'a = nat] by simp
  then have "port_scan (dec (unat x) @ t) 0 0 = Some (unat x, length (dec (unat x)))"
    using port_scan_append [of "dec (unat x)" 0 0 "unat x" _ t] dec_digits port_scan_dec
      port_scan_stops [OF assms] by simp
  then show ?thesis by (simp add: parse_port_def)
qed

lemma port_scan_bounds:
  "port_scan s p k = Some (p', k') \<Longrightarrow> k \<le> k' \<and> k' \<le> k + length s \<and> (p \<le> 65535 \<longrightarrow> p' \<le> 65535)"
  by (induction s p k rule: port_scan.induct) (auto simp: Let_def split: if_splits)

lemma parse_port_consumes: "parse_port s = Some (k, p) \<Longrightarrow> 0 < k \<and> k \<le> length s"
  using port_scan_bounds [of s 0 0] by (auto simp: parse_port_def split: option.splits if_splits)

lemma parse_whitespace_le: "parse_whitespace s \<le> length s"
  by (simp add: parse_whitespace_def length_takeWhile_le)

lemma parse_portrange_consumes:
  assumes "parse_portrange s = Some (n, r)"
  shows "0 < n \<and> n \<le> length s \<and> prange_ok r"
proof -
  let ?b = "drop (parse_whitespace s) s"
  have ws: "parse_whitespace s \<le> length s" by (rule parse_whitespace_le)
  note d = assms [unfolded parse_portrange_def Let_def]
  show ?thesis
  proof (cases "peek ?b = CHR '':'' \<or> peek ?b = CHR ''-''")
    case True
    then obtain i u where p: "parse_port (tl ?b) = Some (i, u)" "n = parse_whitespace s + 1 + i" "r = prange 0 u"
      using d by (auto split: option.splits if_splits)
    have "?b \<noteq> []" using True by (intro peek_nonempty) (auto simp: NUL_def)
    then have "parse_whitespace s < length s" by simp
    moreover from this have "n \<le> length s"
      using p(2) parse_port_consumes [OF p(1)] by (simp, linarith)
    ultimately show ?thesis using p by (simp add: prange_ok_def)
  next
    case False
    then obtain i l where p: "parse_port ?b = Some (i, l)" using d by (auto split: option.splits)
    note pc = parse_port_consumes [OF p]
    let ?b1 = "drop i ?b"
    consider j u where "peek ?b1 \<noteq> NUL" "parse_port (tl ?b1) = Some (j, u)" "n = parse_whitespace s + i + 1 + j"
        "r = (if l > u then prange u l else prange l u)"
      | "peek ?b1 \<noteq> NUL" "n = parse_whitespace s + i + 1" "r = prange l 65535"
      | "n = parse_whitespace s + i" "r = prange l l"
      using d False p by (auto simp: NUL_def split: option.splits if_splits)
    then show ?thesis
    proof cases
      case 1
      from peek_nonempty [OF 1(1)] have "parse_whitespace s + i < length s" by (auto simp: add.commute)
      with 1 parse_port_consumes [OF 1(2)] show ?thesis by (auto simp: prange_ok_def)
    next
      case 2
      from peek_nonempty [OF 2(1)] have "parse_whitespace s + i < length s" by (auto simp: add.commute)
      moreover have "l \<le> 65535" using uint_bounds(1) [of l] by (simp add: word_le_def)
      ultimately show ?thesis using 2 by (simp add: prange_ok_def)
    next
      case 3
      then have "n \<le> length s" using pc ws by (simp, linarith)
      with 3 pc show ?thesis by (simp add: prange_ok_def)
    qed
  qed
qed

text \<open>The text of a range, as \<open>stringize_portrange\<close> prints it, is parsed back.\<close>

definition range_pieces :: "portrange \<Rightarrow> string list" where
  "range_pieces r = dec (unat (plower r)) #
     (if plower r \<noteq> pupper r then [CHR ''-'' # dec (unat (pupper r))] else [])"

lemma parse_portrange_text:
  assumes "prange_ok r" "port_end t" "\<not> isdigit (peek t)" "peek t \<noteq> CHR ''-''" "peek t \<noteq> CHR '':''"
  shows "parse_portrange (concat (range_pieces r) @ t) = Some (length (concat (range_pieces r)), r)"
proof -
  let ?s = "concat (range_pieces r) @ t"
  have dig: "isdigit (peek ?s)" by (simp add: range_pieces_def)
  then have ws: "parse_whitespace ?s = 0"
    by (intro parse_whitespace_none isdigit_not_space)
  have col: "peek ?s \<noteq> CHR '':''" "peek ?s \<noteq> CHR ''-''"
    using dig by (auto simp: isdigit_def ccode_def)
  show ?thesis
  proof (cases "plower r = pupper r")
    case True
    then have "parse_port ?s = Some (length (dec (unat (plower r))), plower r)"
      using parse_port_dec [OF assms(3)] by (simp add: range_pieces_def)
    with assms ws col True show ?thesis
      by (cases r) (simp add: parse_portrange_def Let_def range_pieces_def)
  next
    case False
    let ?t = "CHR ''-'' # dec (unat (pupper r)) @ t"
    have "\<not> isdigit (peek ?t)" by (simp add: isdigit_def ccode_def)
    from parse_port_dec [OF this] False
    have "parse_port ?s = Some (length (dec (unat (plower r))), plower r)"
      by (simp add: range_pieces_def)
    moreover have "parse_port (dec (unat (pupper r)) @ t) = Some (length (dec (unat (pupper r))), pupper r)"
      by (rule parse_port_dec [OF assms(3)])
    ultimately show ?thesis using assms ws col False
      by (cases r) (auto simp: parse_portrange_def Let_def range_pieces_def prange_ok_def)
  qed
qed

end
