(* ===== verification/Portset_Text.thy ===== *)
theory Portset_Text
  imports Parse
begin

text \<open>
  The text form of port sets: \<open>stringize_portset\<close> and \<open>parse_portset\<close> of portset.c, and
  the round trip between them.
\<close>

subsection \<open>Printing\<close>

definition stringize_portrange :: "ustring \<Rightarrow> portrange \<Rightarrow> mem \<Rightarrow> bool \<times> ustring \<times> mem" where
  "stringize_portrange u pr m =
     (case print_step (dec (unat (plower pr))) u m of
        (True, u1, m1) \<Rightarrow> (True, u1, m1)
      | (False, u1, m1) \<Rightarrow>
          if plower pr \<noteq> pupper pr then print_step (CHR ''-'' # dec (unat (pupper pr))) u1 m1
          else (False, u1, m1))"

fun stringize_ranges :: "nat \<Rightarrow> portrange list \<Rightarrow> ustring \<Rightarrow> mem \<Rightarrow> bool \<times> ustring \<times> mem" where
  "stringize_ranges z [] u m = (False, u, m)"
| "stringize_ranges z (r # rs) u m =
     (case (if z \<noteq> 0 then print_step '','' u m else (False, u, m)) of
        (True, u1, m1) \<Rightarrow> (True, u1, m1)
      | (False, u1, m1) \<Rightarrow>
          (case stringize_portrange u1 r m1 of
             (True, u2, m2) \<Rightarrow> (True, u2, m2)
           | (False, u2, m2) \<Rightarrow> stringize_ranges (Suc z) rs u2 m2))"

definition stringize_portset :: "ustring \<Rightarrow> portset \<Rightarrow> mem \<Rightarrow> bool \<times> ustring \<times> mem" where
  "stringize_portset u ps m =
     (if portset_empty ps then print_step ''none'' u m
      else if portset_complete ps then print_step ''any'' u m
      else stringize_ranges 0 (pranges ps) u m)"

subsection \<open>Parsing\<close>

text \<open>
  The loop of \<open>parse_numeric_ports\<close> over the rest of the text, with the flag \<open>need_portset\<close>
  and the set collected so far. A failing merge is the first component \<open>True\<close>.
\<close>

function numeric_loop :: "string \<Rightarrow> bool \<Rightarrow> portset \<Rightarrow> mem \<Rightarrow> bool \<times> string \<times> bool \<times> portset \<times> mem" where
  "numeric_loop buf need tmp m =
     (case parse_portrange buf of
        None \<Rightarrow> (False, buf, need, tmp, m)
      | Some (i, pr) \<Rightarrow>
          (case merge_portset tmp pr m of
             (True, tmp1, m1) \<Rightarrow> (True, buf, need, tmp1, m1)
           | (False, tmp1, m1) \<Rightarrow>
               if peek (drop i buf) = CHR '','' then numeric_loop (drop (i + 1) buf) need tmp1 m1
               else numeric_loop (drop i buf) False tmp1 m1))"
  by pat_completeness auto
termination
  by (relation "measure (\<lambda>(buf, need, tmp, m). length buf)")
    (auto dest!: parse_portrange_consumes)

declare numeric_loop.simps [simp del]

text \<open>
  \<open>parse_numeric_ports\<close>: the set on the heap (\<open>sizeof (portset)\<close> is 16) and the rest of the
  text, or \<open>None\<close> with the text where it started.
\<close>

definition parse_numeric_ports :: "string \<Rightarrow> mem \<Rightarrow> portset option \<times> string \<times> mem" where
  "parse_numeric_ports start m =
     (case numeric_loop start True init_portset m of
        (True, buf, need, tmp, m1) \<Rightarrow> (None, start, snd (free_portset tmp m1))
      | (False, buf, need, tmp, m1) \<Rightarrow>
          if need then (None, start, snd (free_portset tmp m1))
          else case Memdup tmp 16 m1 of
                 (None, m2) \<Rightarrow> (None, buf, snd (free_portset tmp m2))
               | (Some ps, m2) \<Rightarrow> (Some ps, buf, m2))"

text \<open>
  \<open>parse_portset\<close> answers the number of bytes parsed, or \<open>None\<close> for -1, with the set that
  \<open>pt\<close> holds afterwards.
\<close>

definition parse_portset :: "string \<Rightarrow> portset \<Rightarrow> mem \<Rightarrow> nat option \<times> portset \<times> mem" where
  "parse_portset start pt m =
     (let err = (\<lambda>p m. case free_portset p m of (p', m') \<Rightarrow> (None, p', m'));
          ws = parse_whitespace start;
          invert = (peek (drop ws start) = CHR ''!'');
          b = (if invert then ws + 1 else ws);
          off = b + parse_whitespace (drop b start);
          text = drop off start
      in if casepfx text ''any'' then
           (if invert then err pt m
            else case merge_portset pt PORTRANGE_ALL m of
                   (True, p1, m1) \<Rightarrow> err p1 m1
                 | (False, p1, m1) \<Rightarrow> (Some (off + 3), p1, m1))
         else if casepfx text ''none'' then
           (if invert then err pt m else (Some (off + 4), pt, m))
         else
           (case parse_numeric_ports text m of
              (None, _, m1) \<Rightarrow> err pt m1
            | (Some ps, rest, m1) \<Rightarrow>
                let consumed = length start - length rest;
                    answer = (\<lambda>p m. if pranges p = [] then (None, p, m) else (Some consumed, p, m))
                in if invert then
                     (case merge_portset pt PORTRANGE_ALL m1 of
                        (True, p1, m2) \<Rightarrow> err p1 (Free True (snd (free_portset ps m2)))
                      | (False, p1, m2) \<Rightarrow>
                          (case for_each (\<lambda>r p m. cut_portset p r m) (pranges ps) p1 m2 of
                             (True, p2, m3) \<Rightarrow> err p2 (Free True (snd (free_portset ps m3)))
                           | (False, p2, m3) \<Rightarrow>
                               answer p2 (Free True (snd (free_portset ps m3)))))
                   else answer ps (Free True (snd (free_portset pt m1)))))"

subsection \<open>What parsing does to the set and the allocator\<close>

lemma merge_portset_zero:
  assumes "portset_ok p" "merge_portset p (prange 0 0) m = (False, p', m')"
  shows "portset_ok p'"
proof (cases "pranges p")
  case Nil
  then have "append_portset p (prange 0 0) m = (False, p', m')"
    using assms(2) by (simp add: merge_portset_def)
  then have "pranges p' = [prange 0 0]" by (cases rule: append_portset_cases) (use Nil in auto)
  then show ?thesis by (simp add: portset_ok_def piv_def)
next
  case (Cons cur rs)
  let ?cur = "if plower cur \<noteq> 0 then cur\<lparr>plower := 0\<rparr> else cur"
  have "0 \<le> uint (plower cur) - 1" if "plower cur \<noteq> 0"
    using that unsigned_greater_eq [where ?'a = int, of "plower cur"]
    unfolding word_int by linarith
  with assms(2) Cons have "p' = p\<lparr>pranges := ?cur # rs\<rparr>"
    by (auto simp: merge_portset_def Let_def split: if_splits)
  with assms(1) Cons show ?thesis by (auto simp: portset_ok_def piv_def)
qed

lemma merge_portset_keeps:
  assumes "portset_ok p" "prange_ok r" "merge_portset p r m = (e, p', m')"
  shows "portset_ok p'"
proof (cases "addable r")
  case True
  with assms show ?thesis using merge_portset_inv by blast
next
  case False
  with assms(2) have "pupper r = 0" "plower r = 0" by (auto simp: addable_def prange_ok_def)
  then have r: "r = prange 0 0" by (cases r) simp
  show ?thesis
  proof (cases e)
    case True
    with assms merge_portset_fails [of p r m p' m'] show ?thesis by simp
  next
    case False
    with assms r merge_portset_zero [of p m p' m'] show ?thesis by simp
  qed
qed

lemma PORTRANGE_ALL_ok [simp]: "prange_ok PORTRANGE_ALL" "addable PORTRANGE_ALL"
  by (simp_all add: PORTRANGE_ALL_def prange_ok_def addable_def)

lemma numeric_loop_ok:
  "portset_ok tmp \<Longrightarrow> numeric_loop buf need tmp m = (e, rest, need', p, m') \<Longrightarrow>
   portset_ok p \<and> allocs_used m' = allocs_used m + portset_owns p - portset_owns tmp"
proof (induction buf need tmp m rule: numeric_loop.induct)
  case (1 buf need tmp m)
  show ?case
  proof (cases "parse_portrange buf")
    case None
    with 1 show ?thesis by (simp add: numeric_loop.simps [of buf])
  next
    case (Some ir)
    obtain i r where ir: "ir = (i, r)" by (cases ir)
    note pr = Some [unfolded ir]
    obtain e1 p1 m1 where mp: "merge_portset tmp r m = (e1, p1, m1)" by (cases "merge_portset tmp r m")
    from parse_portrange_consumes [OF pr] have i: "prange_ok r" by simp
    have p1: "portset_ok p1" "allocs_used m1 = allocs_used m + portset_owns p1 - portset_owns tmp"
      using merge_portset_keeps [OF "1.prems"(1) i mp] merge_portset_balance [OF "1.prems"(1) mp] by simp_all
    show ?thesis
    proof (cases e1)
      case True
      with "1.prems"(2) p1 show ?thesis
        by (simp add: numeric_loop.simps [of buf] pr mp)
    next
      case False
      then have e1: "e1 = False" by simp
      note IH = "1.IH" [OF pr refl mp [symmetric]]
      show ?thesis
      proof (cases "peek (drop i buf) = CHR '',''")
        case True
        with "1.prems"(2) False have "numeric_loop (drop (i + 1) buf) need p1 m1 = (e, rest, need', p, m')"
          by (simp add: numeric_loop.simps [of buf] pr mp)
        from IH(1) [OF e1 refl True p1(1) this] False p1(2) show ?thesis by simp
      next
        case sep: False
        with "1.prems"(2) False have "numeric_loop (drop i buf) False p1 m1 = (e, rest, need', p, m')"
          by (simp add: numeric_loop.simps [of buf] pr mp)
        from IH(2) [OF e1 refl sep p1(1) this] False p1(2) show ?thesis by simp
      qed
    qed
  qed
qed

lemma parse_numeric_ports_ok:
  assumes "parse_numeric_ports text m = (po, rest, m')"
  shows "allocs_used m' = allocs_used m + (case po of None \<Rightarrow> 0 | Some ps \<Rightarrow> portset_owns ps + 1) \<and>
    (\<forall>ps. po = Some ps \<longrightarrow> portset_ok ps)"
proof -
  obtain e buf need tmp m1 where nl: "numeric_loop text True init_portset m = (e, buf, need, tmp, m1)"
    by (cases "numeric_loop text True init_portset m")
  from numeric_loop_ok [OF _ nl]
  have ok: "portset_ok tmp" "allocs_used m1 = allocs_used m + portset_owns tmp" by simp_all
  obtain x m2 where md: "Memdup tmp 16 m1 = (x, m2)" by (cases "Memdup tmp 16 m1")
  consider "po = None" "m' = snd (free_portset tmp m1)"
    | "po = None" "m' = snd (free_portset tmp m2)" "x = None" | ps where "po = Some ps" "m' = m2" "x = Some ps"
    using assms nl md by (auto simp: parse_numeric_ports_def split: if_splits bool.splits option.splits)
  then show ?thesis
    by cases (use ok Memdup_used [OF md] Memdup_Some [of tmp 16 m1 _ m2] md in auto)
qed

lemma portset_ok_prange_ok:
  assumes "portset_ok p" shows "\<forall>r \<in> set (pranges p). prange_ok r"
proof -
  have "wf_from lo 65535 (map piv rs) \<Longrightarrow> \<forall>r \<in> set rs. prange_ok r" for lo rs
    by (induction rs arbitrary: lo) (auto simp: piv_def [of "_ :: portrange"] prange_ok_def word_int)
  with assms show ?thesis by (simp add: portset_ok_def)
qed

lemma cut_all_ok:
  assumes "portset_ok p" "portset_ok ps" "for_each (\<lambda>r p m. cut_portset p r m) (pranges ps) p m = (e, p', m')"
  shows "portset_ok p' \<and> allocs_used m' = allocs_used m + portset_owns p' - portset_owns p"
  using pc.loop_inv [OF assms(1) portset_ok_prange_ok [OF assms(2)] assms(3)]
    pc.loop_balance [OF assms(1) portset_ok_prange_ok [OF assms(2)] assms(3)] by simp

text \<open>
  Whatever the text, \<open>parse_portset\<close> leaves a well-formed set and loses no memory: the
  live count moves exactly as the set's own array, on every error path and with every
  allocation that may fail. On failure the set is empty; on success the answer is a number
  of bytes of the text.
\<close>

lemma parse_portset_safe:
  assumes "portset_ok p" "parse_portset text p m = (res, p', m')"
  shows "portset_ok p' \<and> allocs_used m' - portset_owns p' = allocs_used m - portset_owns p \<and>
    (res = None \<longrightarrow> pranges p' = []) \<and> (\<forall>n. res = Some n \<longrightarrow> n \<le> length text)"
proof -
  let ?ok = "\<lambda>(res, p', m'). portset_ok p' \<and> allocs_used m' - portset_owns p' = allocs_used m - portset_owns p \<and>
    (res = None \<longrightarrow> pranges p' = []) \<and> (\<forall>n. res = Some n \<longrightarrow> n \<le> length text)"
  define err where "err = (\<lambda>p m. case free_portset p m of (p', m') \<Rightarrow> (None :: nat option, p', m'))"
  define ws where "ws = parse_whitespace text"
  define invert where "invert = (peek (drop ws text) = CHR ''!'')"
  define b where "b = (if invert then ws + 1 else ws)"
  define off where "off = b + parse_whitespace (drop b text)"
  have err: "?ok (err q n)" if "portset_ok q" "allocs_used n - portset_owns q = allocs_used m - portset_owns p" for q n
    using that by (simp add: err_def free_portset_def portset_owns_def)
  have kw: "off + length k \<le> length text" if "casepfx (drop off text) k" "cstr k" "k \<noteq> []" for k
  proof -
    have "length k \<le> length (drop off text)" using casepfx_length [OF that(2,1)] .
    moreover have "0 < length k" using that(3) by simp
    ultimately show ?thesis by (simp, linarith)
  qed
  note kw = kw [of "''any''"] kw [of "''none''"]
  have all: "portset_ok q \<and> allocs_used n' = allocs_used n + portset_owns q - portset_owns p"
    if "merge_portset p PORTRANGE_ALL n = (e, q, n')" for n e q n'
    using merge_portset_keeps [OF assms(1) PORTRANGE_ALL_ok(1) that] merge_portset_balance [OF assms(1) that]
    by simp
  have "?ok (parse_portset text p m)"
    unfolding parse_portset_def Let_def err_def [symmetric] ws_def [symmetric] invert_def [symmetric]
      b_def [symmetric] off_def [symmetric]
  proof (split if_split, intro conjI impI, goal_cases any other)
    case any
    obtain e1 p1 m1 where mp: "merge_portset p PORTRANGE_ALL m = (e1, p1, m1)"
      by (cases "merge_portset p PORTRANGE_ALL m")
    from all [OF mp] err [OF assms(1), of m] err [of p1 m1] kw(1) any show ?case
      by (cases e1) (simp_all add: mp NUL_def)
  next
    case other
    show ?case
    proof (split if_split, intro conjI impI, goal_cases none numeric)
      case none
      with err [OF assms(1)] assms(1) kw(2) show ?case by (simp add: NUL_def)
    next
      case numeric
      obtain po rest m2 where np: "parse_numeric_ports (drop off text) m = (po, rest, m2)"
        by (cases "parse_numeric_ports (drop off text) m")
      note npok = parse_numeric_ports_ok [OF np]
      show ?case
      proof (cases po)
        case None
        with np npok assms(1) err [of p m2] show ?thesis by simp
      next
        case (Some ps)
        with npok have ps: "portset_ok ps" "allocs_used m2 = allocs_used m + portset_owns ps + 1" by simp_all
        obtain e1 p1 m3 where mp: "merge_portset p PORTRANGE_ALL m2 = (e1, p1, m3)"
          by (cases "merge_portset p PORTRANGE_ALL m2")
        obtain e2 p2 m4 where ct: "for_each (\<lambda>r p m. cut_portset p r m) (pranges ps) p1 m3 = (e2, p2, m4)"
          by (cases "for_each (\<lambda>r p m. cut_portset p r m) (pranges ps) p1 m3")
        note p1 = all [OF mp]
        with cut_all_ok [OF _ ps(1) ct] have p2: "portset_ok p2"
          "allocs_used m4 = allocs_used m3 + portset_owns p2 - portset_owns p1" by simp_all
        have rel: "allocs_used (Free True n) = allocs_used n - 1" for n by (simp add: Free_def)
        show ?thesis
          using np Some ps p1 p2 mp ct err [of p1] err [of p2] rel
          by (cases e1; cases e2) (auto simp: portset_owns_def)
      qed
    qed
  qed
  with assms(2) show ?thesis by simp
qed

subsection \<open>The text of a set, and parsing it back\<close>

fun set_pieces :: "nat \<Rightarrow> portrange list \<Rightarrow> string list" where
  "set_pieces z [] = []"
| "set_pieces z (r # rs) = (if z \<noteq> 0 then ['',''] else []) @ range_pieces r @ set_pieces (Suc z) rs"

definition portset_pieces :: "portset \<Rightarrow> string list" where
  "portset_pieces p =
     (if portset_empty p then [''none''] else if portset_complete p then [''any'']
      else set_pieces 0 (pranges p))"

lemma stringize_portrange_pieces: "stringize_portrange u r m = for_each print_step (range_pieces r) u m"
  by (auto simp: stringize_portrange_def range_pieces_def split: prod.splits bool.splits)

lemma stringize_ranges_pieces: "stringize_ranges z rs u m = for_each print_step (set_pieces z rs) u m"
  by (induction z rs u m rule: stringize_ranges.induct)
    (auto simp: for_each_append stringize_portrange_pieces split: prod.splits bool.splits)

lemma stringize_portset_pieces: "stringize_portset u p m = for_each print_step (portset_pieces p) u m"
  by (auto simp: stringize_portset_def portset_pieces_def stringize_ranges_pieces split: prod.splits bool.splits)

lemma set_pieces_Suc:
  "concat (set_pieces (Suc z) rs) = (if rs = [] then [] else CHR '','' # concat (set_pieces 0 rs))"
proof -
  have later: "set_pieces (Suc z) rs = set_pieces (Suc 0) rs" for z rs
  proof (induction rs arbitrary: z)
    case (Cons r rs)
    from Cons.IH [of "Suc z"] Cons.IH [of "Suc 0"] show ?case by simp
  qed simp
  show ?thesis
  proof (cases rs)
    case (Cons r rs')
    from later [of z rs] later [of 1 rs'] Cons show ?thesis by simp
  qed simp
qed

lemma merge_skip_all:
  "wf_from lo 65535 (map piv (rs @ [r])) \<Longrightarrow> merge_skip r rs = length rs"
proof (induction rs arbitrary: lo)
  case (Cons c rs)
  then have wf: "wf_from (uint (pupper c) + 2) 65535 (map piv (rs @ [r]))"
    by (simp add: piv_def [of c])
  then have "wf_from (uint (pupper c) + 2) 65535 [piv r]"
    using wf_from_append_right [of _ _ "map piv rs" "[piv r]"] by simp
  then have "uint (pupper c) + 2 \<le> uint (plower r)" by (simp add: piv_def)
  moreover have "uint (pupper c) \<noteq> 65535"
    using calculation uint_bounds(1) [of "plower r"] by linarith
  ultimately show ?case using Cons.IH [OF wf] by (simp add: word_int)
qed simp

lemma merge_portset_appends:
  assumes "wf_from lo 65535 (map piv (pranges p @ [r]))" "plentiful m"
  shows "\<exists>m'. merge_portset p r m = (False, p\<lparr>pranges := pranges p @ [r]\<rparr>, m') \<and> plentiful m'"
proof -
  from append_portset_plenty [OF assms(2), of p r] obtain p' m'
    where a: "append_portset p r m = (False, p', m')" "plentiful m'" by auto
  from a(1) have "pranges p' = pranges p @ [r]" by (cases rule: append_portset_cases) auto
  then have "p' = p\<lparr>pranges := pranges p @ [r]\<rparr>" by (cases p'; cases p) simp
  with a merge_skip_all [OF assms(1)] show ?thesis by (simp add: merge_portset_def)
qed

lemma numeric_loop_text:
  "rs \<noteq> [] \<Longrightarrow> wf_from 0 65535 (map piv (pranges tmp @ rs)) \<Longrightarrow> plentiful m \<Longrightarrow>
   \<exists>m'. numeric_loop (concat (set_pieces 0 rs)) True tmp m
     = (False, [], False, tmp\<lparr>pranges := pranges tmp @ rs\<rparr>, m') \<and> plentiful m'"
proof (induction rs arbitrary: tmp m)
  case (Cons r rs)
  let ?rest = "concat (set_pieces (Suc 0) rs)"
  let ?tmp = "tmp\<lparr>pranges := pranges tmp @ [r]\<rparr>"
  have tx: "concat (set_pieces 0 (r # rs)) = concat (range_pieces r) @ ?rest" by simp
  have "wf_from 0 65535 (map piv (pranges tmp @ [r]) @ map piv rs)" using Cons.prems(2) by simp
  then have wf: "wf_from 0 65535 (map piv (pranges tmp @ [r]))" by (rule wf_from_append_left)
  obtain m1 where mp: "merge_portset tmp r m = (False, ?tmp, m1)" "plentiful m1"
    using merge_portset_appends [OF wf Cons.prems(3)] by auto
  have "wf_from 0 65535 [piv r]"
    using wf wf_from_append_right [of 0 65535 "map piv (pranges tmp)" "[piv r]"] by simp
  then have r: "prange_ok r" by (simp add: piv_def prange_ok_def word_int)
  have pk: "peek ?rest = (if rs = [] then NUL else CHR '','')" by (simp add: set_pieces_Suc)
  have "parse_portrange (concat (range_pieces r) @ ?rest) = Some (length (concat (range_pieces r)), r)"
    by (rule parse_portrange_text [OF r]) (simp_all add: pk port_end_def NUL_def isdigit_def ccode_def)
  then have step: "numeric_loop (concat (set_pieces 0 (r # rs))) True tmp m =
      (if peek ?rest = CHR '','' then numeric_loop (tl ?rest) True ?tmp m1 else numeric_loop ?rest False ?tmp m1)"
    unfolding tx by (subst numeric_loop.simps) (simp add: mp drop_Suc flip: drop_drop tl_drop)
  show ?case
  proof (cases "rs = []")
    case True
    have "parse_portrange [] = None" by (simp add: parse_portrange_def parse_port_def parse_whitespace_def Let_def NUL_def)
    with step True mp(2) show ?thesis by (simp add: pk NUL_def numeric_loop.simps [of "[]"])
  next
    case False
    from Cons.IH [OF False _ mp(2), of ?tmp] Cons.prems(2) obtain m2 where
      "numeric_loop (concat (set_pieces 0 rs)) True ?tmp m1
        = (False, [], False, tmp\<lparr>pranges := pranges tmp @ r # rs\<rparr>, m2)" "plentiful m2" by auto
    with step False show ?thesis by (simp add: pk set_pieces_Suc)
  qed
qed simp

text \<open>
  C15: Printing a port set and parsing the text gives the set back. For every well-formed
  set, the empty and the complete one with their keywords included, and an allocator with
  memory, \<open>stringize_portset\<close> into an empty ustring succeeds and \<open>parse_portset\<close> of what it
  printed takes the whole text and returns the same array.
\<close>

theorem portset_roundtrip:
  assumes "portset_ok p" "ustring_ok u" "us_text u = []" "plentiful m"
  shows "\<exists>u' m1 m2. stringize_portset u p m = (False, u', m1) \<and>
    parse_portset (us_text u') init_portset m1 = (Some (length (us_text u')), p, m2)"
proof -
  obtain u' m1 where st: "stringize_portset u p m = (False, u', m1)" and m1: "plentiful m1"
    using us.loop_plenty [OF assms(2) _ assms(4), of "portset_pieces p"] by (auto simp: stringize_portset_pieces)
  then have tx: "us_text u' = concat (portset_pieces p)"
    using print_loop_text [OF assms(2)] assms(3) by (simp add: stringize_portset_pieces)
  obtain m2 where "parse_portset (concat (portset_pieces p)) init_portset m1
      = (Some (length (concat (portset_pieces p))), p, m2)"
  proof -
    consider (none) "portset_empty p" | (any) "\<not> portset_empty p" "portset_complete p"
      | (ranges) "\<not> portset_empty p" "\<not> portset_complete p" by blast
    then show ?thesis
    proof cases
      case none
      then have "p = init_portset" by (cases p) (simp add: portset_empty_def init_portset_def)
      then show ?thesis using none
        by (intro that [of m1]) (simp add: portset_pieces_def parse_portset_def parse_whitespace_def
            isspace_def ccode_def Let_def tolower_def isupper_def)
    next
      case any
      then have p: "p = init_portset\<lparr>pranges := pranges init_portset @ [PORTRANGE_ALL]\<rparr>"
        by (cases p; cases "pranges p") (auto simp: portset_complete_def init_portset_def PORTRANGE_ALL_def)
      from merge_portset_appends [of 0 init_portset PORTRANGE_ALL m1] m1
      obtain m2 where "merge_portset init_portset PORTRANGE_ALL m1 = (False, p, m2)"
        unfolding p by (auto simp: piv_def PORTRANGE_ALL_def)
      then show ?thesis using any
        by (intro that [of m2]) (simp add: portset_pieces_def parse_portset_def parse_whitespace_def
            isspace_def ccode_def Let_def tolower_def isupper_def)
    next
      case ranges
      let ?t = "concat (set_pieces 0 (pranges p))"
      have ne: "pranges p \<noteq> []" using ranges(1) by (auto simp: portset_empty_def)
      then have dig: "isdigit (peek ?t)" by (cases "pranges p") (simp_all add: range_pieces_def)
      have p: "init_portset\<lparr>pranges := pranges init_portset @ pranges p\<rparr> = p"
        by (cases p) (simp add: init_portset_def)
      from numeric_loop_text [of "pranges p" init_portset m1, unfolded p] ne assms(1) m1 obtain m2
        where nl: "numeric_loop ?t True init_portset m1 = (False, [], False, p, m2)" and m2: "plentiful m2"
        by (auto simp: portset_ok_def)
      obtain m3 where "Memdup p 16 m2 = (Some p, m3)" using Memdup_plentiful [OF m2, of 16 p] by auto
      with nl have np: "parse_numeric_ports ?t m1 = (Some p, [], m3)" by (simp add: parse_numeric_ports_def)
      have "parse_whitespace ?t = 0" by (rule parse_whitespace_none [OF isdigit_not_space [OF dig]])
      moreover have "peek ?t \<noteq> CHR ''!''" using dig by (auto simp: isdigit_def ccode_def)
      moreover have "\<not> casepfx ?t ''any''" "\<not> casepfx ?t ''none''"
        using dig by (auto simp: isdigit_def tolower_def isupper_def ccode_def)
      ultimately show ?thesis using np ne ranges
        by (intro that) (simp add: parse_portset_def Let_def portset_pieces_def del: casepfx.simps)
    qed
  qed
  with st tx show ?thesis by auto
qed

lemma portset_roundtrip_witness:
  "\<exists>u' m1 m2. stringize_portset init_ustring web_ports plenty_mem = (False, u', m1) \<and>
    parse_portset (us_text u') init_portset m1 = (Some (length (us_text u')), web_ports, m2)"
  by (rule portset_roundtrip) (simp_all add: web_ports_def portset_ok_def piv_def init_ustring_def ustring_ok_def)

lemma parse_portset_safe_example:
  "\<exists>res p' m'. parse_portset ''!80,443'' web_ports plenty_mem = (res, p', m') \<and>
     portset_ok p' \<and> allocs_used m' - portset_owns p' = -1"
proof -
  obtain res p' m' where ps: "parse_portset ''!80,443'' web_ports plenty_mem = (res, p', m')"
    by (cases "parse_portset ''!80,443'' web_ports plenty_mem")
  have "portset_ok web_ports" "portset_owns web_ports = 1"
    by (simp_all add: web_ports_def portset_ok_def piv_def portset_owns_def)
  with parse_portset_safe [OF _ ps] have "portset_ok p'" "allocs_used m' - portset_owns p' = -1"
    by (simp_all add: init_mem_def)
  with ps show ?thesis by blast
qed

end
