(* ===== verification/Ipset.thy ===== *)
theory Ipset
  imports Ranges Strings
begin

text \<open>
  The IPv4 sets of libdank/objects/ipset.c and ipset.h: an array of closed ranges of 32-bit
  addresses in host byte order, with the capacity \<open>maxranges\<close> the code believes the array
  has. \<open>rangecount\<close> is the length of the list. The sums and differences are 32-bit words that
  wrap, as in the code.

  The member \<open>iblock\<close> is not in the struct: it is the number of ranges the heap block really
  holds (0 for the null pointer). The set overruns its block when there are more ranges than
  that.
\<close>

subsection \<open>Data\<close>

record iprange =
  ilower :: u32
  iupper :: u32

record ipset =
  iranges :: "iprange list"
  maxranges :: nat
  iblock :: nat

abbreviation irange :: "u32 \<Rightarrow> u32 \<Rightarrow> iprange" where
  "irange l u \<equiv> \<lparr>ilower = l, iupper = u\<rparr>"

definition IPRANGE_ALL :: iprange where
  "IPRANGE_ALL = irange 0 0xffffffff"

definition init_iprange :: "u32 \<Rightarrow> u32 \<Rightarrow> iprange" where
  "init_iprange l u = (if l > u then irange u l else irange l u)"

definition init_ipset :: ipset where
  "init_ipset = \<lparr>iranges = [], maxranges = 0, iblock = 0\<rparr>"

definition free_ipset :: "ipset \<Rightarrow> mem \<Rightarrow> ipset \<times> mem" where
  "free_ipset is m = (init_ipset, Free (iblock is \<noteq> 0) m)"

subsection \<open>Queries\<close>

definition ip_in_range :: "iprange \<Rightarrow> u32 \<Rightarrow> bool" where
  "ip_in_range ir ip \<longleftrightarrow> ip \<ge> ilower ir \<and> ip \<le> iupper ir"

definition ipranges_equal :: "iprange \<Rightarrow> iprange \<Rightarrow> bool" where
  "ipranges_equal i0 i1 \<longleftrightarrow> ilower i0 = ilower i1 \<and> iupper i0 = iupper i1"

fun ip_in_set_loop :: "iprange list \<Rightarrow> u32 \<Rightarrow> bool" where
  "ip_in_set_loop [] ip = False"
| "ip_in_set_loop (r # rs) ip =
     (if ip < ilower r then False else if ip \<le> iupper r then True else ip_in_set_loop rs ip)"

definition ip_in_set :: "ipset \<Rightarrow> u32 \<Rightarrow> bool" where
  "ip_in_set is ip = ip_in_set_loop (iranges is) ip"

definition ipset_is_singleton :: "ipset \<Rightarrow> u32 option" where
  "ipset_is_singleton is =
     (if length (iranges is) \<noteq> 1 then None
      else if ilower (iranges is ! 0) \<noteq> iupper (iranges is ! 0) then None
      else Some (ilower (iranges is ! 0)))"

fun clashes_loop :: "iprange list \<Rightarrow> iprange \<Rightarrow> bool" where
  "clashes_loop [] ir = False"
| "clashes_loop (cur # rs) ir =
     (if iupper ir \<le> iupper cur \<and> iupper ir \<ge> ilower cur then True
      else if ilower ir \<le> iupper cur \<and> ilower ir \<ge> ilower cur then True
      else if ilower ir \<le> ilower cur \<and> iupper ir \<ge> iupper cur then True
      else clashes_loop rs ir)"

definition iprange_clashes :: "ipset \<Rightarrow> iprange \<Rightarrow> bool" where
  "iprange_clashes is ir = clashes_loop (iranges is) ir"

definition ipsets_equal :: "ipset \<Rightarrow> ipset \<Rightarrow> bool" where
  "ipsets_equal i0 i1 =
     (if length (iranges i0) \<noteq> length (iranges i1) then False
      else if length (iranges i0) = 0 then True
      else iranges i0 = iranges i1)"

fun ipsets_clash_loop :: "ipset \<Rightarrow> iprange list \<Rightarrow> bool" where
  "ipsets_clash_loop i0 [] = False"
| "ipsets_clash_loop i0 (cur # rs) = (if iprange_clashes i0 cur then True else ipsets_clash_loop i0 rs)"

definition ipsets_clash :: "ipset \<Rightarrow> ipset \<Rightarrow> bool" where
  "ipsets_clash i0 i1 = ipsets_clash_loop i0 (iranges i1)"

text \<open>The inner loop of \<open>ipset_encloses\<close>: whether one range of the set holds all of \<open>isub\<close>.\<close>

fun encloses_range :: "iprange list \<Rightarrow> iprange \<Rightarrow> bool" where
  "encloses_range [] isub = False"
| "encloses_range (i # rs) isub =
     (if ip_in_range i (ilower isub) then ip_in_range i (iupper isub) else encloses_range rs isub)"

fun encloses_loop :: "iprange list \<Rightarrow> iprange list \<Rightarrow> bool" where
  "encloses_loop rs [] = True"
| "encloses_loop rs (isub # subs) = (if encloses_range rs isub then encloses_loop rs subs else False)"

definition ipset_encloses :: "ipset \<Rightarrow> ipset \<Rightarrow> bool" where
  "ipset_encloses is ipsub = encloses_loop (iranges is) (iranges ipsub)"

fun ipset_cmp_loop :: "iprange list \<Rightarrow> iprange list \<Rightarrow> int" where
  "ipset_cmp_loop (r0 # rs0) (r1 # rs1) =
     (let ret = (if ilower r0 < ilower r1 then -1 else if ilower r0 > ilower r1 then 1
                 else if iupper r0 < iupper r1 then -1 else if iupper r0 > iupper r1 then 1 else 0)
      in if ret \<noteq> 0 then ret else ipset_cmp_loop rs0 rs1)"
| "ipset_cmp_loop rs0 rs1 =
     (if length rs0 < length rs1 then -1 else if length rs0 > length rs1 then 1 else 0)"

definition ipset_cmp :: "ipset \<Rightarrow> ipset \<Rightarrow> int" where
  "ipset_cmp is0 is1 = ipset_cmp_loop (iranges is0) (iranges is1)"

definition ipset_area :: "ipset \<Rightarrow> u64" where
  "ipset_area is = foldl (\<lambda>area r. area + (ucast (iupper r) - ucast (ilower r) + 1)) 0 (iranges is)"

text \<open>The mask of \<open>iprange_from_route\<close> is shifted left once for each of the \<open>32 - bits\<close> host bits.\<close>

definition iprange_from_route :: "u32 \<Rightarrow> u32 \<Rightarrow> iprange option" where
  "iprange_from_route dst bits =
     (if bits > 32 then None
      else let imask = ((\<lambda>w. push_bit 1 w) ^^ unat (32 - bits)) 0xffffffff
           in Some (irange (dst AND imask) ((dst AND imask) OR NOT imask)))"

text \<open>\<open>swap_ipsets\<close> moves the pointers and the counts, and leaves \<open>maxranges\<close> where it was.\<close>

definition swap_ipsets :: "ipset \<Rightarrow> ipset \<Rightarrow> ipset \<times> ipset" where
  "swap_ipsets i0 i1 =
     (i0\<lparr>iranges := iranges i1, iblock := iblock i1\<rparr>, i1\<lparr>iranges := iranges i0, iblock := iblock i0\<rparr>)"

subsection \<open>Changing the array\<close>

definition indeterminate_iprange :: iprange where
  "indeterminate_iprange = irange 0 0"

definition extend_ipset :: "ipset \<Rightarrow> mem \<Rightarrow> bool \<times> ipset \<times> mem" where
  "extend_ipset i m =
     (let n = length (iranges i) in
      if n = maxranges i then
        (case Realloc (iblock i \<noteq> 0) (8 * (n + 1)) m of
           (False, m1) \<Rightarrow> (True, i, m1)
         | (True, m1) \<Rightarrow>
             (False, i\<lparr>iranges := iranges i @ [indeterminate_iprange], maxranges := n + 1, iblock := n + 1\<rparr>, m1))
      else (False, i\<lparr>iranges := iranges i @ [indeterminate_iprange]\<rparr>, m))"

definition append_ipset :: "ipset \<Rightarrow> iprange \<Rightarrow> mem \<Rightarrow> bool \<times> ipset \<times> mem" where
  "append_ipset i ir m =
     (case extend_ipset i m of
        (True, i1, m1) \<Rightarrow> (True, i1, m1)
      | (False, i1, m1) \<Rightarrow> (False, i1\<lparr>iranges := (iranges i1)[length (iranges i1) - 1 := ir]\<rparr>, m1))"

definition insert_ipset :: "ipset \<Rightarrow> nat \<Rightarrow> iprange \<Rightarrow> mem \<Rightarrow> bool \<times> ipset \<times> mem" where
  "insert_ipset i pre ir m =
     (case extend_ipset i m of
        (True, i1, m1) \<Rightarrow> (True, i1, m1)
      | (False, i1, m1) \<Rightarrow>
          let moved = memmove (iranges i1) (pre + 1) pre (length (iranges i1) - pre - 1)
          in (False, i1\<lparr>iranges := moved[pre := ir]\<rparr>, m1))"

definition remove_ipset :: "ipset \<Rightarrow> nat \<Rightarrow> nat \<Rightarrow> mem \<Rightarrow> ipset \<times> mem" where
  "remove_ipset i at cnt m =
     (let n = length (iranges i);
          moved = (if n > at + cnt then memmove (iranges i) at (at + cnt) (n - (at + cnt)) else iranges i);
          i1 = i\<lparr>iranges := take (n - cnt) moved\<rparr>
      in if n - cnt = 0 then (i1\<lparr>maxranges := 0, iblock := 0\<rparr>, Free (iblock i \<noteq> 0) m) else (i1, m))"

fun add_skip :: "iprange \<Rightarrow> iprange list \<Rightarrow> nat" where
  "add_skip merge [] = 0"
| "add_skip merge (cur # rs) =
     (if ilower merge \<le> iupper cur + 1 then 0
      else if iupper cur = 0xffffffff then 0
      else Suc (add_skip merge rs))"

fun add_eat :: "u32 \<Rightarrow> iprange list \<Rightarrow> u32 \<times> nat" where
  "add_eat cur_upper [] = (cur_upper, 0)"
| "add_eat cur_upper (tmp # rs) =
     (if cur_upper < ilower tmp - 1 \<and> ilower tmp \<noteq> 0 then (cur_upper, 0)
      else
        let (up, n) = add_eat (if iupper tmp > cur_upper then iupper tmp else cur_upper) rs
        in (up, Suc n))"

definition add_iprange :: "ipset \<Rightarrow> iprange \<Rightarrow> mem \<Rightarrow> bool \<times> ipset \<times> mem" where
  "add_iprange i merge m =
     (let rs = iranges i; z = add_skip merge rs in
      if z = length rs then append_ipset i merge m
      else
        let cur = rs ! z in
        if iupper merge + 1 < ilower cur \<and> iupper merge \<noteq> 0xffffffff
        then insert_ipset i z merge m
        else
          let cur1 = (if ilower merge \<le> ilower cur - 1 \<and> ilower cur \<noteq> 0
                      then cur\<lparr>ilower := ilower merge\<rparr> else cur)
          in if iupper merge > iupper cur1
             then
               let (up, eaten) = add_eat (iupper merge) (drop (z + 1) rs);
                   i1 = i\<lparr>iranges := rs[z := cur1\<lparr>iupper := up\<rparr>]\<rparr>;
                   (i2, m2) = (if eaten > 0 then remove_ipset i1 (z + 1) eaten m else (i1, m))
               in (False, i2, m2)
             else (False, i\<lparr>iranges := rs[z := cur1]\<rparr>, m))"

function del_loop :: "iprange \<Rightarrow> nat \<Rightarrow> ipset \<Rightarrow> mem \<Rightarrow> bool \<times> ipset \<times> mem" where
  "del_loop ct z is m =
     (if z < length (iranges is) then
        let cur = iranges is ! z in
        if ilower ct > iupper cur \<or> iupper ct < ilower cur then del_loop ct (z + 1) is m
        else if ilower ct \<le> ilower cur then
          (if iupper cur > iupper ct
           then (False, is\<lparr>iranges := (iranges is)[z := cur\<lparr>ilower := iupper ct + 1\<rparr>]\<rparr>, m)
           else let (is1, m1) = remove_ipset is z 1 m in del_loop ct z is1 m1)
        else if iupper ct \<ge> iupper cur
        then del_loop ct (z + 1) (is\<lparr>iranges := (iranges is)[z := cur\<lparr>iupper := ilower ct - 1\<rparr>]\<rparr>) m
        else
          (case insert_ipset is z (init_iprange (ilower cur) (ilower ct - 1)) m of
             (True, is1, m1) \<Rightarrow> (True, is1, m1)
           | (False, is1, m1) \<Rightarrow>
               (False, is1\<lparr>iranges := (iranges is1)[z + 1 := (iranges is1 ! (z + 1))\<lparr>ilower := iupper ct + 1\<rparr>]\<rparr>, m1))
      else (False, is, m))"
  by pat_completeness auto
termination
  by (relation "measure (\<lambda>(ct, z, is, m). length (iranges is) - z)")
    (auto simp: remove_ipset_def Let_def split: if_splits)

declare del_loop.simps [simp del]

definition del_iprange :: "ipset \<Rightarrow> iprange \<Rightarrow> mem \<Rightarrow> bool \<times> ipset \<times> mem" where
  "del_iprange is ct m = del_loop ct 0 is m"

text \<open>
  \<open>clone_ipset\<close> copies the ranges into a block of exactly their size, and copies \<open>maxranges\<close>.
  On a failed copy the target is the zeroed set.
\<close>

definition clone_ipset :: "ipset \<Rightarrow> mem \<Rightarrow> bool \<times> ipset \<times> mem" where
  "clone_ipset src m =
     (if length (iranges src) > maxranges src then (True, init_ipset, m)
      else if length (iranges src) \<noteq> 0 then
        (case Memdup (iranges src) (8 * length (iranges src)) m of
           (None, m1) \<Rightarrow> (True, init_ipset, m1)
         | (Some rs, m1) \<Rightarrow>
             (False, \<lparr>iranges = rs, maxranges = maxranges src, iblock = length (iranges src)\<rparr>, m1))
      else (False, init_ipset, m))"

definition merge_ipsets :: "ipset \<Rightarrow> ipset \<Rightarrow> mem \<Rightarrow> bool \<times> ipset \<times> mem" where
  "merge_ipsets cur add m =
     on_clone clone_ipset (\<lambda>is m. snd (free_ipset is m)) (\<lambda>r is m. add_iprange is r m)
       (iranges add) cur m"

definition purge_ipsets :: "ipset \<Rightarrow> ipset \<Rightarrow> mem \<Rightarrow> bool \<times> ipset \<times> mem" where
  "purge_ipsets cur dl m =
     on_clone clone_ipset (\<lambda>is m. snd (free_ipset is m)) (\<lambda>r is m. del_iprange is r m)
       (iranges dl) cur m"

subsection \<open>Abstraction\<close>

definition ipiv :: "iprange \<Rightarrow> ivl" where
  "ipiv r = (uint (ilower r), uint (iupper r))"

definition iprng :: "iprange \<Rightarrow> int set" where
  "iprng r = {uint (ilower r)..uint (iupper r)}"

definition addrs :: "ipset \<Rightarrow> int set" where
  "addrs i = covers (map ipiv (iranges i))"

text \<open>The code's capacity is true: the block holds at least \<open>maxranges\<close> ranges.\<close>

definition room :: "ipset \<Rightarrow> bool" where
  "room i \<longleftrightarrow> length (iranges i) \<le> maxranges i \<and> maxranges i \<le> iblock i"

definition ipset_ok :: "ipset \<Rightarrow> bool" where
  "ipset_ok i \<longleftrightarrow> canonical 4294967295 (map ipiv (iranges i)) \<and> room i"

definition iprange_ok :: "iprange \<Rightarrow> bool" where
  "iprange_ok r \<longleftrightarrow> ilower r \<le> iupper r"

definition ipset_owns :: "ipset \<Rightarrow> int" where
  "ipset_owns i = of_bool (iblock i \<noteq> 0)"

definition overrun :: "ipset \<Rightarrow> bool" where
  "overrun i \<longleftrightarrow> length (iranges i) > iblock i"

lemma ipset_ok_no_overrun: "ipset_ok i \<Longrightarrow> \<not> overrun i"
  by (simp add: ipset_ok_def room_def overrun_def)

lemma room_owns: "room i \<Longrightarrow> iranges i \<noteq> [] \<Longrightarrow> ipset_owns i = 1"
  by (cases "iranges i") (auto simp: room_def ipset_owns_def)

lemma init_ipset_simps [simp]:
  "iranges init_ipset = []" "maxranges init_ipset = 0" "iblock init_ipset = 0"
  "ipset_owns init_ipset = 0" "addrs init_ipset = {}" "ipset_ok init_ipset"
  by (simp_all add: init_ipset_def ipset_owns_def addrs_def ipset_ok_def room_def)

lemma iprange_ok_piv:
  "iprange_ok r \<Longrightarrow> 0 \<le> fst (ipiv r) \<and> fst (ipiv r) \<le> snd (ipiv r) \<and> snd (ipiv r) \<le> 4294967295"
  using uint_bounds(2) [of "iupper r"] by (auto simp: iprange_ok_def ipiv_def word_int)

subsection \<open>The array operations\<close>

lemma extend_ipset_cases:
  assumes "extend_ipset i m = (e, i', m')" "room i"
  obtains (failed) "e" "i' = i" "allocs_used m' = allocs_used m"
  | (grown) "\<not> e" "iranges i' = iranges i @ [indeterminate_iprange]" "room i'"
      "allocs_used m' = allocs_used m + 1 - ipset_owns i" "ipset_owns i' = 1"
proof (cases "length (iranges i) = maxranges i")
  case True
  obtain ok m1 where r: "Realloc (iblock i \<noteq> 0) (8 * (length (iranges i) + 1)) m = (ok, m1)"
    by (cases "Realloc (iblock i \<noteq> 0) (8 * (length (iranges i) + 1)) m")
  note Realloc_used [OF r]
  with assms(1) True r that show ?thesis
    by (cases ok) (auto simp: extend_ipset_def Let_def ipset_owns_def room_def)
next
  case False
  with assms that show ?thesis
    by (auto simp: extend_ipset_def Let_def ipset_owns_def room_def)
qed

lemma extend_ipset_plenty:
  "plentiful m \<Longrightarrow> \<exists>i' m'. extend_ipset i m = (False, i', m') \<and> plentiful m'"
  using Realloc_plentiful [of m "8 * (length (iranges i) + 1)" "iblock i \<noteq> 0"]
  by (auto simp: extend_ipset_def Let_def)

lemma append_ipset_cases:
  assumes "append_ipset i r m = (e, i', m')" "room i"
  obtains (failed) "e" "i' = i" "allocs_used m' = allocs_used m"
  | (grown) "\<not> e" "iranges i' = iranges i @ [r]" "room i'"
      "allocs_used m' = allocs_used m + 1 - ipset_owns i" "ipset_owns i' = 1"
proof -
  obtain e1 i1 m1 where x: "extend_ipset i m = (e1, i1, m1)" by (cases "extend_ipset i m")
  from x assms(2) show ?thesis
    by (cases rule: extend_ipset_cases)
      (use assms(1) that x in \<open>auto simp: append_ipset_def room_def ipset_owns_def\<close>)
qed

lemma insert_ipset_cases:
  assumes "insert_ipset i z r m = (e, i', m')" "room i" "z \<le> length (iranges i)"
  obtains (failed) "e" "i' = i" "allocs_used m' = allocs_used m"
  | (grown) "\<not> e" "iranges i' = take z (iranges i) @ r # drop z (iranges i)" "room i'"
      "allocs_used m' = allocs_used m + 1 - ipset_owns i" "ipset_owns i' = 1"
proof -
  obtain e1 i1 m1 where x: "extend_ipset i m = (e1, i1, m1)" by (cases "extend_ipset i m")
  from x assms(2) show ?thesis
  proof (cases rule: extend_ipset_cases)
    case grown
    have "(memmove (iranges i1) (z + 1) z (length (iranges i1) - z - 1))[z := r]
        = take z (iranges i) @ r # drop z (iranges i)"
      using memmove_open_gap [OF assms(3)] grown(2) by simp
    with assms(1) x grown show ?thesis
      by (intro that(2)) (auto simp: insert_ipset_def Let_def room_def ipset_owns_def)
  qed (use assms(1) that x in \<open>auto simp: insert_ipset_def\<close>)
qed

lemma insert_ipset_plenty:
  "plentiful m \<Longrightarrow> \<exists>i' m'. insert_ipset i z r m = (False, i', m') \<and> plentiful m'"
  using extend_ipset_plenty [of m i] by (auto simp: insert_ipset_def Let_def)

lemma append_ipset_plenty:
  "plentiful m \<Longrightarrow> \<exists>i' m'. append_ipset i r m = (False, i', m') \<and> plentiful m'"
  using extend_ipset_plenty [of m i] by (auto simp: append_ipset_def)

lemma remove_ipset_cases:
  assumes "remove_ipset i z n m = (i', m')" "z + n \<le> length (iranges i)" "room i"
  shows "iranges i' = take z (iranges i) @ drop (z + n) (iranges i) \<and> room i' \<and>
    allocs_used m' = allocs_used m + ipset_owns i' - ipset_owns i \<and>
    plentiful m' = plentiful m"
proof -
  define moved where "moved = (if length (iranges i) > z + n
       then memmove (iranges i) z (z + n) (length (iranges i) - (z + n)) else iranges i)"
  have mv: "take (length (iranges i) - n) moved = take z (iranges i) @ drop (z + n) (iranges i)"
  proof (cases "length (iranges i) > z + n")
    case False
    with assms(2) have "length (iranges i) - n = z" by simp
    with False show ?thesis by (simp add: moved_def)
  qed (use memmove_close_gap [OF assms(2)] in \<open>simp add: moved_def\<close>)
  note r = assms(1) [unfolded remove_ipset_def Let_def, folded moved_def]
  have "length (take z (iranges i) @ drop (z + n) (iranges i)) = length (iranges i) - n"
    using assms(2) by simp
  with r mv assms(3) show ?thesis
    by (auto simp: room_def ipset_owns_def split: if_splits)
qed

subsection \<open>Adding a range refines \<open>ins\<close>\<close>

lemma add_skip_skip: "add_skip r rs = skip (uint (ilower r)) (map ipiv rs)"
proof (induction rs)
  case (Cons c rs)
  show ?case
  proof (cases "uint (iupper c) = 4294967295")
    case True
    then show ?thesis using order_trans [OF uint_bounds(2) [of "ilower r"], of 4294967296]
      by (simp add: ipiv_def word_int)
  next
    case False
    with Cons show ?thesis by (simp add: ipiv_def word_int uint_succ)
  qed
qed simp

lemma add_eat_eat: "(uint (fst (add_eat u rs)), snd (add_eat u rs)) = eat (uint u) (map ipiv rs)"
proof (induction u rs rule: add_eat.induct)
  case (2 u t rs)
  have t: "u < ilower t - 1 \<and> ilower t \<noteq> 0 \<longleftrightarrow> uint u + 1 < uint (ilower t)"
    by (cases "ilower t = 0") (auto simp: word_int uint_pred)
  have "uint (if iupper t > u then iupper t else u) = max (uint u) (uint (iupper t))"
    by (auto simp: word_int)
  with 2 t show ?case by (auto simp: ipiv_def split: prod.splits)
qed simp

lemma add_iprange_cases:
  assumes "ipset_ok i" "iprange_ok r" "add_iprange i r m = (e, i', m')"
  obtains (failed) "e" "i' = i" "allocs_used m' = allocs_used m" "\<not> plentiful m"
  | (added) "\<not> e" "map ipiv (iranges i') = ins (ipiv r) (map ipiv (iranges i))" "room i'"
      "allocs_used m' = allocs_used m + ipset_owns i' - ipset_owns i" "plentiful m \<longrightarrow> plentiful m'"
proof -
  let ?rs = "iranges i" and ?z = "add_skip r (iranges i)" and ?is = "map ipiv (iranges i)"
  have room: "room i" using assms(1) by (simp add: ipset_ok_def)
  have z: "?z = skip (uint (ilower r)) ?is" by (rule add_skip_skip)
  then have zle: "?z \<le> length ?rs" using skip_le [of _ ?is] by simp
  define cur where "cur = ?rs ! ?z"
  define cur1 where "cur1 = (if ilower r \<le> ilower cur - 1 \<and> ilower cur \<noteq> 0
                      then cur\<lparr>ilower := ilower r\<rparr> else cur)"
  note ad = assms(3) [unfolded add_iprange_def Let_def, folded cur_def, folded cur1_def]
  show ?thesis
  proof (cases "?z = length ?rs")
    case True
    with ad have a: "append_ipset i r m = (e, i', m')" by simp
    have in': "ins (ipiv r) ?is = ?is @ [ipiv r]"
      using ins_append [of "uint (ilower r)" ?is "uint (iupper r)"] True z by (simp add: ipiv_def [of r])
    have pl: "plentiful m \<Longrightarrow> \<not> e \<and> plentiful m'" using append_ipset_plenty [of m i r] a by auto
    from a room show ?thesis
      by (cases rule: append_ipset_cases) (use that in' pl in \<open>auto\<close>)
  next
    case False
    with zle have zlt: "?z < length ?rs" by simp
    then have at: "skip (uint (ilower r)) ?is < length ?is"
      "?is ! skip (uint (ilower r)) ?is = (uint (ilower cur), uint (iupper cur))"
      by (simp_all add: z [symmetric] cur_def ipiv_def)
    note ia = ins_at [OF at, of "uint (iupper r)", folded z, folded ipiv_def [of r]]
    have "wf_from 0 4294967295 (map ipiv (take ?z ?rs) @ map ipiv (drop ?z ?rs))"
      using assms(1) by (simp add: ipset_ok_def flip: map_append)
    then have "wf_from 0 4294967295 (map ipiv (drop ?z ?rs))" by (rule wf_from_append_right)
    moreover have "drop ?z ?rs = cur # drop (Suc ?z) ?rs" using zlt by (simp add: Cons_nth_drop_Suc cur_def)
    ultimately have wf: "uint (ilower cur) \<le> uint (iupper cur)"
      "wf_from (uint (iupper cur) + 2) 4294967295 (map ipiv (drop (Suc ?z) ?rs))"
      by (simp_all add: ipiv_def [of cur])
    have lu: "uint (ilower r) \<le> uint (iupper r)" using assms(2) by (simp add: iprange_ok_def word_int)
    have cur1: "uint (ilower cur1) = min (uint (ilower r)) (uint (ilower cur))" "iupper cur1 = iupper cur"
      by (cases "ilower cur = 0"; auto simp: cur1_def word_int uint_pred)+
    have apart: "iupper r + 1 < ilower cur \<and> iupper r \<noteq> 0xffffffff \<longleftrightarrow> uint (iupper r) + 1 < uint (ilower cur)"
    proof (cases "uint (iupper r) = 4294967295")
      case True
      then have "\<not> uint (iupper r) + 1 < uint (ilower cur)"
        using uint_bounds(2) [of "ilower cur"] by linarith
      with True show ?thesis by (simp add: word_int)
    qed (simp add: word_int uint_succ)
    show ?thesis
    proof (cases "uint (iupper r) + 1 < uint (ilower cur)")
      case True
      with ad False apart have a: "insert_ipset i ?z r m = (e, i', m')" by simp
      have pl: "plentiful m \<Longrightarrow> \<not> e \<and> plentiful m'" using insert_ipset_plenty [of m i ?z r] a by auto
      from a room zle show ?thesis
        by (cases rule: insert_ipset_cases)
          (use that ia(1) [OF True] pl in \<open>auto simp: take_map drop_map\<close>)
    next
      case reach: False
      note ia = ia(2) [OF this]
      show ?thesis
      proof (cases "iupper r > iupper cur1")
        case True
        obtain u n where eat: "add_eat (iupper r) (drop (?z + 1) ?rs) = (u, n)"
          by (cases "add_eat (iupper r) (drop (?z + 1) ?rs)")
        let ?i1 = "i\<lparr>iranges := ?rs[?z := cur1\<lparr>iupper := u\<rparr>]\<rparr>"
        have ei: "eat (uint (iupper r)) (map ipiv (drop (Suc ?z) ?rs)) = (uint u, n)"
          using add_eat_eat [of "iupper r" "drop (Suc ?z) ?rs"] eat by simp
        have n: "?z + 1 + n \<le> length (iranges ?i1)"
          using eat_le [of "uint (iupper r)" "map ipiv (drop (Suc ?z) ?rs)"] ei zlt by simp
        have mx: "max (uint (iupper r)) (uint (iupper cur)) = uint (iupper r)"
          using True cur1 by (simp add: word_int)
        have res: "ins (ipiv r) ?is = map ipiv (take ?z ?rs @ cur1\<lparr>iupper := u\<rparr> # drop (?z + 1 + n) ?rs)"
          using ia absorb_eat [of _ "uint (iupper r)" "map ipiv (drop (Suc ?z) ?rs)"] ei cur1
          by (simp add: mx take_map drop_map add.commute ipiv_def [of "_\<lparr>iupper := _\<rparr>"])
        have room1: "room ?i1" using room by (simp add: room_def)
        show ?thesis
        proof (cases "n > 0")
          case True
          with ad False reach apart \<open>iupper r > iupper cur1\<close> eat
          have "\<not> e" "remove_ipset ?i1 (?z + 1) n m = (i', m')" by (auto split: prod.splits)
          note rm = this(1) remove_ipset_cases [OF this(2) n room1]
          have "iranges i' = take ?z ?rs @ cur1\<lparr>iupper := u\<rparr> # drop (?z + 1 + n) ?rs"
            using rm zlt by (simp add: upd_conv_take_nth_drop add.commute)
          moreover have "ipset_owns ?i1 = ipset_owns i" by (simp add: ipset_owns_def)
          ultimately show ?thesis using rm res by (intro that(2)) simp_all
        next
          case n0: False
          with ad False reach apart \<open>iupper r > iupper cur1\<close> eat have "\<not> e" "i' = ?i1" "m' = m"
            by (auto split: prod.splits)
          with n0 that(2) res zlt room1 show ?thesis
            by (auto simp: upd_conv_take_nth_drop ipset_owns_def)
        qed
      next
        case up: False
        with ad False reach apart have u: "\<not> e" "i' = i\<lparr>iranges := ?rs[?z := cur1]\<rparr>" "m' = m" by auto
        have mx: "max (uint (iupper r)) (uint (iupper cur)) = uint (iupper cur)"
          using up cur1 by (simp add: word_int)
        have "ins (ipiv r) ?is = map ipiv (take ?z ?rs @ cur1 # drop (?z + 1) ?rs)"
          using ia absorb_stays [OF wf(2)] cur1
          by (simp add: mx take_map drop_map add.commute ipiv_def [of cur1])
        with u that(2) zlt room show ?thesis
          by (auto simp: upd_conv_take_nth_drop ipset_owns_def room_def)
      qed
    qed
  qed
qed

lemma add_iprange_inv:
  assumes "ipset_ok i" "iprange_ok r" "add_iprange i r m = (e, i', m')"
  shows "ipset_ok i'"
  using assms
proof (cases rule: add_iprange_cases)
  case failed
  with assms(1) show ?thesis by simp
next
  case added
  have "wf_from 0 4294967295 (ins (ipiv r) (map ipiv (iranges i)))"
    using assms(1) iprange_ok_piv [OF assms(2)] wf_ins [of 0 4294967295 _ "fst (ipiv r)" "snd (ipiv r)"]
    by (simp add: ipset_ok_def)
  with added show ?thesis by (simp add: ipset_ok_def)
qed

lemma add_iprange_balance:
  assumes "ipset_ok i" "iprange_ok r" "add_iprange i r m = (e, i', m')"
  shows "allocs_used m' = allocs_used m + ipset_owns i' - ipset_owns i"
  using assms by (cases rule: add_iprange_cases) auto

lemma add_iprange_plenty:
  assumes "ipset_ok i" "iprange_ok r" "plentiful m"
  shows "\<exists>i' m'. add_iprange i r m = (False, i', m') \<and> plentiful m'"
proof -
  obtain e i' m' where a: "add_iprange i r m = (e, i', m')" by (cases "add_iprange i r m")
  from assms(1,2) a show ?thesis by (cases rule: add_iprange_cases) (use assms(3) a in auto)
qed

lemma add_iprange_adds:
  assumes "ipset_ok i" "iprange_ok r" "add_iprange i r m = (False, i', m')"
  shows "addrs i' = addrs i \<union> iprng r"
  using assms
proof (cases rule: add_iprange_cases)
  case added
  with assms(1) iprange_ok_piv [OF assms(2)]
    covers_ins [of 0 4294967295 "map ipiv (iranges i)" "fst (ipiv r)" "snd (ipiv r)"]
  show ?thesis by (auto simp: addrs_def ipset_ok_def iprng_def ipiv_def)
qed simp

text \<open>A set whose block is exactly as large as \<open>maxranges\<close> says after the copy, too.\<close>

definition cloneable :: "ipset \<Rightarrow> bool" where
  "cloneable i \<longleftrightarrow> ipset_ok i \<and> (iranges i \<noteq> [] \<longrightarrow> maxranges i = length (iranges i))"

lemma clone_ipset_cases:
  assumes "clone_ipset i m = (e, c, m')" "room i"
  obtains (failed) "e" "allocs_used m' = allocs_used m" "\<not> plentiful m"
  | (copied) "\<not> e" "iranges c = iranges i" "maxranges c = (if iranges i = [] then 0 else maxranges i)"
      "iblock c = length (iranges i)" "allocs_used m' = allocs_used m + ipset_owns c"
      "plentiful m \<longrightarrow> plentiful m'"
proof (cases "iranges i = []")
  case True
  with assms that show ?thesis by (simp add: clone_ipset_def)
next
  case False
  obtain x m1 where x: "Memdup (iranges i) (8 * length (iranges i)) m = (x, m1)"
    by (cases "Memdup (iranges i) (8 * length (iranges i)) m")
  have pl: "plentiful m \<Longrightarrow> x \<noteq> None \<and> plentiful m1"
    using Memdup_plentiful [of m "8 * length (iranges i)" "iranges i"] x False by auto
  from Memdup_used [OF x] Memdup_Some [of "iranges i" _ m _ m1] assms that x False pl show ?thesis
    by (cases x) (auto simp: clone_ipset_def ipset_owns_def room_def)
qed

lemma free_ipset_used [simp]:
  "allocs_used (snd (free_ipset i m)) = allocs_used m - ipset_owns i"
  "plentiful (snd (free_ipset i m)) = plentiful m"
  by (simp_all add: free_ipset_def ipset_owns_def Free_def plentiful_def)

lemma clone_ipset_ok:
  assumes "cloneable i" "clone_ipset i m = (False, c, m')"
  shows "ipset_ok c \<and> addrs c = addrs i \<and> allocs_used m' = allocs_used m + ipset_owns c"
proof -
  have r: "room i" using assms(1) by (simp add: cloneable_def ipset_ok_def)
  from assms(2) r show ?thesis
    by (cases rule: clone_ipset_cases)
      (use assms(1) in \<open>auto simp: cloneable_def ipset_ok_def room_def addrs_def split: if_splits\<close>)
qed

lemma clone_ipset_fails:
  assumes "cloneable i" "clone_ipset i m = (True, c, m')"
  shows "allocs_used m' = allocs_used m"
proof -
  have r: "room i" using assms(1) by (simp add: cloneable_def ipset_ok_def)
  from assms(2) r show ?thesis by (cases rule: clone_ipset_cases) auto
qed

lemma clone_ipset_plenty:
  assumes "cloneable i" "plentiful m"
  shows "\<exists>c m'. clone_ipset i m = (False, c, m') \<and> plentiful m'"
proof -
  have r: "room i" using assms(1) by (simp add: cloneable_def ipset_ok_def)
  obtain e c m' where cl: "clone_ipset i m = (e, c, m')" by (cases "clone_ipset i m")
  from cl r show ?thesis by (cases rule: clone_ipset_cases) (use assms(2) cl in auto)
qed

interpretation im: commit_add "\<lambda>r i m. add_iprange i r m" ipset_ok iprange_ok ipset_owns
  clone_ipset "\<lambda>i m. snd (free_ipset i m)" addrs cloneable iprng
  by unfold_locales
    (simp_all add: add_iprange_inv add_iprange_balance add_iprange_plenty add_iprange_adds
      clone_ipset_ok clone_ipset_fails clone_ipset_plenty)

subsection \<open>Deleting a range refines \<open>del\<close>\<close>

interpretation ic: range_cutter del_loop "\<lambda>i. map ipiv (iranges i)" ipiv room ipset_owns
proof (unfold_locales, goal_cases)
  case (1 s z r m)
  then show ?case by (simp add: del_loop.simps [of r z s m])
next
  case (2 s z a b r l u m)
  then have "ilower r > iupper (iranges s ! z) \<or> iupper r < ilower (iranges s ! z)"
    by (auto simp: ipiv_def word_int)
  with 2 show ?case by (simp add: del_loop.simps [of r z s m])
next
  case (3 s z a b r l u m)
  let ?c = "iranges s ! z"
  have c: "ilower r \<le> ilower ?c" "ilower ?c \<le> iupper r" "iupper r < iupper ?c"
    using 3 by (auto simp: ipiv_def word_int)
  then have "\<not> (ilower r > iupper ?c \<or> iupper r < ilower ?c)" by auto
  with c 3(2) have l: "del_loop r z s m = (False, s\<lparr>iranges := (iranges s)[z := ?c\<lparr>ilower := iupper r + 1\<rparr>]\<rparr>, m)"
    by (simp add: del_loop.simps [of r z s m] Let_def)
  have "ipiv (?c\<lparr>ilower := iupper r + 1\<rparr>) = (u + 1, b)"
    using 3 uint_succ_less [OF c(3)] by (auto simp: ipiv_def)
  with l 3(1) show ?case by (auto simp: map_update room_def ipset_owns_def)
next
  case (4 s z a b r l u m)
  let ?c = "iranges s ! z"
  have c: "ilower r \<le> ilower ?c" "\<not> iupper r < iupper ?c" "\<not> (ilower r > iupper ?c \<or> iupper r < ilower ?c)"
    using 4 by (auto simp: ipiv_def word_int)
  obtain s1 m1 where rm: "remove_ipset s z 1 m = (s1, m1)" by (cases "remove_ipset s z 1 m")
  with c 4(2) have "del_loop r z s m = del_loop r z s1 m1"
    by (simp add: del_loop.simps [of r z s m] Let_def)
  with remove_ipset_cases [OF rm _ 4(1)] 4(2) show ?case
    by (intro exI [of _ s1] exI [of _ m1]) (simp add: take_map drop_map)
next
  case (5 s z a b r l u m)
  let ?c = "iranges s ! z"
  have c: "\<not> ilower r \<le> ilower ?c" "iupper ?c \<le> iupper r" "\<not> (ilower r > iupper ?c \<or> iupper r < ilower ?c)"
    using 5 by (auto simp: ipiv_def word_int)
  with 5(2) have l: "del_loop r z s m =
      del_loop r (Suc z) (s\<lparr>iranges := (iranges s)[z := ?c\<lparr>iupper := ilower r - 1\<rparr>]\<rparr>) m"
    by (simp add: del_loop.simps [of r z s m] Let_def)
  have "ipiv (?c\<lparr>iupper := ilower r - 1\<rparr>) = (a, l - 1)"
    using 5 c uint_pred_less [of "ilower ?c" "ilower r"] by (auto simp: ipiv_def)
  with l 5(1) show ?case by (auto simp: map_update room_def ipset_owns_def)
next
  case (6 s z a b r l u m)
  let ?c = "iranges s ! z" let ?x = "init_iprange (ilower (iranges s ! z)) (ilower r - 1)"
  have c: "\<not> ilower r \<le> ilower ?c" "\<not> iupper ?c \<le> iupper r" "\<not> (ilower r > iupper ?c \<or> iupper r < ilower ?c)"
    using 6 by (auto simp: ipiv_def word_int)
  have w: "uint (ilower r - 1) = l - 1" "uint (iupper r + 1) = u + 1"
    using 6 c uint_pred_less [of "ilower ?c" "ilower r"] uint_succ_less [of "iupper r" "iupper ?c"]
    by (auto simp: ipiv_def)
  obtain e s1 m1 where i: "insert_ipset s z ?x m = (e, s1, m1)" by (cases "insert_ipset s z ?x m")
  with c 6(2) have l: "del_loop r z s m = (if e then (True, s1, m1) else
      (False, s1\<lparr>iranges := (iranges s1)[Suc z := (iranges s1 ! Suc z)\<lparr>ilower := iupper r + 1\<rparr>]\<rparr>, m1))"
    by (simp add: del_loop.simps [of r z s m] Let_def)
  have pl: "plentiful m \<Longrightarrow> \<not> e \<and> plentiful m1" using insert_ipset_plenty [of m s z ?x] i by simp
  have z: "z \<le> length (iranges s)" using 6(2) by simp
  have dr: "drop z (iranges s) = ?c # drop (Suc z) (iranges s)" using 6(2) by (simp add: Cons_nth_drop_Suc)
  from i 6(1) z show ?case
  proof (cases rule: insert_ipset_cases)
    case failed
    with l pl 6(1) show ?thesis by auto
  next
    case grown
    let ?s = "s1\<lparr>iranges := (iranges s1)[Suc z := (iranges s1 ! Suc z)\<lparr>ilower := iupper r + 1\<rparr>]\<rparr>"
    have "iranges ?s = take z (iranges s) @ ?x # ?c\<lparr>ilower := iupper r + 1\<rparr> # drop (Suc z) (iranges s)"
      using grown(2) z 6(2) by (simp add: dr nth_append list_update_append)
    moreover have "ipiv ?x = (a, l - 1)" "ipiv (?c\<lparr>ilower := iupper r + 1\<rparr>) = (u + 1, b)"
      using 6 w c by (auto simp: init_iprange_def ipiv_def word_int)
    moreover have "room ?s" "ipset_owns ?s = 1" using grown by (simp_all add: room_def ipset_owns_def)
    ultimately show ?thesis using l grown pl by (auto simp: take_map drop_map)
  qed
qed

lemma del_iprange_spec:
  assumes "ipset_ok i" "iprange_ok r" "del_iprange i r m = (e, i', m')"
  shows "(e \<longrightarrow> i' = i) \<and> (\<not> e \<longrightarrow> map ipiv (iranges i') = del (ipiv r) (map ipiv (iranges i))) \<and> room i' \<and>
    allocs_used m' = allocs_used m + ipset_owns i' - ipset_owns i \<and>
    (plentiful m \<longrightarrow> \<not> e \<and> plentiful m')"
  using ic.loop_refines [of i r "uint (ilower r)" "uint (iupper r)" 0 4294967295 0 m e i' m'] assms
  by (simp add: ipset_ok_def iprange_ok_def del_iprange_def ipiv_def [of r] word_int)

lemma del_iprange_inv:
  assumes "ipset_ok i" "iprange_ok r" "del_iprange i r m = (e, i', m')"
  shows "ipset_ok i'"
proof (cases e)
  case True
  with del_iprange_spec [OF assms] assms(1) show ?thesis by simp
next
  case False
  have "wf_from 0 4294967295 (del (ipiv r) (map ipiv (iranges i)))"
    using assms(1,2) wf_del [of 0 4294967295 _ "uint (ilower r)" "uint (iupper r)"]
    by (simp add: ipset_ok_def iprange_ok_def ipiv_def [of r] word_int)
  with del_iprange_spec [OF assms] False show ?thesis by (simp add: ipset_ok_def)
qed

lemma del_iprange_dels:
  assumes "ipset_ok i" "iprange_ok r" "del_iprange i r m = (False, i', m')"
  shows "addrs i' = addrs i - iprng r"
  using del_iprange_spec [OF assms] assms(1,2)
    covers_del [of 0 4294967295 "map ipiv (iranges i)" "uint (ilower r)" "uint (iupper r)"]
  by (simp add: addrs_def ipset_ok_def iprng_def ipiv_def [of r] iprange_ok_def word_int)

lemma del_iprange_plenty:
  assumes "ipset_ok i" "iprange_ok r" "plentiful m"
  shows "\<exists>i' m'. del_iprange i r m = (False, i', m') \<and> plentiful m'"
proof -
  obtain e i' m' where d: "del_iprange i r m = (e, i', m')" by (cases "del_iprange i r m")
  with del_iprange_spec [OF assms(1,2) d] assms(3) show ?thesis by auto
qed

interpretation ipd: commit_del "\<lambda>r i m. del_iprange i r m" ipset_ok iprange_ok ipset_owns
  clone_ipset "\<lambda>i m. snd (free_ipset i m)" addrs cloneable iprng
  by unfold_locales
    (use del_iprange_spec in \<open>auto simp: del_iprange_inv del_iprange_dels del_iprange_plenty
       clone_ipset_ok clone_ipset_fails clone_ipset_plenty\<close>)

subsection \<open>Queries\<close>

lemma ipset_okD: "ipset_ok i \<Longrightarrow> wf_from 0 4294967295 (map ipiv (iranges i))"
  by (simp add: ipset_ok_def)

lemma wf_ipiv_Cons:
  "wf_from lo hi (map ipiv (r # rs)) \<longleftrightarrow> lo \<le> uint (ilower r) \<and> uint (ilower r) \<le> uint (iupper r) \<and>
     uint (iupper r) \<le> hi \<and> wf_from (uint (iupper r) + 2) hi (map ipiv rs)"
  by (simp add: ipiv_def [of r])

lemma covers_ipiv: "covers (map ipiv rs) = (\<Union>r \<in> set rs. iprng r)"
  by (induction rs) (auto simp: ipiv_def iprng_def)

lemma ipset_ok_iprange_ok:
  assumes "ipset_ok i" shows "\<forall>r \<in> set (iranges i). iprange_ok r"
proof -
  have "wf_from lo hi (map ipiv rs) \<Longrightarrow> \<forall>r \<in> set rs. iprange_ok r" for lo hi rs
    by (induction rs arbitrary: lo) (auto simp: ipiv_def [of "_ :: iprange"] iprange_ok_def word_int)
  with ipset_okD [OF assms] show ?thesis by blast
qed

lemma ip_in_set_loop_covers:
  "wf_from lo hi (map ipiv rs) \<Longrightarrow> ip_in_set_loop rs x \<longleftrightarrow> uint x \<in> covers (map ipiv rs)"
proof (induction rs arbitrary: lo)
  case (Cons r rs)
  then have wf: "uint (ilower r) \<le> uint (iupper r)" "wf_from (uint (iupper r) + 2) hi (map ipiv rs)"
    by (simp_all add: ipiv_def [of r])
  have "uint x \<notin> covers (map ipiv rs)" if "uint x < uint (ilower r)"
    using wf_from_covers [OF wf(2), of "uint x"] wf(1) that by auto
  with Cons.IH [OF wf(2)] show ?case by (auto simp: ipiv_def [of r] word_int)
qed simp

lemma map_ipiv_inject: "map ipiv rs = map ipiv ss \<longleftrightarrow> rs = ss"
proof (rule inj_map_eq_map, rule injI)
  fix r s show "ipiv r = ipiv s \<Longrightarrow> r = s"
    by (cases r; cases s) (simp add: ipiv_def word_uint_eq_iff)
qed

lemma ipset_area_width:
  assumes "wf_from 0 4294967295 (map ipiv rs)"
  shows "uint (foldl (\<lambda>area r. area + (ucast (iupper r) - ucast (ilower r) + 1)) 0 rs :: u64)
    = total_width (map ipiv rs)"
proof -
  have width: "(ucast (iupper r) - ucast (ilower r) + 1 :: u64)
      = word_of_int (uint (iupper r) - uint (ilower r) + 1)" for r
    by (simp add: wi_hom_syms)
  have "foldl (\<lambda>area r. area + (ucast (iupper r) - ucast (ilower r) + 1)) c rs
      = c + word_of_int (total_width (map ipiv rs))" for c :: u64
  proof (induction rs arbitrary: c)
    case (Cons r rs)
    have "total_width (map ipiv (r # rs)) =
        (uint (iupper r) - uint (ilower r) + 1) + total_width (map ipiv rs)" by (simp add: ipiv_def [of r])
    with Cons.IH [of "c + word_of_int (uint (iupper r) - uint (ilower r) + 1)"] show ?case
      by (simp only: width foldl_Cons wi_hom_syms add.assoc)
  qed simp
  moreover have "uint (word_of_int (total_width (map ipiv rs)) :: u64) = total_width (map ipiv rs)"
    using total_width_le [OF assms] total_width_nonneg [OF assms]
    by (simp add: uint_word_of_int)
  ultimately show ?thesis by simp
qed

lemma clashes_loop_iff:
  "iprange_ok ir \<Longrightarrow> \<forall>r \<in> set rs. iprange_ok r \<Longrightarrow> clashes_loop rs ir \<longleftrightarrow> (\<exists>r \<in> set rs. iprng r \<inter> iprng ir \<noteq> {})"
proof (induction rs)
  case (Cons c rs)
  have "(iupper ir \<le> iupper c \<and> iupper ir \<ge> ilower c) \<or> (ilower ir \<le> iupper c \<and> ilower ir \<ge> ilower c) \<or>
      (ilower ir \<le> ilower c \<and> iupper ir \<ge> iupper c) \<longleftrightarrow> iprng c \<inter> iprng ir \<noteq> {}"
    using Cons.prems by (auto simp: iprange_ok_def iprng_def word_int)
  with Cons show ?case by auto
qed simp

lemma encloses_range_iff:
  "wf_from lo hi (map ipiv rs) \<Longrightarrow> iprange_ok s \<Longrightarrow> encloses_range rs s \<longleftrightarrow> iprng s \<subseteq> covers (map ipiv rs)"
proof (induction rs arbitrary: lo)
  case (Cons r rs)
  then have wf: "uint (ilower r) \<le> uint (iupper r)" "wf_from (uint (iupper r) + 2) hi (map ipiv rs)"
    by (simp_all add: ipiv_def [of r])
  have s: "uint (ilower s) \<le> uint (iupper s)" using Cons.prems(2) by (simp add: iprange_ok_def word_int)
  have cov: "covers (map ipiv (r # rs)) = iprng r \<union> covers (map ipiv rs)" by (simp add: ipiv_def iprng_def)
  have high: "\<And>x. x \<in> covers (map ipiv rs) \<Longrightarrow> uint (iupper r) + 2 \<le> x" using wf_from_covers [OF wf(2)] by blast
  have ends: "uint (ilower s) \<in> iprng s" "uint (iupper s) \<in> iprng s" using s by (simp_all add: iprng_def)
  show ?case
  proof (cases "ip_in_range r (ilower s)")
    case True
    have "iprng s \<subseteq> iprng r \<union> covers (map ipiv rs) \<longleftrightarrow> uint (iupper s) \<le> uint (iupper r)"
    proof
      assume sub: "iprng s \<subseteq> iprng r \<union> covers (map ipiv rs)"
      show "uint (iupper s) \<le> uint (iupper r)"
      proof (rule ccontr)
        assume "\<not> ?thesis"
        then have "uint (iupper r) + 1 \<in> iprng s"
          using True by (auto simp: iprng_def ip_in_range_def word_int)
        with sub high show False by (force simp: iprng_def)
      qed
    next
      assume "uint (iupper s) \<le> uint (iupper r)"
      then show "iprng s \<subseteq> iprng r \<union> covers (map ipiv rs)"
        using True by (auto simp: iprng_def ip_in_range_def word_int)
    qed
    with True s cov show ?thesis by (simp add: ip_in_range_def word_int)
  next
    case False
    have "iprng s \<subseteq> iprng r \<union> covers (map ipiv rs) \<longleftrightarrow> iprng s \<subseteq> covers (map ipiv rs)"
    proof
      assume sub: "iprng s \<subseteq> iprng r \<union> covers (map ipiv rs)"
      have "uint (ilower s) \<in> covers (map ipiv rs)"
        using sub ends(1) False by (auto simp: iprng_def ip_in_range_def word_int)
      with high have "iprng s \<inter> iprng r = {}" using wf(1) by (force simp: iprng_def)
      with sub show "iprng s \<subseteq> covers (map ipiv rs)" by blast
    qed auto
    with False Cons.IH [OF wf(2) Cons.prems(2)] cov show ?thesis by simp
  qed
qed (auto simp: iprange_ok_def iprng_def word_int)

lemma encloses_loop_iff:
  "encloses_loop rs subs \<longleftrightarrow> (\<forall>s \<in> set subs. encloses_range rs s)"
  by (induction subs) auto

lemma ipsets_clash_loop_iff:
  "ipsets_clash_loop i rs \<longleftrightarrow> (\<exists>r \<in> set rs. iprange_clashes i r)"
  by (induction rs) auto

lemma iprange_clashes_iff:
  assumes "ipset_ok i" "iprange_ok r"
  shows "iprange_clashes i r \<longleftrightarrow> addrs i \<inter> iprng r \<noteq> {}"
  using clashes_loop_iff [OF assms(2) ipset_ok_iprange_ok [OF assms(1)]]
  by (auto simp: iprange_clashes_def addrs_def covers_ipiv)

subsection \<open>Properties\<close>

text \<open>
  C9: Merging and purging whole sets of addresses. On a set whose recorded capacity is the number
  of its ranges (\<open>cloneable\<close>; the clone of any other set claims more room than its block has, and
  merging can overrun it), \<open>merge_ipsets\<close> and \<open>purge_ipsets\<close> are atomic and compute the union
  and the difference: a failed allocation leaves the set as it was and releases the clone, and a
  success gives a well-formed set that fits its block. Nothing leaks; with memory they succeed.
\<close>

theorem merge_purge_ipsets_correct:
  assumes "cloneable i" "ipset_ok j"
    and "merge_ipsets i j m = (mf, i', m')" and "purge_ipsets i j m = (pf, i'', m'')"
  shows "(mf \<longrightarrow> i' = i) \<and> (\<not> mf \<longrightarrow> ipset_ok i' \<and> addrs i' = addrs i \<union> addrs j) \<and>
    (pf \<longrightarrow> i'' = i) \<and> (\<not> pf \<longrightarrow> ipset_ok i'' \<and> addrs i'' = addrs i - addrs j) \<and>
    allocs_used m' - ipset_owns i' = allocs_used m - ipset_owns i \<and>
    allocs_used m'' - ipset_owns i'' = allocs_used m - ipset_owns i \<and>
    (plentiful m \<longrightarrow> \<not> mf \<and> \<not> pf)"
proof -
  note ok = ipset_ok_iprange_ok [OF assms(2)]
  note mg = assms(3) [unfolded merge_ipsets_def] and pg = assms(4) [unfolded purge_ipsets_def]
  have "addrs j = (\<Union>r \<in> set (iranges j). iprng r)" by (simp add: addrs_def covers_ipiv)
  then have "\<not> mf \<Longrightarrow> ipset_ok i' \<and> addrs i' = addrs i \<union> addrs j"
    and "\<not> pf \<Longrightarrow> ipset_ok i'' \<and> addrs i'' = addrs i - addrs j"
    using im.on_clone_inv [OF assms(1) ok, of m i' m'] im.on_clone_adds [OF assms(1) ok, of m i' m']
      ipd.on_clone_inv [OF assms(1) ok, of m i'' m''] ipd.on_clone_dels [OF assms(1) ok, of m i'' m''] mg pg
    by simp_all
  moreover have "mf \<Longrightarrow> i' = i" "pf \<Longrightarrow> i'' = i"
    using im.on_clone_atomic ipd.on_clone_atomic mg pg by simp_all
  moreover have "plentiful m \<Longrightarrow> \<not> mf \<and> \<not> pf"
    using im.on_clone_plenty [OF assms(1) ok] ipd.on_clone_plenty [OF assms(1) ok] mg pg by fastforce
  ultimately show ?thesis
    using im.on_clone_balance [OF assms(1) ok mg] ipd.on_clone_balance [OF assms(1) ok pg] by auto
qed

definition lan :: ipset where
  "lan = \<lparr>iranges = [irange 0x0a000000 0x0affffff, irange 0xc0a80000 0xc0a8ffff], maxranges = 2, iblock = 2\<rparr>"

definition hosts :: ipset where
  "hosts = \<lparr>iranges = [irange 0x0a000001 0x0a0000ff, irange 0xffffffff 0xffffffff], maxranges = 2, iblock = 4\<rparr>"

lemma lan_hosts_ok: "cloneable lan" "ipset_ok lan" "ipset_ok hosts"
  by (simp_all add: lan_def hosts_def cloneable_def ipset_ok_def room_def ipiv_def)

lemma merge_purge_ipsets_correct_witness:
  "addrs (fst (snd (merge_ipsets lan hosts plenty_mem))) = addrs lan \<union> addrs hosts \<and>
   addrs (fst (snd (purge_ipsets lan hosts plenty_mem))) = addrs lan - addrs hosts"
proof -
  obtain mf i' m' where mg: "merge_ipsets lan hosts plenty_mem = (mf, i', m')"
    by (cases "merge_ipsets lan hosts plenty_mem")
  obtain pf i'' m'' where pg: "purge_ipsets lan hosts plenty_mem = (pf, i'', m'')"
    by (cases "purge_ipsets lan hosts plenty_mem")
  from merge_purge_ipsets_correct [OF lan_hosts_ok(1,3) mg pg] show ?thesis by (simp add: mg pg)
qed

text \<open>
  C17: One range at a time. \<open>add_iprange\<close> and \<open>del_iprange\<close> keep the set well formed and within
  its block and compute the union and the difference, for every range \<open>lower \<le> upper\<close>, the
  ends 0 and 255.255.255.255 included, where the sums the code compares wrap.
\<close>

theorem add_del_iprange_correct:
  assumes "ipset_ok i" "ilower r \<le> iupper r"
    and "add_iprange i r m = (af, i', m')" and "del_iprange i r m = (df, i'', m'')"
  shows "ipset_ok i' \<and> addrs i' = (if af then addrs i else addrs i \<union> iprng r) \<and>
    ipset_ok i'' \<and> addrs i'' = (if df then addrs i else addrs i - iprng r) \<and>
    allocs_used m' - ipset_owns i' = allocs_used m - ipset_owns i \<and>
    allocs_used m'' - ipset_owns i'' = allocs_used m - ipset_owns i \<and>
    (plentiful m \<longrightarrow> \<not> af \<and> \<not> df)"
proof -
  have r: "iprange_ok r" using assms(2) by (simp add: iprange_ok_def)
  note a = assms(1) r assms(3) and d = assms(1) r assms(4)
  have "af \<Longrightarrow> i' = i" using a by (cases rule: add_iprange_cases) auto
  moreover have "\<not> af \<Longrightarrow> addrs i' = addrs i \<union> iprng r" using im.step_adds [OF assms(1) r, of m i' m'] a by simp
  moreover have "\<not> df \<Longrightarrow> addrs i'' = addrs i - iprng r" using ipd.step_dels [OF assms(1) r, of m i'' m''] d by simp
  moreover have "plentiful m \<Longrightarrow> \<not> af" using im.step_plenty [OF assms(1) r, of m] a by auto
  ultimately show ?thesis
    using im.step_inv [OF a] im.step_balance [OF a] ipd.step_inv [OF d] del_iprange_spec [OF d] by auto
qed

lemma add_del_iprange_correct_witness:
  "addrs (fst (snd (add_iprange lan (irange 0 0xffffffff) plenty_mem))) = addrs lan \<union> iprng (irange 0 0xffffffff) \<and>
   addrs (fst (snd (del_iprange lan (irange 0 0xffffffff) plenty_mem))) = addrs lan - iprng (irange 0 0xffffffff)"
proof -
  let ?r = "irange 0 0xffffffff"
  obtain af i' m' where a: "add_iprange lan ?r plenty_mem = (af, i', m')" by (cases "add_iprange lan ?r plenty_mem")
  obtain df i'' m'' where d: "del_iprange lan ?r plenty_mem = (df, i'', m'')" by (cases "del_iprange lan ?r plenty_mem")
  from add_del_iprange_correct [OF lan_hosts_ok(2) _ a d] show ?thesis by (simp add: a d)
qed

text \<open>
  The queries on well-formed sets answer for the sets of addresses: membership, equality,
  a common address (\<open>ipsets_clash\<close>), inclusion (\<open>ipset_encloses\<close>), and the exact number of
  addresses, which fits the 64 bits of \<open>ipset_area\<close> even for the full set.
\<close>

lemma ipset_queries_correct:
  assumes "ipset_ok i" "ipset_ok j"
  shows "(ip_in_set i x \<longleftrightarrow> uint x \<in> addrs i) \<and> (ipsets_equal i j \<longleftrightarrow> addrs i = addrs j) \<and>
    (ipsets_clash i j \<longleftrightarrow> addrs i \<inter> addrs j \<noteq> {}) \<and> (ipset_encloses i j \<longleftrightarrow> addrs j \<subseteq> addrs i) \<and>
    uint (ipset_area i) = int (card (addrs i))"
proof (intro conjI)
  note wf = ipset_okD [OF assms(1)] ipset_okD [OF assms(2)]
  show "ip_in_set i x \<longleftrightarrow> uint x \<in> addrs i"
    using ip_in_set_loop_covers [OF wf(1)] by (simp add: ip_in_set_def addrs_def)
  have "ipsets_equal i j \<longleftrightarrow> iranges i = iranges j" by (auto simp: ipsets_equal_def)
  then show "ipsets_equal i j \<longleftrightarrow> addrs i = addrs j"
    using canonical_unique [OF wf] by (auto simp: addrs_def map_ipiv_inject)
  show "ipsets_clash i j \<longleftrightarrow> addrs i \<inter> addrs j \<noteq> {}"
    using iprange_clashes_iff [OF assms(1)] ipset_ok_iprange_ok [OF assms(2)]
    by (auto simp: ipsets_clash_def ipsets_clash_loop_iff addrs_def [of j] covers_ipiv)
  show "ipset_encloses i j \<longleftrightarrow> addrs j \<subseteq> addrs i"
    using encloses_range_iff [OF wf(1)] ipset_ok_iprange_ok [OF assms(2)]
    by (auto simp: ipset_encloses_def encloses_loop_iff addrs_def covers_ipiv [of "iranges j"])
  show "uint (ipset_area i) = int (card (addrs i))"
    using ipset_area_width [OF wf(1)] card_covers [OF wf(1)] by (simp add: ipset_area_def addrs_def)
qed

lemma ipset_queries_correct_example:
  "ipset_encloses lan hosts \<longleftrightarrow> addrs hosts \<subseteq> addrs lan"
  using ipset_queries_correct [OF lan_hosts_ok(2,3)] by blast

text \<open>
  C24: A clone keeps \<open>maxranges\<close> but has room for \<open>rangecount\<close> ranges only. After any removal
  that left spare capacity, merging a range that lies past the end of the set writes beyond
  the clone's block.
\<close>

theorem merge_into_clone_overruns:
  assumes "ipset_ok i" "iranges i \<noteq> []" "length (iranges i) < maxranges i" "plentiful m"
    and "\<forall>x \<in> addrs i. x + 1 < uint (ilower r)"
  shows "overrun (fst (snd (merge_ipsets i \<lparr>iranges = [r], maxranges = 1, iblock = 1\<rparr> m)))"
proof -
  let ?rs = "iranges i"
  have len: "\<not> length ?rs > maxranges i" "0 < 8 * length ?rs" using assms(2,3) by simp_all
  obtain m1 where md: "Memdup ?rs (8 * length ?rs) m = (Some ?rs, m1)" "plentiful m1"
    using Memdup_plentiful [OF assms(4) len(2), of ?rs] by auto
  let ?c = "\<lparr>iranges = ?rs, maxranges = maxranges i, iblock = length ?rs\<rparr>"
  have cl: "clone_ipset i m = (False, ?c, m1)" using md len assms(2) by (simp add: clone_ipset_def)
  have "add_skip r ?rs = length ?rs"
    using skip_beyond [OF ipset_okD [OF assms(1)]] assms(5) by (simp add: add_skip_skip addrs_def)
  then have "add_iprange ?c r m1 = append_ipset ?c r m1" by (simp add: add_iprange_def Let_def)
  also have "\<dots> = (False, ?c\<lparr>iranges := ?rs @ [r]\<rparr>, m1)"
    using assms(3) by (simp add: append_ipset_def extend_ipset_def Let_def)
  finally show ?thesis using cl by (simp add: merge_ipsets_def on_clone_def overrun_def)
qed

lemma merge_into_clone_overruns_witness:
  "overrun (fst (snd (merge_ipsets
     (fst (snd (add_iprange \<lparr>iranges = [irange 1 1, irange 3 3, irange 5 5], maxranges = 3, iblock = 3\<rparr>
       (irange 1 3) plenty_mem)))
     \<lparr>iranges = [irange 9 9], maxranges = 1, iblock = 1\<rparr> plenty_mem)))"
proof -
  have "add_iprange \<lparr>iranges = [irange 1 1, irange 3 3, irange 5 5], maxranges = 3, iblock = 3\<rparr>
      (irange 1 3) plenty_mem
    = (False, \<lparr>iranges = [irange 1 3, irange 5 5], maxranges = 3, iblock = 3\<rparr>, plenty_mem)"
    by (simp add: add_iprange_def remove_ipset_def memmove_def Let_def)
  moreover have "overrun (fst (snd (merge_ipsets \<lparr>iranges = [irange 1 3, irange 5 5], maxranges = 3, iblock = 3\<rparr>
      \<lparr>iranges = [irange 9 9], maxranges = 1, iblock = 1\<rparr> plenty_mem)))"
    by (rule merge_into_clone_overruns) (simp_all add: ipset_ok_def room_def ipiv_def addrs_def)
  ultimately show ?thesis by simp
qed

subsection \<open>Routes\<close>

lemma shl: "((\<lambda>w. push_bit 1 w) ^^ n) (w :: u32) = push_bit n w"
proof (induction n)
  case (Suc n)
  have "push_bit 1 (push_bit n w) = push_bit (Suc n) w" by (simp only: push_bit_push_bit plus_1_eq_Suc)
  with Suc show ?case by (simp only: funpow.simps comp_apply)
qed simp

lemma and_shifted_mask: "(d :: u32) AND push_bit n (- 1) = d - take_bit n d"
proof -
  have "d - take_bit n d = d AND NOT (take_bit n d)"
    by (rule disjunctive_diff) (simp add: bit_take_bit_iff)
  also have "\<dots> = d AND NOT (mask n)"
    by (rule bit_eqI) (auto simp: bit_and_iff bit_not_iff bit_take_bit_iff bit_mask_iff)
  finally show ?thesis by (simp add: push_bit_minus_one_eq_not_mask)
qed

lemma uint_network: "n \<le> 32 \<Longrightarrow> uint ((d :: u32) - take_bit n d) = uint d div 2 ^ n * 2 ^ n"
proof -
  assume n: "n \<le> 32"
  have t: "uint (take_bit n d) = uint d mod 2 ^ n"
  proof -
    have "uint (take_bit n d) = uint d AND mask n"
      using n by (simp only: take_bit_eq_mask unsigned_and_eq uint_mask_eq) (simp add: min_def)
    then show ?thesis by (simp only: take_bit_eq_mask [symmetric] take_bit_eq_mod)
  qed
  have "uint (take_bit n d) \<le> uint d" unfolding t by (rule zmod_le_nonneg_dividend) simp
  then have "uint (d - take_bit n d) = uint d - uint (take_bit n d)"
    using uint_minus_simple_alt [of "take_bit n d" d] by (simp only: word_le_def)
  then show ?thesis by (simp add: t minus_mod_eq_div_mult)
qed

lemma uint_broadcast: "n \<le> 32 \<Longrightarrow> uint (((d :: u32) - take_bit n d) OR NOT (push_bit n (- 1))) = uint d div 2 ^ n * 2 ^ n + 2 ^ n - 1"
proof -
  assume n: "n \<le> 32"
  have e: "(d - take_bit n d) OR NOT (push_bit n (- 1)) = (d AND NOT (mask n)) OR mask n"
    by (simp add: and_shifted_mask [symmetric] push_bit_minus_one_eq_not_mask)
  have "uint ((d AND NOT (mask n)) OR mask n) = uint (d AND NOT (mask n)) OR uint (mask n :: u32)"
    by (simp add: unsigned_or_eq)
  also have "uint (mask n :: u32) = mask n" using n
    by (simp add: uint_mask_eq min_def)
  also have "uint (d AND NOT (mask n)) = uint d div 2 ^ n * 2 ^ n"
    using uint_network [OF n, of d] by (simp add: and_shifted_mask [symmetric] push_bit_minus_one_eq_not_mask)
  also have "uint d div 2 ^ n * 2 ^ n OR mask n = uint d div 2 ^ n * 2 ^ n + mask n"
    by (rule disjunctive_add [symmetric]) (auto simp: bit_mask_iff push_bit_eq_mult [symmetric] bit_push_bit_iff)
  finally show ?thesis unfolding e by (simp only: mask_eq_exp_minus_1 add_diff_eq)
qed
lemma iprange_from_route_members:
  "case iprange_from_route dst bits of
     None \<Rightarrow> 32 < unat bits
   | Some r \<Rightarrow> unat bits \<le> 32 \<and>
       (\<forall>x. ip_in_range r x \<longleftrightarrow> uint x div 2 ^ (32 - unat bits) = uint dst div 2 ^ (32 - unat bits))"
proof (cases "bits > 32")
  case True
  then have "32 < unat bits" by (simp add: word_less_nat_alt)
  with True show ?thesis by (simp add: iprange_from_route_def)
next
  case False
  then have le: "bits \<le> 32" by simp
  then have b: "unat bits \<le> 32" by (simp add: word_le_nat_alt)
  define n where "n = 32 - unat bits"
  have "unat (32 - bits) = n" using unat_sub [OF le] by (simp add: n_def)
  then have r: "iprange_from_route dst bits =
      Some (irange (dst AND push_bit n (- 1)) ((dst AND push_bit n (- 1)) OR NOT (push_bit n (- 1))))"
  proof -
    assume n: "unat (32 - bits) = n"
    have "(0xffffffff :: u32) = - 1" by simp
    with False n show ?thesis by (simp only: iprange_from_route_def Let_def shl if_False)
  qed
  have n: "n \<le> 32" by (simp add: n_def)
  have "ip_in_range (irange (dst AND push_bit n (- 1)) ((dst AND push_bit n (- 1)) OR NOT (push_bit n (- 1)))) x
      \<longleftrightarrow> uint dst div 2 ^ n * 2 ^ n \<le> uint x \<and> uint x \<le> uint dst div 2 ^ n * 2 ^ n + 2 ^ n - 1" for x
    unfolding ip_in_range_def iprange.simps word_le_def and_shifted_mask
      uint_network [OF n] uint_broadcast [OF n] by (rule refl)
  also have "uint dst div 2 ^ n * 2 ^ n \<le> uint x \<and> uint x \<le> uint dst div 2 ^ n * 2 ^ n + 2 ^ n - 1
      \<longleftrightarrow> uint x div 2 ^ n = uint dst div 2 ^ n" for x
  proof -
    have pos: "0 < (2 :: int) ^ n" by simp
    have "uint x div 2 ^ n * 2 ^ n \<le> uint x" "uint x < uint x div 2 ^ n * 2 ^ n + 2 ^ n"
      using pos by (simp_all add: minus_mod_eq_div_mult [symmetric])
    moreover have "uint x div 2 ^ n = q" if "q * 2 ^ n \<le> uint x" "uint x < q * 2 ^ n + 2 ^ n" for q
      using that by (intro int_div_pos_eq [of _ _ _ "uint x - q * 2 ^ n"]) (simp_all add: mult.commute)
    ultimately show ?thesis by (metis less_add_one add_diff_eq zle_diff1_eq)
  qed
  finally show ?thesis using r b by (simp add: n_def)
qed

text \<open>
  A route of \<open>bits\<close> leading bits is the range of exactly the addresses that agree with the
  destination in those bits, for every number of bits from 0 to 32; more are refused.
\<close>

lemma iprange_from_route_correct:
  "case iprange_from_route dst bits of
     None \<Rightarrow> 32 < unat bits
   | Some r \<Rightarrow> unat bits \<le> 32 \<and>
       (\<forall>x. ip_in_range r x \<longleftrightarrow> uint x div 2 ^ (32 - unat bits) = uint dst div 2 ^ (32 - unat bits))"
  by (rule iprange_from_route_members)

end
