(* ===== verification/Ipset_Text.thy ===== *)
theory Ipset_Text
  imports Ipset Parse
begin

text \<open>
  The text form of IPv4 sets: the printer and the parsers of ipset.c. The conversions of one
  address are the C library's inet_ntop and inet_pton, parameters of the definitions; they
  work on network byte order, which on the supported (little-endian) processors is the byte
  swap \<open>htonl\<close>.

  A shift of a 32-bit word by a negative count is undefined in C; where the code can reach one
  the answer is \<open>Undefined\<close>.
\<close>

subsection \<open>Byte order\<close>

definition htonl :: "u32 \<Rightarrow> u32" where
  "htonl x = push_bit 24 (x AND 0xff) OR push_bit 8 (x AND 0xff00) OR
     (drop_bit 8 x AND 0xff00) OR (drop_bit 24 x AND 0xff)"

abbreviation ntohl :: "u32 \<Rightarrow> u32" where
  "ntohl \<equiv> htonl"

subsection \<open>Printing\<close>

definition stringize_iprange :: "(u32 \<Rightarrow> string option) \<Rightarrow> ustring \<Rightarrow> iprange \<Rightarrow> mem \<Rightarrow> bool \<times> ustring \<times> mem" where
  "stringize_iprange inet_ntop u ir m =
     (case inet_ntop (htonl (ilower ir)) of
        None \<Rightarrow> (True, u, m)
      | Some buf \<Rightarrow>
          (case print_step buf u m of
             (True, u1, m1) \<Rightarrow> (True, u1, m1)
           | (False, u1, m1) \<Rightarrow>
               if iupper ir \<noteq> ilower ir then
                 (case inet_ntop (htonl (iupper ir)) of
                    None \<Rightarrow> (True, u1, m1)
                  | Some buf2 \<Rightarrow> print_step (CHR ''-'' # buf2) u1 m1)
               else (False, u1, m1)))"

fun stringize_ipranges :: "(u32 \<Rightarrow> string option) \<Rightarrow> nat \<Rightarrow> iprange list \<Rightarrow> ustring \<Rightarrow> mem \<Rightarrow> bool \<times> ustring \<times> mem" where
  "stringize_ipranges inet_ntop z [] u m = (False, u, m)"
| "stringize_ipranges inet_ntop z (cur # rs) u m =
     (case (if z \<noteq> 0 then print_step '','' u m else (False, u, m)) of
        (True, u1, m1) \<Rightarrow> (True, u1, m1)
      | (False, u1, m1) \<Rightarrow>
          (case stringize_iprange inet_ntop u1 cur m1 of
             (True, u2, m2) \<Rightarrow> (True, u2, m2)
           | (False, u2, m2) \<Rightarrow> stringize_ipranges inet_ntop (Suc z) rs u2 m2))"

definition stringize_ipset :: "(u32 \<Rightarrow> string option) \<Rightarrow> ustring \<Rightarrow> ipset \<Rightarrow> mem \<Rightarrow> bool \<times> ustring \<times> mem" where
  "stringize_ipset inet_ntop u is m =
     (case print_step ''['' u m of
        (True, u1, m1) \<Rightarrow> (True, u1, m1)
      | (False, u1, m1) \<Rightarrow>
          (case stringize_ipranges inet_ntop 0 (iranges is) u1 m1 of
             (True, u2, m2) \<Rightarrow> (True, u2, m2)
           | (False, u2, m2) \<Rightarrow> print_step '']'' u2 m2))"

subsection \<open>Parsing\<close>

datatype 'a outcome = Undefined | Refused | Took nat 'a

text \<open>
  libc's \<open>sscanf (buf, "%d", &i)\<close>: white space, a sign and digits. (The result of more digits
  than an int holds is undefined in C; the model has the number itself, which is refused or
  undefined below in the same places.)
\<close>

definition digits_value :: "string \<Rightarrow> nat" where
  "digits_value ds = foldl (\<lambda>v c. v * 10 + (ccode c - 48)) 0 ds"

definition sscanf_d :: "string \<Rightarrow> int option" where
  "sscanf_d buf =
     (let t = drop (parse_whitespace buf) buf;
          neg = (peek t = CHR ''-'');
          ds = takeWhile isdigit (if neg \<or> peek t = CHR ''+'' then tl t else t)
      in if ds = [] then None else Some (if neg then - int (digits_value ds) else int (digits_value ds)))"

definition ip_end :: "string \<Rightarrow> bool" where
  "ip_end buf \<longleftrightarrow> isspace (peek buf) \<or> peek buf = CHR '','' \<or> peek buf = NUL \<or> peek buf = CHR '']'' \<or>
     peek buf = CHR ''@''"

definition parse_ipv4range :: "(string \<Rightarrow> u32 option) \<Rightarrow> string \<Rightarrow> iprange outcome" where
  "parse_ipv4range Inet_pton start =
     (let finish = (\<lambda>n r. if ip_end (drop n start) then Took n r else Refused);
          ws = parse_whitespace start;
          buf = drop ws start
      in if peek buf = CHR ''-'' \<or> peek buf = CHR '':'' then
           (case parse_ipv4address Inet_pton (tl buf) of
              None \<Rightarrow> Refused
            | Some (i, upper) \<Rightarrow> finish (ws + 1 + i) (irange 0 upper))
         else
           (case parse_ipv4address Inet_pton buf of
              None \<Rightarrow> Refused
            | Some (i, addr) \<Rightarrow>
                let n1 = ws + i; b1 = drop n1 start; lower = ntohl addr in
                if peek b1 = CHR ''/'' then
                  let n2 = n1 + 1 + parse_whitespace (drop (n1 + 1) start);
                      n3 = n2 + length (takeWhile isdigit (drop n2 start))
                  in (case sscanf_d (drop n2 start) of
                        None \<Rightarrow> Refused
                      | Some bits \<Rightarrow>
                          if bits > 32 then Undefined
                          else if bits > 0 then
                            let l = lower AND push_bit (32 - nat bits) (- 1)
                            in finish n3 (irange l (l OR (push_bit (32 - nat bits) 1 - 1)))
                          else if bits = 0 then finish n3 (irange (htonl 0) (htonl (- 1)))
                          else Refused)
                else if peek b1 = CHR ''-'' \<or> peek b1 = CHR '':'' then
                  (if \<not> isdigit (peek (tl b1)) then finish (n1 + 1) (irange lower (htonl (- 1)))
                   else case parse_ipv4address Inet_pton (tl b1) of
                          None \<Rightarrow> Refused
                        | Some (j, addr2) \<Rightarrow>
                            let upper = ntohl addr2
                            in finish (n1 + 1 + j) (if lower > upper then irange upper lower else irange lower upper))
                else finish n1 (irange lower lower)))"

text \<open>
  The loop of \<open>parse_ipranges\<close>: \<open>ret\<close> bytes are taken, \<open>buf\<close> is what follows them. A refused
  range leaves the set as it is; a failing \<open>add_iprange\<close> frees it.
\<close>

function parse_ipranges ::
  "(string \<Rightarrow> u32 option) \<Rightarrow> string \<Rightarrow> nat \<Rightarrow> ipset \<Rightarrow> mem \<Rightarrow> unit outcome \<times> ipset \<times> mem" where
  "parse_ipranges Inet_pton buf ret is m =
     (case parse_ipv4range Inet_pton buf of
        Undefined \<Rightarrow> (Undefined, is, m)
      | Refused \<Rightarrow> (Refused, is, m)
      | Took r ir \<Rightarrow>
          (case add_iprange is ir m of
             (True, is1, m1) \<Rightarrow> (case free_ipset is1 m1 of (is2, m2) \<Rightarrow> (Refused, is2, m2))
           | (False, is1, m1) \<Rightarrow>
               if peek (drop r buf) = CHR '',''
               then parse_ipranges Inet_pton (drop (r + 1) buf) (ret + r + 1) is1 m1
               else (Took (ret + r) (), is1, m1)))"
  by pat_completeness auto
termination
proof (relation "measure (\<lambda>(pton, buf, ret, is, m). length buf)", goal_cases)
  case (2 pton buf ret i m r ir x i1 m1)
  then have "peek (drop r buf) \<noteq> NUL" by (simp add: NUL_def)
  then have "drop r buf \<noteq> []" by (rule peek_nonempty)
  then show ?case by simp
qed simp

declare parse_ipranges.simps [simp del]

text \<open>\<open>postparse_ipset\<close> answers whether it failed.\<close>

definition postparse_ipset :: "ipset \<Rightarrow> bool \<Rightarrow> mem \<Rightarrow> bool \<times> ipset \<times> mem" where
  "postparse_ipset addr invert m =
     (let answer = (\<lambda>is m. (iranges is = [], is, m)) in
      if invert then
        (case add_iprange init_ipset IPRANGE_ALL m of
           (True, tmp, m1) \<Rightarrow> (case free_ipset addr m1 of (a, m2) \<Rightarrow> (True, a, m2))
         | (False, tmp, m1) \<Rightarrow>
             (case purge_ipsets tmp addr m1 of
                (True, tmp2, m2) \<Rightarrow>
                  (case free_ipset addr (snd (free_ipset tmp2 m2)) of (a, m3) \<Rightarrow> (True, a, m3))
              | (False, tmp2, m2) \<Rightarrow> answer tmp2 (snd (free_ipset addr m2))))
      else answer addr m)"

definition parse_initialized_ipset ::
  "(string \<Rightarrow> u32 option) \<Rightarrow> string \<Rightarrow> ipset \<Rightarrow> mem \<Rightarrow> unit outcome \<times> ipset \<times> mem" where
  "parse_initialized_ipset Inet_pton start is m =
     (let is0 = is\<lparr>iranges := []\<rparr>;
          n0 = parse_whitespace start;
          invert = (peek (drop n0 start) = CHR ''!'');
          n1 = (if invert then n0 + 1 else n0);
          n2 = n1 + parse_whitespace (drop n1 start);
          inbracket = (peek (drop n2 start) = CHR ''['');
          n3 = (if inbracket then n2 + 1 else n2);
          text = drop n3 start;
          parsed = (if casepfx text ''any'' then
                      (case add_iprange is0 IPRANGE_ALL m of
                         (True, is1, m1) \<Rightarrow> (Refused, is1, m1)
                       | (False, is1, m1) \<Rightarrow> (Took 3 (), is1, m1))
                    else parse_ipranges Inet_pton text 0 is0 m)
      in case parsed of
           (Undefined, is1, m1) \<Rightarrow> (Undefined, is1, m1)
         | (Refused, is1, m1) \<Rightarrow> (Refused, is1, m1)
         | (Took i _, is1, m1) \<Rightarrow>
             let n4 = n3 + i + parse_whitespace (drop (n3 + i) start) in
             if inbracket \<and> peek (drop n4 start) \<noteq> CHR '']'' then
               (case free_ipset is1 m1 of (is2, m2) \<Rightarrow> (Refused, is2, m2))
             else
               (case postparse_ipset is1 invert m1 of
                  (True, is2, m2) \<Rightarrow> (Refused, is2, m2)
                | (False, is2, m2) \<Rightarrow> (Took (if inbracket then n4 + 1 else n4) (), is2, m2)))"

definition parse_ipset :: "(string \<Rightarrow> u32 option) \<Rightarrow> string \<Rightarrow> mem \<Rightarrow> unit outcome \<times> ipset \<times> mem" where
  "parse_ipset Inet_pton text m = parse_initialized_ipset Inet_pton text init_ipset m"

subsection \<open>What parsing does to the set and the allocator\<close>

lemma parse_ipv4address_consumes:
  "parse_ipv4address pton s = Some (n, a) \<Longrightarrow> 0 < n \<and> n \<le> length s"
proof -
  assume a: "parse_ipv4address pton s = Some (n, a)"
  define b where "b = length (takeWhile is_addr_char (take (INET_ADDRSTRLEN - 1) (drop (parse_whitespace s) s)))"
  from a have "n = parse_whitespace s + b" "7 \<le> b"
    by (auto simp: parse_ipv4address_def Let_def b_def INET_ADDRSTRMIN_def split: option.splits if_splits)
  moreover have "b \<le> length s - parse_whitespace s"
    unfolding b_def by (rule order_trans [OF length_takeWhile_le]) simp
  moreover have "parse_whitespace s \<le> length s" by (rule parse_whitespace_le)
  ultimately show ?thesis by linarith
qed

lemma parse_ipv4range_consumes: "parse_ipv4range pton s = Took n r \<Longrightarrow> 0 < n"
  by (auto simp: parse_ipv4range_def Let_def split: option.splits if_splits
      dest: parse_ipv4address_consumes)


lemma htonl_ends [simp]: "htonl 0 = 0" "htonl (- 1) = - 1"
  by (simp_all add: htonl_def mask_eq_exp_minus_1)

lemma prefix_range_ok: "(w :: u32) \<le> w OR v"
  by (simp add: word_le_def unsigned_or_eq or_greater_eq)

lemma parse_ipv4range_ok:
  assumes "parse_ipv4range pton s = Took n r"
  shows "iprange_ok r"
proof -
  consider x where "r = irange 0 x" | l v where "r = irange l (l OR v)" | x where "r = irange x (- 1)"
    | x y where "x \<le> y" "r = irange x y"
    using assms
    by (fastforce simp: parse_ipv4range_def Let_def split: option.splits if_splits)
  then show ?thesis by cases (simp_all add: iprange_ok_def prefix_range_ok word_n1_ge)
qed

lemma free_ipset_ok:
  "free_ipset i m = (i', m') \<Longrightarrow> i' = init_ipset \<and> allocs_used m' = allocs_used m - ipset_owns i"
  using free_ipset_used(1) [of i m] by (auto simp: free_ipset_def)

lemma parse_ipranges_ok:
  "ipset_ok i \<Longrightarrow> parse_ipranges pton buf ret i m = (res, i', m') \<Longrightarrow>
   ipset_ok i' \<and> allocs_used m' = allocs_used m + ipset_owns i' - ipset_owns i"
proof (induction pton buf ret i m rule: parse_ipranges.induct)
  case (1 pton buf ret i m)
  note step = parse_ipranges.simps [of pton buf ret i m]
  show ?case
  proof (cases "parse_ipv4range pton buf")
    case (Took r ir)
    have ir: "iprange_ok ir" by (rule parse_ipv4range_ok [OF Took])
    obtain e i1 m1 where a: "add_iprange i ir m = (e, i1, m1)" by (cases "add_iprange i ir m")
    note i1 = im.step_inv [OF "1.prems"(1) ir a] im.step_balance [OF "1.prems"(1) ir a]
    show ?thesis
    proof (cases e)
      case True
      obtain i2 m2 where "free_ipset i1 m1 = (i2, m2)" by (cases "free_ipset i1 m1")
      with True step "1.prems"(2) Took a i1 free_ipset_ok [of i1 m1 i2 m2] show ?thesis by simp
    next
      case e: False
      then have e': "e = False" by simp
      show ?thesis
      proof (cases "peek (drop r buf) = CHR '',''")
        case True
        with e step "1.prems"(2) Took a
        have "parse_ipranges pton (drop (r + 1) buf) (ret + r + 1) i1 m1 = (res, i', m')" by simp
        from "1.IH" [OF Took a [symmetric] e' refl True i1(1) this] i1(2) show ?thesis by simp
      next
        case False
        with e step "1.prems"(2) Took a i1 show ?thesis by simp
      qed
    qed
  qed (use 1 step in simp_all)
qed

lemma postparse_ipset_ok:
  assumes "ipset_ok i" "postparse_ipset i invert m = (e, i', m')"
  shows "ipset_ok i' \<and> allocs_used m' = allocs_used m + ipset_owns i' - ipset_owns i"
proof (cases invert)
  case False
  with assms show ?thesis by (simp add: postparse_ipset_def)
next
  case True
  have all: "iprange_ok IPRANGE_ALL" by (simp add: iprange_ok_def IPRANGE_ALL_def)
  obtain e1 t m1 where a: "add_iprange init_ipset IPRANGE_ALL m = (e1, t, m1)"
    by (cases "add_iprange init_ipset IPRANGE_ALL m")
  note t = im.step_inv [OF _ all a] im.step_balance [OF _ all a]
  obtain f2 t2 m2 where p: "purge_ipsets t i m1 = (f2, t2, m2)" by (cases "purge_ipsets t i m1")
  show ?thesis
  proof (cases e1)
    case True
    have "ipset_ok init_ipset" by simp
    from this all a have "t = init_ipset" by (cases rule: add_iprange_cases) (use True in auto)
    obtain i4 m4 where "free_ipset i m1 = (i4, m4)" by (cases "free_ipset i m1")
    with True t \<open>t = init_ipset\<close> free_ipset_ok [of i m1 i4 m4] assms(2) a \<open>invert\<close> show ?thesis
      by (simp add: postparse_ipset_def)
  next
    case False
    have "iranges t = [IPRANGE_ALL]" "maxranges t = 1"
      using a False by (auto simp: add_iprange_def append_ipset_def extend_ipset_def Let_def
          split: prod.splits bool.splits)
    with t have "cloneable t" by (simp add: cloneable_def)
    note pg = ipd.on_clone_balance [OF this ipset_ok_iprange_ok [OF assms(1)] p [unfolded purge_ipsets_def]]
      ipd.on_clone_atomic [of "iranges i" t m1 t2 m2] ipd.on_clone_inv [OF this ipset_ok_iprange_ok [OF assms(1)], of m1 t2 m2]
    obtain t3 m3 where f3: "free_ipset t2 m2 = (t3, m3)" by (cases "free_ipset t2 m2")
    obtain i4 m4 where f4: "free_ipset i (if f2 then m3 else m2) = (i4, m4)"
      by (cases "free_ipset i (if f2 then m3 else m2)")
    show ?thesis
      using pg p t False assms(2) a \<open>invert\<close> free_ipset_ok [OF f3] free_ipset_ok [OF f4] f3 f4
      by (cases f2) (simp_all add: postparse_ipset_def purge_ipsets_def)
  qed
qed

text \<open>
  Whatever the text and whatever inet_pton answers, \<open>parse_initialized_ipset\<close> leaves a
  well-formed set that fits its block, and the live count moves exactly as that block does:
  no error path leaks or frees twice. (\<open>parse_ipset\<close> is the case of a freshly initialised set.)
\<close>

lemma parse_initialized_ipset_safe:
  assumes "ipset_ok i" "parse_initialized_ipset pton text i m = (res, i', m')"
  shows "ipset_ok i' \<and> allocs_used m' - ipset_owns i' = allocs_used m - ipset_owns i"
proof -
  let ?good = "\<lambda>(res :: unit outcome, j, n). ipset_ok j \<and> allocs_used n - ipset_owns j = allocs_used m - ipset_owns i"
  define i0 where "i0 = i\<lparr>iranges := []\<rparr>"
  have i0: "ipset_ok i0" "ipset_owns i0 = ipset_owns i"
    using assms(1) by (simp_all add: i0_def ipset_ok_def room_def ipset_owns_def)
  have all: "iprange_ok IPRANGE_ALL" by (simp add: iprange_ok_def IPRANGE_ALL_def)
  define n0 where "n0 = parse_whitespace text"
  define invert where "invert = (peek (drop n0 text) = CHR ''!'')"
  define n1 where "n1 = (if invert then n0 + 1 else n0)"
  define n2 where "n2 = n1 + parse_whitespace (drop n1 text)"
  define inbracket where "inbracket = (peek (drop n2 text) = CHR ''['')"
  define n3 where "n3 = (if inbracket then n2 + 1 else n2)"
  define parsed where "parsed = (if casepfx (drop n3 text) ''any'' then
                      (case add_iprange i0 IPRANGE_ALL m of
                         (True, is1, m1) \<Rightarrow> (Refused, is1, m1)
                       | (False, is1, m1) \<Rightarrow> (Took 3 (), is1, m1))
                    else parse_ipranges pton (drop n3 text) 0 i0 m)"
  obtain o1 i1 m1 where p: "parsed = (o1, i1, m1)" by (cases parsed)
  have i1: "ipset_ok i1" "allocs_used m1 = allocs_used m + ipset_owns i1 - ipset_owns i"
  proof -
    obtain e j n where a: "add_iprange i0 IPRANGE_ALL m = (e, j, n)" by (cases "add_iprange i0 IPRANGE_ALL m")
    have "ipset_ok i1 \<and> allocs_used m1 = allocs_used m + ipset_owns i1 - ipset_owns i0"
    proof (cases "casepfx (drop n3 text) ''any''")
      case True
      with p a have "i1 = j" "m1 = n" by (auto simp: parsed_def split: bool.splits)
      with im.step_inv [OF i0(1) all a] im.step_balance [OF i0(1) all a] show ?thesis by simp
    next
      case False
      with p have "parse_ipranges pton (drop n3 text) 0 i0 m = (o1, i1, m1)" by (simp add: parsed_def del: casepfx.simps)
      from parse_ipranges_ok [OF i0(1) this] show ?thesis .
    qed
    with i0 show "ipset_ok i1" "allocs_used m1 = allocs_used m + ipset_owns i1 - ipset_owns i" by simp_all
  qed
  obtain e2 i2 m2 where pp: "postparse_ipset i1 invert m1 = (e2, i2, m2)" by (cases "postparse_ipset i1 invert m1")
  obtain i3 m3 where fr: "free_ipset i1 m1 = (i3, m3)" by (cases "free_ipset i1 m1")
  have "?good (parse_initialized_ipset pton text i m)"
    unfolding parse_initialized_ipset_def Let_def i0_def [symmetric] n0_def [symmetric] invert_def [symmetric]
      n1_def [symmetric] n2_def [symmetric] inbracket_def [symmetric] n3_def [symmetric] parsed_def [symmetric] p
    using i1 postparse_ipset_ok [OF i1(1) pp] free_ipset_ok [OF fr]
    by (cases o1; cases e2) (simp_all add: pp fr)
  with assms(2) show ?thesis by simp
qed

subsection \<open>Printing and parsing back\<close>

lemma bit_htonl:
  "n < 32 \<Longrightarrow> bit (htonl x) n \<longleftrightarrow>
     bit x (if n < 8 then n + 24 else if n < 16 then n + 8 else if n < 24 then n - 8 else n - 24)"
proof -
  assume n: "n < 32"
  have m: "(0xff :: u32) = mask 8" "(0xff00 :: u32) = push_bit 8 (mask 8)"
    by (simp_all add: mask_eq_exp_minus_1)
  show ?thesis using n unfolding htonl_def m
    by (auto simp: bit_or_iff bit_and_iff bit_push_bit_iff bit_drop_bit_eq bit_mask_iff add.commute)
qed

lemma htonl_htonl [simp]: "htonl (htonl x) = x"
proof (rule bit_word_eqI)
  fix n assume "n < LENGTH(32)"
  then consider "n < 8" | "8 \<le> n" "n < 16" | "16 \<le> n" "n < 24" | "24 \<le> n" "n < 32" by fastforce
  then show "bit (htonl (htonl x)) n = bit x n" by cases (auto simp: bit_htonl)
qed

text \<open>What the code relies on of inet_ntop and inet_pton.\<close>

definition inet_pair :: "(u32 \<Rightarrow> string option) \<Rightarrow> (string \<Rightarrow> u32 option) \<Rightarrow> bool" where
  "inet_pair inet_ntop inet_pton \<longleftrightarrow>
     (\<forall>n. \<exists>t. inet_ntop n = Some t \<and> inet_pton t = Some n \<and> INET_ADDRSTRMIN \<le> length t \<and>
        length t < INET_ADDRSTRLEN \<and> (\<forall>c \<in> set t. is_addr_char c) \<and> isdigit (peek t))"

definition ip_text :: "(u32 \<Rightarrow> string option) \<Rightarrow> u32 \<Rightarrow> string" where
  "ip_text inet_ntop a = the (inet_ntop (htonl a))"

definition ip_pieces :: "(u32 \<Rightarrow> string option) \<Rightarrow> iprange \<Rightarrow> string list" where
  "ip_pieces inet_ntop r = ip_text inet_ntop (ilower r) #
     (if iupper r \<noteq> ilower r then [CHR ''-'' # ip_text inet_ntop (iupper r)] else [])"

fun ipset_pieces :: "(u32 \<Rightarrow> string option) \<Rightarrow> nat \<Rightarrow> iprange list \<Rightarrow> string list" where
  "ipset_pieces inet_ntop z [] = []"
| "ipset_pieces inet_ntop z (r # rs) =
     (if z \<noteq> 0 then ['',''] else []) @ ip_pieces inet_ntop r @ ipset_pieces inet_ntop (Suc z) rs"

lemma inet_pairD:
  assumes "inet_pair ntop pton"
  shows "ntop (htonl a) = Some (ip_text ntop a)" "pton (ip_text ntop a) = Some (htonl a)"
    "INET_ADDRSTRMIN \<le> length (ip_text ntop a)" "length (ip_text ntop a) \<le> INET_ADDRSTRLEN - 1"
    "\<forall>c \<in> set (ip_text ntop a). is_addr_char c" "isdigit (peek (ip_text ntop a @ s))"
proof -
  from assms obtain t where t: "ntop (htonl a) = Some t" "pton t = Some (htonl a)" "INET_ADDRSTRMIN \<le> length t"
    "length t < INET_ADDRSTRLEN" "\<forall>c \<in> set t. is_addr_char c" "isdigit (peek t)"
    unfolding inet_pair_def by metis
  from t(6) have "peek (t @ s) = peek t" using isdigit_peek_nonempty [of t] by (cases t) simp_all
  with t show "ntop (htonl a) = Some (ip_text ntop a)" "pton (ip_text ntop a) = Some (htonl a)"
    "INET_ADDRSTRMIN \<le> length (ip_text ntop a)" "length (ip_text ntop a) \<le> INET_ADDRSTRLEN - 1"
    "\<forall>c \<in> set (ip_text ntop a). is_addr_char c" "isdigit (peek (ip_text ntop a @ s))"
    by (simp_all add: ip_text_def)
qed

lemma parse_ipv4address_text:
  assumes "inet_pair ntop pton" "\<not> is_addr_char (peek s)"
  shows "parse_ipv4address pton (ip_text ntop a @ s) = Some (length (ip_text ntop a), htonl a)"
proof -
  let ?t = "ip_text ntop a"
  note t = inet_pairD [OF assms(1), of a]
  have ws: "parse_whitespace (?t @ s) = 0"
    using t(6) by (intro parse_whitespace_none isdigit_not_space)
  have "takeWhile is_addr_char (take k s) = []" for k
    using assms(2) by (cases s; cases k) simp_all
  then have "takeWhile is_addr_char (take (INET_ADDRSTRLEN - 1) (?t @ s)) = ?t"
    using t(4,5) by (simp add: takeWhile_append2)
  then show ?thesis using t(2-4) ws
    by (simp add: parse_ipv4address_def Let_def INET_ADDRSTRLEN_def)
qed

lemma parse_ipv4range_text:
  assumes "inet_pair ntop pton" "iprange_ok r" "peek s = CHR '','' \<or> peek s = CHR '']''"
  shows "parse_ipv4range pton (concat (ip_pieces ntop r) @ s) = Took (length (concat (ip_pieces ntop r))) r"
proof -
  let ?s = "concat (ip_pieces ntop r) @ s"
  have s: "\<not> is_addr_char (peek s)" "ip_end s" "peek s \<noteq> CHR ''/''" "peek s \<noteq> CHR ''-''" "peek s \<noteq> CHR '':''"
    using assms(3) by (auto simp: is_addr_char_def isdigit_def ccode_def ip_end_def)
  have dig: "isdigit (peek ?s)" using inet_pairD(6) [OF assms(1)] by (simp add: ip_pieces_def)
  then have ws: "parse_whitespace ?s = 0" by (intro parse_whitespace_none isdigit_not_space)
  have col: "peek ?s \<noteq> CHR '':''" "peek ?s \<noteq> CHR ''-''"
    using dig by (auto simp: isdigit_def ccode_def)
  show ?thesis
  proof (cases "ilower r = iupper r")
    case True
    then have "parse_ipv4address pton ?s = Some (length (ip_text ntop (ilower r)), htonl (ilower r))"
      using parse_ipv4address_text [OF assms(1) s(1)] by (simp add: ip_pieces_def)
    with s ws col True show ?thesis
      by (cases r) (simp add: parse_ipv4range_def Let_def ip_pieces_def)
  next
    case False
    let ?t = "CHR ''-'' # ip_text ntop (iupper r) @ s"
    have "\<not> is_addr_char (peek ?t)" by (simp add: is_addr_char_def isdigit_def ccode_def)
    from parse_ipv4address_text [OF assms(1) this] False
    have "parse_ipv4address pton ?s = Some (length (ip_text ntop (ilower r)), htonl (ilower r))"
      by (simp add: ip_pieces_def)
    moreover have "parse_ipv4address pton (ip_text ntop (iupper r) @ s)
        = Some (length (ip_text ntop (iupper r)), htonl (iupper r))"
      by (rule parse_ipv4address_text [OF assms(1) s(1)])
    moreover have "isdigit (peek (ip_text ntop (iupper r) @ s))" by (rule inet_pairD(6) [OF assms(1)])
    ultimately show ?thesis using assms(2) s ws col False
      by (cases r) (auto simp: parse_ipv4range_def Let_def ip_pieces_def iprange_ok_def)
  qed
qed

lemma stringize_iprange_pieces:
  "inet_pair ntop pton \<Longrightarrow> stringize_iprange ntop u r m = for_each print_step (ip_pieces ntop r) u m"
  by (auto simp: stringize_iprange_def ip_pieces_def inet_pairD(1) split: prod.splits bool.splits)

lemma stringize_ipranges_pieces:
  "inet_pair ntop pton \<Longrightarrow> stringize_ipranges ntop z rs u m = for_each print_step (ipset_pieces ntop z rs) u m"
  by (induction ntop z rs u m rule: stringize_ipranges.induct)
    (auto simp: for_each_append stringize_iprange_pieces split: prod.splits bool.splits)

lemma stringize_ipset_pieces:
  "inet_pair ntop pton \<Longrightarrow> stringize_ipset ntop u i m =
     for_each print_step (''['' # ipset_pieces ntop 0 (iranges i) @ ['']'']) u m"
  by (auto simp: stringize_ipset_def stringize_ipranges_pieces for_each_append split: prod.splits bool.splits)

lemma ipset_pieces_Suc:
  "concat (ipset_pieces ntop (Suc z) rs) = (if rs = [] then [] else CHR '','' # concat (ipset_pieces ntop 0 rs))"
proof -
  have later: "ipset_pieces ntop (Suc z) rs = ipset_pieces ntop (Suc 0) rs" for z rs
  proof (induction rs arbitrary: z)
    case (Cons r rs)
    from Cons.IH [of "Suc z"] Cons.IH [of "Suc 0"] show ?case by simp
  qed simp
  show ?thesis
  proof (cases rs)
    case (Cons r rs')
    from later [of z rs] later [of 1 rs'] Cons show ?thesis by simp
  qed simp
qed

lemma add_iprange_appends:
  assumes "ipset_ok i" "iprange_ok r" "wf_from 0 4294967295 (map ipiv (iranges i @ [r]))" "plentiful m"
  shows "\<exists>i' m'. add_iprange i r m = (False, i', m') \<and> iranges i' = iranges i @ [r] \<and> ipset_ok i' \<and> plentiful m'"
proof -
  from im.step_plenty [OF assms(1,2,4)] obtain i' m'
    where a: "add_iprange i r m = (False, i', m')" "plentiful m'" by auto
  from assms(1,2) a(1) have "map ipiv (iranges i') = ins (ipiv r) (map ipiv (iranges i))"
    by (cases rule: add_iprange_cases) auto
  also have "\<dots> = map ipiv (iranges i @ [r])"
    using ins_append [OF skip_last [of 0 4294967295 "map ipiv (iranges i)" "uint (ilower r)" "uint (iupper r)"]] assms(3)
    by (simp add: ipiv_def [of r])
  finally have "iranges i' = iranges i @ [r]" by (simp only: map_ipiv_inject)
  with a im.step_inv [OF assms(1,2) a(1)] show ?thesis by blast
qed

lemma parse_ipranges_step:
  "parse_ipv4range pton (a @ rest) = Took (length a) r \<Longrightarrow> add_iprange i r m = (False, i1, m1) \<Longrightarrow>
   parse_ipranges pton (a @ rest) ret i m =
     (if peek rest = CHR '','' then parse_ipranges pton (tl rest) (ret + length a + 1) i1 m1
      else (Took (ret + length a) (), i1, m1))"
  by (simp add: parse_ipranges.simps [of pton "a @ rest"] drop_Suc)

lemma parse_ipranges_text:
  assumes "inet_pair ntop pton"
  shows "rs \<noteq> [] \<Longrightarrow> ipset_ok i \<Longrightarrow> wf_from 0 4294967295 (map ipiv (iranges i @ rs)) \<Longrightarrow> plentiful m \<Longrightarrow>
   \<exists>i' m'. parse_ipranges pton (concat (ipset_pieces ntop 0 rs) @ '']'') ret i m
     = (Took (ret + length (concat (ipset_pieces ntop 0 rs))) (), i', m') \<and> iranges i' = iranges i @ rs \<and> plentiful m'"
proof (induction rs arbitrary: ret i m)
  case (Cons r rs)
  let ?rest = "concat (ipset_pieces ntop (Suc 0) rs) @ '']''"
  have tx: "concat (ipset_pieces ntop 0 (r # rs)) @ '']'' = concat (ip_pieces ntop r) @ ?rest" by simp
  have "wf_from 0 4294967295 (map ipiv (iranges i @ [r]) @ map ipiv rs)" using Cons.prems(3) by simp
  then have wf: "wf_from 0 4294967295 (map ipiv (iranges i @ [r]))" by (rule wf_from_append_left)
  have "wf_from 0 4294967295 [ipiv r]"
    using wf wf_from_append_right [of 0 4294967295 "map ipiv (iranges i)" "[ipiv r]"] by simp
  then have r: "iprange_ok r" by (simp add: ipiv_def iprange_ok_def word_int)
  obtain i1 m1 where a: "add_iprange i r m = (False, i1, m1)" "iranges i1 = iranges i @ [r]" "ipset_ok i1" "plentiful m1"
    using add_iprange_appends [OF Cons.prems(2) r wf Cons.prems(4)] by auto
  have pk: "peek ?rest = (if rs = [] then CHR '']'' else CHR '','')" by (simp add: ipset_pieces_Suc)
  have "parse_ipv4range pton (concat (ip_pieces ntop r) @ ?rest) = Took (length (concat (ip_pieces ntop r))) r"
    by (rule parse_ipv4range_text [OF assms r]) (simp add: pk)
  note step = parse_ipranges_step [OF this a(1), of ret, folded tx]
  show ?case
  proof (cases "rs = []")
    case True
    with step a show ?thesis by (simp add: pk)
  next
    case False
    let ?n = "length (concat (ip_pieces ntop r))"
    from Cons.IH [OF False a(3) _ a(4), of "ret + ?n + 1"] Cons.prems(3) a(2) obtain i2 m2 where
      "parse_ipranges pton (concat (ipset_pieces ntop 0 rs) @ '']'') (ret + ?n + 1) i1 m1
        = (Took (ret + ?n + 1 + length (concat (ipset_pieces ntop 0 rs))) (), i2, m2)"
      "iranges i2 = iranges i @ r # rs" "plentiful m2" by auto
    with step False show ?thesis by (simp add: pk ipset_pieces_Suc)
  qed
qed simp

text \<open>
  C13: Printing a set of addresses and parsing the text gives the set back. If inet_ntop writes
  every address as digits and dots that inet_pton reads back, then for every well-formed
  nonempty set and an allocator with memory \<open>stringize_ipset\<close> succeeds, and \<open>parse_ipset\<close>
  takes all of what it printed and returns the same ranges.
\<close>

theorem ipset_roundtrip:
  assumes "inet_pair inet_ntop inet_pton" "ipset_ok i" "iranges i \<noteq> []"
    "ustring_ok u" "us_text u = []" "plentiful m"
  shows "\<exists>u' m1 i' m2. stringize_ipset inet_ntop u i m = (False, u', m1) \<and>
    parse_ipset inet_pton (us_text u') m1 = (Took (length (us_text u')) (), i', m2) \<and> iranges i' = iranges i"
proof -
  let ?p = "''['' # ipset_pieces inet_ntop 0 (iranges i) @ ['']'']" and ?b = "concat (ipset_pieces inet_ntop 0 (iranges i))"
  obtain u' m1 where st: "stringize_ipset inet_ntop u i m = (False, u', m1)" and m1: "plentiful m1"
    using us.loop_plenty [OF assms(4) _ assms(6), of ?p] by (auto simp: stringize_ipset_pieces [OF assms(1)])
  then have tx: "us_text u' = CHR ''['' # ?b @ '']''"
    using print_loop_text [OF assms(4), of ?p m u' m1] assms(5)
    by (simp add: stringize_ipset_pieces [OF assms(1)])
  obtain i' m2 where pr: "parse_ipranges inet_pton (?b @ '']'') 0 init_ipset m1 = (Took (length ?b) (), i', m2)"
    and i': "iranges i' = iranges i"
    using parse_ipranges_text [OF assms(1,3), of init_ipset m1 0] ipset_okD [OF assms(2)] m1 by auto
  have dig: "isdigit (peek (?b @ '']''))"
    using assms(3) inet_pairD(6) [OF assms(1)] by (cases "iranges i") (simp_all add: ip_pieces_def)
  then have any: "\<not> casepfx (?b @ '']'') ''any''"
    by (auto simp: isdigit_def tolower_def isupper_def ccode_def)
  have sp: "parse_whitespace (CHR ''['' # ?b @ '']'') = 0" "parse_whitespace '']'' = 0"
    by (simp_all add: parse_whitespace_def isspace_def ccode_def)
  have "parse_ipset inet_pton (us_text u') m1 = (Took (length (us_text u')) (), i', m2)"
    using pr any sp assms(3) i' by (simp add: tx parse_ipset_def parse_initialized_ipset_def Let_def
        postparse_ipset_def init_ipset_def del: casepfx.simps)
  with st i' show ?thesis by blast
qed

text \<open>A concrete pair: the dotted quads of the address's bytes, lowest first (as in memory).\<close>

definition dotted :: "u32 \<Rightarrow> string option" where
  "dotted x = (let n = unat x in Some
     (dec (n mod 256) @ CHR ''.'' # dec (n div 256 mod 256) @ CHR ''.'' #
      dec (n div 65536 mod 256) @ CHR ''.'' # dec (n div 16777216)))"

definition undotted :: "string \<Rightarrow> u32 option" where
  "undotted s = (case port_scan s 0 0 of None \<Rightarrow> None | Some (a, k) \<Rightarrow>
     let s1 = drop (k + 1) s in
     (case port_scan s1 0 0 of None \<Rightarrow> None | Some (b, k1) \<Rightarrow>
        let s2 = drop (k1 + 1) s1 in
        (case port_scan s2 0 0 of None \<Rightarrow> None | Some (c, k2) \<Rightarrow>
           (case port_scan (drop (k2 + 1) s2) 0 0 of None \<Rightarrow> None | Some (d, _) \<Rightarrow>
              Some (word_of_nat (a + 256 * b + 65536 * c + 16777216 * d))))))"

lemma dec_small: "n < 256 \<Longrightarrow> 1 \<le> length (dec n) \<and> length (dec n) \<le> 3"
  by (simp add: dec.simps [of n] dec.simps [of "n div 10"] dec.simps [of "n div 100"] div_mult2_eq [symmetric])

lemma port_scan_dec_dot: "n < 256 \<Longrightarrow> port_scan (dec n @ CHR ''.'' # s) 0 0 = Some (n, length (dec n))"
proof -
  assume n: "n < 256"
  have "\<not> isdigit (CHR ''.'')" by (simp add: isdigit_def ccode_def)
  with port_scan_append [OF _ port_scan_dec, of n "CHR ''.'' # s"] n dec_digits show ?thesis by simp
qed

lemma inet_pair_dotted: "inet_pair dotted undotted"
proof -
  have quad: "\<exists>t. dotted x = Some t \<and> undotted t = Some x \<and> INET_ADDRSTRMIN \<le> length t \<and>
        length t < INET_ADDRSTRLEN \<and> (\<forall>c \<in> set t. is_addr_char c) \<and> isdigit (peek t)" for x :: u32
  proof -
    define n where "n = unat x"
    have n: "n < 4294967296" using unsigned_less [of x, where ?'a = nat] by (simp add: n_def)
    define a b c d where "a = n mod 256" "b = n div 256 mod 256" "c = n div 65536 mod 256" "d = n div 16777216"
    have lt: "a < 256" "b < 256" "c < 256" "d < 256" using n by (simp_all add: a_b_c_d_def less_mult_imp_div_less)
    have d: "n div 65536 = n div 256 div 256" "n div 16777216 = n div 256 div 256 div 256"
      by (simp_all add: div_mult2_eq [symmetric])
    have "x = x mod 256 + 256 * (x div 256)" for x :: nat by simp
    from this [of n] this [of "n div 256"] this [of "n div 256 div 256"]
    have sum: "a + 256 * b + 65536 * c + 16777216 * d = n"
      unfolding a_b_c_d_def d by linarith
    let ?t = "dec a @ CHR ''.'' # dec b @ CHR ''.'' # dec c @ CHR ''.'' # dec d"
    have "port_scan (dec d) 0 0 = Some (d, length (dec d))" using port_scan_dec lt by simp
    then have "undotted ?t = Some (word_of_nat (a + 256 * b + 65536 * c + 16777216 * d))"
      using lt by (simp add: undotted_def port_scan_dec_dot Let_def)
    then have "undotted ?t = Some x" by (simp only: sum) (simp add: n_def)
    moreover have "dotted x = Some ?t" by (simp add: dotted_def a_b_c_d_def n_def Let_def)
    moreover have "\<forall>ch \<in> set ?t. is_addr_char ch"
      using dec_digits by (auto simp: is_addr_char_def)
    moreover have "INET_ADDRSTRMIN \<le> length ?t" "length ?t < INET_ADDRSTRLEN"
      using dec_small [OF lt(1)] dec_small [OF lt(2)] dec_small [OF lt(3)] dec_small [OF lt(4)]
      by (simp_all add: INET_ADDRSTRMIN_def INET_ADDRSTRLEN_def)
    moreover have "isdigit (peek ?t)" by simp
    ultimately show ?thesis by blast
  qed
  then show ?thesis by (simp add: inet_pair_def)
qed

lemma ipset_roundtrip_witness:
  "\<exists>u' m1 i' m2. stringize_ipset dotted init_ustring lan plenty_mem = (False, u', m1) \<and>
    parse_ipset undotted (us_text u') m1 = (Took (length (us_text u')) (), i', m2) \<and> iranges i' = iranges lan"
  by (rule ipset_roundtrip [OF inet_pair_dotted])
    (simp_all add: lan_hosts_ok, simp_all add: lan_def init_ustring_def)

lemma parse_initialized_ipset_safe_example:
  "\<exists>res i' m'. parse_initialized_ipset undotted ''![10.0.0.0/8, any'' lan plenty_mem = (res, i', m') \<and>
     ipset_ok i' \<and> allocs_used m' - ipset_owns i' = -1"
proof -
  obtain res i' m' where ps: "parse_initialized_ipset undotted ''![10.0.0.0/8, any'' lan plenty_mem = (res, i', m')"
    by (cases "parse_initialized_ipset undotted ''![10.0.0.0/8, any'' lan plenty_mem")
  have "ipset_owns lan = 1" by (simp add: lan_def ipset_owns_def)
  with parse_initialized_ipset_safe [OF lan_hosts_ok(2) ps] have "ipset_ok i'" "allocs_used m' - ipset_owns i' = -1"
    by (simp_all add: init_mem_def)
  with ps show ?thesis by blast
qed

text \<open>
  The upper bound of a range without a lower one is left in network byte order: for an
  address text \<open>t\<close> that stands for \<open>addr\<close>, the range \<open>-t\<close> ends at the byte-swapped address,
  while the range \<open>t\<close> alone is the address itself.
\<close>

lemma parse_ipv4range_open_lower:
  assumes "inet_pair inet_ntop inet_pton"
  shows "parse_ipv4range inet_pton (CHR ''-'' # ip_text inet_ntop a)
      = Took (Suc (length (ip_text inet_ntop a))) (irange 0 (htonl a))
    \<and> parse_ipv4range inet_pton (ip_text inet_ntop a) = Took (length (ip_text inet_ntop a)) (irange a a)"
proof
  have nd: "\<not> is_addr_char (peek [])" by (simp add: is_addr_char_def isdigit_def ccode_def NUL_def)
  note ad = parse_ipv4address_text [OF assms nd, of a, simplified]
  have "parse_whitespace (CHR ''-'' # ip_text inet_ntop a) = 0"
    by (simp add: parse_whitespace_def isspace_def ccode_def)
  with ad show "parse_ipv4range inet_pton (CHR ''-'' # ip_text inet_ntop a)
      = Took (Suc (length (ip_text inet_ntop a))) (irange 0 (htonl a))"
    by (simp add: parse_ipv4range_def Let_def ip_end_def)
  have dig: "isdigit (peek (ip_text inet_ntop a))" using inet_pairD(6) [OF assms, of a "[]"] by simp
  then have "parse_whitespace (ip_text inet_ntop a) = 0" by (intro parse_whitespace_none isdigit_not_space)
  moreover have "peek (ip_text inet_ntop a) \<noteq> CHR '':''" "peek (ip_text inet_ntop a) \<noteq> CHR ''-''"
    using dig by (auto simp: isdigit_def ccode_def)
  ultimately show "parse_ipv4range inet_pton (ip_text inet_ntop a) = Took (length (ip_text inet_ntop a)) (irange a a)"
    using ad by (simp add: parse_ipv4range_def Let_def ip_end_def NUL_def)
qed

lemma parse_ipv4range_open_lower_example:
  "parse_ipv4range undotted (CHR ''-'' # ip_text dotted 0x0a000001)
     = Took (Suc (length (ip_text dotted 0x0a000001))) (irange 0 (htonl 0x0a000001))"
  using parse_ipv4range_open_lower [OF inet_pair_dotted, of "0x0a000001"] by blast

end
