(* ===== verification/Intervaltree.thy ===== *)
theory Intervaltree
  imports Allocsteps "HOL-Library.Multiset"
begin

text \<open>
  The interval trees of libdank/objects/intervaltree.c: an unbalanced search tree of disjoint
  closed intervals of 32-bit keys, each with a datum, that is balanced on request.

  A null pointer is \<open>Leaf\<close>. A datum is the pointer the caller stored. The callback \<open>freefxn\<close> is
  a flag that says whether it is given; the operations that call it answer the list of the
  data it was called on, in order. An operation that changes the tree answers whether it
  failed, the tree and the allocator's state.
\<close>

subsection \<open>Data\<close>

record interval =
  lbound :: u32
  ubound :: u32

datatype 'v interval_tree =
  Leaf | Node "'v interval_tree" interval 'v "'v interval_tree"

definition intervals_distinct :: "interval \<Rightarrow> interval \<Rightarrow> bool" where
  "intervals_distinct i1 i2 \<longleftrightarrow> ubound i1 < lbound i2 \<and> ubound i2 < lbound i1"

definition intervals_equal :: "interval \<Rightarrow> interval \<Rightarrow> bool" where
  "intervals_equal i1 i2 \<longleftrightarrow> lbound i1 = lbound i2 \<and> ubound i1 = ubound i2"

definition key_in_interval :: "interval \<Rightarrow> u32 \<Rightarrow> bool" where
  "key_in_interval ival key \<longleftrightarrow> key \<ge> lbound ival \<and> key \<le> ubound ival"

text \<open>A node takes 32 bytes on the 64-bit targets.\<close>

definition create_interval_tree_node :: "interval \<Rightarrow> 'v \<Rightarrow> mem \<Rightarrow> 'v interval_tree \<times> mem" where
  "create_interval_tree_node ival v m =
     (case Malloc 32 m of (True, m1) \<Rightarrow> (Node Leaf ival v Leaf, m1) | (False, m1) \<Rightarrow> (Leaf, m1))"

subsection \<open>Operations\<close>

fun insert_interval_tree :: "'v interval_tree \<Rightarrow> interval \<Rightarrow> 'v \<Rightarrow> mem \<Rightarrow> bool \<times> 'v interval_tree \<times> mem" where
  "insert_interval_tree Leaf ival v m =
     (case create_interval_tree_node ival v m of (t, m1) \<Rightarrow> (t = Leaf, t, m1))"
| "insert_interval_tree (Node l j w r) ival v m =
     (if ubound ival < lbound j then
        (case insert_interval_tree l ival v m of (e, l', m1) \<Rightarrow> (e, Node l' j w r, m1))
      else if ubound j < lbound ival then
        (case insert_interval_tree r ival v m of (e, r', m1) \<Rightarrow> (e, Node l j w r', m1))
      else (True, Node l j w r, m))"

fun replace_interval_tree ::
  "'v interval_tree \<Rightarrow> interval \<Rightarrow> 'v \<Rightarrow> bool \<Rightarrow> mem \<Rightarrow> bool \<times> 'v interval_tree \<times> 'v list \<times> mem" where
  "replace_interval_tree Leaf ival v freefxn m =
     (case create_interval_tree_node ival v m of (t, m1) \<Rightarrow> (t = Leaf, t, [], m1))"
| "replace_interval_tree (Node l j w r) ival v freefxn m =
     (if ubound ival < lbound j then
        (case replace_interval_tree l ival v freefxn m of (e, l', fr, m1) \<Rightarrow> (e, Node l' j w r, fr, m1))
      else if ubound j < lbound ival then
        (case replace_interval_tree r ival v freefxn m of (e, r', fr, m1) \<Rightarrow> (e, Node l j w r', fr, m1))
      else if intervals_equal j ival then
        (False, Node l j v r, if freefxn then [w] else [], m)
      else (True, Node l j w r, [], m))"

text \<open>The walk to the leftmost node of \<open>r\<close>, whose left child becomes \<open>l\<close>.\<close>

fun attach_left :: "'v interval_tree \<Rightarrow> 'v interval_tree \<Rightarrow> 'v interval_tree" where
  "attach_left Leaf l = l"
| "attach_left (Node Leaf j w rr) l = Node l j w rr"
| "attach_left (Node ll j w rr) l = Node (attach_left ll l) j w rr"

definition splice_out_node :: "'v interval_tree \<Rightarrow> 'v interval_tree \<Rightarrow> mem \<Rightarrow> 'v interval_tree \<times> mem" where
  "splice_out_node l r m =
     (let m1 = Free True m in
      if l \<noteq> Leaf then (if r \<noteq> Leaf then (attach_left r l, m1) else (l, m1)) else (r, m1))"

fun remove_interval_tree ::
  "'v interval_tree \<Rightarrow> interval \<Rightarrow> bool \<Rightarrow> mem \<Rightarrow> bool \<times> 'v interval_tree \<times> 'v list \<times> mem" where
  "remove_interval_tree Leaf ival freefxn m = (True, Leaf, [], m)"
| "remove_interval_tree (Node l j w r) ival freefxn m =
     (if ubound ival < lbound j then
        (case remove_interval_tree l ival freefxn m of (e, l', fr, m1) \<Rightarrow> (e, Node l' j w r, fr, m1))
      else if ubound j < lbound ival then
        (case remove_interval_tree r ival freefxn m of (e, r', fr, m1) \<Rightarrow> (e, Node l j w r', fr, m1))
      else if intervals_equal j ival then
        (case splice_out_node l r m of (t, m1) \<Rightarrow> (False, t, if freefxn then [w] else [], m1))
      else (True, Node l j w r, [], m))"

text \<open>\<open>extract_interval_tree\<close> answers the datum it takes out.\<close>

fun extract_interval_tree ::
  "'v interval_tree \<Rightarrow> interval \<Rightarrow> mem \<Rightarrow> 'v option \<times> 'v interval_tree \<times> mem" where
  "extract_interval_tree Leaf ival m = (None, Leaf, m)"
| "extract_interval_tree (Node l j w r) ival m =
     (if ubound ival < lbound j then
        (case extract_interval_tree l ival m of (v, l', m1) \<Rightarrow> (v, Node l' j w r, m1))
      else if ubound j < lbound ival then
        (case extract_interval_tree r ival m of (v, r', m1) \<Rightarrow> (v, Node l j w r', m1))
      else if intervals_equal j ival then
        (case splice_out_node l r m of (t, m1) \<Rightarrow> (Some w, t, m1))
      else (None, Node l j w r, m))"

fun lookup_interval_tree :: "'v interval_tree \<Rightarrow> u32 \<Rightarrow> 'v option" where
  "lookup_interval_tree Leaf key = None"
| "lookup_interval_tree (Node l j w r) key =
     (if key_in_interval j key then Some w
      else if key < lbound j then lookup_interval_tree l key
      else lookup_interval_tree r key)"

fun depth_interval_tree :: "'v interval_tree \<Rightarrow> nat" where
  "depth_interval_tree Leaf = 0"
| "depth_interval_tree (Node l j w r) =
     (let lm = depth_interval_tree l; rm = depth_interval_tree r in (if lm > rm then lm else rm) + 1)"

fun population_interval_tree :: "'v interval_tree \<Rightarrow> nat" where
  "population_interval_tree Leaf = 0"
| "population_interval_tree (Node l j w r) = population_interval_tree l + population_interval_tree r + 1"

text \<open>
  \<open>linearize_interval_tree\<close> turns the tree into a list linked through the right children; the
  pointer it returns is the null right child at the end of that list, and storing through
  it is \<open>store_join\<close>.
\<close>

fun store_join :: "'v interval_tree \<Rightarrow> 'v interval_tree \<Rightarrow> 'v interval_tree" where
  "store_join Leaf cur = cur"
| "store_join (Node l j w r) cur = Node l j w (store_join r cur)"

fun linearize_interval_tree :: "'v interval_tree \<Rightarrow> 'v interval_tree" where
  "linearize_interval_tree Leaf = Leaf"
| "linearize_interval_tree (Node l j w r) =
     (if l \<noteq> Leaf then store_join (linearize_interval_tree l) (Node Leaf j w (linearize_interval_tree r))
      else Node Leaf j w (linearize_interval_tree r))"

text \<open>
  \<open>vectorize_list\<close>: the first \<open>cnt\<close> nodes of the list; their children are overwritten before they
  are read, so a node is its interval and datum. A list that is too short would be a null
  pointer read (\<open>None\<close>). The allocation's size is that of \<open>cnt\<close> pointers.
\<close>

fun vectorize_nodes :: "'v interval_tree \<Rightarrow> nat \<Rightarrow> (interval \<times> 'v) list option" where
  "vectorize_nodes t 0 = Some []"
| "vectorize_nodes Leaf (Suc cnt) = None"
| "vectorize_nodes (Node l j w r) (Suc cnt) = map_option (Cons (j, w)) (vectorize_nodes r cnt)"

fun bbstize_vector :: "(interval \<times> 'v) list \<Rightarrow> nat \<Rightarrow> 'v interval_tree" where
  "bbstize_vector vec cnt =
     (if cnt = 0 then Leaf
      else Node (bbstize_vector vec (cnt div 2)) (fst (vec ! (cnt div 2))) (snd (vec ! (cnt div 2)))
             (bbstize_vector (drop (cnt div 2 + 1) vec) (cnt - cnt div 2 - 1)))"

declare bbstize_vector.simps [simp del]

definition balance_interval_tree :: "'v interval_tree \<Rightarrow> mem \<Rightarrow> ('v interval_tree \<times> mem) option" where
  "balance_interval_tree t m =
     (let upop = population_interval_tree t; lin = linearize_interval_tree t in
      case Malloc (8 * upop) m of
        (False, m1) \<Rightarrow> Some (lin, m1)
      | (True, m1) \<Rightarrow>
          map_option (\<lambda>vec. (bbstize_vector vec upop, Free True m1)) (vectorize_nodes lin upop))"

fun free_interval_tree :: "'v interval_tree \<Rightarrow> bool \<Rightarrow> mem \<Rightarrow> 'v interval_tree \<times> 'v list \<times> mem" where
  "free_interval_tree Leaf freefxn m = (Leaf, [], m)"
| "free_interval_tree (Node l j w r) freefxn m =
     (case free_interval_tree l freefxn m of (_, fl, m1) \<Rightarrow>
      case free_interval_tree r freefxn m1 of (_, fr, m2) \<Rightarrow>
        (Leaf, (if freefxn then [w] else []) @ fl @ fr, Free True m2))"

subsection \<open>Abstraction\<close>

fun inorder :: "'v interval_tree \<Rightarrow> (interval \<times> 'v) list" where
  "inorder Leaf = []"
| "inorder (Node l j w r) = inorder l @ (j, w) # inorder r"

abbreviation entries :: "'v interval_tree \<Rightarrow> (interval \<times> 'v) set" where
  "entries t \<equiv> set (inorder t)"

definition valid_interval :: "interval \<Rightarrow> bool" where
  "valid_interval i \<longleftrightarrow> lbound i \<le> ubound i"

definition overlaps :: "interval \<Rightarrow> interval \<Rightarrow> bool" where
  "overlaps i j \<longleftrightarrow> (\<exists>k. key_in_interval i k \<and> key_in_interval j k)"

fun ordered :: "'v interval_tree \<Rightarrow> bool" where
  "ordered Leaf \<longleftrightarrow> True"
| "ordered (Node l j w r) \<longleftrightarrow> valid_interval j \<and> ordered l \<and> ordered r \<and>
     (\<forall>e \<in> entries l. ubound (fst e) < lbound j) \<and> (\<forall>e \<in> entries r. ubound j < lbound (fst e))"

lemma overlaps_iff:
  "valid_interval i \<Longrightarrow> valid_interval j \<Longrightarrow> overlaps i j \<longleftrightarrow> \<not> (ubound i < lbound j \<or> ubound j < lbound i)"
proof -
  assume v: "valid_interval i" "valid_interval j"
  show ?thesis
  proof
    assume "\<not> (ubound i < lbound j \<or> ubound j < lbound i)"
    with v have "key_in_interval i (max (lbound i) (lbound j)) \<and> key_in_interval j (max (lbound i) (lbound j))"
      by (auto simp: key_in_interval_def valid_interval_def max_def)
    then show "overlaps i j" by (auto simp: overlaps_def)
  qed (auto simp: overlaps_def key_in_interval_def)
qed

lemma ordered_valid: "ordered t \<Longrightarrow> (i, v) \<in> entries t \<Longrightarrow> valid_interval i"
  by (induction t) auto

lemma lookup_entries:
  "ordered t \<Longrightarrow> lookup_interval_tree t k = Some v \<longleftrightarrow> (\<exists>i. (i, v) \<in> entries t \<and> key_in_interval i k)"
proof (induction t)
  case (Node l j w r)
  have l: "\<not> key_in_interval i k" if "(i, u) \<in> entries l" "lbound j \<le> k" for i u
    using that Node.prems by (fastforce simp: key_in_interval_def)
  have r: "\<not> key_in_interval i k" if "(i, u) \<in> entries r" "k \<le> ubound j" for i u
    using that Node.prems by (fastforce simp: key_in_interval_def)
  show ?case
  proof (cases "key_in_interval j k")
    case True
    with l r show ?thesis by (auto simp: key_in_interval_def)
  next
    case False
    have "k < lbound j \<Longrightarrow> k \<le> ubound j" using Node.prems by (auto simp: valid_interval_def)
    with False Node l r show ?thesis by (auto simp: key_in_interval_def)
  qed
qed simp

subsection \<open>Insertion\<close>

lemma overlaps_sides:
  assumes "ordered (Node l j w r)" "valid_interval i" "(i', v') \<in> entries (Node l j w r)" "overlaps i i'"
  shows "ubound i < lbound j \<Longrightarrow> (i', v') \<in> entries l"
    and "ubound j < lbound i \<Longrightarrow> (i', v') \<in> entries r"
proof -
  have v: "valid_interval i'" using ordered_valid [OF assms(1,3)] .
  have o: "\<not> ubound i < lbound i'" "\<not> ubound i' < lbound i"
    using assms(4) overlaps_iff [OF assms(2) v] by auto
  have j: "lbound j \<le> ubound j" "lbound i \<le> ubound i" using assms(1,2) by (auto simp: valid_interval_def)
  show "(i', v') \<in> entries l" if "ubound i < lbound j"
    using assms(1,3) o that j by fastforce
  show "(i', v') \<in> entries r" if "ubound j < lbound i"
    using assms(1,3) o that j by fastforce
qed

lemma insert_interval_tree_cases:
  assumes "ordered t" "valid_interval i" "insert_interval_tree t i v m = (e, t', m')"
  obtains (failed) "e" "t' = t" "allocs_used m' = allocs_used m"
      "(\<exists>x \<in> entries t. overlaps i (fst x)) \<or> \<not> plentiful m"
  | (inserted) "\<not> e" "ordered t'" "entries t' = insert (i, v) (entries t)"
      "population_interval_tree t' = Suc (population_interval_tree t)"
      "allocs_used m' = allocs_used m + 1" "plentiful m' = plentiful m" "\<forall>x \<in> entries t. \<not> overlaps i (fst x)"
  using assms
proof (induction t arbitrary: e t' m' thesis)
  case Leaf
  obtain ok m1 where ml: "Malloc 32 m = (ok, m1)" by (cases "Malloc 32 m")
  have "plentiful m' = plentiful m"
    using Leaf ml by (auto simp: create_interval_tree_node_def mem_op_defs plentiful_def Let_def split: if_splits bool.splits)
  moreover have "\<not> ok \<Longrightarrow> \<not> plentiful m" using ml Malloc_plentiful [of m 32] by auto
  ultimately show ?case using Leaf ml Malloc_used [OF ml]
    by (cases ok) (auto simp: create_interval_tree_node_def)
next
  case (Node l j w r)
  note ov = overlaps_sides [OF Node.prems(3,4)]
  consider "ubound i < lbound j" | "\<not> ubound i < lbound j" "ubound j < lbound i"
    | "\<not> ubound i < lbound j" "\<not> ubound j < lbound i" by blast
  then show ?case
  proof cases
    case 1
    obtain el l' ml where il: "insert_interval_tree l i v m = (el, l', ml)" by (cases "insert_interval_tree l i v m")
    with 1 Node.prems have r: "e = el" "t' = Node l' j w r" "m' = ml" by auto
    have ol: "ordered l" using Node.prems by simp
    show ?thesis
    proof (rule Node.IH(1) [OF _ _ ol Node.prems(4) il])
      assume "el" "l' = l" "allocs_used ml = allocs_used m" "(\<exists>x \<in> entries l. overlaps i (fst x)) \<or> \<not> plentiful m"
      with r Node.prems(1) show thesis by auto
    next
      assume a: "\<not> el" "ordered l'" "entries l' = insert (i, v) (entries l)"
        "population_interval_tree l' = Suc (population_interval_tree l)" "allocs_used ml = allocs_used m + 1"
        "plentiful ml = plentiful m" "\<forall>x \<in> entries l. \<not> overlaps i (fst x)"
      moreover have "\<forall>x \<in> entries (Node l j w r). \<not> overlaps i (fst x)"
        using a(7) ov(1) 1 by fastforce
      ultimately show thesis using r 1 Node.prems by (intro Node.prems(2)) auto
    qed
  next
    case 2
    obtain er r' mr where ir: "insert_interval_tree r i v m = (er, r', mr)" by (cases "insert_interval_tree r i v m")
    with 2 Node.prems have r: "e = er" "t' = Node l j w r'" "m' = mr" by auto
    have orr: "ordered r" using Node.prems by simp
    show ?thesis
    proof (rule Node.IH(2) [OF _ _ orr Node.prems(4) ir])
      assume "er" "r' = r" "allocs_used mr = allocs_used m" "(\<exists>x \<in> entries r. overlaps i (fst x)) \<or> \<not> plentiful m"
      with r Node.prems(1) show thesis by auto
    next
      assume a: "\<not> er" "ordered r'" "entries r' = insert (i, v) (entries r)"
        "population_interval_tree r' = Suc (population_interval_tree r)" "allocs_used mr = allocs_used m + 1"
        "plentiful mr = plentiful m" "\<forall>x \<in> entries r. \<not> overlaps i (fst x)"
      moreover have "\<forall>x \<in> entries (Node l j w r). \<not> overlaps i (fst x)"
        using a(7) ov(2) 2 by fastforce
      ultimately show thesis using r 2 Node.prems by (intro Node.prems(2)) auto
    qed
  next
    case 3
    moreover have "overlaps i j" using 3 overlaps_iff [of i j] Node.prems(3,4) by auto
    ultimately show ?thesis using Node.prems by (intro Node.prems(1)) auto
  qed
qed

subsection \<open>Removal\<close>

lemma attach_left_spec:
  "ordered r \<Longrightarrow> ordered l \<Longrightarrow> \<forall>x \<in> entries l. \<forall>y \<in> entries r. ubound (fst x) < lbound (fst y) \<Longrightarrow>
   ordered (attach_left r l) \<and> inorder (attach_left r l) = inorder l @ inorder r"
proof (induction r l rule: attach_left.induct)
  case (3 ll1 lj lw lr j w rr l)
  let ?ll = "Node ll1 lj lw lr"
  have IH: "ordered (attach_left ?ll l)" "inorder (attach_left ?ll l) = inorder l @ inorder ?ll"
  proof -
    have "ordered ?ll" "\<forall>x \<in> entries l. \<forall>y \<in> entries ?ll. ubound (fst x) < lbound (fst y)"
      using "3.prems"(1) by simp (use "3.prems"(3) in auto)
    from "3.IH" [OF this(1) "3.prems"(2) this(2)]
    show "ordered (attach_left ?ll l)" "inorder (attach_left ?ll l) = inorder l @ inorder ?ll" by simp_all
  qed
  have "entries (attach_left ?ll l) = entries l \<union> entries ?ll" unfolding IH(2) by simp
  moreover have "\<forall>x \<in> entries l. ubound (fst x) < lbound j" using "3.prems"(3) by simp
  ultimately show ?case using IH "3.prems"(1) by (simp del: inorder.simps(2) add: inorder.simps(2) [of _ j w]) auto
qed auto

lemma population_inorder: "population_interval_tree t = length (inorder t)"
  by (induction t) auto

lemma splice_out_node_spec:
  assumes "ordered (Node l j w r)" "splice_out_node l r m = (t, m')"
  shows "ordered t \<and> inorder t = inorder l @ inorder r \<and> allocs_used m' = allocs_used m - 1 \<and> plentiful m' = plentiful m"
proof -
  have "\<forall>x \<in> entries l. \<forall>y \<in> entries r. ubound (fst x) < lbound (fst y)"
    using assms(1) by (fastforce simp: valid_interval_def)
  with assms attach_left_spec [of r l] show ?thesis
    by (auto simp: splice_out_node_def Let_def Free_def plentiful_def split: if_splits)
qed

lemma extract_interval_tree_cases:
  assumes "ordered t" "valid_interval i" "extract_interval_tree t i m = (x, t', m')"
  obtains (absent) "x = None" "t' = t" "m' = m" "\<forall>v. (i, v) \<notin> entries t"
  | (taken) v where "x = Some v" "(i, v) \<in> entries t" "ordered t'" "entries t' = entries t - {(i, v)}"
      "Suc (population_interval_tree t') = population_interval_tree t"
      "allocs_used m' = allocs_used m - 1" "plentiful m' = plentiful m"
  using assms
proof (induction t arbitrary: x t' m' thesis)
  case (Node l j w r)
  have vj: "lbound j \<le> ubound j" "lbound i \<le> ubound i" using Node.prems by (auto simp: valid_interval_def)
  have out: "(j, u) \<notin> entries l" "(j, u) \<notin> entries r" for u
    using Node.prems(3) vj by (fastforce)+
  have split: "(i, u) \<in> entries l \<Longrightarrow> ubound i < lbound j" "(i, u) \<in> entries r \<Longrightarrow> ubound j < lbound i" for u
    using Node.prems(3) by fastforce+
  consider "ubound i < lbound j" | "\<not> ubound i < lbound j" "ubound j < lbound i"
    | "\<not> ubound i < lbound j" "\<not> ubound j < lbound i" "intervals_equal j i"
    | "\<not> ubound i < lbound j" "\<not> ubound j < lbound i" "\<not> intervals_equal j i" by blast
  then show ?case
  proof cases
    case 1
    obtain xl l' ml where il: "extract_interval_tree l i m = (xl, l', ml)" by (cases "extract_interval_tree l i m")
    with 1 Node.prems have r: "x = xl" "t' = Node l' j w r" "m' = ml" by auto
    have nr: "(i, u) \<notin> entries r" "i \<noteq> j" for u using split(2) [of u] 1 vj by (auto simp: not_less)
    have ol: "ordered l" using Node.prems by simp
    show ?thesis
    proof (rule Node.IH(1) [OF _ _ ol Node.prems(4) il])
      assume "xl = None" "l' = l" "ml = m" "\<forall>v. (i, v) \<notin> entries l"
      with r nr Node.prems(1) show thesis by auto
    next
      fix v assume a: "xl = Some v" "(i, v) \<in> entries l" "ordered l'" "entries l' = entries l - {(i, v)}"
        "Suc (population_interval_tree l') = population_interval_tree l"
        "allocs_used ml = allocs_used m - 1" "plentiful ml = plentiful m"
      show thesis using r nr Node.prems(3) a by (intro Node.prems(2) [of v]) auto
    qed
  next
    case 2
    obtain xr r' mr where ir: "extract_interval_tree r i m = (xr, r', mr)" by (cases "extract_interval_tree r i m")
    with 2 Node.prems have r: "x = xr" "t' = Node l j w r'" "m' = mr" by auto
    have nl: "(i, u) \<notin> entries l" "i \<noteq> j" for u using split(1) [of u] 2 vj by (auto simp: not_less)
    have orr: "ordered r" using Node.prems by simp
    show ?thesis
    proof (rule Node.IH(2) [OF _ _ orr Node.prems(4) ir])
      assume "xr = None" "r' = r" "mr = m" "\<forall>v. (i, v) \<notin> entries r"
      with r nl Node.prems(1) show thesis by auto
    next
      fix v assume a: "xr = Some v" "(i, v) \<in> entries r" "ordered r'" "entries r' = entries r - {(i, v)}"
        "Suc (population_interval_tree r') = population_interval_tree r"
        "allocs_used mr = allocs_used m - 1" "plentiful mr = plentiful m"
      show thesis using r nl Node.prems(3) a by (intro Node.prems(2) [of v]) auto
    qed
  next
    case 3
    obtain t2 m2 where sp: "splice_out_node l r m = (t2, m2)" by (cases "splice_out_node l r m")
    with 3 Node.prems have r: "x = Some w" "t' = t2" "m' = m2" by auto
    have ij: "i = j" using 3(3) by (cases i; cases j) (simp add: intervals_equal_def)
    from splice_out_node_spec [OF Node.prems(3) sp] r ij out show ?thesis
      by (intro Node.prems(2) [of w]) (auto simp: population_inorder)
  next
    case 4
    then have ni: "i \<noteq> j" by (auto simp: intervals_equal_def)
    have "(i, u) \<notin> entries (Node l j w r)" for u using split [of u] 4 ni by auto
    with 4 Node.prems show ?thesis by (intro Node.prems(1)) auto
  qed
qed simp

lemma remove_extract:
  "remove_interval_tree t i f m =
     (case extract_interval_tree t i m of
        (None, t', m') \<Rightarrow> (True, t', [], m')
      | (Some w, t', m') \<Rightarrow> (False, t', if f then [w] else [], m'))"
  by (induction t arbitrary: m) (auto split: prod.splits option.splits)

lemma entries_unique: "ordered t \<Longrightarrow> (i, v) \<in> entries t \<Longrightarrow> (i, w) \<in> entries t \<Longrightarrow> v = w"
proof -
  assume t: "ordered t" "(i, v) \<in> entries t" "(i, w) \<in> entries t"
  then have "key_in_interval i (lbound i)"
    using ordered_valid by (auto simp: key_in_interval_def valid_interval_def)
  with t lookup_entries [OF t(1), of "lbound i"] have
    "lookup_interval_tree t (lbound i) = Some v" "lookup_interval_tree t (lbound i) = Some w" by blast+
  then show "v = w" by simp
qed

lemma replace_present:
  "ordered t \<Longrightarrow> (i, w) \<in> entries t \<Longrightarrow> valid_interval i \<Longrightarrow>
   \<exists>t'. replace_interval_tree t i v f m = (False, t', if f then [w] else [], m) \<and>
     ordered t' \<and> entries t' = insert (i, v) (entries t - {(i, w)}) \<and>
     population_interval_tree t' = population_interval_tree t"
proof (induction t)
  case (Node l j x r)
  have vj: "lbound j \<le> ubound j" "lbound i \<le> ubound i" using Node.prems by (auto simp: valid_interval_def)
  have out: "(j, u) \<notin> entries l" "(j, u) \<notin> entries r" for u
    using Node.prems(1) vj by (fastforce)+
  have split: "(i, u) \<in> entries l \<Longrightarrow> ubound i < lbound j" "(i, u) \<in> entries r \<Longrightarrow> ubound j < lbound i" for u
    using Node.prems(1) by fastforce+
  consider "(i, w) \<in> entries l" "ubound i < lbound j" | "(i, w) \<in> entries r" "\<not> ubound i < lbound j" "ubound j < lbound i"
    | "i = j" "w = x"
    using Node.prems(2) split vj by (fastforce simp: not_less)
  then show ?case
  proof cases
    case 1
    moreover from this have "(i, u) \<notin> entries r" "i \<noteq> j" for u using split(2) [of u] vj by (auto simp: not_less)
    moreover obtain t' where "replace_interval_tree l i v f m = (False, t', if f then [w] else [], m)"
      "ordered t'" "entries t' = insert (i, v) (entries l - {(i, w)})"
      "population_interval_tree t' = population_interval_tree l"
      using Node.IH(1) 1 Node.prems by auto
    ultimately show ?thesis using Node.prems(1)
      by (intro exI [of _ "Node t' j x r"]) auto
  next
    case 2
    moreover from this have "(i, u) \<notin> entries l" "i \<noteq> j" for u using split(1) [of u] vj by (auto simp: not_less)
    moreover obtain t' where "replace_interval_tree r i v f m = (False, t', if f then [w] else [], m)"
      "ordered t'" "entries t' = insert (i, v) (entries r - {(i, w)})"
      "population_interval_tree t' = population_interval_tree r"
      using Node.IH(2) 2 Node.prems by auto
    ultimately show ?thesis using Node.prems(1)
      by (intro exI [of _ "Node l j x t'"]) auto
  next
    case 3
    with vj out Node.prems(1) show ?thesis
      by (intro exI [of _ "Node l j v r"]) (auto simp: intervals_equal_def)
  qed
qed simp

lemma replace_absent:
  "ordered t \<Longrightarrow> \<forall>w. (i, w) \<notin> entries t \<Longrightarrow>
   replace_interval_tree t i v f m = (case insert_interval_tree t i v m of (e, t', m') \<Rightarrow> (e, t', [], m'))"
proof (induction t)
  case (Node l j x r)
  then have "\<not> intervals_equal j i" by (cases i; cases j) (auto simp: intervals_equal_def)
  with Node show ?case by (auto split: prod.splits)
qed (auto split: prod.splits)

subsection \<open>Balancing\<close>

lemma inorder_store_join: "inorder (store_join t s) = inorder t @ inorder s"
  by (induction t) auto

lemma inorder_linearize: "inorder (linearize_interval_tree t) = inorder t"
  by (induction t) (auto simp: inorder_store_join)

fun spine :: "'v interval_tree \<Rightarrow> bool" where
  "spine Leaf \<longleftrightarrow> True"
| "spine (Node l j w r) \<longleftrightarrow> l = Leaf \<and> spine r"

lemma spine_store_join: "spine t \<Longrightarrow> spine s \<Longrightarrow> spine (store_join t s)"
  by (induction t) auto

lemma spine_linearize: "spine (linearize_interval_tree t)"
  by (induction t) (auto simp: spine_store_join)

lemma vectorize_spine: "spine t \<Longrightarrow> vectorize_nodes t (length (inorder t)) = Some (inorder t)"
  by (induction t) auto

lemma inorder_bbstize: "n \<le> length vec \<Longrightarrow> inorder (bbstize_vector vec n) = take n vec"
proof (induction vec n rule: bbstize_vector.induct)
  case (1 vec n)
  show ?case
  proof (cases "n = 0")
    case False
    let ?h = "n div 2"
    have h: "?h < n" "?h < length vec" using False 1 by linarith+
    have "take n vec = take (?h + Suc (n - ?h - 1)) vec" using h by simp
    also have "\<dots> = take ?h vec @ vec ! ?h # take (n - ?h - 1) (drop (?h + 1) vec)"
      using h by (simp only: take_add) (simp add: Cons_nth_drop_Suc [symmetric])
    finally show ?thesis using 1 False h by (simp add: bbstize_vector.simps [of vec n])
  qed (simp add: bbstize_vector.simps)
qed

lemma ordered_inorder:
  "ordered t \<longleftrightarrow> sorted_wrt (\<lambda>x y. ubound (fst x) < lbound (fst y)) (inorder t) \<and>
     (\<forall>x \<in> entries t. valid_interval (fst x))"
proof (induction t)
  case (Node l j w r)
  have "(\<forall>x \<in> entries l. ubound (fst x) < lbound j) \<Longrightarrow> (\<forall>y \<in> entries r. ubound j < lbound (fst y)) \<Longrightarrow>
      valid_interval j \<Longrightarrow> (\<forall>x \<in> entries l. \<forall>y \<in> entries r. ubound (fst x) < lbound (fst y))"
    by (fastforce simp: valid_interval_def)
  with Node show ?case by (auto simp: sorted_wrt_append)
qed simp

lemma depth_bbstize: "n < 2 ^ depth_interval_tree (bbstize_vector vec n) \<and>
    2 ^ depth_interval_tree (bbstize_vector vec n) \<le> 2 * n + (if n = 0 then 1 else 0)"
proof (induction n arbitrary: vec rule: less_induct)
  case (less n)
  show ?case
  proof (cases "n = 0")
    case False
    let ?h = "n div 2" let ?k = "n - n div 2 - 1"
    let ?l = "depth_interval_tree (bbstize_vector vec ?h)"
    let ?r = "depth_interval_tree (bbstize_vector (drop (?h + 1) vec) ?k)"
    have lt: "?h < n" "?k < n" "?k \<le> ?h" using False by linarith+
    from less.IH [OF lt(1), of vec] have l: "?h < 2 ^ ?l" "2 ^ ?l \<le> 2 * ?h + (if ?h = 0 then 1 else 0)" by simp_all
    from less.IH [OF lt(2), of "drop (?h + 1) vec"] have r: "2 ^ ?r \<le> 2 * ?k + (if ?k = 0 then 1 else 0)" by simp
    have "?r \<le> ?l"
    proof (rule ccontr)
      assume "\<not> ?thesis"
      then have "2 * 2 ^ ?l \<le> (2 :: nat) ^ ?r"
        by (metis Suc_leI not_le power_Suc power_increasing one_le_numeral)
      with l(1) r lt(3) show False by (auto split: if_splits)
    qed
    then have d: "depth_interval_tree (bbstize_vector vec n) = Suc ?l"
      using False by (simp add: bbstize_vector.simps [of vec n] Let_def)
    have "n < 2 * 2 ^ ?l" "2 * 2 ^ ?l \<le> 2 * n" using l False by (auto split: if_splits)
    with False show ?thesis by (simp add: d)
  qed (simp add: bbstize_vector.simps)
qed

subsection \<open>The interface: a map from keys to data, changed one interval at a time\<close>

text \<open>
  What a caller may rely on: the entries determine the lookups, \<open>put\<close> refuses exactly what
  overlaps an entry (or lacks memory), \<open>take\<close> removes exactly the entry it is given. From
  these follow the laws of a map with interval updates, and that a list of disjoint
  intervals can be stored and is found again.
\<close>

locale interval_map =
  fixes look :: "'t \<Rightarrow> u32 \<Rightarrow> 'v option"
    and put :: "'t \<Rightarrow> interval \<Rightarrow> 'v \<Rightarrow> mem \<Rightarrow> bool \<times> 't \<times> mem"
    and tak :: "'t \<Rightarrow> interval \<Rightarrow> mem \<Rightarrow> 'v option \<times> 't \<times> mem"
    and ents :: "'t \<Rightarrow> (interval \<times> 'v) set" and inv :: "'t \<Rightarrow> bool"
  assumes look_ents: "inv t \<Longrightarrow> look t k = Some v \<longleftrightarrow> (\<exists>i. (i, v) \<in> ents t \<and> key_in_interval i k)"
    and ents_disjoint: "inv t \<Longrightarrow> x \<in> ents t \<Longrightarrow> y \<in> ents t \<Longrightarrow> overlaps (fst x) (fst y) \<Longrightarrow> x = y"
    and put_ok: "inv t \<Longrightarrow> valid_interval i \<Longrightarrow> put t i v m = (False, t', m') \<Longrightarrow>
      inv t' \<and> ents t' = insert (i, v) (ents t) \<and> (plentiful m \<longrightarrow> plentiful m') \<and>
      (\<forall>x \<in> ents t. \<not> overlaps i (fst x))"
    and put_refused: "inv t \<Longrightarrow> valid_interval i \<Longrightarrow> put t i v m = (True, t', m') \<Longrightarrow>
      t' = t \<and> ((\<exists>x \<in> ents t. overlaps i (fst x)) \<or> \<not> plentiful m)"
    and take_ok: "inv t \<Longrightarrow> valid_interval i \<Longrightarrow> tak t i m = (Some v, t', m') \<Longrightarrow>
      inv t' \<and> (i, v) \<in> ents t \<and> ents t' = ents t - {(i, v)}"
    and take_absent: "inv t \<Longrightarrow> valid_interval i \<Longrightarrow> tak t i m = (None, t', m') \<Longrightarrow>
      t' = t \<and> (\<forall>v. (i, v) \<notin> ents t)"
begin

lemma same_entry: "inv t \<Longrightarrow> x \<in> ents t \<Longrightarrow> y \<in> ents t \<Longrightarrow>
  key_in_interval (fst x) k \<Longrightarrow> key_in_interval (fst y) k \<Longrightarrow> x = y"
  by (rule ents_disjoint) (auto simp: overlaps_def)

lemma look_put:
  assumes "inv t" "valid_interval i" "put t i v m = (False, t', m')"
  shows "look t' k = (if key_in_interval i k then Some v else look t k)"
proof -
  note p = put_ok [OF assms]
  show ?thesis
  proof (cases "key_in_interval i k")
    case True
    with p have "look t' k = Some v" by (metis look_ents insertI1)
    with True show ?thesis by simp
  next
    case False
    have "look t' k = look t k"
      by (rule option_eqI) (use p False assms(1) in \<open>auto simp: look_ents\<close>)
    with False show ?thesis by simp
  qed
qed

lemma look_take:
  assumes "inv t" "valid_interval i" "tak t i m = (Some v, t', m')"
  shows "look t' k = (if key_in_interval i k then None else look t k)"
proof -
  note p = take_ok [OF assms]
  show ?thesis
  proof (cases "key_in_interval i k")
    case True
    have "look t' k \<noteq> Some w" for w
    proof
      assume "look t' k = Some w"
      then obtain j where j: "(j, w) \<in> ents t" "(j, w) \<noteq> (i, v)" "key_in_interval j k"
        using p by (auto simp: look_ents)
      with same_entry [OF assms(1) j(1), of "(i, v)" k] p True show False by simp
    qed
    then have "look t' k = None" by (cases "look t' k") auto
    with True show ?thesis by simp
  next
    case False
    have "look t' k = look t k"
      by (rule option_eqI) (use p False assms(1) in \<open>auto simp: look_ents\<close>)
    with False show ?thesis by simp
  qed
qed

text \<open>Storing a list of entries, as a caller does that reads them from a file.\<close>

definition put_step :: "interval \<times> 'v \<Rightarrow> 't \<Rightarrow> mem \<Rightarrow> bool \<times> 't \<times> mem" where
  "put_step x t m = put t (fst x) (snd x) m"

lemma put_all:
  assumes "inv t" "plentiful m" "\<forall>x \<in> set xs. valid_interval (fst x)"
    "\<forall>x \<in> set xs. \<forall>y \<in> ents t. \<not> overlaps (fst x) (fst y)"
    "sorted_wrt (\<lambda>x y. \<not> overlaps (fst y) (fst x)) xs"
  shows "\<exists>t' m'. for_each put_step xs t m = (False, t', m') \<and> inv t' \<and> ents t' = set xs \<union> ents t"
  using assms
proof (induction xs arbitrary: t m)
  case (Cons x xs)
  obtain e t1 m1 where p: "put_step x t m = (e, t1, m1)" by (cases "put_step x t m")
  have "\<not> e" using put_refused [of t "fst x" "snd x" m t1 m1] p Cons.prems by (auto simp: put_step_def)
  with p have t1: "inv t1" "ents t1 = insert x (ents t)" "plentiful m1"
    using put_ok [of t "fst x" "snd x" m t1 m1] Cons.prems by (auto simp: put_step_def)
  have "\<exists>t' m'. for_each put_step xs t1 m1 = (False, t', m') \<and> inv t' \<and> ents t' = set xs \<union> ents t1"
    using Cons.prems t1 by (intro Cons.IH) auto
  with p \<open>\<not> e\<close> t1 show ?case by auto
qed simp

end

subsection \<open>The tree provides the interface\<close>

lemma entries_disjoint:
  assumes "ordered t" "x \<in> entries t" "y \<in> entries t" "overlaps (fst x) (fst y)"
  shows "x = y"
proof -
  have "sorted_wrt P xs \<Longrightarrow> x \<in> set xs \<Longrightarrow> y \<in> set xs \<Longrightarrow> x = y \<or> P x y \<or> P y x" for P xs
    by (induction xs) auto
  then have "x = y \<or> ubound (fst x) < lbound (fst y) \<or> ubound (fst y) < lbound (fst x)"
    using assms(1-3) unfolding ordered_inorder by blast
  moreover have "valid_interval (fst x)" "valid_interval (fst y)"
    using assms(1-3) unfolding ordered_inorder by blast+
  ultimately show ?thesis using assms(4) overlaps_iff by blast
qed

interpretation it: interval_map lookup_interval_tree insert_interval_tree extract_interval_tree entries ordered
proof unfold_locales
  fix t :: "'v interval_tree" and k v
  assume "ordered t"
  then show "lookup_interval_tree t k = Some v \<longleftrightarrow> (\<exists>i. (i, v) \<in> entries t \<and> key_in_interval i k)"
    by (rule lookup_entries)
next
  fix t :: "'v interval_tree" and x y
  assume "ordered t" "x \<in> entries t" "y \<in> entries t" "overlaps (fst x) (fst y)"
  then show "x = y" by (rule entries_disjoint)
next
  fix t t' :: "'v interval_tree" and i v m m'
  assume "ordered t" "valid_interval i" "insert_interval_tree t i v m = (False, t', m')"
  then show "ordered t' \<and> entries t' = insert (i, v) (entries t) \<and> (plentiful m \<longrightarrow> plentiful m') \<and>
      (\<forall>x \<in> entries t. \<not> overlaps i (fst x))"
    by (cases rule: insert_interval_tree_cases) auto
next
  fix t t' :: "'v interval_tree" and i v m m'
  assume "ordered t" "valid_interval i" "insert_interval_tree t i v m = (True, t', m')"
  then show "t' = t \<and> ((\<exists>x \<in> entries t. overlaps i (fst x)) \<or> \<not> plentiful m)"
    by (cases rule: insert_interval_tree_cases) auto
next
  fix t t' :: "'v interval_tree" and i v m m'
  assume "ordered t" "valid_interval i" "extract_interval_tree t i m = (Some v, t', m')"
  then show "ordered t' \<and> (i, v) \<in> entries t \<and> entries t' = entries t - {(i, v)}"
    by (cases rule: extract_interval_tree_cases) auto
next
  fix t t' :: "'v interval_tree" and i m m'
  assume "ordered t" "valid_interval i" "extract_interval_tree t i m = (None, t', m')"
  then show "t' = t \<and> (\<forall>v. (i, v) \<notin> entries t)"
    by (cases rule: extract_interval_tree_cases) auto
qed

subsection \<open>Lemmas of the operations that keep the entries\<close>

lemma balance_interval_tree_spec:
  "\<exists>t' m'. balance_interval_tree t m = Some (t', m') \<and> inorder t' = inorder t \<and>
     allocs_used m' = allocs_used m \<and>
     (plentiful m \<longrightarrow> population_interval_tree t < 2 ^ depth_interval_tree t' \<and>
        2 ^ depth_interval_tree t' \<le> 2 * population_interval_tree t + 1)"
proof -
  let ?n = "population_interval_tree t" and ?lin = "linearize_interval_tree t"
  have v: "vectorize_nodes ?lin ?n = Some (inorder t)"
    using vectorize_spine [OF spine_linearize, of t] by (simp add: inorder_linearize population_inorder)
  obtain ok m1 where ml: "Malloc (8 * ?n) m = (ok, m1)" by (cases "Malloc (8 * ?n) m")
  have u: "allocs_used m1 = allocs_used m + of_bool ok" using Malloc_used [OF ml] .
  show ?thesis
  proof (cases ok)
    case True
    then have "balance_interval_tree t m = Some (bbstize_vector (inorder t) ?n, Free True m1)"
      by (simp add: balance_interval_tree_def ml v Let_def)
    moreover have "inorder (bbstize_vector (inorder t) ?n) = inorder t"
      by (simp add: inorder_bbstize population_inorder)
    moreover have "?n < 2 ^ depth_interval_tree (bbstize_vector (inorder t) ?n)"
      "2 ^ depth_interval_tree (bbstize_vector (inorder t) ?n) \<le> 2 * ?n + 1"
      using depth_bbstize [of ?n "inorder t"] by (auto split: if_splits)
    ultimately show ?thesis using True u by simp
  next
    case False
    then have b: "balance_interval_tree t m = Some (?lin, m1)"
      by (simp add: balance_interval_tree_def ml Let_def)
    have "t = Leaf" if "plentiful m"
      using False ml Malloc_plentiful [OF that, of "8 * ?n"] by (cases t) auto
    with b False u show ?thesis by (auto simp: inorder_linearize)
  qed
qed

lemma free_interval_tree_spec:
  "\<exists>fr m'. free_interval_tree t f m = (Leaf, fr, m') \<and>
     mset fr = (if f then image_mset snd (mset (inorder t)) else {#}) \<and>
     allocs_used m' = allocs_used m - int (population_interval_tree t)"
proof (induction t arbitrary: m)
  case (Node l j w r)
  obtain fl m1 where l: "free_interval_tree l f m = (Leaf, fl, m1)"
    "mset fl = (if f then image_mset snd (mset (inorder l)) else {#})"
    "allocs_used m1 = allocs_used m - int (population_interval_tree l)" using Node.IH(1) by blast
  obtain fr m2 where r: "free_interval_tree r f m1 = (Leaf, fr, m2)"
    "mset fr = (if f then image_mset snd (mset (inorder r)) else {#})"
    "allocs_used m2 = allocs_used m1 - int (population_interval_tree r)" using Node.IH(2) by blast
  show ?case using l r by (cases f) auto
qed simp

lemma population_depth: "population_interval_tree t < 2 ^ depth_interval_tree t"
proof (induction t)
  case (Node l j w r)
  let ?d = "max (depth_interval_tree l) (depth_interval_tree r)"
  have "(2 :: nat) ^ depth_interval_tree l \<le> 2 ^ ?d" "(2 :: nat) ^ depth_interval_tree r \<le> 2 ^ ?d"
    by (simp_all add: power_increasing)
  with Node.IH have "population_interval_tree l + population_interval_tree r + 1 < 2 ^ Suc ?d"
    unfolding power_Suc by linarith
  moreover have "depth_interval_tree (Node l j w r) = Suc ?d"
    by (simp add: Let_def max_def)
  ultimately show ?case by simp
qed simp

subsection \<open>Properties\<close>

text \<open>
  C10: Insertion is a map update that refuses overlaps. On an ordered tree it fails exactly
  when the interval overlaps one that is stored (or the allocator refuses); it then leaves
  the tree and the live allocations as they were. Otherwise the tree stays ordered, holds one
  node more, one more block is live, and every key of the interval now finds the datum while
  every other key finds what it found before.
\<close>

theorem insert_interval_tree_correct:
  assumes "ordered t" "valid_interval i" "insert_interval_tree t i v m = (e, t', m')"
  shows "(if e then t' = t \<and> allocs_used m' = allocs_used m
      else ordered t' \<and> population_interval_tree t' = population_interval_tree t + 1 \<and>
        allocs_used m' = allocs_used m + 1 \<and>
        (\<forall>k. lookup_interval_tree t' k = (if key_in_interval i k then Some v else lookup_interval_tree t k))) \<and>
    (plentiful m \<longrightarrow> e = (\<exists>k. key_in_interval i k \<and> lookup_interval_tree t k \<noteq> None))"
proof -
  have ov: "(\<exists>k. key_in_interval i k \<and> lookup_interval_tree t k \<noteq> None) \<longleftrightarrow> (\<exists>x \<in> entries t. overlaps i (fst x))"
    unfolding overlaps_def not_None_eq lookup_entries [OF assms(1)] by force
  from assms show ?thesis
  proof (cases rule: insert_interval_tree_cases)
    case failed
    then show ?thesis unfolding ov by auto
  next
    case inserted
    with assms(3) have "\<forall>k. lookup_interval_tree t' k = (if key_in_interval i k then Some v else lookup_interval_tree t k)"
      using it.look_put [OF assms(1,2)] by auto
    with inserted show ?thesis unfolding ov by simp
  qed
qed

definition sample_tree :: "nat interval_tree" where
  "sample_tree = Node (Node Leaf \<lparr>lbound = 1, ubound = 5\<rparr> 10 Leaf) \<lparr>lbound = 8, ubound = 9\<rparr> 11 Leaf"

lemma sample_tree_ordered: "ordered sample_tree"
  by (simp add: sample_tree_def valid_interval_def)

theorem insert_interval_tree_correct_witness:
  "ordered (fst (snd (insert_interval_tree sample_tree \<lparr>lbound = 6, ubound = 7\<rparr> 12 plenty_mem)))"
proof -
  let ?i = "\<lparr>lbound = 6, ubound = 7\<rparr> :: interval"
  obtain e t' m' where r: "insert_interval_tree sample_tree ?i 12 plenty_mem = (e, t', m')"
    by (cases "insert_interval_tree sample_tree ?i 12 plenty_mem")
  have "\<not> e" using r
    by (auto simp: sample_tree_def create_interval_tree_node_def mem_op_defs init_mem_def Let_def)
  with insert_interval_tree_correct [OF sample_tree_ordered _ r] r show ?thesis
    by (simp add: valid_interval_def)
qed

text \<open>
  C18: Taking intervals out. On an ordered tree, remove and extract agree: they fail, leaving
  everything as it is, exactly when this very interval is not stored; otherwise its node
  alone is freed, its datum is handed back (to the callback once, or to the caller), the tree
  stays ordered, the keys of the interval find nothing and every other key finds what it
  found before. Replacing a stored interval changes no node and frees the old datum only.
\<close>

theorem extract_interval_tree_correct:
  assumes "ordered t" "valid_interval i" "extract_interval_tree t i m = (x, t', m')"
  shows "(case x of
      None \<Rightarrow> t' = t \<and> m' = m \<and> (\<forall>v. (i, v) \<notin> entries t) \<and> remove_interval_tree t i f m = (True, t, [], m)
    | Some w \<Rightarrow> (i, w) \<in> entries t \<and> ordered t' \<and>
        population_interval_tree t = population_interval_tree t' + 1 \<and> allocs_used m' = allocs_used m - 1 \<and>
        remove_interval_tree t i f m = (False, t', if f then [w] else [], m') \<and>
        (\<forall>k. lookup_interval_tree t' k = (if key_in_interval i k then None else lookup_interval_tree t k)) \<and>
        (\<exists>t2. replace_interval_tree t i v f m = (False, t2, if f then [w] else [], m) \<and> ordered t2 \<and>
           (\<forall>k. lookup_interval_tree t2 k = (if key_in_interval i k then Some v else lookup_interval_tree t k))))"
  using assms
proof (cases rule: extract_interval_tree_cases)
  case absent
  then show ?thesis using assms(3) by (simp add: remove_extract)
next
  case (taken w)
  obtain t2 where t2: "replace_interval_tree t i v f m = (False, t2, if f then [w] else [], m)" "ordered t2"
    "entries t2 = insert (i, v) (entries t - {(i, w)})"
    using replace_present [OF assms(1) taken(2) assms(2)] by blast
  have l1: "lookup_interval_tree t' k = (if key_in_interval i k then None else lookup_interval_tree t k)" for k
    using it.look_take [OF assms(1,2)] assms(3) taken(1) by auto
  have l2: "lookup_interval_tree t2 k = (if key_in_interval i k then Some v else lookup_interval_tree t k)" for k
  proof (cases "key_in_interval i k")
    case True
    then have "lookup_interval_tree t2 k = Some v" using lookup_entries [OF t2(2)] t2(3) by blast
    with True show ?thesis by simp
  next
    case False
    have "lookup_interval_tree t2 k = lookup_interval_tree t k"
      by (rule option_eqI) (use lookup_entries [OF t2(2)] lookup_entries [OF assms(1)] t2(3) False in auto)
    with False show ?thesis by simp
  qed
  from taken t2(1,2) l1 l2 assms(3) show ?thesis by (simp add: remove_extract)
qed

theorem extract_interval_tree_correct_witness:
  "case fst (extract_interval_tree sample_tree \<lparr>lbound = 8, ubound = 9\<rparr> plenty_mem) of
     None \<Rightarrow> False | Some w \<Rightarrow> (\<lparr>lbound = 8, ubound = 9\<rparr>, w) \<in> entries sample_tree"
proof -
  let ?i = "\<lparr>lbound = 8, ubound = 9\<rparr> :: interval"
  obtain x t' m' where r: "extract_interval_tree sample_tree ?i plenty_mem = (x, t', m')"
    by (cases "extract_interval_tree sample_tree ?i plenty_mem")
  have "x \<noteq> None" using r by (auto simp: sample_tree_def intervals_equal_def splice_out_node_def)
  then obtain w where w: "x = Some w" by auto
  have "valid_interval ?i" by (simp add: valid_interval_def)
  from extract_interval_tree_correct [OF sample_tree_ordered this r, of _ undefined] w r show ?thesis by simp
qed

text \<open>
  C11: Balancing. On any tree \<open>balance_interval_tree\<close> never runs off the list it builds, keeps the
  nodes in their order (hence an ordered tree ordered, with the same lookups) and frees the
  vector it allocates. With memory for that vector the result has the least depth a binary
  tree of that many nodes can have; without it the tree is left as a list.
\<close>

theorem balance_interval_tree_correct:
  "\<exists>t' m'. balance_interval_tree t m = Some (t', m') \<and> inorder t' = inorder t \<and> ordered t' = ordered t \<and>
     (ordered t \<longrightarrow> (\<forall>k. lookup_interval_tree t' k = lookup_interval_tree t k)) \<and>
     allocs_used m' = allocs_used m \<and>
     (plentiful m \<longrightarrow> (\<forall>s :: 'v interval_tree. population_interval_tree s = population_interval_tree t \<longrightarrow>
        depth_interval_tree t' \<le> depth_interval_tree s))"
  for t :: "'v interval_tree"
proof -
  obtain t' m' where b: "balance_interval_tree t m = Some (t', m')" "inorder t' = inorder t"
    "allocs_used m' = allocs_used m" and
    d: "plentiful m \<Longrightarrow> 2 ^ depth_interval_tree t' \<le> 2 * population_interval_tree t + 1"
    using balance_interval_tree_spec [of t m] by auto
  have o: "ordered t' = ordered t" unfolding ordered_inorder b(2) ..
  have l: "lookup_interval_tree t' k = lookup_interval_tree t k" if "ordered t" for k
    by (rule option_eqI) (use lookup_entries [of t'] lookup_entries [of t] o that b(2) in simp)
  have m: "depth_interval_tree t' \<le> depth_interval_tree s"
    if "plentiful m" "population_interval_tree s = population_interval_tree t" for s :: "'v interval_tree"
  proof (rule ccontr)
    assume "\<not> ?thesis"
    then have "2 * 2 ^ depth_interval_tree s \<le> (2 :: nat) ^ depth_interval_tree t'"
      by (metis Suc_leI not_le power_Suc power_increasing one_le_numeral)
    with d [OF that(1)] population_depth [of s] that(2) show False by linarith
  qed
  from b o l m show ?thesis by blast
qed

theorem balance_interval_tree_correct_witness:
  "\<exists>t' m'. balance_interval_tree sample_tree plenty_mem = Some (t', m') \<and> inorder t' = inorder sample_tree"
  using balance_interval_tree_correct [of sample_tree plenty_mem] by blast

end
