(* ===== verification/Lexers.thy ===== *)
theory Lexers
  imports Parse
begin

text \<open>
  The integer lexers of libdank/objects/lexers.c. The lexers for the several widths are one
  macro; the model is one function, polymorphic in the width of the result. uintmax_t has
  64 bits.

  A lexer answers the C return value, the value stored (unchanged where the code does not
  store) and the rest of the text, which is where the double pointer ends up.
\<close>

subsection \<open>Digits\<close>

definition would_overflow :: "nat \<Rightarrow> u64 \<Rightarrow> u64 \<Rightarrow> u64 \<Rightarrow> int" where
  "would_overflow bits augend addend base =
     (if bits > 64 \<or> bits < 1 then -1
      else if base < 2 \<or> base > 256 then -1
      else if addend \<ge> base then -1
      else let m = drop_bit (64 - bits) (- 1) in
        if augend > m div base then 1
        else if m - augend * base < addend then 1
        else 0)"

definition safely_add_oct :: "nat \<Rightarrow> u64 \<Rightarrow> char \<Rightarrow> int \<times> u64" where
  "safely_add_oct bits augend odig =
     (let addend = word_of_int (int (ccode odig) - 48); ret = would_overflow bits augend addend 8 in
      if addend \<ge> 8 then (-1, augend)
      else if ret \<noteq> 0 then (ret, augend)
      else (0, augend * 8 + addend))"

definition safely_add_dec :: "nat \<Rightarrow> u64 \<Rightarrow> char \<Rightarrow> int \<times> u64" where
  "safely_add_dec bits augend dig =
     (let addend = word_of_int (int (ccode dig) - 48); ret = would_overflow bits augend addend 10 in
      if ret \<noteq> 0 then (ret, augend) else (0, augend * 10 + addend))"

definition safely_add_hex :: "nat \<Rightarrow> u64 \<Rightarrow> char \<Rightarrow> int \<times> u64" where
  "safely_add_hex bits augend xdig =
     (let addend = (if isdigit xdig then word_of_int (int (ccode xdig) - 48)
                    else word_of_int (int (ccode (tolower xdig)) - 97 + 10));
          ret = would_overflow bits augend addend 16 in
      if ret \<noteq> 0 then (ret, augend) else (0, augend * 16 + addend))"

text \<open>The digit loops; the text left over is of use only when every digit was added.\<close>

fun add_digits ::
  "(char \<Rightarrow> bool) \<Rightarrow> (nat \<Rightarrow> u64 \<Rightarrow> char \<Rightarrow> int \<times> u64) \<Rightarrow> nat \<Rightarrow> u64 \<Rightarrow> string \<Rightarrow> int \<times> u64 \<times> string" where
  "add_digits isd add bits v [] = (0, v, [])"
| "add_digits isd add bits v (c # s) =
     (if isd c then
        (case add bits v c of (ret, v') \<Rightarrow> if ret \<noteq> 0 then (ret, v', c # s) else add_digits isd add bits v' s)
      else (0, v, c # s))"

subsection \<open>Unsigned integers\<close>

text \<open>The helper accumulates on what \<open>*val\<close> holds when it is called.\<close>

definition lex_uint_0helper :: "nat \<Rightarrow> u64 \<Rightarrow> string \<Rightarrow> int \<times> u64 \<times> string" where
  "lex_uint_0helper bits val start =
     (let b1 = tl start;
          digits = (\<lambda>r. case r of (ret, v, b) \<Rightarrow> if ret \<noteq> 0 then (-1, v, start) else (0, v, b));
          zero = (\<lambda>b. if peek b = NUL \<or> ispunct (peek b) \<or> isspace (peek b) then (0, 0, b) else (-1, val, start))
      in if peek b1 = CHR ''x'' \<or> peek b1 = CHR ''X'' then
           (if peek (tl b1) = CHR ''0'' then zero (tl (tl b1))
            else digits (add_digits isxdigit safely_add_hex bits val (tl b1)))
         else if isdigit (peek b1) then
           (if peek b1 = CHR ''0'' then zero (tl b1)
            else digits (add_digits isdigit safely_add_oct bits val b1))
         else zero b1)"

definition lex_uint :: "nat \<Rightarrow> u64 \<Rightarrow> string \<Rightarrow> int \<times> u64 \<times> string" where
  "lex_uint bits val start =
     (let numstart = drop (parse_whitespace start) start in
      if peek numstart = CHR ''0'' then
        (case lex_uint_0helper bits val numstart of
           (ret, v, b) \<Rightarrow> if ret \<noteq> 0 then (1, v, start) else (0, v, b))
      else
        (case add_digits isdigit safely_add_dec bits 0 numstart of
           (ret, v, b) \<Rightarrow>
             if ret \<noteq> 0 then (ret, val, start)
             else if length b = length numstart then (1, val, start)
             else (0, v, b)))"

definition lex_uint_ashex :: "nat \<Rightarrow> u64 \<Rightarrow> string \<Rightarrow> int \<times> u64 \<times> string" where
  "lex_uint_ashex bits val start =
     (let numstart = drop (parse_whitespace start) start in
      case add_digits isxdigit safely_add_hex bits 0 numstart of
        (ret, v, b) \<Rightarrow>
          if ret \<noteq> 0 then (ret, val, start)
          else if length b = length numstart then (1, val, start)
          else (0, v, b))"

definition lex_u :: "string \<Rightarrow> 'a::len word \<Rightarrow> int \<times> 'a word \<times> string" where
  "lex_u buf val =
     (case lex_uint LENGTH('a) 0 buf of (ret, v, b) \<Rightarrow> (ret, if ret = 0 then ucast v else val, b))"

definition lex_u_ashex :: "string \<Rightarrow> 'a::len word \<Rightarrow> int \<times> 'a word \<times> string" where
  "lex_u_ashex buf val =
     (case lex_uint_ashex LENGTH('a) 0 buf of (ret, v, b) \<Rightarrow> (ret, if ret = 0 then ucast v else val, b))"

subsection \<open>Signed integers\<close>

text \<open>
  The local \<open>uv\<close> of \<open>lex_sint\<close> is not initialised: what the stack holds there is an argument.
  The result is the 64-bit pattern of \<open>*val\<close>.
\<close>

definition lex_sint :: "u64 \<Rightarrow> nat \<Rightarrow> string \<Rightarrow> u64 \<Rightarrow> int \<times> u64 \<times> string" where
  "lex_sint uv bits buf val =
     (let b = drop (parse_whitespace buf) buf;
          neg = (peek b = CHR ''-'');
          b1 = (if neg then tl b else b)
      in case lex_uint (bits - 1) uv b1 of
           (ret, v, b2) \<Rightarrow> if ret \<noteq> 0 then (-1, val, b2) else (0, if neg then - v else v, b2))"

definition lex_s :: "u64 \<Rightarrow> string \<Rightarrow> 'a::len word \<Rightarrow> int \<times> 'a word \<times> string" where
  "lex_s uv buf val =
     (case lex_sint uv LENGTH('a) buf 0 of (ret, v, b) \<Rightarrow> (ret, if ret = 0 then ucast v else val, b))"

subsection \<open>The value of a list of digits\<close>

definition xval :: "char \<Rightarrow> nat" where
  "xval c = (if isdigit c then ccode c - 48 else ccode (tolower c) - 87)"

definition num_from :: "nat \<Rightarrow> nat \<Rightarrow> string \<Rightarrow> nat" where
  "num_from b v ds = foldl (\<lambda>n c. n * b + xval c) v ds"

lemma num_from_simps [simp]:
  "num_from b v [] = v" "num_from b v (c # ds) = num_from b (v * b + xval c) ds"
  "num_from b v (ds @ es) = num_from b (num_from b v ds) es"
  by (simp_all add: num_from_def)

lemma num_from_le: "0 < b \<Longrightarrow> v \<le> num_from b v ds"
proof (induction ds arbitrary: v)
  case (Cons c ds)
  have "v \<le> v * b + xval c" using Cons.prems by (cases b) auto
  with Cons.IH [OF Cons.prems, of "v * b + xval c"] show ?case by simp
qed simp

lemma xval_digit: "isdigit c \<Longrightarrow> xval c = ccode c - 48 \<and> xval c < 10"
  by (auto simp: xval_def isdigit_def)

lemma xval_xdigit: "isxdigit c \<Longrightarrow> xval c < 16"
  by (auto simp: xval_def ctype_simps ccode_tolower)

subsection \<open>One digit\<close>

lemma unat_max: "1 \<le> bits \<Longrightarrow> bits \<le> 64 \<Longrightarrow> unat (drop_bit (64 - bits) (- 1) :: u64) = 2 ^ bits - 1"
proof -
  assume b: "1 \<le> bits" "bits \<le> 64"
  have "drop_bit (64 - bits) (- 1) = (mask bits :: u64)" using b by simp
  also have "\<dots> = word_of_nat (mask bits)" by (simp only: of_nat_mask_eq)
  also have "(mask bits :: nat) < 2 ^ 64"
    using power_increasing [OF b(2), of "2 :: nat"] by (simp add: mask_eq_exp_minus_1)
  then have "unat (word_of_nat (mask bits) :: u64) = mask bits" by (intro unat_word_of_nat) simp
  finally show ?thesis by (simp add: mask_eq_exp_minus_1)
qed

lemma would_overflow_spec:
  assumes "1 \<le> bits" "bits \<le> 64" "unat base = b" "2 \<le> b" "b \<le> 256" "unat a < b" "unat v < 2 ^ bits"
  shows "would_overflow bits v a base = (if unat v * b + unat a < 2 ^ bits then 0 else 1)"
    and "unat v * b + unat a < 2 ^ bits \<Longrightarrow> unat (v * base + a) = unat v * b + unat a"
proof -
  have le64: "(2 :: nat) ^ bits \<le> 2 ^ 64" using assms(2) by (rule power_increasing) simp
  show add: "unat (v * base + a) = unat v * b + unat a" if "unat v * b + unat a < 2 ^ bits"
  proof -
    have "unat v * b + unat a < 2 ^ 64" using that le64 by linarith
    then show ?thesis by (simp add: unat_word_ariths assms(3))
  qed
  let ?m = "drop_bit (64 - bits) (- 1) :: u64"
  have m: "unat ?m = 2 ^ bits - 1" using unat_max assms by blast
  have nb: "\<not> (base < 2 \<or> base > 256)" "\<not> a \<ge> base"
    using assms(3-6) by (auto simp: word_less_nat_alt word_le_nat_alt)
  have dv: "unat (?m div base) = (2 ^ bits - 1) div b" by (simp only: unat_div m assms(3))
  have gt: "v > ?m div base \<longleftrightarrow> \<not> unat v * b < 2 ^ bits"
  proof -
    have "v > ?m div base \<longleftrightarrow> (2 ^ bits - 1) div b < unat v" by (simp only: word_less_nat_alt dv)
    also have "\<dots> \<longleftrightarrow> 2 ^ bits - 1 < unat v * b" using assms(4) by (simp add: div_less_iff_less_mult)
    also have "\<dots> \<longleftrightarrow> \<not> unat v * b < 2 ^ bits" using one_le_power [of "2 :: nat" bits] by linarith
    finally show ?thesis .
  qed
  have ov: "?m - v * base < a \<longleftrightarrow> \<not> unat v * b + unat a < 2 ^ bits" if "unat v * b < 2 ^ bits"
  proof -
    have vb: "unat (v * base) = unat v * b"
      using that le64 by (simp add: unat_word_ariths assms(3))
    have "v * base \<le> ?m" unfolding word_le_nat_alt m vb using that by linarith
    then have "unat (?m - v * base) = 2 ^ bits - 1 - unat v * b" by (simp only: unat_sub m vb)
    then show ?thesis unfolding word_less_nat_alt using that by linarith
  qed
  show "would_overflow bits v a base = (if unat v * b + unat a < 2 ^ bits then 0 else 1)"
    using assms nb gt ov by (auto simp: would_overflow_def Let_def)
qed

text \<open>What each kind of digit promises: its value is added to \<open>b\<close> times the number, or 1.\<close>

locale digit_adder =
  fixes isd :: "char \<Rightarrow> bool" and add :: "nat \<Rightarrow> u64 \<Rightarrow> char \<Rightarrow> int \<times> u64" and b :: nat and good :: "char \<Rightarrow> bool"
  assumes base: "0 < b" and good_isd: "good c \<Longrightarrow> isd c"
    and add_fits: "good c \<Longrightarrow> 1 \<le> bits \<Longrightarrow> bits \<le> 64 \<Longrightarrow> unat v < 2 ^ bits \<Longrightarrow>
      unat v * b + xval c < 2 ^ bits \<Longrightarrow> add bits v c = (0, word_of_nat (unat v * b + xval c))"
    and add_over: "good c \<Longrightarrow> 1 \<le> bits \<Longrightarrow> bits \<le> 64 \<Longrightarrow> unat v < 2 ^ bits \<Longrightarrow>
      \<not> unat v * b + xval c < 2 ^ bits \<Longrightarrow> fst (add bits v c) = 1"
begin

lemma add_digits_fits:
  assumes "1 \<le> bits" "bits \<le> 64" "\<forall>c \<in> set ds. good c" "\<not> isd (peek rest)" "num_from b (unat v) ds < 2 ^ bits"
  shows "add_digits isd add bits v (ds @ rest) = (0, word_of_nat (num_from b (unat v) ds), rest)"
  using assms(3,5)
proof (induction ds arbitrary: v)
  case Nil
  then show ?case using assms(4) by (cases rest) auto
next
  case (Cons c ds)
  let ?n = "unat v * b + xval c"
  have n: "?n < 2 ^ bits" using num_from_le [OF base, of ?n ds] Cons.prems by simp
  have v: "unat v < 2 ^ bits" using num_from_le [OF base, of "unat v" "c # ds"] Cons.prems(2) by linarith
  have "(2 :: nat) ^ bits \<le> 2 ^ 64" using assms(2) by (rule power_increasing) simp
  with n have u: "unat (word_of_nat ?n :: u64) = ?n" by (intro unat_word_of_nat) simp
  have "add_digits isd add bits (word_of_nat ?n) (ds @ rest) =
      (0, word_of_nat (num_from b ?n ds), rest)"
    using Cons.prems Cons.IH [of "word_of_nat ?n", unfolded u] by simp
  then show ?case using add_fits [of c bits v] Cons.prems good_isd n v assms(1,2) by simp
qed

lemma add_digits_over:
  assumes "1 \<le> bits" "bits \<le> 64" "\<forall>c \<in> set ds. good c" "unat v < 2 ^ bits" "\<not> num_from b (unat v) ds < 2 ^ bits"
  shows "fst (add_digits isd add bits v (ds @ rest)) = 1"
  using assms(3-5)
proof (induction ds arbitrary: v)
  case (Cons c ds)
  let ?n = "unat v * b + xval c"
  show ?case
  proof (cases "?n < 2 ^ bits")
    case True
    have "(2 :: nat) ^ bits \<le> 2 ^ 64" using assms(2) by (rule power_increasing) simp
    with True have u: "unat (word_of_nat ?n :: u64) = ?n" by (intro unat_word_of_nat) simp
    have "fst (add_digits isd add bits (word_of_nat ?n) (ds @ rest)) = 1"
      using Cons.prems True by (intro Cons.IH) (simp_all only: u, simp_all)
    then show ?thesis using add_fits [of c bits v] Cons.prems good_isd True assms(1,2) by simp
  next
    case False
    then have "fst (add bits v c) = 1" using add_over [of c bits v] Cons.prems assms(1,2) by simp
    then show ?thesis using Cons.prems good_isd by (auto split: prod.splits)
  qed
qed simp

end

lemma digit_value_word:
  "isdigit c \<Longrightarrow> word_of_int (int (ccode c) - 48) = (word_of_nat (xval c) :: u64)"
  "isxdigit c \<Longrightarrow> \<not> isdigit c \<Longrightarrow> word_of_int (int (ccode (tolower c)) - 97 + 10) = (word_of_nat (xval c) :: u64)"
proof -
  have "word_of_int (int (ccode c) - int k) = (word_of_nat (ccode c - k) :: u64)" if "k \<le> ccode c" for c k
    using that by (simp flip: of_nat_diff)
  note this [of 48 c] this [of 87 "tolower c"]
  then show "isdigit c \<Longrightarrow> word_of_int (int (ccode c) - 48) = (word_of_nat (xval c) :: u64)"
    "isxdigit c \<Longrightarrow> \<not> isdigit c \<Longrightarrow> word_of_int (int (ccode (tolower c)) - 97 + 10) = (word_of_nat (xval c) :: u64)"
    by (auto simp: xval_def ctype_simps ccode_tolower)
qed

lemma unat_xval: "xval c < 256 \<Longrightarrow> unat (word_of_nat (xval c) :: u64) = xval c"
  by (intro unat_word_of_nat) simp

lemma added_word: "unat (v * w + a) = n \<Longrightarrow> v * w + a = (word_of_nat n :: u64)"
  by (metis word_of_nat_unat)

interpretation dec_digits: digit_adder isdigit safely_add_dec 10 isdigit
proof unfold_locales
  fix c bits and v :: u64
  assume a: "isdigit c" "1 \<le> bits" "bits \<le> 64" "unat v < 2 ^ bits"
  have x: "xval c < 10" using xval_digit a by blast
  note d = safely_add_dec_def [of bits v c, unfolded digit_value_word(1) [OF a(1)]]
  note w = would_overflow_spec [of bits 10 10 "word_of_nat (xval c)" v]
  show "safely_add_dec bits v c = (0, word_of_nat (unat v * 10 + xval c))" if "unat v * 10 + xval c < 2 ^ bits"
    using a that x w by (auto simp: d Let_def unat_xval intro: added_word)
  show "fst (safely_add_dec bits v c) = 1" if "\<not> unat v * 10 + xval c < 2 ^ bits"
    using a that x w(1) by (auto simp: d Let_def unat_xval)
qed simp_all

definition isodigit :: "char \<Rightarrow> bool" where
  "isodigit c \<longleftrightarrow> isdigit c \<and> xval c < 8"

interpretation oct_digits: digit_adder isdigit safely_add_oct 8 isodigit
proof unfold_locales
  fix c bits and v :: u64
  assume a: "isodigit c" "1 \<le> bits" "bits \<le> 64" "unat v < 2 ^ bits"
  have x: "xval c < 8" "isdigit c" using a by (simp_all add: isodigit_def)
  then have s: "\<not> 8 \<le> (word_of_nat (xval c) :: u64)" by (simp add: word_le_nat_alt unat_xval)
  note d = safely_add_oct_def [of bits v c, unfolded digit_value_word(1) [OF x(2)]]
  note w = would_overflow_spec [of bits 8 8 "word_of_nat (xval c)" v]
  show "safely_add_oct bits v c = (0, word_of_nat (unat v * 8 + xval c))" if "unat v * 8 + xval c < 2 ^ bits"
    using a that x s w by (auto simp: d Let_def unat_xval intro: added_word)
  show "fst (safely_add_oct bits v c) = 1" if "\<not> unat v * 8 + xval c < 2 ^ bits"
    using a that x s w(1) by (auto simp: d Let_def unat_xval)
qed (simp_all add: isodigit_def)

interpretation hex_digits: digit_adder isxdigit safely_add_hex 16 isxdigit
proof unfold_locales
  fix c bits and v :: u64
  assume a: "isxdigit c" "1 \<le> bits" "bits \<le> 64" "unat v < 2 ^ bits"
  have x: "xval c < 16" using xval_xdigit a by blast
  have d: "safely_add_hex bits v c = (let ret = would_overflow bits v (word_of_nat (xval c)) 16 in
      if ret \<noteq> 0 then (ret, v) else (0, v * 16 + word_of_nat (xval c)))"
    unfolding safely_add_hex_def
    by (cases "isdigit c") (simp_all only: digit_value_word [of c] a(1) if_True if_False Let_def not_False_eq_True)
  note w = would_overflow_spec [of bits 16 16 "word_of_nat (xval c)" v]
  show "safely_add_hex bits v c = (0, word_of_nat (unat v * 16 + xval c))" if "unat v * 16 + xval c < 2 ^ bits"
    using a that x w by (auto simp: d Let_def unat_xval intro: added_word)
  show "fst (safely_add_hex bits v c) = 1" if "\<not> unat v * 16 + xval c < 2 ^ bits"
    using a that x w(1) by (auto simp: d Let_def unat_xval)
qed simp_all

subsection \<open>Lemmas\<close>

lemma add_digits_suffix: "add_digits isd add bits v s = (r, v', b) \<Longrightarrow> \<exists>p. s = p @ b"
  by (induction isd add bits v s rule: add_digits.induct)
    (auto split: if_splits prod.splits intro: exI [of _ "_ # _"] simp: Cons_eq_append_conv)

lemma add_digits_progress:
  "add_digits isd add bits v s = (r, v', b) \<Longrightarrow> length b \<noteq> length s \<Longrightarrow> \<exists>p. s = p @ b \<and> p \<noteq> []"
  using add_digits_suffix by fastforce

lemma ucast_word_of_nat:
  "LENGTH('a) \<le> 64 \<Longrightarrow> n < 2 ^ LENGTH('a) \<Longrightarrow> ucast (word_of_nat n :: u64) = (word_of_nat n :: 'a::len word)"
proof -
  assume a: "LENGTH('a) \<le> 64" "n < 2 ^ LENGTH('a)"
  have "(2 :: nat) ^ LENGTH('a) \<le> 2 ^ 64" using a(1) by (rule power_increasing) simp
  with a(2) have "unat (word_of_nat n :: u64) = n" by (intro unat_word_of_nat) simp
  with a show ?thesis
    by (simp add: word_eq_iff_unsigned [where ?'a = nat] unsigned_ucast_eq unat_word_of_nat take_bit_nat_eq_self)
qed

lemma num_from_dec: "num_from 10 0 (dec n) = n"
proof (induction n rule: dec.induct)
  case (1 n)
  have x: "xval (digit d) = d" if "d < 10" for d using xval_digit [of "digit d"] that by simp
  show ?case using 1 x by (cases "n < 10") (simp_all add: dec.simps [of n])
qed

lemma peek_dec: "n \<noteq> 0 \<Longrightarrow> peek (dec n @ t) \<noteq> CHR ''0''"
proof (induction n arbitrary: t rule: dec.induct)
  case (1 n)
  show ?case
  proof (cases "n < 10")
    case True
    have "ccode (digit n) \<noteq> ccode (CHR ''0'')" using True 1 by (simp add: ccode_def [of "CHR ''0''"])
    then have "digit n \<noteq> CHR ''0''" by metis
    then show ?thesis using True by (simp add: dec.simps [of n])
  next
    case False
    then show ?thesis using 1 by (subst dec.simps) simp
  qed
qed

text \<open>The three notations \<open>lex_uint\<close> reads.\<close>

definition int_prefix :: "nat \<Rightarrow> string" where
  "int_prefix base = (if base = 16 then ''0x'' else if base = 8 then ''0'' else [])"

definition int_digit :: "nat \<Rightarrow> char \<Rightarrow> bool" where
  "int_digit base = (if base = 16 then isxdigit else if base = 8 then isodigit else isdigit)"

definition int_end :: "nat \<Rightarrow> string \<Rightarrow> bool" where
  "int_end base rest \<longleftrightarrow> \<not> (if base = 16 then isxdigit (peek rest) else isdigit (peek rest))"

lemma lex_uint_forms:
  "drop (parse_whitespace s) s = ''0x'' @ t \<Longrightarrow> peek t \<noteq> CHR ''0'' \<Longrightarrow>
   lex_uint bits v s = (case add_digits isxdigit safely_add_hex bits v t of
      (r, v', b) \<Rightarrow> if r \<noteq> 0 then (1, v', s) else (0, v', b))"
  "drop (parse_whitespace s) s = CHR ''0'' # t \<Longrightarrow> peek t \<noteq> CHR ''0'' \<Longrightarrow> isdigit (peek t) \<Longrightarrow>
   lex_uint bits v s = (case add_digits isdigit safely_add_oct bits v t of
      (r, v', b) \<Rightarrow> if r \<noteq> 0 then (1, v', s) else (0, v', b))"
  "drop (parse_whitespace s) s = t \<Longrightarrow> peek t \<noteq> CHR ''0'' \<Longrightarrow>
   lex_uint bits v s = (case add_digits isdigit safely_add_dec bits 0 t of
      (r, v', b) \<Rightarrow> if r \<noteq> 0 then (r, v, s) else if length b = length t then (1, v, s) else (0, v', b))"
proof -
  have "isdigit c \<Longrightarrow> c \<noteq> CHR ''x'' \<and> c \<noteq> CHR ''X''" for c by (auto simp: isdigit_def ccode_def)
  then show "drop (parse_whitespace s) s = CHR ''0'' # t \<Longrightarrow> peek t \<noteq> CHR ''0'' \<Longrightarrow> isdigit (peek t) \<Longrightarrow>
   lex_uint bits v s = (case add_digits isdigit safely_add_oct bits v t of
      (r, v', b) \<Rightarrow> if r \<noteq> 0 then (1, v', s) else (0, v', b))"
    by (auto simp: lex_uint_def lex_uint_0helper_def Let_def split: prod.splits)
qed (auto simp: lex_uint_def lex_uint_0helper_def Let_def split: prod.splits)

lemma lex_uint_spec:
  assumes "1 \<le> bits" "bits \<le> 64" "base \<in> {8, 10, 16}" "\<forall>c \<in> set ws. isspace c"
    "ds \<noteq> []" "\<forall>c \<in> set ds. int_digit base c" "peek ds \<noteq> CHR ''0''" "int_end base rest"
  defines "n \<equiv> num_from base 0 ds" and "s \<equiv> ws @ int_prefix base @ ds @ rest"
  shows "if n < 2 ^ bits then lex_uint bits 0 s = (0, word_of_nat n, rest)
    else fst (lex_uint bits 0 s) = 1 \<and> snd (snd (lex_uint bits 0 s)) = s"
proof -
  let ?t = "ds @ rest"
  from \<open>ds \<noteq> []\<close> obtain d ds' where ds: "ds = d # ds'" by (cases ds) auto
  have t0: "peek ?t \<noteq> CHR ''0''" "peek ?t = d" using assms(7) ds by simp_all
  have ln: "length rest \<noteq> length ?t" using ds by simp
  have sp: "\<not> isspace (CHR ''0'')" by (simp add: isspace_def ccode_def)
  have z: "unat (0 :: u64) < 2 ^ bits" by simp
  from assms(3) consider "base = 16" | "base = 8" | "base = 10" by blast
  then show ?thesis
  proof cases
    case 1
    have st: "drop (parse_whitespace s) s = ''0x'' @ ?t"
      unfolding s_def by (subst parse_whitespace_append) (use 1 assms(4) sp in \<open>simp_all add: int_prefix_def\<close>)
    have g: "\<forall>c \<in> set ds. isxdigit c" "\<not> isxdigit (peek rest)" using assms(6,8) 1 by (simp_all add: int_digit_def int_end_def)
    show ?thesis
      using hex_digits.add_digits_fits [OF assms(1,2) g, of 0] hex_digits.add_digits_over [OF assms(1,2) g(1) z, of rest]
        lex_uint_forms(1) [OF st t0(1)] 1
      by (cases "n < 2 ^ bits") (auto simp: n_def split: prod.splits)
  next
    case 2
    have g: "\<forall>c \<in> set ds. isodigit c" "\<not> isdigit (peek rest)" using assms(6,8) 2 by (simp_all add: int_digit_def int_end_def)
    have dd: "isdigit (peek ?t)" using g(1) ds by (simp add: isodigit_def)
    have st: "drop (parse_whitespace s) s = CHR ''0'' # ?t"
      unfolding s_def by (subst parse_whitespace_append) (use 2 assms(4) sp in \<open>simp_all add: int_prefix_def\<close>)
    show ?thesis
      using oct_digits.add_digits_fits [OF assms(1,2) g, of 0] oct_digits.add_digits_over [OF assms(1,2) g(1) z, of rest]
        lex_uint_forms(2) [OF st t0(1) dd] 2
      by (cases "n < 2 ^ bits") (auto simp: n_def split: prod.splits)
  next
    case 3
    have g: "\<forall>c \<in> set ds. isdigit c" "\<not> isdigit (peek rest)" using assms(6,8) 3 by (simp_all add: int_digit_def int_end_def)
    have st: "drop (parse_whitespace s) s = ?t"
      unfolding s_def
      by (subst parse_whitespace_append) (use 3 assms(4) isdigit_not_isspace [of d] g(1) ds in \<open>simp_all add: int_prefix_def\<close>)
    show ?thesis
      using dec_digits.add_digits_fits [OF assms(1,2) g, of 0] dec_digits.add_digits_over [OF assms(1,2) g(1) z, of rest]
        lex_uint_forms(3) [OF st t0(1)] 3 ln
      by (cases "n < 2 ^ bits") (auto simp: n_def split: prod.splits)
  qed
qed

lemma lex_uint_keeps:
  "lex_uint bits v s = (r, v', b) \<Longrightarrow> (r \<noteq> 0 \<longrightarrow> b = s) \<and> (r = 0 \<longrightarrow> (\<exists>p. p \<noteq> [] \<and> s = p @ b))"
proof -
  assume l: "lex_uint bits v s = (r, v', b)"
  let ?w = "takeWhile isspace s" and ?t = "drop (parse_whitespace s) s"
  have st: "s = ?w @ ?t"
    by (simp add: parse_whitespace_def flip: dropWhile_eq_drop)
  have tl: "\<exists>p. p \<noteq> [] \<and> ?t = p @ u" if "peek ?t = CHR ''0''" "tl ?t = p @ u" for p u
  proof -
    have "?t \<noteq> []" using that(1) by (intro peek_nonempty) (simp add: NUL_def)
    then have "?t = (hd ?t # p) @ u" using that(2) by (cases ?t) auto
    then show ?thesis by blast
  qed
  have tl2: "\<exists>p. tl ?t = p @ tl (tl ?t)" "\<exists>p. tl ?t = p @ tl (tl (tl ?t))"
    by (metis append_Nil append_Cons list.collapse tl_Nil)+
  have "\<exists>p. p \<noteq> [] \<and> ?t = p @ b" if r: "r = 0"
  proof (cases "peek ?t = CHR ''0''")
    case True
    have "\<exists>p. tl ?t = p @ b"
      using l r True tl2
      by (auto simp: lex_uint_def lex_uint_0helper_def Let_def split: if_splits prod.splits
          dest!: add_digits_suffix) (metis append_assoc)+
    with tl [OF True] show ?thesis by blast
  next
    case False
    with l r show ?thesis
      by (auto simp: lex_uint_def Let_def split: if_splits prod.splits dest!: add_digits_progress)
  qed
  then have "r = 0 \<longrightarrow> (\<exists>p. p \<noteq> [] \<and> s = p @ b)" using st by (metis append_assoc append_is_Nil_conv)
  moreover have "r \<noteq> 0 \<longrightarrow> b = s"
    using l by (auto simp: lex_uint_def Let_def split: if_splits prod.splits)
  ultimately show ?thesis by blast
qed

subsection \<open>Properties\<close>

text \<open>
  C12: The unsigned lexers read the three notations exactly. After any white space, a nonempty run
  of digits that does not start with 0, plain, behind 0 (octal) or behind 0x (hexadecimal),
  up to the first character that is no digit, gives its value if that fits the width, and
  the answer 1 otherwise; no value wraps, at any width up to 64 bits. A failure leaves the
  text and the result as they were.
\<close>

theorem lex_u_correct:
  fixes val :: "'a::len word"
  assumes "LENGTH('a) \<le> 64" "base \<in> {8, 10, 16}" "\<forall>c \<in> set ws. isspace c"
    "ds \<noteq> []" "\<forall>c \<in> set ds. int_digit base c" "peek ds \<noteq> CHR ''0''" "int_end base rest"
  shows "lex_u (ws @ int_prefix base @ ds @ rest) val =
    (if num_from base 0 ds < 2 ^ LENGTH('a) then (0, word_of_nat (num_from base 0 ds), rest)
     else (1, val, ws @ int_prefix base @ ds @ rest))"
proof -
  have "1 \<le> LENGTH('a)" by (simp add: Suc_leI)
  from lex_uint_spec [OF this assms] show ?thesis
    using ucast_word_of_nat [OF assms(1), of "num_from base 0 ds"]
    by (cases "num_from base 0 ds < 2 ^ LENGTH('a)") (auto simp: lex_u_def split: prod.splits)
qed

theorem lex_u_correct_witness:
  "lex_u '' 0xfF,'' (7 :: u8) = (0, 255, '','') \<and> lex_u ''0400'' (7 :: u8) = (1, 7, ''0400'')"
proof
  have "lex_u ('' '' @ int_prefix 16 @ ''fF'' @ '','') (7 :: u8) =
    (if num_from 16 0 ''fF'' < 2 ^ LENGTH(8) then (0, word_of_nat (num_from 16 0 ''fF''), '','')
     else (1, 7, '' '' @ int_prefix 16 @ ''fF'' @ '',''))"
    by (rule lex_u_correct) (simp_all add: int_digit_def int_end_def ctype_simps ccode_def)
  then show "lex_u '' 0xfF,'' (7 :: u8) = (0, 255, '','')"
    by (simp add: int_prefix_def num_from_def xval_def tolower_def ctype_simps ccode_def)
  have "lex_u ([] @ int_prefix 8 @ ''400'' @ []) (7 :: u8) =
    (if num_from 8 0 ''400'' < 2 ^ LENGTH(8) then (0, word_of_nat (num_from 8 0 ''400''), [])
     else (1, 7, [] @ int_prefix 8 @ ''400'' @ []))"
    by (rule lex_u_correct) (simp_all add: int_digit_def int_end_def isodigit_def xval_def ctype_simps ccode_def NUL_def)
  then show "lex_u ''0400'' (7 :: u8) = (1, 7, ''0400'')"
    by (simp add: int_prefix_def num_from_def xval_def ctype_simps ccode_def)
qed

lemma lex_u_dec:
  fixes x val :: "'a::len word"
  assumes "LENGTH('a) \<le> 64" "\<forall>c \<in> set ws. isspace c" "peek rest = NUL \<or> ispunct (peek rest) \<or> isspace (peek rest)"
  shows "lex_u (ws @ dec (unat x) @ rest) val = (0, x, rest)"
proof (cases "unat x = 0")
  case True
  have c0: "ccode (digit 0) = ccode (CHR ''0'')" by (simp add: ccode_def [of "CHR ''0''"])
  have d0: "dec 0 = ''0''" by (simp add: dec.simps c0 [unfolded ccode_inject])
  have "\<not> isspace (CHR ''0'')" by (simp add: isspace_def ccode_def)
  then have st: "drop (parse_whitespace (ws @ CHR ''0'' # rest)) (ws @ CHR ''0'' # rest) = CHR ''0'' # rest"
    by (intro parse_whitespace_append) (use assms(2) in simp_all)
  have "\<not> isdigit (peek rest)" "peek rest \<noteq> CHR ''x''" "peek rest \<noteq> CHR ''X''"
    using assms(3) by (auto simp: ctype_simps ccode_def NUL_def)
  with True assms(3) st d0 show ?thesis
    by (auto simp: lex_u_def lex_uint_def lex_uint_0helper_def Let_def unsigned_eq_0_iff)
next
  case False
  have "\<not> isdigit (peek rest)" using assms(3) by (auto simp: ctype_simps)
  moreover have "peek (dec (unat x)) \<noteq> CHR ''0''" using peek_dec [OF False, of "[]"] by simp
  moreover have "unat x < 2 ^ LENGTH('a)" by (rule unsigned_less)
  ultimately have "lex_uint LENGTH('a) 0 (ws @ dec (unat x) @ rest) = (0, word_of_nat (unat x), rest)"
    using lex_uint_spec [of "LENGTH('a)" 10 ws "dec (unat x)" rest] assms(1,2) dec_digits
    by (auto simp: int_digit_def int_end_def int_prefix_def num_from_dec Suc_leI)
  then show ?thesis using ucast_word_of_nat [OF assms(1), of "unat x"] \<open>unat x < _\<close>
    by (simp add: lex_u_def)
qed

text \<open>
  Printing an unsigned value in decimal and lexing it gives the value back and stops right
  behind it, for every value of every width up to 64 bits, 0 included, when the text goes on
  with its end, a space or punctuation.
\<close>

lemma lex_u_roundtrip:
  fixes x val :: "'a::len word"
  assumes "LENGTH('a) \<le> 64" "\<forall>c \<in> set ws. isspace c" "peek rest = NUL \<or> ispunct (peek rest) \<or> isspace (peek rest)"
  shows "lex_u (ws @ dec (unat x) @ rest) val = (0, x, rest)"
  by (rule lex_u_dec) (fact assms)+

lemma lex_u_roundtrip_example:
  "lex_u ('' '' @ dec (unat (1729 :: u16)) @ '', x'') (0 :: u16) = (0, 1729, '', x'')"
  by (rule lex_u_roundtrip) (simp_all add: ctype_simps ccode_def)

text \<open>
  Whatever the text, the unsigned lexers keep the promise of their comment: a failure
  molests neither the text nor the result, and a success takes at least one character, a
  prefix of the text.
\<close>

lemma lex_u_unmolested:
  fixes val :: "'a::len word"
  assumes "lex_u s val = (r, v, b) \<or> lex_u_ashex s val = (r, v, b)"
  shows "(r \<noteq> 0 \<longrightarrow> v = val \<and> b = s) \<and> (r = 0 \<longrightarrow> (\<exists>p. p \<noteq> [] \<and> s = p @ b))"
proof -
  have "\<exists>p. p \<noteq> [] \<and> s = p @ b" if x: "drop (parse_whitespace s) s = p @ b" "p \<noteq> []" for p
  proof -
    have "s = takeWhile isspace s @ drop (parse_whitespace s) s"
      by (simp add: parse_whitespace_def flip: dropWhile_eq_drop)
    with x show ?thesis by (metis append_assoc append_is_Nil_conv)
  qed
  then have "lex_u_ashex s val = (r, v, b) \<Longrightarrow> ?thesis"
    by (auto simp: lex_u_ashex_def lex_uint_ashex_def Let_def split: if_splits prod.splits dest!: add_digits_progress)
  moreover have "lex_u s val = (r, v, b) \<Longrightarrow> ?thesis"
    using lex_uint_keeps by (auto simp: lex_u_def split: prod.splits if_splits)
  ultimately show ?thesis using assms by blast
qed

lemma lex_u_unmolested_example: "snd (lex_u ''x'' (3 :: u8)) = (3, ''x'')"
proof -
  have "fst (lex_u ''x'' (3 :: u8)) \<noteq> 0"
    by (simp add: lex_u_def lex_uint_def parse_whitespace_def isspace_def isdigit_def ccode_def)
  then show ?thesis
    using lex_u_unmolested [of "''x''" "3 :: u8" "fst (lex_u ''x'' (3 :: u8))" "fst (snd (lex_u ''x'' (3 :: u8)))"
      "snd (snd (lex_u ''x'' (3 :: u8)))"] by (simp add: prod_eq_iff)
qed

text \<open>
  The signed lexers read octal and hexadecimal digits on top of an uninitialised local:
  the text 01 gives eight times what the stack held there, plus one, whenever that fits.
  Lexing of decimal digits does not depend on it.
\<close>

lemma lex_s_indeterminate:
  assumes "unat uv * 8 + 1 < 2 ^ 31"
  shows "lex_s uv ''01'' (0 :: u32) = (0, word_of_nat (unat uv * 8 + 1), []) \<and>
    lex_s uv ''-1'' (0 :: u32) = (0, - 1, [])"
proof
  have g: "isodigit (CHR ''1'')" "xval (CHR ''1'') = 1" "isdigit (CHR ''1'')"
    by (simp_all add: isodigit_def xval_def isdigit_def ccode_def)
  have sp: "parse_whitespace ''01'' = 0" "parse_whitespace ''-1'' = 0" "parse_whitespace ''1'' = 0"
    by (simp_all add: parse_whitespace_def isspace_def ccode_def)
  have "unat uv < 2 ^ 31" using assms by linarith
  then have "safely_add_oct 31 uv (CHR ''1'') = (0, word_of_nat (unat uv * 8 + 1))"
    using oct_digits.add_fits [of "CHR ''1''" 31 uv] assms g by simp
  then have "lex_uint 31 uv ''01'' = (0, word_of_nat (unat uv * 8 + 1), [])"
    using lex_uint_forms(2) [of "''01''" "''1''" 31 uv] g(3) sp(1) by simp
  moreover have "ucast (word_of_nat (unat uv * 8 + 1) :: u64) = (word_of_nat (unat uv * 8 + 1) :: u32)"
    by (rule ucast_word_of_nat) (use assms in simp_all)
  ultimately show "lex_s uv ''01'' (0 :: u32) = (0, word_of_nat (unat uv * 8 + 1), [])"
    by (simp add: lex_s_def lex_sint_def sp)
  have "safely_add_dec 31 0 (CHR ''1'') = (0, 1)"
    using dec_digits.add_fits [of "CHR ''1''" 31 0] g by simp
  then have "lex_uint 31 uv ''1'' = (0, 1, [])"
    using lex_uint_forms(3) [of "''1''" "''1''" 31 uv] g(3) sp(3) by simp
  moreover have "ucast (- 1 :: u64) = (- 1 :: u32)" by (rule bit_word_eqI) (simp add: bit_unsigned_iff)
  ultimately show "lex_s uv ''-1'' (0 :: u32) = (0, - 1, [])"
    by (simp add: lex_s_def lex_sint_def sp)
qed

lemma lex_s_indeterminate_example:
  "lex_s 5 ''01'' (0 :: u32) = (0, word_of_nat (unat (5 :: u64) * 8 + 1), [])"
  using lex_s_indeterminate [of 5] by simp

end
