(* ===== verification/Text.thy ===== *)
theory Text
  imports Ipset_Text
begin

text \<open>
  The destructive parsers of libdank/utils/text.c. The text is a buffer with a position in it,
  the \<open>char **text\<close> of the code: reading behind the end reads the terminating NUL, and an
  operation answers the offset of the token it carved (or none) with the buffer it wrote NULs
  into and the new position. The token is what stands at that offset up to the next NUL.
\<close>

subsection \<open>Tokens\<close>

definition ch :: "string \<Rightarrow> nat \<Rightarrow> char" where
  "ch b i = peek (drop i b)"

definition skip :: "(char \<Rightarrow> bool) \<Rightarrow> string \<Rightarrow> nat \<Rightarrow> nat" where
  "skip P b i = i + length (takeWhile P (drop i b))"

definition token_at :: "string \<Rightarrow> nat \<Rightarrow> string" where
  "token_at b i = cpart (drop i b)"

definition carve_charset :: "char \<Rightarrow> bool" where
  "carve_charset x \<longleftrightarrow> \<not> (isspace x \<or> x \<in> {CHR ''='', CHR 0x22, CHR 0x27, CHR '','', NUL} \<or> \<not> isgraph x)"

definition brackets :: "char set" where
  "brackets = {CHR ''('', CHR '')'', CHR ''{'', CHR ''}'', CHR ''['', CHR '']''}"

text \<open>The loop of \<open>carve_token\<close>: it goes on behind a bracket, but not past it.\<close>

fun ident_len :: "string \<Rightarrow> nat" where
  "ident_len [] = 0"
| "ident_len (c # s) = (if carve_charset c then (if c \<in> brackets then 1 else Suc (ident_len s)) else 0)"

text \<open>What the carvers do behind a token from \<open>ret\<close> to \<open>e\<close>; \<open>old\<close> is where they started.\<close>

definition carve_end :: "string \<Rightarrow> nat \<Rightarrow> nat \<Rightarrow> nat \<Rightarrow> nat option \<times> string \<times> nat" where
  "carve_end b old ret e =
     (if ret = e then (None, b, old)
      else if ch b e \<noteq> NUL then
        (if \<not> isspace (ch b e) then (None, b, old) else (Some ret, b[e := NUL], e + 1))
      else (Some ret, b, e))"

definition carve_token :: "string \<Rightarrow> nat \<Rightarrow> nat option \<times> string \<times> nat" where
  "carve_token b t =
     (let ret = t + parse_whitespace (drop t b) in carve_end b t ret (ret + ident_len (drop ret b)))"

definition shellsafe_charset :: "char \<Rightarrow> bool" where
  "shellsafe_charset x \<longleftrightarrow> isalnum x \<or> x = CHR ''-'' \<or> x = CHR ''_''"

definition carve_shellsafe_token :: "string \<Rightarrow> nat \<Rightarrow> nat option \<times> string \<times> nat" where
  "carve_shellsafe_token b t =
     (let ret = t + parse_whitespace (drop t b) in carve_end b t ret (skip shellsafe_charset b ret))"

subsection \<open>Quoted tokens\<close>

lemma ch_inside: "ch b t \<noteq> NUL \<Longrightarrow> t < length b"
  by (rule ccontr) (simp add: ch_def)

text \<open>\<open>dest\<close> is where the next character goes; escapes make it fall behind.\<close>

function carve_quoted_loop :: "string \<Rightarrow> nat \<Rightarrow> nat \<Rightarrow> nat \<Rightarrow> nat option \<times> string \<times> nat" where
  "carve_quoted_loop b start dest t =
     (if ch b t = NUL then (None, b, t)
      else if ch b t = CHR 0x22 then
        (if start = t then (None, b, t) else (Some start, b[dest := NUL], t + 1))
      else
        let t1 = (if ch b t = CHR 0x5C then t + 1 else t) in
        if ch b t1 = NUL then (None, b, t1)
        else carve_quoted_loop (if dest \<noteq> t1 then b[dest := ch b t1] else b) start (dest + 1) (t1 + 1))"
  by pat_completeness auto
termination
  by (relation "measure (\<lambda>(b, start, dest, t). length b - t)") (auto dest: ch_inside simp: Let_def)

declare carve_quoted_loop.simps [simp del]

definition carve_quoted_token :: "string \<Rightarrow> nat \<Rightarrow> nat option \<times> string \<times> nat" where
  "carve_quoted_token b t = carve_quoted_loop b t t t"

definition carve_quotable_token :: "string \<Rightarrow> nat \<Rightarrow> nat option \<times> string \<times> nat" where
  "carve_quotable_token b t =
     (let ret = t + parse_whitespace (drop t b) in
      if ch b ret = CHR 0x22 then carve_quoted_token b (ret + 1)
      else carve_end b t ret (skip (\<lambda>c. carve_charset c \<or> c = CHR '','') b ret))"

subsection \<open>Value pairs\<close>

text \<open>\<open>v\<close> is \<open>*value\<close>, with \<open>None\<close> the null pointer.\<close>

definition carve_value_pair :: "string \<Rightarrow> nat \<Rightarrow> nat option \<Rightarrow> nat option \<times> nat option \<times> string \<times> nat" where
  "carve_value_pair b t v =
     (let toke = t + parse_whitespace (drop t b) in
      if ch b toke = NUL then (Some toke, None, b, t)
      else
        let e = skip carve_charset b toke in
        if e = toke \<or> ch b e \<noteq> CHR ''='' then (None, v, b, t)
        else case carve_quotable_token (b[e := NUL]) (e + 1) of
          (None, b1, t1) \<Rightarrow> (None, None, b1, t)
        | (Some w, b1, t1) \<Rightarrow> (Some toke, Some w, b1, t1))"

definition carve_optional_value_pair :: "string \<Rightarrow> nat \<Rightarrow> nat option \<Rightarrow> nat option \<times> nat option \<times> string \<times> nat" where
  "carve_optional_value_pair b t v =
     (case carve_value_pair b t v of
        (Some toke, Some w, b1, t1) \<Rightarrow> (Some toke, Some w, b1, t1)
      | (_, _, b1, t1) \<Rightarrow> (case carve_token b1 t1 of (r, b2, t2) \<Rightarrow> (r, None, b2, t2)))"

subsection \<open>Comma lists\<close>

text \<open>The first loop; it answers the buffer, \<open>cur\<close>, \<open>tokens\<close> and \<open>intoken\<close>.\<close>

function comma_loop :: "string \<Rightarrow> nat \<Rightarrow> nat \<Rightarrow> bool \<Rightarrow> string \<times> nat \<times> nat \<times> bool" where
  "comma_loop b cur tokens intoken =
     (if carve_charset (ch b cur) \<or> ch b cur = CHR '','' then
        (if ch b cur = CHR '','' then comma_loop (b[cur := NUL]) (cur + 1) (tokens + 1) False
         else comma_loop b (cur + 1) tokens True)
      else (b, cur, tokens, intoken))"
  by pat_completeness auto
termination
proof (relation "measure (\<lambda>(b, cur, tokens, intoken). length b - cur)", goal_cases)
  case (2 b cur tokens intoken)
  then have "ch b cur \<noteq> NUL" by (auto simp: NUL_def)
  from ch_inside [OF this] show ?case by simp
next
  case (3 b cur tokens intoken)
  then have "ch b cur \<noteq> NUL" by (auto simp: carve_charset_def)
  from ch_inside [OF this] show ?case by simp
qed simp

declare comma_loop.simps [simp del]

text \<open>The loop that puts the commas back; there are as many NULs before \<open>cur\<close> as it looks for.\<close>

fun comma_restore :: "string \<Rightarrow> nat \<Rightarrow> nat \<Rightarrow> string" where
  "comma_restore b cur 0 = b"
| "comma_restore b 0 (Suc tokens) = b"
| "comma_restore b (Suc cur) (Suc tokens) =
     (if ch b cur = NUL then comma_restore (b[cur := CHR '','']) cur tokens else comma_restore b cur (Suc tokens))"

text \<open>The count (or -1), the text, and \<open>*left\<close> where it is set.\<close>

definition carve_comma_list :: "string \<Rightarrow> nat \<Rightarrow> int \<times> string \<times> nat option" where
  "carve_comma_list b text =
     (case comma_loop b text 0 False of (b1, cur, tokens, intoken) \<Rightarrow>
        if ch b1 cur \<noteq> NUL then
          (if isspace (ch b1 cur) then (int tokens, b1[cur := NUL], Some (cur + 1))
           else (-1, comma_restore b1 cur tokens, None))
        else if \<not> intoken then (-1, b1, None)
        else (int (tokens + 1), b1, Some cur))"

subsection \<open>Addresses and ports\<close>

text \<open>The value and the new position; a failure may have moved the position too.\<close>

definition carve_single_ip :: "(string \<Rightarrow> u32 option) \<Rightarrow> string \<Rightarrow> nat \<Rightarrow> u32 option \<times> nat" where
  "carve_single_ip Inet_pton b t =
     (let t1 = t + parse_whitespace (drop t b);
          temp = skip is_addr_char b t1
      in if temp - t1 \<ge> INET_ADDRSTRLEN \<or> temp - t1 \<noteq> 0 then (None, t1)
         else case Inet_pton (take (temp - t1) (drop t1 b)) of None \<Rightarrow> (None, t1) | Some s \<Rightarrow> (Some s, temp))"

definition carve_single_port :: "string \<Rightarrow> nat \<Rightarrow> u16 option \<times> nat" where
  "carve_single_port b t =
     (let d = skip isspace b t;
          e = skip isdigit b d;
          n = digits_value (take (e - d) (drop d b))
      in if d = e \<or> e - d > 5 \<or> n > 65535 then (None, t) else (Some (word_of_nat n), e))"

definition htons :: "u16 \<Rightarrow> u16" where
  "htons x = push_bit 8 x OR drop_bit 8 x"

record sockaddr_in =
  s_addr :: u32
  sin_port :: u16

text \<open>Whether it fails, the address structure and the position.\<close>

definition carve_ipv4endpoint ::
  "(string \<Rightarrow> u32 option) \<Rightarrow> string \<Rightarrow> nat \<Rightarrow> u32 \<Rightarrow> bool \<times> sockaddr_in \<times> nat" where
  "carve_ipv4endpoint Inet_pton b t default_port =
     (let si = \<lparr>s_addr = 0, sin_port = 0\<rparr> in
      case parse_ipv4address Inet_pton (drop t b) of
        None \<Rightarrow> (True, si, t)
      | Some (n, a) \<Rightarrow>
          let si1 = si\<lparr>s_addr := a\<rparr>; t1 = t + n in
          if ch b t1 = CHR '':'' then
            (case carve_single_port b (t1 + 1) of
               (None, t2) \<Rightarrow> (True, si1, t)
             | (Some p, t2) \<Rightarrow> (False, si1\<lparr>sin_port := htons p\<rparr>, t2))
          else (False, si1\<lparr>sin_port := htons (ucast default_port)\<rparr>, t1))"

subsection \<open>Lemmas\<close>

lemma cpart_append_NUL: "cstr s \<Longrightarrow> cpart (s @ NUL # t) = s"
  by (induction s) (simp_all add: cpart_def)

lemma ch_append [simp]: "ch (a @ b) (length a) = peek b"
  by (simp add: ch_def)

lemma ch_append2: "i = length a \<Longrightarrow> ch (a @ b) i = peek b"
  by simp

lemma update_append2: "i = length a \<Longrightarrow> (a @ c # b)[i := d] = a @ d # b"
  by (simp add: list_update_append)

text \<open>A carve that fails leaves the text alone; one that succeeds writes at most the terminator.\<close>

lemma carve_end_cases:
  assumes "carve_end b old ret e = (r, b', t')"
  shows "r = None \<and> b' = b \<and> t' = old \<or> r = Some ret \<and> ret \<noteq> e \<and> (b' = b \<and> t' = e \<and> ch b e = NUL \<or>
    b' = b[e := NUL] \<and> t' = e + 1 \<and> isspace (ch b e))"
  using assms by (auto simp: carve_end_def split: if_splits)

lemma ident_len_spec: "ident_len s \<le> length s \<and> (\<forall>c \<in> set (take (ident_len s) s). carve_charset c)"
  by (induction s) auto

lemma carve_token_spec:
  assumes "carve_token b t = (Some i, b', t')"
  shows "\<exists>tok. tok \<noteq> [] \<and> (\<forall>c \<in> set tok. carve_charset c) \<and> drop t b = take (i - t) (drop t b) @ tok @ drop (i + length tok) b \<and>
    token_at b' i = tok \<and> length b' = length b"
proof -
  define tok where "tok = take (ident_len (drop i b)) (drop i b)"
  have e: "carve_end b t i (i + ident_len (drop i b)) = (Some i, b', t')" and i: "i = t + parse_whitespace (drop t b)"
    using assms carve_end_cases by (fastforce simp: carve_token_def Let_def)+
  have l: "length tok = ident_len (drop i b)" using ident_len_spec [of "drop i b"] by (simp add: tok_def)
  have cs: "\<forall>c \<in> set tok. carve_charset c" using ident_len_spec [of "drop i b"] by (simp add: tok_def)
  then have n: "NUL \<notin> set tok" by (auto simp: carve_charset_def)
  have d: "drop i b = tok @ drop (i + length tok) b"
    using append_take_drop_id [of "length tok" "drop i b"] l by (simp add: tok_def add.commute)
  have ne: "tok \<noteq> []" using carve_end_cases [OF e] l by auto
  have tk: "token_at b' i = tok"
  proof -
    from carve_end_cases [OF e] l consider "b' = b" "ch b (i + length tok) = NUL" | "b' = b[i + length tok := NUL]" "isspace (ch b (i + length tok))" by auto
    then have "drop i b' = tok @ drop (i + length tok) b' \<and> peek (drop (i + length tok) b') = NUL"
    proof cases
      case 1
      then show ?thesis using d by (simp add: ch_def)
    next
      case 2
      then have lt: "i + length tok < length b" by (intro ch_inside) auto
      have "drop i b' = (drop i b)[length tok := NUL]" using 2(1) by (simp add: drop_update_swap)
      also have "\<dots> = tok @ (drop (i + length tok) b)[0 := NUL]" by (subst d) (simp add: list_update_append)
      finally have "drop i b' = tok @ (drop (i + length tok) b)[0 := NUL]" .
      moreover have "drop (i + length tok) b' = (drop (i + length tok) b)[0 := NUL]" using 2(1) by (simp add: drop_update_swap)
      ultimately show ?thesis using lt by (cases "drop (i + length tok) b") auto
    qed
    then show ?thesis using n by (cases "drop (i + length tok) b'") (auto simp: token_at_def cpart_def takeWhile_append)
  qed
  have "drop t b = take (i - t) (drop t b) @ drop i b"
    using append_take_drop_id [of "i - t" "drop t b"] i by (simp add: add.commute)
  then have "drop t b = take (i - t) (drop t b) @ tok @ drop (i + length tok) b" using d by simp
  moreover have "length b' = length b" using carve_end_cases [OF e] by auto
  ultimately show ?thesis using ne cs tk by blast
qed

lemma carve_single_ip_rejects:
  assumes "Inet_pton [] = None"
  shows "fst (carve_single_ip Inet_pton b t) = None"
  using assms by (simp add: carve_single_ip_def Let_def)

text \<open>Quoting: every quote and backslash gets a backslash.\<close>

fun escape :: "string \<Rightarrow> string" where
  "escape [] = []"
| "escape (c # s) = (if c = CHR 0x22 \<or> c = CHR 0x5C then CHR 0x5C # c # escape s else c # escape s)"

lemma carve_quoted_loop_escape:
  assumes "cstr s" "s \<noteq> [] \<or> out \<noteq> [] \<or> junk \<noteq> []"
  shows "\<exists>junk'. carve_quoted_loop (A @ out @ junk @ escape s @ CHR 0x22 # rest) (length A) (length (A @ out)) (length (A @ out @ junk)) =
    (Some (length A), A @ out @ s @ NUL # junk' @ rest, length (A @ out @ junk @ escape s) + 1) \<and>
    length (s @ NUL # junk') = length (junk @ escape s) + 1"
  using assms
proof (induction s arbitrary: out junk)
  case Nil
  define j where "j = tl (junk @ [CHR 0x22])"
  have c: "ch (A @ out @ junk @ CHR 0x22 # rest) (length (A @ out @ junk)) = CHR 0x22"
    using ch_append2 [of "length (A @ out @ junk)" "A @ out @ junk" "CHR 0x22 # rest"] by simp
  have w: "(A @ out @ junk @ CHR 0x22 # rest)[length (A @ out) := NUL] = A @ out @ NUL # j @ rest"
    by (cases junk) (simp_all add: list_update_append j_def)
  have l: "length j = length junk" by (cases junk) (simp_all add: j_def)
  have ne: "length A \<noteq> length (A @ out @ junk)" using Nil.prems(2) by auto
  have "carve_quoted_loop (A @ out @ junk @ CHR 0x22 # rest) (length A) (length (A @ out)) (length (A @ out @ junk)) =
    (Some (length A), A @ out @ NUL # j @ rest, length (A @ out @ junk) + 1)"
    by (subst carve_quoted_loop.simps) (use c w ne in \<open>simp add: NUL_def\<close>)
  then show ?case using l by (intro exI [of _ j]) simp
next
  case (Cons c s)
  have cN: "c \<noteq> NUL" "cstr s" using Cons.prems(1) by simp_all
  let ?tail = "escape s @ CHR 0x22 # rest"
  define esc where "esc = (c = CHR 0x22 \<or> c = CHR 0x5C)"
  define block where "block = junk @ (if esc then [CHR 0x5C, c] else [c])"
  have b: "A @ out @ junk @ escape (c # s) @ CHR 0x22 # rest = A @ out @ block @ ?tail"
    by (simp add: block_def esc_def)
  let ?b = "A @ out @ block @ ?tail"
  define t where "t = length (A @ out @ junk)"
  define t1 where "t1 = (if esc then t + 1 else t)"
  have bl: "block \<noteq> []" "length (A @ out @ block) = t1 + 1" by (simp_all add: block_def t1_def t_def)
  have c0: "ch ?b t = (if esc then CHR 0x5C else c)"
    by (simp add: block_def t_def) (simp add: ch_def)
  have c1: "ch ?b t1 = c"
  proof (cases esc)
    case True
    have "?b = (A @ out @ junk @ [CHR 0x5C]) @ c # ?tail" by (simp add: block_def True)
    then show ?thesis using ch_append2 [of t1 "A @ out @ junk @ [CHR 0x5C]" "c # ?tail"] True by (simp add: t1_def t_def)
  next
    case False
    with c0 show ?thesis by (simp add: t1_def)
  qed
  have w: "(if length (A @ out) \<noteq> t1 then ?b[length (A @ out) := ch ?b t1] else ?b) = A @ (out @ [c]) @ tl block @ ?tail"
  proof (cases "length (A @ out) = t1")
    case True
    then have "block = [c]" using bl(2) by (auto simp: block_def t1_def t_def)
    with True show ?thesis by simp
  next
    case False
    from bl(1) obtain x y where "block = x # y" by (cases block) auto
    with False c1 show ?thesis by (simp add: list_update_append)
  qed
  have step: "carve_quoted_loop ?b (length A) (length (A @ out)) t =
      carve_quoted_loop (A @ (out @ [c]) @ tl block @ ?tail) (length A) (length (A @ out @ [c])) (t1 + 1)"
  proof -
    have n: "ch ?b t \<noteq> NUL" "ch ?b t \<noteq> CHR 0x22" "(if ch ?b t = CHR 0x5C then t + 1 else t) = t1"
      using c0 cN(1) by (cases esc; simp add: esc_def t1_def NUL_def)+
    have d: "length (A @ out) + 1 = length (A @ out @ [c])" by simp
    show ?thesis by (subst carve_quoted_loop.simps) (simp only: n if_False Let_def w [unfolded c1] c1 cN(1) d)
  qed
  have l: "t1 + 1 = length (A @ (out @ [c]) @ tl block)" using bl by (cases block) auto
  have ne: "s \<noteq> [] \<or> out @ [c] \<noteq> [] \<or> tl block \<noteq> []" by simp
  from Cons.IH [OF cN(2) ne] obtain junk' where
    r: "carve_quoted_loop (A @ (out @ [c]) @ tl block @ ?tail) (length A) (length (A @ out @ [c])) (length (A @ (out @ [c]) @ tl block)) =
      (Some (length A), A @ (out @ [c]) @ s @ NUL # junk' @ rest, length (A @ (out @ [c]) @ tl block @ escape s) + 1)"
    "length (s @ NUL # junk') = length (tl block @ escape s) + 1" by blast
  have len: "length (A @ (out @ [c]) @ tl block @ escape s) = length (A @ out @ junk @ escape (c # s))"
    "length (tl block @ escape s) + 1 = length (junk @ escape (c # s))"
  proof -
    have "length block = length junk + (if esc then 2 else 1)" by (simp add: block_def)
    moreover have "length (escape (c # s)) = length (escape s) + (if esc then 2 else 1)" by (simp add: esc_def)
    ultimately show "length (A @ (out @ [c]) @ tl block @ escape s) = length (A @ out @ junk @ escape (c # s))"
      "length (tl block @ escape s) + 1 = length (junk @ escape (c # s))" by (simp_all del: escape.simps)
  qed
  have e: "carve_quoted_loop ?b (length A) (length (A @ out)) t =
      (Some (length A), A @ out @ (c # s) @ NUL # junk' @ rest, length (A @ out @ junk @ escape (c # s)) + 1)"
    by (simp only: step l r(1) len(1)) (simp only: append_assoc append.simps)
  have f: "length ((c # s) @ NUL # junk') = length (junk @ escape (c # s)) + 1" using r(2) len(2) by simp
  show ?case unfolding b t_def [symmetric] by (intro exI [of _ junk'] conjI, rule e, rule f)
qed

text \<open>The comma list: every comma of the run becomes a NUL.\<close>

definition nul_commas :: "string \<Rightarrow> string" where
  "nul_commas s = map (\<lambda>c. if c = CHR '','' then NUL else c) s"

definition list_char :: "char \<Rightarrow> bool" where
  "list_char c \<longleftrightarrow> carve_charset c \<or> c = CHR '',''"

lemma list_char_not_NUL: "list_char c \<Longrightarrow> c \<noteq> NUL"
  by (auto simp: list_char_def carve_charset_def NUL_def)

lemma not_charset_comma [simp]: "\<not> carve_charset CHR '',''"
  by (simp add: carve_charset_def)

lemma length_nul_commas [simp]: "length (nul_commas s) = length s"
  by (simp add: nul_commas_def)

lemma comma_loop_run:
  assumes "\<forall>c \<in> set s. list_char c" "\<not> list_char (peek tail)"
  shows "comma_loop (pre @ s @ tail) (length pre) k it =
    (pre @ nul_commas s @ tail, length (pre @ s), k + count_list s CHR '','', if s = [] then it else last s \<noteq> CHR '','')"
  using assms(1)
proof (induction s arbitrary: pre k it)
  case Nil
  have "\<not> list_char (ch (pre @ tail) (length pre))" using assms(2) by simp
  then show ?case by (simp add: comma_loop.simps [of "pre @ tail"] list_char_def nul_commas_def)
next
  case (Cons c s)
  have c: "ch (pre @ (c # s) @ tail) (length pre) = c" by simp
  show ?case
  proof (cases "c = CHR '',''")
    case True
    have "comma_loop (pre @ (c # s) @ tail) (length pre) k it = comma_loop ((pre @ [NUL]) @ s @ tail) (length (pre @ [NUL])) (k + 1) False"
      by (subst comma_loop.simps) (use c True in \<open>simp add: list_update_append\<close>)
    with Cons.IH [of "pre @ [NUL]" "k + 1" False] Cons.prems True show ?thesis by (simp add: nul_commas_def)
  next
    case False
    have "carve_charset c" using False Cons.prems by (simp add: list_char_def)
    then have "comma_loop (pre @ (c # s) @ tail) (length pre) k it = comma_loop ((pre @ [c]) @ s @ tail) (length (pre @ [c])) k True"
      by (subst comma_loop.simps) (use c False in simp)
    with Cons.IH [of "pre @ [c]" k True] Cons.prems False show ?thesis by (simp add: nul_commas_def)
  qed
qed

lemma comma_restore_run:
  assumes "\<forall>c \<in> set s. list_char c"
  shows "comma_restore (pre @ nul_commas s @ tail) (length (pre @ s)) (count_list s CHR '','') = pre @ s @ tail"
  using assms
proof (induction s arbitrary: tail rule: rev_induct)
  case (snoc c s)
  have nc: "nul_commas (s @ [c]) = nul_commas s @ [if c = CHR '','' then NUL else c]" by (simp add: nul_commas_def)
  have cN: "c \<noteq> NUL" using snoc.prems list_char_not_NUL by simp
  let ?b = "pre @ nul_commas (s @ [c]) @ tail"
  have at: "ch ?b (length (pre @ s)) = (if c = CHR '','' then NUL else c)"
    using ch_append2 [of "length (pre @ s)" "pre @ nul_commas s" "(if c = CHR '','' then NUL else c) # tail"] by (simp add: nc)
  have len: "length (pre @ s @ [c]) = Suc (length (pre @ s))" by simp
  show ?case
  proof (cases "c = CHR '',''")
    case True
    have w: "?b[length (pre @ s) := CHR '',''] = pre @ nul_commas s @ CHR '','' # tail"
    proof -
      have l: "length (pre @ s) = length (pre @ nul_commas s)" by simp
      have t: "pre @ nul_commas (s @ [c]) @ tail = (pre @ nul_commas s) @ NUL # tail" using True nc by simp
      show ?thesis unfolding t by (simp only: update_append2 [OF l]) simp
    qed
    have "comma_restore ?b (length (pre @ s @ [c])) (count_list (s @ [c]) CHR '','') =
        comma_restore (pre @ nul_commas s @ CHR '','' # tail) (length (pre @ s)) (count_list s CHR '','')"
      unfolding len using at w True by simp
    with snoc.IH [of "CHR '','' # tail"] snoc.prems True show ?thesis by simp
  next
    case False
    have "comma_restore ?b (length (pre @ s @ [c])) (count_list (s @ [c]) CHR '','') =
        comma_restore ?b (length (pre @ s)) (count_list s CHR '','')"
      unfolding len using at cN False by (cases "count_list s CHR '',''") simp_all
    moreover have "?b = pre @ nul_commas s @ c # tail" using False by (simp add: nc)
    ultimately show ?thesis using snoc.IH [of "c # tail"] snoc.prems by simp
  qed
qed (simp add: nul_commas_def)

subsection \<open>Properties\<close>

text \<open>
  C14: Quoting round trip: \<open>carve_quotable_token\<close> on the quoted form of a text, behind any white
  space and with its quotes and backslashes escaped. If the text is not empty, it carves exactly
  that text, in place, leaves the position right behind the closing quote and writes nothing before
  the token. The empty text cannot be quoted (against the comment of \<open>carve_quoted_token\<close>, in
  keeping with that of \<open>carve_quotable_token\<close>): it is refused with the buffer as it was and the
  position on the closing quote.
\<close>

theorem carve_quoted_roundtrip:
  assumes "cstr s" "\<forall>c \<in> set ws. isspace c"
  shows "if s = [] then
      carve_quotable_token (pre @ ws @ [CHR 0x22, CHR 0x22] @ rest) (length pre) =
        (None, pre @ ws @ [CHR 0x22, CHR 0x22] @ rest, length pre + length ws + 1)
    else \<exists>i b'. carve_quotable_token (pre @ ws @ CHR 0x22 # escape s @ CHR 0x22 # rest) (length pre) =
        (Some i, b', length b' - length rest) \<and> token_at b' i = s \<and>
      take i b' = pre @ ws @ [CHR 0x22] \<and> drop (length b' - length rest) b' = rest"
proof -
  let ?A = "pre @ ws @ [CHR 0x22]"
  let ?q = "CHR 0x22 # escape s @ CHR 0x22 # rest"
  have b: "pre @ ws @ ?q = ?A @ [] @ [] @ escape s @ CHR 0x22 # rest" by simp
  have nsp: "\<not> isspace (peek ?q)" by (simp add: isspace_def ccode_def)
  have tw: "takeWhile isspace (ws @ ?q) = ws"
    using assms(2) nsp by (auto simp: takeWhile_append takeWhile_eq_all_conv [THEN iffD2])
  then have ws: "parse_whitespace (drop (length pre) (pre @ ws @ ?q)) = length ws" by (simp add: parse_whitespace_def)
  have c: "ch (pre @ ws @ ?q) (length pre + length ws) = CHR 0x22"
    using ch_append2 [of "length pre + length ws" "pre @ ws" ?q] by simp
  have A: "length pre + length ws + 1 = length ?A" by simp
  show ?thesis
  proof (cases "s = []")
    case True
    have "ch (?A @ CHR 0x22 # rest) (length ?A) = CHR 0x22" using ch_append2 [of "length ?A" ?A "CHR 0x22 # rest"] by simp
    then have "carve_quoted_token (?A @ CHR 0x22 # rest) (length ?A) = (None, ?A @ CHR 0x22 # rest, length ?A)"
      unfolding carve_quoted_token_def by (subst carve_quoted_loop.simps) (simp add: NUL_def)
    moreover have "pre @ ws @ ?q = ?A @ CHR 0x22 # rest" using True by simp
    ultimately show ?thesis
      using True ws c by (simp add: carve_quotable_token_def Let_def)
  next
    case False
    from carve_quoted_loop_escape [OF assms(1), of "[]" "[]" ?A rest] False obtain j where
      j: "carve_quoted_loop (?A @ [] @ [] @ escape s @ CHR 0x22 # rest) (length ?A) (length ?A) (length ?A) =
        (Some (length ?A), ?A @ s @ NUL # j @ rest, length (?A @ escape s) + 1)" "length (s @ NUL # j) = length (escape s) + 1" by auto
    define b' where "b' = ?A @ s @ NUL # j @ rest"
    have t': "length (?A @ escape s) + 1 = length b' - length rest" using j(2) by (simp add: b'_def)
    have "carve_quoted_token (pre @ ws @ ?q) (length ?A) = (Some (length ?A), b', length b' - length rest)"
      unfolding carve_quoted_token_def b j(1) t' b'_def ..
    then have "carve_quotable_token (pre @ ws @ ?q) (length pre) = (Some (length ?A), b', length b' - length rest)"
      by (simp only: carve_quotable_token_def Let_def ws c if_True A simp_thms)
    moreover have "drop (length ?A) b' = s @ NUL # j @ rest" by (simp add: b'_def)
    then have "token_at b' (length ?A) = s" unfolding token_at_def by (simp only: cpart_append_NUL [OF assms(1)])
    moreover have "take (length ?A) b' = ?A" "drop (length b' - length rest) b' = rest" by (simp_all add: b'_def)
    ultimately show ?thesis using False by auto
  qed
qed

theorem carve_quoted_roundtrip_witness:
  "\<exists>i b'. carve_quotable_token (''k='' @ '' '' @ CHR 0x22 # escape [CHR ''a'', CHR 0x22, CHR 0x5C, CHR '' ''] @ CHR 0x22 # ''z'') (length ''k='') =
      (Some i, b', length b' - length ''z'') \<and> token_at b' i = [CHR ''a'', CHR 0x22, CHR 0x5C, CHR '' ''] \<and>
    take i b' = ''k='' @ '' '' @ [CHR 0x22] \<and> drop (length b' - length ''z'') b' = ''z''"
  using carve_quoted_roundtrip [of "[CHR ''a'', CHR 0x22, CHR 0x5C, CHR '' '']" "'' ''" "''k=''" "''z''"]
  by (simp add: NUL_def isspace_def ccode_def)

text \<open>
  C29: What \<open>carve_comma_list\<close> does on every text, with \<open>s\<close> the run of identifier characters and
  commas. Ended by another character the text is restored. Ended by the text's end the tokens
  are counted, unless the last one is empty: then the answer is -1 with the commas gone,
  against its comment. Ended by white space the answer is one less than the tokens.
\<close>

theorem carve_comma_list_spec:
  assumes "\<forall>c \<in> set s. list_char c" "\<not> list_char (peek tail)"
  shows "carve_comma_list (pre @ s @ tail) (length pre) =
    (if peek tail = NUL then
       if s = [] \<or> last s = CHR '','' then (-1, pre @ nul_commas s @ tail, None)
       else (int (count_list s CHR '','') + 1, pre @ nul_commas s @ tail, Some (length (pre @ s)))
     else if isspace (peek tail) then
       (int (count_list s CHR '',''), pre @ nul_commas s @ NUL # tl tail, Some (length (pre @ s) + 1))
     else (-1, pre @ s @ tail, None))"
proof -
  have at: "ch (pre @ nul_commas s @ tail) (length (pre @ s)) = peek tail"
    using ch_append2 [of "length (pre @ s)" "pre @ nul_commas s" tail] by simp
  have w: "(pre @ nul_commas s @ tail)[length (pre @ s) := NUL] = pre @ nul_commas s @ NUL # tl tail" if "peek tail \<noteq> NUL"
  proof -
    obtain x xs where "tail = x # xs" using \<open>peek tail \<noteq> NUL\<close> by (cases tail) auto
    then show ?thesis using update_append2 [of "length (pre @ s)" "pre @ nul_commas s" x xs NUL] by simp
  qed
  show ?thesis
    unfolding carve_comma_list_def comma_loop_run [OF assms] prod.case
    using at w comma_restore_run [OF assms(1), of pre tail] by simp
qed

theorem carve_comma_list_spec_witness:
  "carve_comma_list ('''' @ ''a,b'' @ '' c'') (length '''') = (1, ''a'' @ [NUL] @ ''b'' @ [NUL] @ ''c'', Some 4) \<and>
   carve_comma_list ('''' @ ''a,b,'' @ '''') (length '''') = (-1, ''a'' @ [NUL] @ ''b'' @ [NUL], None)"
proof -
  have c: "\<forall>c \<in> set ''a,b,''. list_char c" "\<forall>c \<in> set ''a,b''. list_char c" "\<not> list_char (peek '' c'')" "\<not> list_char (peek '''')"
    by (simp_all add: list_char_def carve_charset_def ctype_simps ccode_def NUL_def)
  show ?thesis
    using carve_comma_list_spec [OF c(2,3), of "''''"] carve_comma_list_spec [OF c(1,4), of "''''"]
    by (simp add: nul_commas_def NUL_def isspace_def ccode_def)
qed

end
