(* ===== verification/Uri.thy ===== *)
theory Uri
  imports Lexers Text Ustring
begin

text \<open>
  The URIs of libdank/utils/rfc2396.c: the classes of characters, the parsers that check a URI
  or take it apart, and the printer. A text is what is left from the position on. A pointer of
  a uri is null, a string of its own, or whatever fresh memory holds (\<open>Wild\<close>); an operation
  that frees or prints a wild pointer answers an outer \<open>None\<close>. Whether inet_pton
  takes an IPv6 address is a parameter.
\<close>

subsection \<open>Classes of characters\<close>

definition rfc2396_reserved_char :: "char \<Rightarrow> bool" where
  "rfc2396_reserved_char c \<longleftrightarrow> c \<in> set '';/?:@&=+$,''"

definition rfc2396_unreserved_char :: "char \<Rightarrow> bool" where
  "rfc2396_unreserved_char c \<longleftrightarrow> isalnum c \<or> c \<in> set ''-_.!~*()'' \<or> c = CHR 0x27"

definition rfc2396_unwise_char :: "char \<Rightarrow> bool" where
  "rfc2396_unwise_char c \<longleftrightarrow> c \<in> set ''{}|^[]'' \<or> c = CHR 0x5C \<or> c = CHR 0x60"

text \<open>The functions on a position answer how many characters they take, 0 for no match.\<close>

definition rfc2396_escape_sequence :: "string \<Rightarrow> nat" where
  "rfc2396_escape_sequence s =
     (if peek s = CHR ''%'' then
        if peek (drop 1 s) = CHR ''u'' then
          if isxdigit (peek (drop 2 s)) \<and> isxdigit (peek (drop 3 s)) \<and> isxdigit (peek (drop 4 s)) \<and>
             isxdigit (peek (drop 5 s)) then 6 else 0
        else if isxdigit (peek (drop 1 s)) \<and> isxdigit (peek (drop 2 s)) then 3 else 0
      else 0)"

definition rfc2396_pchar :: "string \<Rightarrow> nat" where
  "rfc2396_pchar s =
     (if rfc2396_unreserved_char (peek s) \<or> rfc2396_unwise_char (peek s) then 1
      else if rfc2396_escape_sequence s \<noteq> 0 then rfc2396_escape_sequence s
      else of_bool (peek s \<in> set ''/:@&=+$,;''))"

definition rfc2396_qchar :: "string \<Rightarrow> nat" where
  "rfc2396_qchar s =
     (if rfc2396_escape_sequence s \<noteq> 0 then rfc2396_escape_sequence s
      else of_bool (rfc2396_unreserved_char (peek s) \<or> rfc2396_reserved_char (peek s) \<or> rfc2396_unwise_char (peek s)))"

text \<open>What the two loops over an authority take: behind user information, and where it may still be that.\<close>

definition hostchar :: "string \<Rightarrow> nat" where
  "hostchar s = (if rfc2396_unreserved_char (peek s) then 1 else rfc2396_escape_sequence s)"

definition authchar :: "string \<Rightarrow> nat" where
  "authchar s = (if hostchar s \<noteq> 0 then hostchar s else of_bool (peek s = CHR '':''))"

text \<open>\<open>while ((l = f (*line))) *line += l\<close>; no class holds the NUL at the end of the text.\<close>

function scan :: "(string \<Rightarrow> nat) \<Rightarrow> string \<Rightarrow> string" where
  "scan f s = (if f s = 0 \<or> s = [] then s else scan f (drop (f s) s))"
  by pat_completeness auto
termination
  by (relation "measure (\<lambda>(f, s). length s)") auto

declare scan.simps [simp del]

subsection \<open>A URI\<close>

datatype uriptr = NullP | Wild | Str string

record uri =
  scheme :: uriptr
  host :: uriptr
  userinfo :: uriptr
  path :: uriptr
  query :: uriptr
  fragment :: uriptr
  port :: u32
  opaque_part :: uriptr

definition zero_uri :: uri where
  "zero_uri = \<lparr>scheme = NullP, host = NullP, userinfo = NullP, path = NullP, query = NullP, fragment = NullP,
     port = 0, opaque_part = NullP\<rparr>"

fun free_str :: "uriptr \<Rightarrow> mem \<Rightarrow> mem option" where
  "free_str NullP m = Some m"
| "free_str Wild m = None"
| "free_str (Str s) m = Some (Free True m)"

fun free_strs :: "uriptr list \<Rightarrow> mem \<Rightarrow> mem option" where
  "free_strs [] m = Some m"
| "free_strs (p # ps) m = (case free_str p m of None \<Rightarrow> None | Some m1 \<Rightarrow> free_strs ps m1)"

text \<open>\<open>u && (u->f = Strndup (from, to - from)) == NULL\<close>, for the member that \<open>upd\<close> writes.\<close>

definition store_part ::
  "((uriptr \<Rightarrow> uriptr) \<Rightarrow> uri \<Rightarrow> uri) \<Rightarrow> string \<Rightarrow> string \<Rightarrow> uri option \<Rightarrow> mem \<Rightarrow> bool \<times> uri option \<times> mem" where
  "store_part upd from to uo m =
     (case uo of None \<Rightarrow> (False, None, m)
      | Some u \<Rightarrow>
          (case Strndup (Some from) (length from - length to) m of
             (None, m1) \<Rightarrow> (True, Some (upd (\<lambda>_. NullP) u), m1)
           | (Some t, m1) \<Rightarrow> (False, Some (upd (\<lambda>_. Str t) u), m1)))"

subsection \<open>Authorities\<close>

text \<open>The lines behind \<open>err\<close>.\<close>

definition auth_err :: "string \<Rightarrow> uri option \<Rightarrow> mem \<Rightarrow> (bool \<times> string \<times> uri option \<times> mem) option" where
  "auth_err line uo m =
     (case uo of None \<Rightarrow> Some (True, line, None, m)
      | Some u \<Rightarrow>
          (case free_strs [userinfo u, host u, path u] m of None \<Rightarrow> None
           | Some m1 \<Rightarrow> Some (True, line, Some (u\<lparr>userinfo := NullP, host := NullP, path := NullP, port := 0\<rparr>), m1)))"

text \<open>The first block: where the host starts, where the scan ended, and whether it failed.\<close>

definition auth_user :: "string \<Rightarrow> uri option \<Rightarrow> mem \<Rightarrow> bool \<times> string \<times> string \<times> uri option \<times> mem" where
  "auth_user line uo m =
     (if peek line = CHR ''['' then (False, line, line, uo, m)
      else
        let line1 = scan authchar line in
        if peek line1 \<noteq> CHR ''@'' then (False, line, line1, uo, m)
        else if length line1 = length line then (True, line, line1, uo, m)
        else case store_part userinfo_update line line1 uo m of
            (True, uo1, m1) \<Rightarrow> (True, line, line1, uo1, m1)
          | (False, uo1, m1) \<Rightarrow>
              let h = tl line1 in
              (False, h, if peek h \<noteq> CHR ''['' then scan hostchar h else h, uo1, m1))"

definition INET6_ADDRSTRLEN :: nat where "INET6_ADDRSTRLEN = 46"

definition litchar :: "string \<Rightarrow> nat" where
  "litchar s = of_bool (isxdigit (peek s) \<or> peek s = CHR ''.'' \<or> peek s = CHR '':'')"

text \<open>The second block: an empty scan must be an address in brackets.\<close>

definition auth_literal :: "(string \<Rightarrow> bool) \<Rightarrow> string \<Rightarrow> string \<Rightarrow> bool \<times> string" where
  "auth_literal inet_pton6 h line =
     (if length line \<noteq> length h then (False, line)
      else if peek line \<noteq> CHR ''['' then (True, line)
      else
        let line1 = scan litchar (tl line); n = length (tl h) - length line1 in
        if peek line1 \<noteq> CHR '']'' \<or> n = 0 then (True, line1)
        else if n \<ge> INET6_ADDRSTRLEN then (True, line1)
        else if \<not> inet_pton6 (take n (tl h)) then (True, line1)
        else (False, tl line1))"

definition parse_uri_authority :: "(string \<Rightarrow> bool) \<Rightarrow> string \<Rightarrow> uri option \<Rightarrow> mem \<Rightarrow> (bool \<times> string \<times> uri option \<times> mem) option" where
  "parse_uri_authority inet_pton6 line uo m =
     (case auth_user line uo m of
        (True, h, line1, uo1, m1) \<Rightarrow> auth_err line1 uo1 m1
      | (False, h, line1, uo1, m1) \<Rightarrow>
          (case auth_literal inet_pton6 h line1 of
             (True, line2) \<Rightarrow> auth_err line2 uo1 m1
           | (False, line2) \<Rightarrow>
               (case store_part host_update h line2 uo1 m1 of
                  (True, uo2, m2) \<Rightarrow> auth_err line2 uo2 m2
                | (False, uo2, m2) \<Rightarrow>
                    if peek line2 = CHR '':'' then
                      (case lex_u (tl line2) (0 :: u16) of
                         (ret, p, rest) \<Rightarrow>
                           if ret \<noteq> 0 then auth_err (tl line2) uo2 m2
                           else Some (False, rest, map_option (\<lambda>u. u\<lparr>port := ucast p\<rparr>) uo2, m2))
                    else Some (False, line2, uo2, m2))))"

subsection \<open>Paths\<close>

definition path_err :: "string \<Rightarrow> uri option \<Rightarrow> mem \<Rightarrow> (bool \<times> string \<times> uri option \<times> mem) option" where
  "path_err line uo m =
     (case uo of None \<Rightarrow> Some (True, line, None, m)
      | Some u \<Rightarrow>
          (case free_strs [path u, fragment u, query u] m of None \<Rightarrow> None
           | Some m1 \<Rightarrow> Some (True, line, Some (u\<lparr>path := NullP, fragment := NullP, query := NullP\<rparr>), m1)))"

definition parse_uri_path :: "string \<Rightarrow> uri option \<Rightarrow> mem \<Rightarrow> (bool \<times> string \<times> uri option \<times> mem) option" where
  "parse_uri_path p uo m =
     (let p1 = scan rfc2396_pchar p in
      case (if length p1 = length p then (False, uo, m) else store_part path_update p p1 uo m) of
        (True, uo1, m1) \<Rightarrow> Some (True, p1, uo1, m1)
      | (False, uo1, m1) \<Rightarrow>
          let p2 = (if peek p1 = CHR ''?'' then scan rfc2396_qchar (tl p1) else p1) in
          (case (if peek p1 = CHR ''?'' then store_part query_update (tl p1) p2 uo1 m1 else (False, uo1, m1)) of
             (True, uo2, m2) \<Rightarrow> path_err p2 uo2 m2
           | (False, uo2, m2) \<Rightarrow>
               let p3 = (if peek p2 = CHR ''#'' then scan rfc2396_pchar (tl p2) else p2) in
               (case (if peek p2 = CHR ''#'' then store_part fragment_update (tl p2) p3 uo2 m2 else (False, uo2, m2)) of
                  (True, uo3, m3) \<Rightarrow> path_err p3 uo3 m3
                | (False, uo3, m3) \<Rightarrow> Some (False, p3, uo3, m3))))"

subsection \<open>URIs\<close>

definition reset_uri :: "uri \<Rightarrow> mem \<Rightarrow> (uri \<times> mem) option" where
  "reset_uri u m =
     (case free_strs [scheme u, host u, userinfo u, path u, query u, fragment u, opaque_part u] m of
        None \<Rightarrow> None | Some m1 \<Rightarrow> Some (zero_uri, m1))"

definition opaquechar :: "string \<Rightarrow> nat" where
  "opaquechar s = of_bool (peek s \<noteq> NUL \<and> \<not> isspace (peek s))"

definition parse_uri_opaque :: "string \<Rightarrow> uri option \<Rightarrow> mem \<Rightarrow> bool \<times> string \<times> uri option \<times> mem" where
  "parse_uri_opaque line uo m =
     (let u = scan opaquechar line in
      case store_part opaque_part_update line u uo m of
        (True, uo1, m1) \<Rightarrow> (True, line, uo1, m1)
      | (False, uo1, m1) \<Rightarrow> (False, u, uo1, m1))"

definition schemechar :: "string \<Rightarrow> nat" where
  "schemechar s = of_bool (isalnum (peek s) \<or> peek s = CHR ''-'')"

text \<open>The lines behind \<open>err\<close>; the caller's position stays.\<close>

definition uri_err :: "string \<Rightarrow> uri option \<Rightarrow> mem \<Rightarrow> (bool \<times> string \<times> uri option \<times> mem) option" where
  "uri_err line uo m =
     (case uo of None \<Rightarrow> Some (True, line, None, m)
      | Some u \<Rightarrow> map_option (\<lambda>(u1, m1). (True, line, Some u1, m1)) (reset_uri u m))"

text \<open>The part up to the colon: what follows it, or the start again when there is no scheme.\<close>

definition uri_scheme :: "string option \<Rightarrow> string \<Rightarrow> uri option \<Rightarrow> mem \<Rightarrow> bool \<times> string \<times> uri option \<times> mem" where
  "uri_scheme sch start uo m =
     (let u = scan schemechar start in
      if length u \<noteq> length start \<and> peek u = CHR '':'' then
        if (case sch of None \<Rightarrow> False | Some k \<Rightarrow> \<not> casepfx start k) then (True, u, uo, m)
        else case store_part scheme_update start u uo m of
            (True, uo1, m1) \<Rightarrow> (True, u, uo1, m1)
          | (False, uo1, m1) \<Rightarrow> (False, tl u, uo1, m1)
      else (False, start, map_option (\<lambda>v. v\<lparr>scheme := NullP\<rparr>) uo, m))"

definition extract_uri_internal ::
  "(string \<Rightarrow> bool) \<Rightarrow> string option \<Rightarrow> string \<Rightarrow> uri option \<Rightarrow> mem \<Rightarrow> (bool \<times> string \<times> uri option \<times> mem) option" where
  "extract_uri_internal inet_pton6 sch line uo m =
     (let start = drop (parse_whitespace line) line in
      case uri_scheme sch start (map_option (\<lambda>_. zero_uri) uo) m of
        (True, u, uo1, m1) \<Rightarrow> uri_err line uo1 m1
      | (False, u, uo1, m1) \<Rightarrow>
          if peek u = CHR ''/'' then
            (case (if peek (tl u) = CHR ''/'' then parse_uri_authority inet_pton6 (drop 2 u) uo1 m1 else Some (False, u, uo1, m1)) of
               None \<Rightarrow> None
             | Some (True, u2, uo2, m2) \<Rightarrow> uri_err line uo2 m2
             | Some (False, u2, uo2, m2) \<Rightarrow>
                 (case parse_uri_path u2 uo2 m2 of
                    None \<Rightarrow> None
                  | Some (True, u3, uo3, m3) \<Rightarrow> uri_err line uo3 m3
                  | Some (False, u3, uo3, m3) \<Rightarrow> Some (False, u3, uo3, m3)))
          else
            (case parse_uri_opaque u uo1 m1 of
               (True, u2, uo2, m2) \<Rightarrow> uri_err line uo2 m2
             | (False, u2, uo2, m2) \<Rightarrow> Some (False, u2, uo2, m2)))"

definition parse_uri :: "(string \<Rightarrow> bool) \<Rightarrow> string option \<Rightarrow> string \<Rightarrow> mem \<Rightarrow> (bool \<times> string \<times> mem) option" where
  "parse_uri inet_pton6 sch line m =
     map_option (\<lambda>(e, rest, _, m1). (e, rest, m1)) (extract_uri_internal inet_pton6 sch line None m)"

definition parse_connect_uri :: "(string \<Rightarrow> bool) \<Rightarrow> string \<Rightarrow> mem \<Rightarrow> (bool \<times> string \<times> mem) option" where
  "parse_connect_uri inet_pton6 line m =
     map_option (\<lambda>(e, rest, _, m1). (e, rest, m1)) (parse_uri_authority inet_pton6 line None m)"

definition free_uri :: "uri option \<Rightarrow> mem \<Rightarrow> mem option" where
  "free_uri uo m =
     (case uo of None \<Rightarrow> Some m | Some u \<Rightarrow> map_option (\<lambda>(_, m1). Free True m1) (reset_uri u m))"

text \<open>\<open>sizeof (uri)\<close> is 64; \<open>raw\<close> is what the new block holds.\<close>

definition extract_uri ::
  "(string \<Rightarrow> bool) \<Rightarrow> uri \<Rightarrow> string option \<Rightarrow> string \<Rightarrow> mem \<Rightarrow> (uri option \<times> string \<times> mem) option" where
  "extract_uri inet_pton6 raw sch line m =
     (case Malloc 64 m of
        (False, m1) \<Rightarrow> Some (None, line, m1)
      | (True, m1) \<Rightarrow>
          (case extract_uri_internal inet_pton6 sch line (Some raw) m1 of
             None \<Rightarrow> None
           | Some (True, rest, uo, m2) \<Rightarrow> map_option (\<lambda>m3. (None, rest, m3)) (free_uri uo m2)
           | Some (False, rest, uo, m2) \<Rightarrow> Some (uo, rest, m2)))"

definition extract_connect_uri ::
  "(string \<Rightarrow> bool) \<Rightarrow> uri \<Rightarrow> string \<Rightarrow> mem \<Rightarrow> (uri option \<times> string \<times> mem) option" where
  "extract_connect_uri inet_pton6 raw line m =
     (case Malloc 64 m of
        (False, m1) \<Rightarrow> Some (None, line, m1)
      | (True, m1) \<Rightarrow>
          (case parse_uri_authority inet_pton6 line (Some raw) m1 of
             None \<Rightarrow> None
           | Some (True, rest, uo, m2) \<Rightarrow> map_option (\<lambda>m3. (None, rest, m3)) (free_uri uo m2)
           | Some (False, rest, uo, m2) \<Rightarrow> Some (uo, rest, m2)))"

text \<open>The loopback address and the port in network order.\<close>

definition uri_to_inetaddr :: "uri \<Rightarrow> u16 \<Rightarrow> sockaddr_in" where
  "uri_to_inetaddr u defport =
     (let p = (ucast (port u) :: u16)
      in \<lparr>s_addr = htonl 0x7F000001, sin_port = htons (if p = 0 then defport else p)\<rparr>)"

definition set_uri_scheme :: "uri \<Rightarrow> string option \<Rightarrow> mem \<Rightarrow> (bool \<times> uri \<times> mem) option" where
  "set_uri_scheme u s m =
     (case Strdup s m of
        (None, m1) \<Rightarrow> Some (True, u, m1)
      | (Some t, m1) \<Rightarrow> map_option (\<lambda>m2. (False, u\<lparr>scheme := Str t\<rparr>, m2)) (free_str (scheme u) m1))"

definition set_uri_host :: "uri \<Rightarrow> string option \<Rightarrow> mem \<Rightarrow> (bool \<times> uri \<times> mem) option" where
  "set_uri_host u h m =
     (case Strdup h m of
        (None, m1) \<Rightarrow> Some (True, u, m1)
      | (Some t, m1) \<Rightarrow> map_option (\<lambda>m2. (False, u\<lparr>host := Str t\<rparr>, m2)) (free_str (host u) m1))"

definition uri_has_authority_section :: "uri \<Rightarrow> bool" where
  "uri_has_authority_section u \<longleftrightarrow> host u \<noteq> NullP \<or> userinfo u \<noteq> NullP \<or> port u \<noteq> 0"

text \<open>\<open>if (p && printUString (us, "<pre>%s<post>", p) < 0) return -1\<close>, in order.\<close>

fun print_parts :: "(string \<times> uriptr \<times> string) list \<Rightarrow> ustring \<Rightarrow> mem \<Rightarrow> (bool \<times> ustring \<times> mem) option" where
  "print_parts [] us m = Some (False, us, m)"
| "print_parts ((pre, NullP, post) # ps) us m = print_parts ps us m"
| "print_parts ((pre, Wild, post) # ps) us m = None"
| "print_parts ((pre, Str s, post) # ps) us m =
     (case print_step (pre @ s @ post) us m of
        (True, us1, m1) \<Rightarrow> Some (True, us1, m1)
      | (False, us1, m1) \<Rightarrow> print_parts ps us1 m1)"

definition uri_parts :: "uri \<Rightarrow> (string \<times> uriptr \<times> string) list" where
  "uri_parts u =
     ([], scheme u, '':'') #
     (if opaque_part u \<noteq> NullP then [([], opaque_part u, [])]
      else
        (if uri_has_authority_section u then
           [(''//'', Str [], []), ([], userinfo u, ''@''), ([], host u, []),
            ('':'', if port u \<noteq> 0 then Str (dec (unat (ucast (port u) :: u16))) else NullP, [])]
         else []) @
        [([], path u, []), (''?'', query u, []), (''#'', fragment u, [])])"

definition stringize_uri :: "ustring \<Rightarrow> uri \<Rightarrow> mem \<Rightarrow> (bool \<times> ustring \<times> mem) option" where
  "stringize_uri us u m = print_parts (uri_parts u) us m"

subsection \<open>Scanning\<close>

text \<open>
  What the loops need of a class: a match does not depend on what follows it, lies inside the
  text and holds no NUL.
\<close>

locale char_class =
  fixes f :: "string \<Rightarrow> nat"
  assumes grows: "f s \<noteq> 0 \<Longrightarrow> f (s @ r) = f s"
    and local: "f s \<noteq> 0 \<Longrightarrow> f s \<le> n \<Longrightarrow> f (take n s) = f s"
    and inside: "f s \<le> length s"
    and no_NUL: "cstr (take (f s) s)"
begin

lemma class_empty [simp]: "f [] = 0"
  using inside [of "[]"] by simp

lemma scan_none: "f s = 0 \<Longrightarrow> scan f s = s"
  by (simp add: scan.simps)

lemma scan_empty [simp]: "scan f [] = []"
  by (simp add: scan.simps)

lemma scan_step: "f s \<noteq> 0 \<Longrightarrow> scan f s = scan f (drop (f s) s)"
  by (subst scan.simps) auto

lemma scan_append: "scan f p = [] \<Longrightarrow> f r = 0 \<Longrightarrow> scan f (p @ r) = r"
proof (induction "length p" arbitrary: p rule: less_induct)
  case less
  show ?case
  proof (cases "p = []")
    case False
    with less.prems have fp: "f p \<noteq> 0" using scan_none by metis
    then have "scan f (drop (f p) p @ r) = r" using less.prems scan_step [OF fp] False by (intro less.hyps) auto
    with fp grows [OF fp] inside [of p] show ?thesis by (simp add: scan_step)
  qed (use less.prems in \<open>simp add: scan_none\<close>)
qed

lemma scan_splits: obtains p where "s = p @ scan f s" "scan f p = []" "f (scan f s) = 0" "cstr p"
proof -
  have "\<exists>p. s = p @ scan f s \<and> scan f p = [] \<and> f (scan f s) = 0 \<and> cstr p"
  proof (induction "length s" arbitrary: s rule: less_induct)
    case less
    show ?case
    proof (cases "f s = 0")
      case True
      then show ?thesis by (simp add: scan_none)
    next
      case False
      then have "s \<noteq> []" by auto
      with False have "length (drop (f s) s) < length s" by auto
      from less.hyps [OF this] obtain p where p: "drop (f s) s = p @ scan f (drop (f s) s)" "scan f p = []"
        "f (scan f (drop (f s) s)) = 0" "cstr p" by blast
      have st: "s = (take (f s) s @ p) @ scan f s" using p(1) scan_step [OF False] by (metis append_assoc append_take_drop_id)
      then have tk: "take (f s + length p) s = take (f s) s @ p"
        by (metis append_eq_conv_conj inside length_append length_take min.absorb2)
      then have "f (take (f s) s @ p) = f s" using local [OF False, of "f s + length p"] by simp
      then have "scan f (take (f s) s @ p) = []" using False p(2) inside [of s] by (simp add: scan_step)
      with st p(3,4) scan_step [OF False] no_NUL [of s] show ?thesis by (metis cstr_simps(3))
    qed
  qed
  with that show ?thesis by blast
qed

lemma scan_le: "length (scan f s) \<le> length s"
  using scan_splits [of s] by (metis le_add2 length_append)

lemma scan_same: "length (scan f s) = length s \<longleftrightarrow> f s = 0"
proof
  assume "length (scan f s) = length s"
  moreover obtain p where "s = p @ scan f s" "f (scan f s) = 0" using scan_splits [of s] by metis
  ultimately show "f s = 0" by (metis append_Nil add_cancel_left_left length_0_conv length_append)
qed (simp add: scan_none)

lemma scan_cstr: "scan f p = [] \<Longrightarrow> cstr p"
  using scan_splits [of p] by (metis append_Nil2)

end

lemma peek_Cons: "peek s = c \<Longrightarrow> c \<noteq> NUL \<Longrightarrow> \<exists>t. s = c # t"
  by (cases s) auto

lemma escape_cases:
  assumes "rfc2396_escape_sequence s \<noteq> 0"
  obtains (wide) a b c d t where "s = CHR ''%'' # CHR ''u'' # a # b # c # d # t" "isxdigit a" "isxdigit b" "isxdigit c" "isxdigit d"
  | (narrow) a b t where "s = CHR ''%'' # a # b # t" "a \<noteq> CHR ''u''" "isxdigit a" "isxdigit b"
proof -
  have nx: "isxdigit c \<Longrightarrow> c \<noteq> NUL" for c by auto
  have "CHR ''%'' \<noteq> NUL" "CHR ''u'' \<noteq> NUL" by (simp_all add: NUL_def)
  then obtain t where s: "s = CHR ''%'' # t" using assms peek_Cons by (fastforce simp: rfc2396_escape_sequence_def split: if_splits)
  show thesis
  proof (cases "peek t = CHR ''u''")
    case True
    with \<open>CHR ''u'' \<noteq> NUL\<close> obtain t1 where t1: "t = CHR ''u'' # t1" using peek_Cons by blast
    with assms s have x: "isxdigit (peek t1)" "isxdigit (peek (drop 1 t1))" "isxdigit (peek (drop 2 t1))" "isxdigit (peek (drop 3 t1))"
      by (auto simp: rfc2396_escape_sequence_def numeral_eq_Suc split: if_splits)
    from x(1) obtain a t2 where "t1 = a # t2" using nx peek_Cons by blast
    moreover from this x(2) obtain b t3 where "t2 = b # t3" using nx peek_Cons by fastforce
    moreover from calculation x(3) obtain c t4 where "t3 = c # t4" using nx peek_Cons by fastforce
    moreover from calculation x(4) obtain d t5 where "t4 = d # t5" using nx peek_Cons by (fastforce simp: numeral_eq_Suc)
    ultimately show thesis using wide x s t1 by (auto simp: numeral_eq_Suc)
  next
    case False
    with assms s have x: "isxdigit (peek t)" "isxdigit (peek (drop 1 t))"
      by (auto simp: rfc2396_escape_sequence_def numeral_eq_Suc split: if_splits)
    from x(1) obtain a t2 where "t = a # t2" using nx peek_Cons by blast
    moreover from this x(2) obtain b t3 where "t2 = b # t3" using nx peek_Cons by fastforce
    ultimately show thesis using narrow x s False by auto
  qed
qed

lemma escape_percent: "rfc2396_escape_sequence s \<noteq> 0 \<Longrightarrow> peek s = CHR ''%''"
  by (simp add: rfc2396_escape_sequence_def split: if_splits)

lemma escape_class: "char_class rfc2396_escape_sequence"
proof
  have nx: "isxdigit c \<Longrightarrow> c \<noteq> NUL" for c by auto
  fix s r and n :: nat
  show "rfc2396_escape_sequence s \<noteq> 0 \<Longrightarrow> rfc2396_escape_sequence (s @ r) = rfc2396_escape_sequence s"
    by (erule escape_cases) (auto simp: rfc2396_escape_sequence_def numeral_eq_Suc)
  show "rfc2396_escape_sequence (take n s) = rfc2396_escape_sequence s"
    if z: "rfc2396_escape_sequence s \<noteq> 0" "rfc2396_escape_sequence s \<le> n"
    using z(1)
  proof (cases rule: escape_cases)
    case (wide a b c d t)
    then have "6 \<le> n" using z(2) by (simp add: rfc2396_escape_sequence_def numeral_eq_Suc)
    then obtain k where "n = Suc (Suc (Suc (Suc (Suc (Suc k)))))" using le_Suc_ex [of 6 n] by (auto simp: numeral_eq_Suc)
    with wide show ?thesis by (simp add: rfc2396_escape_sequence_def numeral_eq_Suc)
  next
    case (narrow a b t)
    then have "3 \<le> n" using z(2) by (simp add: rfc2396_escape_sequence_def numeral_eq_Suc)
    then obtain k where "n = Suc (Suc (Suc k))" using le_Suc_ex [of 3 n] by (auto simp: numeral_eq_Suc)
    with narrow show ?thesis by (simp add: rfc2396_escape_sequence_def numeral_eq_Suc)
  qed
  have "rfc2396_escape_sequence s \<le> length s \<and> cstr (take (rfc2396_escape_sequence s) s)"
  proof (cases "rfc2396_escape_sequence s = 0")
    case False
    then show ?thesis
      by (cases rule: escape_cases) (use nx in \<open>auto simp: rfc2396_escape_sequence_def numeral_eq_Suc NUL_def\<close>)
  qed simp
  then show "rfc2396_escape_sequence s \<le> length s" "cstr (take (rfc2396_escape_sequence s) s)" by simp_all
qed

text \<open>Every class of the code: single characters, and escape sequences in some.\<close>

lemma char_class_intro:
  assumes f: "\<And>s. f s = (if P (peek s) then 1 else if e then rfc2396_escape_sequence s else 0)"
    and P: "\<not> P NUL" "e \<longrightarrow> \<not> P CHR ''%''"
  shows "char_class f"
proof -
  note grows = char_class.grows [OF escape_class] and local = char_class.local [OF escape_class]
    and inside = char_class.inside [OF escape_class] and no_NUL = char_class.no_NUL [OF escape_class]
  have [simp]: "rfc2396_escape_sequence [] = 0" using inside [of "[]"] by simp
  show ?thesis
  proof
    fix s r and n :: nat
    have one: "s \<noteq> [] \<and> peek s = hd s" if "P (peek s)" using that P(1) by (cases s) auto
    show "f s \<noteq> 0 \<Longrightarrow> f (s @ r) = f s"
      using grows [of s r] one by (cases s) (auto simp: f split: if_splits)
    show "f s \<noteq> 0 \<Longrightarrow> f s \<le> n \<Longrightarrow> f (take n s) = f s"
      using local [of s n] one by (cases s; cases n) (auto simp: f split: if_splits)
    show "f s \<le> length s"
      using inside [of s] one by (cases s) (auto simp: f split: if_splits)
    show "cstr (take (f s) s)"
      using no_NUL [of s] one P(1) by (cases s) (auto simp: f split: if_splits)
  qed
qed

lemmas class_defs = rfc2396_unreserved_char_def rfc2396_unwise_char_def rfc2396_reserved_char_def ctype_simps ccode_def NUL_def

interpretation pc: char_class rfc2396_pchar
proof (rule char_class_intro [where e = True and P = "\<lambda>c. rfc2396_unreserved_char c \<or> rfc2396_unwise_char c \<or> c \<in> set ''/:@&=+$,;''"], goal_cases)
  case (1 s)
  define Q where "Q \<longleftrightarrow> peek s \<in> set ''/:@&=+$,;''"
  define R where "R \<longleftrightarrow> rfc2396_unreserved_char (peek s) \<or> rfc2396_unwise_char (peek s)"
  have "\<not> Q \<and> \<not> R" if "rfc2396_escape_sequence s \<noteq> 0"
    unfolding Q_def R_def escape_percent [OF that] by (simp add: class_defs)
  moreover have "rfc2396_pchar s = (if R then 1 else if rfc2396_escape_sequence s \<noteq> 0 then rfc2396_escape_sequence s else of_bool Q)"
    by (simp only: rfc2396_pchar_def R_def Q_def)
  ultimately have "rfc2396_pchar s = (if R \<or> Q then 1 else rfc2396_escape_sequence s)" by auto
  then show ?case by (simp only: R_def Q_def if_True disj_assoc)
qed (simp_all add: class_defs)

interpretation qc: char_class rfc2396_qchar
proof (rule char_class_intro [where e = True and P = "\<lambda>c. rfc2396_unreserved_char c \<or> rfc2396_reserved_char c \<or> rfc2396_unwise_char c"], goal_cases)
  case (1 s)
  have "\<not> (rfc2396_unreserved_char CHR ''%'' \<or> rfc2396_reserved_char CHR ''%'' \<or> rfc2396_unwise_char CHR ''%'')" by (simp add: class_defs)
  then show ?case using escape_percent [of s] by (auto simp: rfc2396_qchar_def)
qed (simp_all add: class_defs)

interpretation hc: char_class hostchar
  by (rule char_class_intro [where e = True and P = rfc2396_unreserved_char])
    (simp add: hostchar_def, simp add: class_defs, simp add: class_defs)

interpretation ac: char_class authchar
proof (rule char_class_intro [where e = True and P = "\<lambda>c. rfc2396_unreserved_char c \<or> c = CHR '':''"], goal_cases)
  case (1 s)
  then show ?case using escape_percent [of s] by (auto simp: authchar_def hostchar_def)
qed (simp_all add: class_defs)

interpretation lc: char_class litchar
  by (rule char_class_intro [where e = False and P = "\<lambda>c. isxdigit c \<or> c = CHR ''.'' \<or> c = CHR '':''"])
    (simp add: litchar_def, simp add: class_defs, simp)

interpretation oc: char_class opaquechar
  by (rule char_class_intro [where e = False and P = "\<lambda>c. c \<noteq> NUL \<and> \<not> isspace c"]) (simp_all add: opaquechar_def)

interpretation sc: char_class schemechar
  by (rule char_class_intro [where e = False and P = "\<lambda>c. isalnum c \<or> c = CHR ''-''"])
    (simp add: schemechar_def, simp add: class_defs, simp)

text \<open>Where a text may end without running into what follows.\<close>

definition uri_end :: "string \<Rightarrow> bool" where
  "uri_end s \<longleftrightarrow> peek s = NUL \<or> isspace (peek s)"

lemma space_not_class:
  assumes "peek s = NUL \<or> isspace (peek s)"
  shows "\<not> rfc2396_unreserved_char (peek s)" "\<not> rfc2396_reserved_char (peek s)" "\<not> rfc2396_unwise_char (peek s)"
    "rfc2396_escape_sequence s = 0" "peek s \<notin> set ''/?:@&=+$,;#''" "\<not> isalnum (peek s)"
proof -
  show "\<not> rfc2396_unreserved_char (peek s)" "\<not> rfc2396_reserved_char (peek s)" "\<not> rfc2396_unwise_char (peek s)"
    "peek s \<notin> set ''/?:@&=+$,;#''" "\<not> isalnum (peek s)" using assms by (auto simp: class_defs)
  have "\<not> isspace CHR ''%''" "CHR ''%'' \<noteq> NUL" by (simp_all add: class_defs)
  with assms show "rfc2396_escape_sequence s = 0" using escape_percent by metis
qed

lemma classes_end:
  "peek s = NUL \<or> isspace (peek s) \<Longrightarrow> rfc2396_pchar s = 0 \<and> rfc2396_qchar s = 0 \<and> authchar s = 0 \<and> hostchar s = 0 \<and> opaquechar s = 0"
  using space_not_class [of s] by (auto simp: rfc2396_pchar_def rfc2396_qchar_def authchar_def hostchar_def opaquechar_def)

lemma classes_delim:
  "peek s \<in> set ''/?#@'' \<Longrightarrow> authchar s = 0 \<and> hostchar s = 0"
  "peek s = CHR '':'' \<Longrightarrow> hostchar s = 0 \<and> schemechar s = 0"
  "peek s = CHR '']'' \<Longrightarrow> litchar s = 0"
  "peek s \<in> set ''?#'' \<Longrightarrow> rfc2396_pchar s = 0"
  "peek s = CHR ''#'' \<Longrightarrow> rfc2396_qchar s = 0"
proof -
  have h: "hostchar s = 0" if "peek s \<in> set ''/?#@:''"
    using that by (simp, elim disjE) (simp_all add: hostchar_def rfc2396_escape_sequence_def class_defs)
  then show "peek s \<in> set ''/?#@'' \<Longrightarrow> authchar s = 0 \<and> hostchar s = 0" by (auto simp: authchar_def)
  show "peek s = CHR '':'' \<Longrightarrow> hostchar s = 0 \<and> schemechar s = 0" using h by (simp add: schemechar_def class_defs)
  show "peek s = CHR '']'' \<Longrightarrow> litchar s = 0" by (simp add: litchar_def class_defs)
  show "peek s \<in> set ''?#'' \<Longrightarrow> rfc2396_pchar s = 0"
    by (simp, elim disjE) (simp_all add: rfc2396_pchar_def rfc2396_escape_sequence_def class_defs)
  show "peek s = CHR ''#'' \<Longrightarrow> rfc2396_qchar s = 0"
    by (simp add: rfc2396_qchar_def rfc2396_escape_sequence_def class_defs)
qed

subsection \<open>One part\<close>

lemma take_cpart: "cstr p \<Longrightarrow> take (length p) (cpart (p @ t)) = p"
  by (induction p) (simp_all add: cpart_def)

lemma store_part_some:
  assumes "cstr p"
  obtains (failed) m1 where "store_part upd (p @ t) t (Some u) m = (True, Some (upd (\<lambda>_. NullP) u), m1)"
      "allocs_used m1 = allocs_used m" "\<not> plentiful m"
  | (stored) m1 where "store_part upd (p @ t) t (Some u) m = (False, Some (upd (\<lambda>_. Str p) u), m1)"
      "allocs_used m1 = allocs_used m + 1" "plentiful m \<longrightarrow> plentiful m1"
proof -
  obtain ok m1 where M: "Malloc (length p + 1) m = (ok, m1)" by (cases "Malloc (length p + 1) m")
  have st: "store_part upd (p @ t) t (Some u) m = (if ok then (False, Some (upd (\<lambda>_. Str p) u), m1) else (True, Some (upd (\<lambda>_. NullP) u), m1))"
    using M take_cpart [OF assms, of t] by (simp add: store_part_def Strndup_def Let_def)
  show thesis
    using Malloc_plentiful [of m "length p + 1"] Malloc_used [OF M] M st failed stored by (cases ok) auto
qed

lemma store_part_none [simp]: "store_part upd from to None m = (False, None, m)"
  by (simp add: store_part_def)

subsection \<open>Authorities, read and printed\<close>

definition literal :: "(string \<Rightarrow> bool) \<Rightarrow> string \<Rightarrow> bool" where
  "literal v6 h \<longleftrightarrow> (\<exists>a. h = CHR ''['' # a @ '']'' \<and> a \<noteq> [] \<and> scan litchar a = [] \<and> length a < INET6_ADDRSTRLEN \<and> v6 a)"

definition ui_ok :: "uriptr \<Rightarrow> bool" where
  "ui_ok ui \<longleftrightarrow> ui = NullP \<or> (\<exists>s. ui = Str s \<and> s \<noteq> [] \<and> scan authchar s = [])"

definition auth_ok :: "(string \<Rightarrow> bool) \<Rightarrow> uriptr \<Rightarrow> string \<Rightarrow> u16 \<Rightarrow> bool" where
  "auth_ok v6 ui h p \<longleftrightarrow> ui_ok ui \<and>
     (literal v6 h \<or> h \<noteq> [] \<and> (if ui = NullP then scan authchar h = [] \<and> p = 0 else scan hostchar h = []))"

abbreviation live_part :: "uriptr \<Rightarrow> int" where
  "live_part p \<equiv> of_bool (p \<noteq> NullP)"

fun part_text :: "string \<times> uriptr \<times> string \<Rightarrow> string" where
  "part_text (pre, Str s, post) = pre @ s @ post"
| "part_text (pre, _, post) = []"

lemma not_bracket: "authchar s \<noteq> 0 \<Longrightarrow> peek s \<noteq> CHR ''[''" "hostchar s \<noteq> 0 \<Longrightarrow> peek s \<noteq> CHR ''[''"
proof -
  have "hostchar s = 0 \<and> authchar s = 0" if "peek s = CHR ''[''"
    using that by (simp add: hostchar_def authchar_def rfc2396_escape_sequence_def class_defs)
  then show "authchar s \<noteq> 0 \<Longrightarrow> peek s \<noteq> CHR ''[''" "hostchar s \<noteq> 0 \<Longrightarrow> peek s \<noteq> CHR ''[''" by auto
qed

lemma scanned_peek:
  "scan authchar p = [] \<Longrightarrow> p \<noteq> [] \<Longrightarrow> peek (p @ t) \<noteq> CHR ''[''" "scan hostchar p = [] \<Longrightarrow> p \<noteq> [] \<Longrightarrow> peek (p @ t) \<noteq> CHR ''[''"
  using not_bracket [of p] ac.scan_none [of p] hc.scan_none [of p] by (cases p; force)+

lemma auth_user_text:
  assumes ui: "ui_ok ui" and u: "userinfo u = NullP" and m: "plentiful m"
    and h: "peek h = CHR ''['' \<and> t = h \<or> h = n @ t \<and> n \<noteq> [] \<and>
      (if ui = NullP then scan authchar n = [] \<and> authchar t = 0 \<and> peek t \<noteq> CHR ''@'' else scan hostchar n = [] \<and> hostchar t = 0)"
  shows "\<exists>m'. auth_user (part_text ([], ui, ''@'') @ h) (Some u) m = (False, h, t, Some (u\<lparr>userinfo := ui\<rparr>), m') \<and> plentiful m'"
proof (cases "ui = NullP")
  case True
  with u have "u\<lparr>userinfo := ui\<rparr> = u" by simp
  with h True m show ?thesis
    using scanned_peek(1) [of n t] ac.scan_append [of n t] by (auto simp: auth_user_def Let_def)
next
  case False
  with ui obtain s where s: "ui = Str s" "s \<noteq> []" "scan authchar s = []" by (auto simp: ui_ok_def)
  have sc: "scan authchar (s @ CHR ''@'' # h) = CHR ''@'' # h" using s(3) classes_delim(1) by (intro ac.scan_append) simp_all
  obtain m1 where st: "store_part userinfo_update (s @ CHR ''@'' # h) (CHR ''@'' # h) (Some u) m = (False, Some (u\<lparr>userinfo := ui\<rparr>), m1)" "plentiful m1"
    using store_part_some [OF ac.scan_cstr [OF s(3)], of userinfo_update "CHR ''@'' # h" u m thesis] m s(1) by auto
  have "(if peek h \<noteq> CHR ''['' then scan hostchar h else h) = t"
    using h False scanned_peek(2) [of n t] hc.scan_append [of n t] by auto
  with s sc st scanned_peek(1) [OF s(3,2)] show ?thesis by (simp add: auth_user_def Let_def)
qed

lemma auth_user_spec:
  assumes u: "userinfo u = NullP" and r: "auth_user line (Some u) m = (e, h, line1, uo, m1)"
  obtains (failed) "e" "uo = Some u" "allocs_used m1 = allocs_used m" "\<exists>q. line = q @ line1"
  | (read) ui n where "\<not> e" "uo = Some (u\<lparr>userinfo := ui\<rparr>)" "ui_ok ui" "allocs_used m1 = allocs_used m + live_part ui"
      "\<exists>q. line = q @ h" "h = n @ line1" "scan (if ui = NullP then authchar else hostchar) n = []"
      "ui = NullP \<and> n \<noteq> [] \<longrightarrow> authchar line1 = 0"
proof (cases "peek line = CHR ''['' \<or> peek (scan authchar line) \<noteq> CHR ''@''")
  case True
  obtain q where "line = q @ scan authchar line" "scan authchar q = []" "authchar (scan authchar line) = 0"
    using ac.scan_splits [of line] by metis
  moreover have "u\<lparr>userinfo := NullP\<rparr> = u" using u by simp
  ultimately show thesis
    using True r read [of NullP q] read [of NullP "[]"] by (auto simp: auth_user_def Let_def ui_ok_def split: if_splits)
next
  case False
  obtain s where s: "line = s @ scan authchar line" "scan authchar s = []" "cstr s" using ac.scan_splits [of line] by metis
  from False obtain h1 where h1: "scan authchar line = CHR ''@'' # h1" using peek_Cons [of "scan authchar line"] by (auto simp: NUL_def)
  show thesis
  proof (cases "s = []")
    case True
    with False s(1) r have "e" "uo = Some u" "m1 = m" "line1 = scan authchar line" by (auto simp: auth_user_def Let_def)
    with failed s(1) show thesis by blast
  next
    case s0: False
    then have ln: "length (scan authchar line) \<noteq> length line" using s(1) by (metis add_cancel_left_left length_0_conv length_append)
    from s(3) show thesis
    proof (cases rule: store_part_some [where upd = userinfo_update and u = u and m = m and t = "scan authchar line"])
      case (failed m2)
      have "u\<lparr>userinfo := NullP\<rparr> = u" using u by simp
      moreover have "store_part userinfo_update line (scan authchar line) (Some u) m = (True, Some (u\<lparr>userinfo := NullP\<rparr>), m2)"
        using failed(1) s(1) by simp
      ultimately show thesis using that(1) r False ln failed(2) s(1) by (auto simp: auth_user_def Let_def)
    next
      case (stored m2)
      have "store_part userinfo_update line (scan authchar line) (Some u) m = (False, Some (u\<lparr>userinfo := Str s\<rparr>), m2)"
        using stored(1) s(1) by simp
      then have x: "\<not> e" "uo = Some (u\<lparr>userinfo := Str s\<rparr>)" "m1 = m2" "h = h1" "line1 = (if peek h1 \<noteq> CHR ''['' then scan hostchar h1 else h1)"
        using r False ln h1 by (auto simp: auth_user_def Let_def)
      obtain n where n: "h1 = n @ line1" "scan hostchar n = []"
        using hc.scan_splits [of h1] x(5) by (metis append_Nil hc.scan_empty)
      have "line = (s @ ''@'') @ h" using s(1) h1 x(4) by simp
      then have "\<exists>q. line = q @ h" by blast
      then show thesis
        using x(1-3) n s0 s(2) stored(2) x(4) by (intro read [of "Str s" n]) (simp_all add: ui_ok_def)
    qed
  qed
qed

lemma auth_literal_text:
  assumes "literal v6 h"
  shows "auth_literal v6 (h @ t) (h @ t) = (False, t)"
proof -
  obtain a where a: "h = CHR ''['' # a @ '']''" "a \<noteq> []" "scan litchar a = []" "length a < INET6_ADDRSTRLEN" "v6 a"
    using assms by (auto simp: literal_def)
  have "scan litchar (a @ CHR '']'' # t) = CHR '']'' # t" using a(3) classes_delim(3) by (intro lc.scan_append) simp_all
  with a show ?thesis by (simp add: auth_literal_def Let_def)
qed

lemma auth_literal_spec:
  assumes "auth_literal v6 (n @ line1) line1 = (e, line2)"
  shows "\<exists>h. n @ line1 = h @ line2 \<and> (\<not> e \<longrightarrow> n \<noteq> [] \<and> h = n \<or> literal v6 h)"
proof (cases "n \<noteq> [] \<or> peek line1 \<noteq> CHR ''[''")
  case True
  with assms have "line2 = line1 \<and> (e \<longrightarrow> n = []) \<and> (\<not> e \<longrightarrow> n \<noteq> [])" by (auto simp: auth_literal_def split: if_splits)
  then show ?thesis by blast
next
  case False
  then obtain t where t: "line1 = CHR ''['' # t" using peek_Cons [of line1] by (auto simp: NUL_def)
  obtain a where a: "t = a @ scan litchar t" "scan litchar a = []" using lc.scan_splits [of t] by metis
  have la: "length t - length (scan litchar t) = length a" using a(1) by (metis add_diff_cancel_right' length_append)
  have ta: "take (length a) t = a" using a(1) by (metis append_eq_conv_conj)
  have nl: "n = []" using False by simp
  show ?thesis
  proof (cases e)
    case True
    with assms t nl have "line2 = scan litchar t" by (auto simp: auth_literal_def Let_def split: if_splits)
    with t a(1) nl True show ?thesis by (metis append_Cons append_Nil)
  next
    case e: False
    with assms t nl la ta have x: "peek (scan litchar t) = CHR '']''" "a \<noteq> []" "length a < INET6_ADDRSTRLEN" "v6 a" "line2 = tl (scan litchar t)"
      by (auto simp: auth_literal_def Let_def split: if_splits)
    then have "scan litchar t = CHR '']'' # line2" using peek_Cons [of "scan litchar t"] by (auto simp: NUL_def)
    then have "n @ line1 = (CHR ''['' # a @ '']'') @ line2" using a(1) t nl by simp
    moreover have "literal v6 (CHR ''['' # a @ '']'')" using x(2-4) a(2) unfolding literal_def by blast
    ultimately show ?thesis by blast
  qed
qed

lemma free_strs_null [simp]: "free_strs (NullP # ps) m = free_strs ps m"
  by simp

lemma authority_spec:
  assumes u: "userinfo u = NullP" "host u = NullP" "path u = NullP" "port u = 0"
  shows "\<exists>e rest u' m'. parse_uri_authority v6 line (Some u) m = Some (e, rest, Some u', m') \<and> (\<exists>q. line = q @ rest) \<and>
    (if e then u' = u \<and> allocs_used m' = allocs_used m
     else \<exists>ui h p. u' = u\<lparr>userinfo := ui, host := Str h, port := ucast (p :: u16)\<rparr> \<and> auth_ok v6 ui h p \<and>
       allocs_used m' = allocs_used m + 1 + live_part ui)"
proof -
  have same: "u\<lparr>userinfo := NullP, host := NullP, path := NullP, port := 0\<rparr> = u" using u by simp
  obtain e1 h line1 uo1 m1 where au: "auth_user line (Some u) m = (e1, h, line1, uo1, m1)" by (cases "auth_user line (Some u) m")
  from u(1) au show ?thesis
  proof (cases rule: auth_user_spec)
    case failed
    then show ?thesis using au u same by (auto simp: parse_uri_authority_def auth_err_def)
  next
    case (read ui n)
    have err: "auth_err l (Some (u\<lparr>userinfo := ui\<rparr>)) m1 = Some (True, l, Some u, Free (ui \<noteq> NullP) m1)" for l
      using read(3) u same by (auto simp: auth_err_def ui_ok_def)
    obtain e2 line2 where al: "auth_literal v6 h line1 = (e2, line2)" by (cases "auth_literal v6 h line1")
    obtain hh where hh: "h = hh @ line2" "\<not> e2 \<longrightarrow> n \<noteq> [] \<and> hh = n \<or> literal v6 hh"
      using auth_literal_spec [of v6 n line1 e2 line2] al read(6) by auto
    obtain q where q: "line = q @ h" using read(5) by blast
    show ?thesis
    proof (cases e2)
      case True
      then show ?thesis using au al err read(1,2,4) q hh(1) by (auto simp: parse_uri_authority_def)
    next
      case False
      with hh(2) consider "n \<noteq> []" "hh = n" | "literal v6 hh" by blast
      then have lit: "literal v6 hh \<or> hh \<noteq> [] \<and> scan (if ui = NullP then authchar else hostchar) hh = []"
        using read(7) by cases auto
      then have "cstr hh"
        using ac.scan_cstr hc.scan_cstr lc.scan_cstr by (auto simp: literal_def NUL_def split: if_splits)
      then show ?thesis
      proof (cases rule: store_part_some [where upd = host_update and u = "u\<lparr>userinfo := ui\<rparr>" and m = m1 and t = line2])
        case (failed m2)
        have e: "auth_err line2 (Some (u\<lparr>userinfo := ui, host := NullP\<rparr>)) m2 = Some (True, line2, Some u, Free (ui \<noteq> NullP) m2)"
          using read(3) u same by (auto simp: auth_err_def ui_ok_def)
        show ?thesis
          using au al e read(1,2,4) q hh(1) False failed(1,2) by (auto simp: parse_uri_authority_def)
      next
        case (stored m2)
        let ?u = "u\<lparr>userinfo := ui, host := Str hh\<rparr>"
        have e: "auth_err l (Some ?u) m2 = Some (True, l, Some u, Free True (Free (ui \<noteq> NullP) m2))" for l
          using read(3) u same by (auto simp: auth_err_def ui_ok_def)
        show ?thesis
        proof (cases "peek line2 = CHR '':''")
          case no: False
          have "parse_uri_authority v6 line (Some u) m = Some (False, line2, Some ?u, m2)"
            using au al read(1,2) hh(1) False stored(1) no by (simp add: parse_uri_authority_def)
          moreover have "?u = u\<lparr>userinfo := ui, host := Str hh, port := ucast (0 :: u16)\<rparr>" using u(4) by simp
          moreover have "auth_ok v6 ui hh 0" using lit read(3) by (auto simp: auth_ok_def)
          ultimately show ?thesis using read(4) stored(2) q hh(1) by auto
        next
          case yes: True
          then obtain t where t: "line2 = CHR '':'' # t" using peek_Cons [of line2] by (auto simp: NUL_def)
          obtain ret p rest where lx: "lex_u t (0 :: u16) = (ret, p, rest)" by (cases "lex_u t (0 :: u16)")
          have ks: "(ret \<noteq> 0 \<longrightarrow> rest = t) \<and> (ret = 0 \<longrightarrow> (\<exists>q. t = q @ rest))" using lex_u_unmolested [of t 0 ret p rest] lx by blast
          have pu: "parse_uri_authority v6 line (Some u) m =
            (if ret \<noteq> 0 then Some (True, t, Some u, Free True (Free (ui \<noteq> NullP) m2))
             else Some (False, rest, Some (?u\<lparr>port := ucast p\<rparr>), m2))"
            using au al read(1,2) hh(1) False stored(1) yes t lx e by (simp add: parse_uri_authority_def)
          show ?thesis
          proof (cases "ret = 0")
            case False
            moreover have "line = (q @ hh @ '':'') @ t" using q hh(1) t by simp
            ultimately show ?thesis using pu read(4) stored(2) by auto
          next
            case True
            then obtain z where "t = z @ rest" using ks by blast
            then have ex: "line = (q @ hh @ '':'' @ z) @ rest" using q hh(1) t by simp
            have "ui \<noteq> NullP \<or> literal v6 hh"
            proof (rule ccontr)
              assume "\<not> ?thesis"
              then have "ui = NullP" "hh = n" "n \<noteq> []" using \<open>\<not> e2\<close> hh(2) by auto
              then have "authchar line2 = 0" using read(6,8) hh(1) by simp
              then show False using yes by (simp add: authchar_def split: if_splits)
            qed
            then have "auth_ok v6 ui hh p" using lit read(3) by (auto simp: auth_ok_def)
            then show ?thesis using pu True ex read(4) stored(2) by auto
          qed
        qed
      qed
    qed
  qed
qed

definition port_part :: "u16 \<Rightarrow> string" where
  "port_part p = (if p = 0 then [] else '':'' @ dec (unat p))"

definition sep :: "string \<Rightarrow> bool" where
  "sep s \<longleftrightarrow> peek s \<in> set ''/?#'' \<or> peek s = NUL \<or> isspace (peek s)"

lemma sep_ends: "sep s \<Longrightarrow> authchar s = 0 \<and> hostchar s = 0 \<and> peek s \<noteq> CHR '':'' \<and> peek s \<noteq> CHR ''@'' \<and>
    (peek s = NUL \<or> ispunct (peek s) \<or> isspace (peek s))"
proof -
  assume "sep s"
  then consider "peek s \<in> set ''/?#''" | "peek s = NUL \<or> isspace (peek s)" by (auto simp: sep_def)
  then show ?thesis
  proof cases
    case 1
    then have "peek s \<noteq> CHR '':'' \<and> peek s \<noteq> CHR ''@'' \<and> ispunct (peek s)" by (simp, elim disjE) (simp_all add: class_defs)
    with 1 classes_delim(1) [of s] show ?thesis by auto
  next
    case 2
    then have "peek s \<noteq> CHR '':'' \<and> peek s \<noteq> CHR ''@''" using space_not_class(5) [of s] by auto
    with 2 classes_end [of s] show ?thesis by blast
  qed
qed

lemma authority_text:
  assumes ok: "auth_ok v6 ui h p" and u: "userinfo u = NullP" "port u = 0" and m: "plentiful m" and r: "sep r"
  shows "\<exists>m'. parse_uri_authority v6 (part_text ([], ui, ''@'') @ h @ port_part p @ r) (Some u) m =
      Some (False, r, Some (u\<lparr>userinfo := ui, host := Str h, port := ucast p\<rparr>), m') \<and> plentiful m'"
proof -
  let ?t = "port_part p @ r"
  note rr = sep_ends [OF r]
  have t: "hostchar ?t = 0" "p = 0 \<Longrightarrow> authchar ?t = 0 \<and> peek ?t \<noteq> CHR ''@''" "peek ?t = CHR '':'' \<longleftrightarrow> p \<noteq> 0"
    using rr classes_delim(2) [of ?t] by (auto simp: port_part_def)
  have "\<exists>t' m1. auth_user (part_text ([], ui, ''@'') @ h @ ?t) (Some u) m = (False, h @ ?t, t', Some (u\<lparr>userinfo := ui\<rparr>), m1) \<and>
      plentiful m1 \<and> auth_literal v6 (h @ ?t) t' = (False, ?t)"
  proof (cases "literal v6 h")
    case True
    then have "peek (h @ ?t) = CHR ''[''" by (auto simp: literal_def)
    with auth_user_text [of ui u m "h @ ?t" "h @ ?t"] ok u(1) m auth_literal_text [OF True] show ?thesis by (fastforce simp: auth_ok_def)
  next
    case False
    with ok have h: "ui_ok ui" "h \<noteq> []" "if ui = NullP then scan authchar h = [] \<and> p = 0 else scan hostchar h = []" by (auto simp: auth_ok_def)
    then have "auth_literal v6 (h @ ?t) ?t = (False, ?t)" by (simp add: auth_literal_def)
    with auth_user_text [of ui u m "h @ ?t" ?t h] h t u(1) m show ?thesis by fastforce
  qed
  then obtain t' m1 where a: "auth_user (part_text ([], ui, ''@'') @ h @ ?t) (Some u) m = (False, h @ ?t, t', Some (u\<lparr>userinfo := ui\<rparr>), m1)"
    "plentiful m1" "auth_literal v6 (h @ ?t) t' = (False, ?t)" by blast
  have "cstr h"
    using ok ac.scan_cstr hc.scan_cstr lc.scan_cstr by (auto simp: auth_ok_def literal_def NUL_def split: if_splits)
  then obtain m2 where st: "store_part host_update (h @ ?t) ?t (Some (u\<lparr>userinfo := ui\<rparr>)) m1 = (False, Some (u\<lparr>userinfo := ui, host := Str h\<rparr>), m2)" "plentiful m2"
    using store_part_some [of h host_update ?t "u\<lparr>userinfo := ui\<rparr>" m1 thesis] a(2) by auto
  show ?thesis
  proof (cases "p = 0")
    case True
    with a st t u(2) show ?thesis by (simp add: parse_uri_authority_def port_part_def)
  next
    case False
    then have "lex_u (tl ?t) (0 :: u16) = (0, p, r)" using lex_u_dec [of "[]" r p "0 :: u16"] rr by (simp add: port_part_def)
    with a st t False show ?thesis by (simp add: parse_uri_authority_def)
  qed
qed

subsection \<open>Paths, read and printed\<close>

definition part_ok :: "(string \<Rightarrow> nat) \<Rightarrow> uriptr \<Rightarrow> bool" where
  "part_ok f p \<longleftrightarrow> p = NullP \<or> (\<exists>s. p = Str s \<and> scan f s = [])"

definition path_ok :: "uriptr \<Rightarrow> uriptr \<Rightarrow> uriptr \<Rightarrow> bool" where
  "path_ok p q f \<longleftrightarrow> part_ok rfc2396_pchar p \<and> p \<noteq> Str [] \<and> part_ok rfc2396_qchar q \<and> part_ok rfc2396_pchar f"

text \<open>One optional part: a scan behind a mark, stored.\<close>

lemma part_spec:
  assumes cls: "char_class f"
    and st: "(if k then store_part upd line (scan f line) (Some u) m else (False, Some u, m)) = (e, uo, m1)"
    and null: "upd (\<lambda>_. NullP) u = u"
  obtains (failed) "e" "uo = Some u" "allocs_used m1 = allocs_used m"
  | (good) p where "\<not> e" "uo = Some (upd (\<lambda>_. p) u)" "part_ok f p" "p \<noteq> NullP \<longleftrightarrow> k" "f line \<noteq> 0 \<longrightarrow> p \<noteq> Str []"
      "allocs_used m1 = allocs_used m + live_part p"
proof (cases k)
  case True
  obtain s where s: "line = s @ scan f line" "scan f s = []" "cstr s" using char_class.scan_splits [OF cls, of line] by metis
  have "f line \<noteq> 0 \<longrightarrow> s \<noteq> []" using char_class.scan_same [OF cls, of line] s(1) by (metis append_Nil)
  note good = good [of "Str s", unfolded part_ok_def] and s = s this
  from s(3) show thesis
  proof (cases rule: store_part_some [where upd = upd and u = u and m = m and t = "scan f line"])
    case (failed m2)
    with st s(1) True null that(1) show thesis by auto
  next
    case (stored m2)
    with st s True good show thesis by auto
  qed
next
  case False
  with st null good [of NullP] show thesis by (simp add: part_ok_def)
qed

lemma part_text_spec:
  assumes cls: "char_class f" and s: "scan f s = []" "f t = 0" and m: "plentiful m"
  shows "\<exists>m1. scan f (s @ t) = t \<and> store_part upd (s @ t) t (Some u) m = (False, Some (upd (\<lambda>_. Str s) u), m1) \<and> plentiful m1"
proof -
  have "scan f (s @ t) = t" "cstr s" using char_class.scan_append [OF cls s] char_class.scan_cstr [OF cls s(1)] by auto
  then show ?thesis using store_part_some [of s upd t u m ?thesis] m by auto
qed

lemma path_spec:
  assumes u: "path u = NullP" "query u = NullP" "fragment u = NullP"
  shows "\<exists>e rest u' m'. parse_uri_path line (Some u) m = Some (e, rest, Some u', m') \<and> (\<exists>q. line = q @ rest) \<and>
    (if e then u' = u \<and> allocs_used m' = allocs_used m
     else \<exists>p q f. u' = u\<lparr>path := p, query := q, fragment := f\<rparr> \<and> path_ok p q f \<and> (rfc2396_pchar line \<noteq> 0 \<longrightarrow> p \<noteq> NullP) \<and>
       allocs_used m' = allocs_used m + live_part p + live_part q + live_part f)"
proof -
  define p1 where "p1 = scan rfc2396_pchar line"
  define k1 where "k1 \<longleftrightarrow> rfc2396_pchar line \<noteq> 0"
  define p2 where "p2 = (if peek p1 = CHR ''?'' then scan rfc2396_qchar (tl p1) else p1)"
  define p3 where "p3 = (if peek p2 = CHR ''#'' then scan rfc2396_pchar (tl p2) else p2)"
  have tl: "\<exists>l. s = l @ (if peek s = c then scan f (tl s) else s)" if cl: "char_class f" and c: "c \<noteq> NUL" for s c f
  proof (cases "peek s = c")
    case True
    with c obtain t where "s = c # t" using peek_Cons by blast
    moreover obtain q where "t = q @ scan f t" using char_class.scan_splits [OF cl, of t] by metis
    ultimately have "s = (c # q) @ (if peek s = c then scan f (tl s) else s)" by simp
    then show ?thesis by blast
  qed simp
  have nn: "CHR ''?'' \<noteq> NUL" "CHR ''#'' \<noteq> NUL" by (simp_all add: NUL_def)
  obtain l2 l3 where l: "p1 = l2 @ p2" "p2 = l3 @ p3"
    using tl [OF qc.char_class_axioms nn(1), of p1] tl [OF pc.char_class_axioms nn(2), of p2] unfolding p2_def p3_def by blast
  obtain l1 where l1: "line = l1 @ p1" using pc.scan_splits [of line] unfolding p1_def by metis
  have k1': "length p1 = length line \<longleftrightarrow> \<not> k1" using pc.scan_same [of line] by (simp add: k1_def p1_def)
  obtain e1 uo1 m1 where a1: "(if k1 then store_part path_update line p1 (Some u) m else (False, Some u, m)) = (e1, uo1, m1)"
    by (metis prod_cases3)
  then have a1': "(if length p1 = length line then (False, Some u, m) else store_part path_update line p1 (Some u) m) = (e1, uo1, m1)"
    using k1' by (cases k1) simp_all
  have n1: "path_update (\<lambda>_. NullP) u = u" using u by simp
  from pc.char_class_axioms a1 [unfolded p1_def] n1 show ?thesis
  proof (cases rule: part_spec)
    case failed
    then have "parse_uri_path line (Some u) m = Some (True, p1, Some u, m1)"
      using a1' by (simp add: parse_uri_path_def Let_def p1_def [symmetric])
    then show ?thesis using l1 failed(3) by auto
  next
    case (good p)
    let ?u1 = "u\<lparr>path := p\<rparr>"
    have ok1: "part_ok rfc2396_pchar p" "p \<noteq> Str []" using good(3,4,5) by (auto simp: k1_def)
    obtain e2 uo2 m2 where a2: "(if peek p1 = CHR ''?'' then store_part query_update (tl p1) p2 (Some ?u1) m1 else (False, Some ?u1, m1)) = (e2, uo2, m2)"
      by (metis prod_cases3)
    then have a2': "(if peek p1 = CHR ''?'' then store_part query_update (tl p1) (scan rfc2396_qchar (tl p1)) (Some ?u1) m1 else (False, Some ?u1, m1)) = (e2, uo2, m2)"
      using p2_def by (cases "peek p1 = CHR ''?''") simp_all
    have err: "path_err l (Some (?u1\<lparr>query := q\<rparr>)) m' = Some (True, l, Some u, Free (q \<noteq> NullP) (Free (p \<noteq> NullP) m'))"
      if "part_ok f q" for f l q m'
      using that ok1(1) u by (auto simp: path_err_def part_ok_def)
    have n2: "query_update (\<lambda>_. NullP) ?u1 = ?u1" using u by simp
    from qc.char_class_axioms a2' n2 show ?thesis
    proof (cases rule: part_spec)
      case failed
      have "path_err p2 (Some ?u1) m2 = Some (True, p2, Some u, Free (p \<noteq> NullP) m2)" using err [of _ NullP p2 m2] n2 by (simp add: part_ok_def)
      then have "parse_uri_path line (Some u) m = Some (True, p2, Some u, Free (p \<noteq> NullP) m2)"
        using a1' a2 good(1,2) failed(1,2) by (simp add: parse_uri_path_def Let_def p1_def [symmetric] p2_def [symmetric])
      moreover have "line = (l1 @ l2) @ p2" using l1 l by simp
      ultimately show ?thesis using good(6) failed(3) by auto
    next
      case q: (good q)
      let ?u2 = "?u1\<lparr>query := q\<rparr>"
      obtain e3 uo3 m3 where a3: "(if peek p2 = CHR ''#'' then store_part fragment_update (tl p2) p3 (Some ?u2) m2 else (False, Some ?u2, m2)) = (e3, uo3, m3)"
        by (metis prod_cases3)
      then have a3': "(if peek p2 = CHR ''#'' then store_part fragment_update (tl p2) (scan rfc2396_pchar (tl p2)) (Some ?u2) m2 else (False, Some ?u2, m2)) = (e3, uo3, m3)"
        using p3_def by (cases "peek p2 = CHR ''#''") simp_all
      have n3: "fragment_update (\<lambda>_. NullP) ?u2 = ?u2" using u by simp
      have ln: "line = (l1 @ l2 @ l3) @ p3" using l1 l by simp
      note eqs = parse_uri_path_def Let_def p1_def [symmetric] p2_def [symmetric] p3_def [symmetric]
      from pc.char_class_axioms a3' n3 show ?thesis
      proof (cases rule: part_spec)
        case failed
        have "parse_uri_path line (Some u) m = Some (True, p3, Some u, Free (q \<noteq> NullP) (Free (p \<noteq> NullP) m3))"
          using a1' a2 a3 good(1,2) q(1,2) failed(1,2) err [OF q(3), of p3 m3] by (simp add: eqs)
        then show ?thesis using ln good(6) q(6) failed(3) by auto
      next
        case f: (good f)
        have "parse_uri_path line (Some u) m = Some (False, p3, Some (?u2\<lparr>fragment := f\<rparr>), m3)"
          using a1' a2 a3 good(1,2) q(1,2) f(1,2) by (simp add: eqs)
        moreover have "path_ok p q f" using ok1 q(3) f(3) by (simp add: path_ok_def)
        moreover have "allocs_used m3 = allocs_used m + live_part p + live_part q + live_part f" using good(6) q(6) f(6) by simp
        ultimately show ?thesis using ln good(4) by (auto simp: k1_def)
      qed
    qed
  qed
qed

lemma part_text_none: "p \<noteq> NullP \<and> part_ok f p \<or> p = NullP \<Longrightarrow> part_text (pre, p, post) = (case p of Str s \<Rightarrow> pre @ s @ post | _ \<Rightarrow> [])"
  by (cases p) auto

text \<open>Reading back one optional part behind its mark.\<close>

lemma part_back:
  assumes cls: "char_class f" and p: "part_ok f p" and t: "f t = 0" "p = NullP \<longrightarrow> peek t \<noteq> c" and m: "plentiful m"
    and null: "upd (\<lambda>_. NullP) u = u" "c \<noteq> NUL"
  defines "s \<equiv> part_text ([c], p, []) @ t"
  shows "(if peek s = c then scan f (tl s) else s) = t \<and>
    (\<exists>m1. (if peek s = c then store_part upd (tl s) t (Some u) m else (False, Some u, m)) = (False, Some (upd (\<lambda>_. p) u), m1) \<and> plentiful m1)"
proof (cases p)
  case NullP
  with t m null show ?thesis by (simp add: s_def)
next
  case Wild
  with p show ?thesis by (simp add: part_ok_def)
next
  case (Str x)
  with p have "scan f x = []" by (simp add: part_ok_def)
  from part_text_spec [OF cls this t(1) m, of upd u] Str show ?thesis by (simp add: s_def)
qed

lemma path_text:
  assumes ok: "path_ok p q f" and u: "path u = NullP" "query u = NullP" "fragment u = NullP" and m: "plentiful m" and r: "uri_end r"
  shows "\<exists>m'. parse_uri_path (part_text ([], p, []) @ part_text (''?'', q, []) @ part_text (''#'', f, []) @ r) (Some u) m =
      Some (False, r, Some (u\<lparr>path := p, query := q, fragment := f\<rparr>), m') \<and> plentiful m'"
proof -
  note cl = classes_end [OF r [unfolded uri_end_def]] space_not_class(5) [OF r [unfolded uri_end_def]]
  define s3 where "s3 = part_text (''#'', f, []) @ r"
  define s2 where "s2 = part_text (''?'', q, []) @ s3"
  define s1 where "s1 = part_text ([], p, []) @ s2"
  have nn: "CHR ''?'' \<noteq> NUL" "CHR ''#'' \<noteq> NUL" by (simp_all add: NUL_def)
  have c3: "rfc2396_qchar s3 = 0" "rfc2396_pchar s3 = 0" "peek s3 \<noteq> CHR ''?''"
    using cl classes_delim(4,5) [of s3] ok by (cases f; simp add: s3_def path_ok_def part_ok_def)+
  have c2: "rfc2396_pchar s2 = 0"
    using c3 classes_delim(4) [of s2] ok by (cases q; simp add: s2_def path_ok_def part_ok_def)
  have ok1: "part_ok rfc2396_pchar p" "p \<noteq> Str []" and ok2: "part_ok rfc2396_qchar q" and ok3: "part_ok rfc2396_pchar f"
    using ok by (simp_all add: path_ok_def)
  obtain m1 where p: "scan rfc2396_pchar s1 = s2"
    "(if length s2 = length s1 then (False, Some u, m) else store_part path_update s1 s2 (Some u) m) = (False, Some (u\<lparr>path := p\<rparr>), m1)" "plentiful m1"
  proof (cases p)
    case NullP
    then show thesis using that [of m] c2 m u by (simp add: s1_def pc.scan_none)
  next
    case (Str x)
    then have "scan rfc2396_pchar x = []" "x \<noteq> []" using ok1 by (auto simp: part_ok_def)
    with part_text_spec [OF pc.char_class_axioms _ c2 m, of x path_update u] Str that show thesis by (auto simp: s1_def)
  qed (use ok1 in \<open>simp add: part_ok_def\<close>)
  let ?u1 = "u\<lparr>path := p\<rparr>"
  have n2: "query_update (\<lambda>_. NullP) ?u1 = ?u1" "fragment_update (\<lambda>_. NullP) (?u1\<lparr>query := q\<rparr>) = ?u1\<lparr>query := q\<rparr>" using u by simp_all
  obtain m2 where q: "(if peek s2 = CHR ''?'' then scan rfc2396_qchar (tl s2) else s2) = s3"
    "(if peek s2 = CHR ''?'' then store_part query_update (tl s2) s3 (Some ?u1) m1 else (False, Some ?u1, m1)) = (False, Some (?u1\<lparr>query := q\<rparr>), m2)"
    "plentiful m2"
    using part_back [where upd = query_update, OF qc.char_class_axioms ok2 c3(1) _ p(3) n2(1) nn(1)] c3(3) unfolding s2_def by blast
  obtain m3 where f: "(if peek s3 = CHR ''#'' then scan rfc2396_pchar (tl s3) else s3) = r"
    "(if peek s3 = CHR ''#'' then store_part fragment_update (tl s3) r (Some (?u1\<lparr>query := q\<rparr>)) m2 else (False, Some (?u1\<lparr>query := q\<rparr>), m2)) =
      (False, Some (?u1\<lparr>query := q, fragment := f\<rparr>), m3)" "plentiful m3"
    using part_back [where upd = fragment_update and t = r, OF pc.char_class_axioms ok3 _ _ q(3) n2(2) nn(2)] cl unfolding s3_def by auto
  have "parse_uri_path s1 (Some u) m = Some (False, r, Some (?u1\<lparr>query := q, fragment := f\<rparr>), m3)"
    by (simp only: parse_uri_path_def Let_def p(1,2) q(1,2) f(1,2) prod.case bool.case if_True if_False)
  with f(3) show ?thesis by (auto simp: s1_def s2_def s3_def)
qed

subsection \<open>Whole URIs\<close>

definition uri_ok :: "(string \<Rightarrow> bool) \<Rightarrow> uri \<Rightarrow> bool" where
  "uri_ok v6 u \<longleftrightarrow> part_ok schemechar (scheme u) \<and> scheme u \<noteq> Str [] \<and>
     (if opaque_part u \<noteq> NullP then
        part_ok opaquechar (opaque_part u) \<and> userinfo u = NullP \<and> host u = NullP \<and> port u = 0 \<and>
        path u = NullP \<and> query u = NullP \<and> fragment u = NullP
      else path_ok (path u) (query u) (fragment u) \<and>
        (case host u of
           NullP \<Rightarrow> userinfo u = NullP \<and> port u = 0 \<and> path u \<noteq> NullP
         | Wild \<Rightarrow> False
         | Str h \<Rightarrow> \<exists>p :: u16. port u = ucast p \<and> auth_ok v6 (userinfo u) h p))"

definition uri_strs :: "uri \<Rightarrow> uriptr list" where
  "uri_strs u = [scheme u, host u, userinfo u, path u, query u, fragment u, opaque_part u]"

definition live_uri :: "uri \<Rightarrow> int" where
  "live_uri u = (\<Sum>p\<leftarrow>uri_strs u. live_part p)"

lemma free_strs_spec: "Wild \<notin> set ps \<Longrightarrow> \<exists>m'. free_strs ps m = Some m' \<and> allocs_used m' = allocs_used m - (\<Sum>p\<leftarrow>ps. live_part p)"
proof (induction ps arbitrary: m)
  case (Cons p ps)
  from Cons.prems obtain m1 where "free_str p m = Some m1" "allocs_used m1 = allocs_used m - live_part p" by (cases p) auto
  with Cons.IH [of m1] Cons.prems show ?case by auto
qed simp

lemma part_ok_tame: "part_ok f p \<Longrightarrow> p \<noteq> Wild"
  by (auto simp: part_ok_def)

lemma uri_ok_tame: "uri_ok v6 u \<Longrightarrow> Wild \<notin> set (uri_strs u)"
proof -
  assume u: "uri_ok v6 u"
  have "scheme u \<noteq> Wild" using u part_ok_tame by (auto simp: uri_ok_def)
  moreover have "opaque_part u \<noteq> Wild" using u part_ok_tame by (cases "opaque_part u") (auto simp: uri_ok_def)
  moreover have "path u \<noteq> Wild \<and> query u \<noteq> Wild \<and> fragment u \<noteq> Wild"
    using u part_ok_tame by (cases "opaque_part u = NullP") (auto simp: uri_ok_def path_ok_def)
  moreover have "host u \<noteq> Wild \<and> userinfo u \<noteq> Wild"
    using u by (cases "opaque_part u = NullP"; cases "host u") (auto simp: uri_ok_def auth_ok_def ui_ok_def)
  ultimately show ?thesis by (auto simp: uri_strs_def)
qed

lemma reset_uri_spec: "Wild \<notin> set (uri_strs u) \<Longrightarrow> \<exists>m'. reset_uri u m = Some (zero_uri, m') \<and> allocs_used m' = allocs_used m - live_uri u"
  using free_strs_spec [of "uri_strs u" m] by (auto simp: reset_uri_def uri_strs_def [symmetric] live_uri_def simp del: free_strs.simps)

lemma uri_err_spec:
  "Wild \<notin> set (uri_strs u) \<Longrightarrow> \<exists>m'. uri_err line (Some u) m = Some (True, line, Some zero_uri, m') \<and> allocs_used m' = allocs_used m - live_uri u"
  using reset_uri_spec [of u m] by (auto simp: uri_err_def)

lemma uri_scheme_spec:
  assumes "uri_scheme sch start (Some zero_uri) m = (e, t, uo, m1)"
  shows "\<exists>sc. uo = Some (zero_uri\<lparr>scheme := sc\<rparr>) \<and> (e \<longrightarrow> sc = NullP) \<and> part_ok schemechar sc \<and> sc \<noteq> Str [] \<and>
    allocs_used m1 = allocs_used m + live_part sc \<and> (\<exists>q. start = q @ t)"
proof -
  let ?u = "scan schemechar start"
  obtain s where s: "start = s @ ?u" "scan schemechar s = []" "cstr s" using sc.scan_splits [of start] by metis
  have z: "zero_uri\<lparr>scheme := NullP\<rparr> = zero_uri" by (simp add: zero_uri_def)
  have none: "part_ok schemechar NullP" by (simp add: part_ok_def)
  consider "length ?u = length start \<or> peek ?u \<noteq> CHR '':''"
    | "length ?u \<noteq> length start" "peek ?u = CHR '':''" "case sch of None \<Rightarrow> False | Some k \<Rightarrow> \<not> casepfx start k"
    | "length ?u \<noteq> length start" "peek ?u = CHR '':''" "\<not> (case sch of None \<Rightarrow> False | Some k \<Rightarrow> \<not> casepfx start k)" by blast
  then show ?thesis
  proof cases
    case 1
    then show ?thesis using assms z none by (auto simp: uri_scheme_def Let_def intro!: exI [of _ NullP])
  next
    case 2
    then have "e" "t = ?u" "uo = Some zero_uri" "m1 = m" using assms by (auto simp: uri_scheme_def Let_def)
    then show ?thesis using z none s(1) by (auto intro!: exI [of _ NullP])
  next
    case 3
    then obtain t1 where t1: "?u = CHR '':'' # t1" using peek_Cons [of ?u] by (auto simp: NUL_def)
    have "s \<noteq> []" using 3(1) s(1) by (metis append_Nil)
    from s(3) show ?thesis
    proof (cases rule: store_part_some [where upd = scheme_update and u = zero_uri and m = m and t = ?u])
      case (failed m2)
      then have "e" "t = ?u" "uo = Some zero_uri" "m1 = m2" using assms 3 s(1) z by (simp_all add: uri_scheme_def Let_def)
      then show ?thesis using z none s(1) failed(2) by (auto intro!: exI [of _ NullP])
    next
      case (stored m2)
      then have "\<not> e" "t = t1" "uo = Some (zero_uri\<lparr>scheme := Str s\<rparr>)" "m1 = m2" using assms 3 s(1) t1 by (simp_all add: uri_scheme_def Let_def)
      moreover have "start = (s @ '':'') @ t1" using s(1) t1 by simp
      ultimately show ?thesis using \<open>s \<noteq> []\<close> s(2) stored(2) by (intro exI [of _ "Str s"]) (auto simp: part_ok_def)
    qed
  qed
qed

lemma opaque_spec:
  assumes u: "opaque_part u = NullP"
  shows "\<exists>e rest u' m'. parse_uri_opaque t (Some u) m = (e, rest, Some u', m') \<and> (\<exists>q. t = q @ rest) \<and>
    (if e then u' = u \<and> allocs_used m' = allocs_used m
     else \<exists>s. u' = u\<lparr>opaque_part := Str s\<rparr> \<and> scan opaquechar s = [] \<and> allocs_used m' = allocs_used m + 1)"
proof -
  obtain s where s: "t = s @ scan opaquechar t" "scan opaquechar s = []" "cstr s" using oc.scan_splits [of t] by metis
  have zo: "u\<lparr>opaque_part := NullP\<rparr> = u" using u by simp
  from s(3) show ?thesis
  proof (cases rule: store_part_some [where upd = opaque_part_update and u = u and m = m and t = "scan opaquechar t"])
    case (failed m2)
    then have "parse_uri_opaque t (Some u) m = (True, t, Some u, m2)" using s(1) zo by (simp add: parse_uri_opaque_def Let_def)
    with failed(2) show ?thesis by auto
  next
    case (stored m2)
    then have "parse_uri_opaque t (Some u) m = (False, scan opaquechar t, Some (u\<lparr>opaque_part := Str s\<rparr>), m2)"
      using s(1) by (simp add: parse_uri_opaque_def Let_def)
    moreover have "\<exists>q. t = q @ scan opaquechar t" using s(1) by blast
    ultimately show ?thesis using s(2) stored(2) by auto
  qed
qed

text \<open>The optional authority of a text that starts with a slash.\<close>

definition authority_stage :: "(string \<Rightarrow> bool) \<Rightarrow> string \<Rightarrow> uri option \<Rightarrow> mem \<Rightarrow> (bool \<times> string \<times> uri option \<times> mem) option" where
  "authority_stage v6 t uo m = (if peek (tl t) = CHR ''/'' then parse_uri_authority v6 (drop 2 t) uo m else Some (False, t, uo, m))"

definition staged :: "(string \<Rightarrow> bool) \<Rightarrow> string \<Rightarrow> string \<Rightarrow> uriptr \<Rightarrow> uriptr \<Rightarrow> u16 \<Rightarrow> bool" where
  "staged v6 t t' ui hp p \<longleftrightarrow> hp = NullP \<and> ui = NullP \<and> p = 0 \<and> t' = t \<or> (\<exists>h. hp = Str h \<and> auth_ok v6 ui h p)"

lemma authority_stage_spec:
  assumes u: "userinfo u = NullP" "host u = NullP" "path u = NullP" "port u = 0"
  shows "\<exists>e rest u' m'. authority_stage v6 t (Some u) m = Some (e, rest, Some u', m') \<and> (\<exists>q. t = q @ rest) \<and>
    (if e then u' = u \<and> allocs_used m' = allocs_used m
     else \<exists>ui hp p. u' = u\<lparr>userinfo := ui, host := hp, port := ucast p\<rparr> \<and> allocs_used m' = allocs_used m + live_part hp + live_part ui \<and>
       staged v6 t rest ui hp p)"
proof (cases "peek (tl t) = CHR ''/''")
  case False
  have w: "u = u\<lparr>userinfo := NullP, host := NullP, port := ucast (0 :: u16)\<rparr>" using u by simp
  have st: "staged v6 t t NullP NullP 0" by (simp add: staged_def)
  have "\<exists>ui hp p. u = u\<lparr>userinfo := ui, host := hp, port := ucast p\<rparr> \<and>
    allocs_used m = allocs_used m + live_part hp + live_part ui \<and> staged v6 t t ui hp p"
    by (rule exI [of _ NullP], rule exI [of _ NullP], rule exI [of _ 0], intro conjI) (rule w, simp, rule st)
  moreover have "authority_stage v6 t (Some u) m = Some (False, t, Some u, m)" using False by (simp add: authority_stage_def)
  ultimately show ?thesis by auto
next
  case auth: True
  obtain e2 t2 u2 m2 q2 where au: "parse_uri_authority v6 (drop 2 t) (Some u) m = Some (e2, t2, Some u2, m2)" "drop 2 t = q2 @ t2"
    "if e2 then u2 = u \<and> allocs_used m2 = allocs_used m
     else \<exists>ui h p. u2 = u\<lparr>userinfo := ui, host := Str h, port := ucast (p :: u16)\<rparr> \<and> auth_ok v6 ui h p \<and>
       allocs_used m2 = allocs_used m + 1 + live_part ui"
    using authority_spec [OF u, of v6 "drop 2 t" m] by blast
  have "t = (take 2 t @ q2) @ t2" using au(2) by (metis append_assoc append_take_drop_id)
  then have ex: "\<exists>q. t = q @ t2" by blast
  have st: "authority_stage v6 t (Some u) m = Some (e2, t2, Some u2, m2)" using au(1) auth by (simp add: authority_stage_def)
  have "\<exists>ui hp p. u2 = u\<lparr>userinfo := ui, host := hp, port := ucast p\<rparr> \<and>
    allocs_used m2 = allocs_used m + live_part hp + live_part ui \<and> staged v6 t t2 ui hp p" if ne: "\<not> e2"
  proof -
    obtain ui h p where "u2 = u\<lparr>userinfo := ui, host := Str h, port := ucast (p :: u16)\<rparr>" "auth_ok v6 ui h p"
      "allocs_used m2 = allocs_used m + 1 + live_part ui" using au(3) ne by auto
    then show ?thesis unfolding staged_def by (intro exI [of _ ui] exI [of _ "Str h"] exI [of _ p]) simp
  qed
  then have "if e2 then u2 = u \<and> allocs_used m2 = allocs_used m
     else \<exists>ui hp p. u2 = u\<lparr>userinfo := ui, host := hp, port := ucast p\<rparr> \<and> allocs_used m2 = allocs_used m + live_part hp + live_part ui \<and>
       staged v6 t t2 ui hp p" using au(3) by (cases e2) (simp_all only: if_True if_False not_False_eq_True)
  with st ex show ?thesis by blast
qed

lemma extract_internal_alt:
  "extract_uri_internal v6 sch line uo m =
     (case uri_scheme sch (drop (parse_whitespace line) line) (map_option (\<lambda>_. zero_uri) uo) m of
        (True, u, uo1, m1) \<Rightarrow> uri_err line uo1 m1
      | (False, u, uo1, m1) \<Rightarrow>
          if peek u = CHR ''/'' then
            (case authority_stage v6 u uo1 m1 of
               None \<Rightarrow> None
             | Some (True, u2, uo2, m2) \<Rightarrow> uri_err line uo2 m2
             | Some (False, u2, uo2, m2) \<Rightarrow>
                 (case parse_uri_path u2 uo2 m2 of
                    None \<Rightarrow> None
                  | Some (True, u3, uo3, m3) \<Rightarrow> uri_err line uo3 m3
                  | Some (False, u3, uo3, m3) \<Rightarrow> Some (False, u3, uo3, m3)))
          else
            (case parse_uri_opaque u uo1 m1 of
               (True, u2, uo2, m2) \<Rightarrow> uri_err line uo2 m2
             | (False, u2, uo2, m2) \<Rightarrow> Some (False, u2, uo2, m2)))"
  unfolding extract_uri_internal_def Let_def authority_stage_def ..

text \<open>The part behind the scheme, for a URI that has nothing but a scheme yet.\<close>

definition extracted :: "(string \<Rightarrow> bool) \<Rightarrow> string \<Rightarrow> mem \<Rightarrow> (bool \<times> string \<times> uri option \<times> mem) option \<Rightarrow> bool" where
  "extracted v6 line m r \<longleftrightarrow> (\<exists>e rest u' m'. r = Some (e, rest, Some u', m') \<and> (\<exists>q. line = q @ rest) \<and>
    (if e then rest = line \<and> u' = zero_uri \<and> allocs_used m' = allocs_used m
     else uri_ok v6 u' \<and> allocs_used m' = allocs_used m + live_uri u'))"

lemma hierarchical_spec:
  assumes t: "peek t = CHR ''/''" "line = l @ t" and c: "part_ok schemechar c" "c \<noteq> Str []"
    and m: "allocs_used m1 = allocs_used m + live_part c"
  shows "extracted v6 line m
    (case authority_stage v6 t (Some (zero_uri\<lparr>scheme := c\<rparr>)) m1 of
       None \<Rightarrow> None
     | Some (True, u2, uo2, m2) \<Rightarrow> uri_err line uo2 m2
     | Some (False, u2, uo2, m2) \<Rightarrow>
         (case parse_uri_path u2 uo2 m2 of
            None \<Rightarrow> None
          | Some (True, u3, uo3, m3) \<Rightarrow> uri_err line uo3 m3
          | Some (False, u3, uo3, m3) \<Rightarrow> Some (False, u3, uo3, m3)))"
proof -
  let ?u = "zero_uri\<lparr>scheme := c\<rparr>"
  note z = uri_strs_def live_uri_def zero_uri_def
  have ct: "c \<noteq> Wild" using part_ok_tame [OF c(1)] .
  have u0: "userinfo ?u = NullP" "host ?u = NullP" "path ?u = NullP" "port ?u = 0" by (simp_all add: zero_uri_def)
  have pch: "rfc2396_pchar t \<noteq> 0" using t(1) by (simp add: rfc2396_pchar_def class_defs)
  from authority_stage_spec [OF u0, of v6 t m1] obtain e2 t2 u2 m2 q2 where A:
    "authority_stage v6 t (Some ?u) m1 = Some (e2, t2, Some u2, m2)" "t = q2 @ t2"
    "if e2 then u2 = ?u \<and> allocs_used m2 = allocs_used m1
     else \<exists>ui hp p. u2 = ?u\<lparr>userinfo := ui, host := hp, port := ucast p\<rparr> \<and> allocs_used m2 = allocs_used m1 + live_part hp + live_part ui \<and>
       staged v6 t t2 ui hp p" by blast
  show ?thesis
  proof (cases e2)
    case True
    have "Wild \<notin> set (uri_strs ?u)" "live_uri ?u = live_part c" using ct by (simp_all add: z)
    with uri_err_spec [of ?u line m2] A True m show ?thesis by (auto simp: extracted_def)
  next
    case e2: False
    then obtain ui hp p where u2: "u2 = ?u\<lparr>userinfo := ui, host := hp, port := ucast p\<rparr>"
      "allocs_used m2 = allocs_used m1 + live_part hp + live_part ui" "staged v6 t t2 ui hp p" using A(3) by auto
    have "path u2 = NullP" "query u2 = NullP" "fragment u2 = NullP" by (simp_all add: u2(1) zero_uri_def)
    from path_spec [OF this, of t2 m2] obtain e3 t3 u3 m3 q3 where P: "parse_uri_path t2 (Some u2) m2 = Some (e3, t3, Some u3, m3)" "t2 = q3 @ t3"
      "if e3 then u3 = u2 \<and> allocs_used m3 = allocs_used m2
       else \<exists>p q f. u3 = u2\<lparr>path := p, query := q, fragment := f\<rparr> \<and> path_ok p q f \<and> (rfc2396_pchar t2 \<noteq> 0 \<longrightarrow> p \<noteq> NullP) \<and>
         allocs_used m3 = allocs_used m2 + live_part p + live_part q + live_part f" by blast
    have line: "line = (l @ q2 @ q3) @ t3" using t(2) A(2) P(2) by simp
    have tame: "Wild \<notin> set (uri_strs u2)" "live_uri u2 = live_part c + live_part hp + live_part ui"
      using u2(3) ct by (auto simp: u2(1) z auth_ok_def ui_ok_def staged_def)
    show ?thesis
    proof (cases e3)
      case True
      with P(3) have "u3 = u2" "allocs_used m3 = allocs_used m2" by simp_all
      with uri_err_spec [OF tame(1), of line m3] A(1) P(1) e2 True m u2(2) tame(2) show ?thesis by (auto simp: extracted_def)
    next
      case e3: False
      then obtain pa q f where u3: "u3 = u2\<lparr>path := pa, query := q, fragment := f\<rparr>" "path_ok pa q f" "rfc2396_pchar t2 \<noteq> 0 \<longrightarrow> pa \<noteq> NullP"
        "allocs_used m3 = allocs_used m2 + live_part pa + live_part q + live_part f" using P(3) by auto
      have "uri_ok v6 u3"
        using u2(3) u3(2,3) c pch by (auto simp: uri_ok_def u3(1) u2(1) zero_uri_def staged_def)
      moreover have "allocs_used m3 = allocs_used m + live_uri u3" using m u2(2) u3(4) by (simp add: z u3(1) u2(1))
      moreover have "\<exists>q. line = q @ t3" using line by blast
      ultimately show ?thesis using A(1) P(1) e2 e3 by (auto simp: extracted_def)
    qed
  qed
qed

lemma extract_internal_spec: "extracted v6 line m (extract_uri_internal v6 sch line (Some raw) m)"
proof -
  define start where "start = drop (parse_whitespace line) line"
  obtain q0 where q0: "line = q0 @ start" using append_take_drop_id [of "parse_whitespace line" line] unfolding start_def by metis
  obtain e t uo m1 where sc: "uri_scheme sch start (Some zero_uri) m = (e, t, uo, m1)" by (cases "uri_scheme sch start (Some zero_uri) m")
  from uri_scheme_spec [OF sc] obtain c q1 where c: "uo = Some (zero_uri\<lparr>scheme := c\<rparr>)" "part_ok schemechar c" "c \<noteq> Str []"
    "allocs_used m1 = allocs_used m + live_part c" "start = q1 @ t" by blast
  let ?u = "zero_uri\<lparr>scheme := c\<rparr>"
  have "Wild \<notin> set (uri_strs ?u)" "live_uri ?u = live_part c"
    using part_ok_tame [OF c(2)] by (simp_all add: uri_strs_def live_uri_def zero_uri_def)
  then have err: "extracted v6 line m (uri_err line (Some ?u) m')" if "allocs_used m' = allocs_used m + live_part c" for m'
    using uri_err_spec [of ?u line m'] that by (auto simp: extracted_def)
  have lt: "line = (q0 @ q1) @ t" using q0 c(5) by simp
  note ev = extract_internal_alt start_def [symmetric] sc c(1)
  show ?thesis
  proof (cases "e \<or> peek t = CHR ''/''")
    case True
    then show ?thesis using err [OF c(4)] hierarchical_spec [OF _ lt c(2,3,4), of v6] by (cases e) (simp_all add: ev)
  next
    case False
    have "opaque_part ?u = NullP" by (simp add: zero_uri_def)
    from opaque_spec [OF this, of t m1] obtain e2 rest u2 m2 q2 where o: "parse_uri_opaque t (Some ?u) m1 = (e2, rest, Some u2, m2)" "t = q2 @ rest"
      "if e2 then u2 = ?u \<and> allocs_used m2 = allocs_used m1
       else \<exists>s. u2 = ?u\<lparr>opaque_part := Str s\<rparr> \<and> scan opaquechar s = [] \<and> allocs_used m2 = allocs_used m1 + 1" by blast
    have ex: "extract_uri_internal v6 sch line (Some raw) m = (if e2 then uri_err line (Some u2) m2 else Some (False, rest, Some u2, m2))"
      using False o(1) by (simp add: ev)
    show ?thesis
    proof (cases e2)
      case True
      then show ?thesis using err [of m2] o(3) c(4) by (simp add: ex)
    next
      case False
      then obtain s where s: "u2 = ?u\<lparr>opaque_part := Str s\<rparr>" "scan opaquechar s = []" "allocs_used m2 = allocs_used m1 + 1" using o(3) by auto
      then have "uri_ok v6 u2" "live_uri u2 = live_part c + 1" using c(2,3)
        by (simp_all add: uri_ok_def live_uri_def uri_strs_def zero_uri_def part_ok_def)
      moreover have "line = (q0 @ q1 @ q2) @ rest" using lt o(2) by simp
      then have "\<exists>q. line = q @ rest" by blast
      ultimately show ?thesis using ex False s(3) c(4) by (auto simp: extracted_def)
    qed
  qed
qed

subsection \<open>Printing\<close>

definition uri_text :: "uri \<Rightarrow> string" where
  "uri_text u = concat (map part_text (uri_parts u))"

lemma print_parts_text:
  "Wild \<notin> fst ` snd ` set ps \<Longrightarrow> ustring_ok us \<Longrightarrow> plentiful m \<Longrightarrow>
   \<exists>us' m'. print_parts ps us m = Some (False, us', m') \<and> us_text us' = us_text us @ concat (map part_text ps) \<and> plentiful m'"
proof (induction ps arbitrary: us m)
  case (Cons x ps)
  obtain pre p post where x: "x = (pre, p, post)" by (cases x)
  show ?case
  proof (cases p)
    case (Str s)
    obtain us1 m1 where "printUString us (pre @ s @ post) m = (int (length (pre @ s @ post)), us1, m1)"
      "us_text us1 = us_text us @ pre @ s @ post" "ustring_ok us1" "plentiful m1"
      using printUString_plenty [OF Cons.prems(2,3)] by blast
    moreover from Cons.IH [OF _ this(3,4)] Cons.prems(1) obtain us2 m2 where "print_parts ps us1 m1 = Some (False, us2, m2)"
      "us_text us2 = us_text us1 @ concat (map part_text ps)" "plentiful m2" by auto
    ultimately show ?thesis by (simp add: x Str print_step_def)
  qed (use Cons x in auto)
qed simp

lemma stringize_uri_text:
  assumes "Wild \<notin> set (uri_strs u)" "plentiful m"
  shows "\<exists>us m'. stringize_uri init_ustring u m = Some (False, us, m') \<and> us_text us = uri_text u \<and> plentiful m'"
proof -
  have "Wild \<notin> fst ` snd ` set (uri_parts u)" using assms(1) by (auto simp: uri_parts_def uri_strs_def)
  from print_parts_text [OF this init_ustring_ok assms(2)] show ?thesis by (simp add: stringize_uri_def uri_text_def init_ustring_def)
qed

lemma ucast_ucast_u16: "ucast (ucast (p :: u16) :: u32) = p" "(ucast p :: u32) = 0 \<longleftrightarrow> p = 0"
proof -
  have "uint p < 65536" using uint_bounded [of p] by simp
  then have "uint (ucast p :: u32) = uint p" by (simp add: unsigned_ucast_eq take_bit_int_eq_self_iff)
  then show "(ucast p :: u32) = 0 \<longleftrightarrow> p = 0" by (simp only: word_uint_eq_iff) simp
  show "ucast (ucast p :: u32) = p" by (rule ucast_up_ucast_id) (simp add: is_up.rep_eq)
qed

lemma uri_text_opaque:
  "opaque_part u = Str s \<Longrightarrow> uri_text u = part_text ([], scheme u, '':'') @ s"
  by (simp add: uri_text_def uri_parts_def)

lemma uri_text_authority:
  assumes "opaque_part u = NullP" "host u = Str h" "port u = ucast (p :: u16)"
  shows "uri_text u = part_text ([], scheme u, '':'') @ ''//'' @ part_text ([], userinfo u, ''@'') @ h @ port_part p @
    part_text ([], path u, []) @ part_text (''?'', query u, []) @ part_text (''#'', fragment u, [])"
  using assms ucast_ucast_u16 [of p] by (simp add: uri_text_def uri_parts_def uri_has_authority_section_def port_part_def)

lemma uri_text_path:
  assumes "opaque_part u = NullP" "host u = NullP" "userinfo u = NullP" "port u = 0"
  shows "uri_text u = part_text ([], scheme u, '':'') @
    part_text ([], path u, []) @ part_text (''?'', query u, []) @ part_text (''#'', fragment u, [])"
  using assms by (simp add: uri_text_def uri_parts_def uri_has_authority_section_def)

subsection \<open>Reading what was printed\<close>

lemma casepfx_self: "casepfx (k @ t) k"
  by (induction k) simp_all

lemma uri_scheme_text:
  assumes c: "part_ok schemechar c" "c \<noteq> Str []" "case sch of None \<Rightarrow> True | Some k \<Rightarrow> c \<in> {NullP, Str k}"
    and t: "c = NullP \<longrightarrow> schemechar t = 0 \<or> peek (scan schemechar t) \<noteq> CHR '':''" and m: "plentiful m"
  shows "\<exists>m1. uri_scheme sch (part_text ([], c, '':'') @ t) (Some zero_uri) m = (False, t, Some (zero_uri\<lparr>scheme := c\<rparr>), m1) \<and> plentiful m1"
proof (cases c)
  case NullP
  then show ?thesis using t m sc.scan_same [of t] by (auto simp: uri_scheme_def Let_def zero_uri_def)
next
  case (Str s)
  then have s: "scan schemechar s = []" "s \<noteq> []" "cstr s" using c(1,2) sc.scan_cstr by (auto simp: part_ok_def)
  have sc: "scan schemechar (s @ CHR '':'' # t) = CHR '':'' # t" using s(1) classes_delim(2) by (intro sc.scan_append) simp_all
  have pf: "\<not> (case sch of None \<Rightarrow> False | Some k \<Rightarrow> \<not> casepfx (s @ CHR '':'' # t) k)"
    using c(3) Str casepfx_self [of s] by (auto split: option.splits)
  obtain m1 where "store_part scheme_update (s @ CHR '':'' # t) (CHR '':'' # t) (Some zero_uri) m = (False, Some (zero_uri\<lparr>scheme := Str s\<rparr>), m1)" "plentiful m1"
    using store_part_some [OF s(3), of scheme_update "CHR '':'' # t" zero_uri m thesis] m by auto
  then show ?thesis using Str s(2) sc pf by (simp add: uri_scheme_def Let_def)
qed (use c(1) in \<open>simp add: part_ok_def\<close>)

text \<open>The texts that can be told apart when they are read back.\<close>

definition unambiguous :: "uri \<Rightarrow> bool" where
  "unambiguous u \<longleftrightarrow>
     (case opaque_part u of
        Str s \<Rightarrow> peek s \<noteq> CHR ''/'' \<and> (scheme u = NullP \<longrightarrow> s \<noteq> [] \<and> (schemechar s = 0 \<or> peek (scan schemechar s) \<noteq> CHR '':''))
      | _ \<Rightarrow> (case path u of
            Str s \<Rightarrow> peek s = CHR ''/'' \<and> (host u = NullP \<longrightarrow> peek (tl s) \<noteq> CHR ''/'')
          | _ \<Rightarrow> True))"

lemma schemechar_peek: "s \<noteq> [] \<Longrightarrow> schemechar (s @ r) = schemechar s"
  by (cases s) (simp_all add: schemechar_def)

lemma scheme_kept:
  assumes "schemechar s = 0 \<or> peek (scan schemechar s) \<noteq> CHR '':''" "s \<noteq> []" "uri_end r"
  shows "schemechar (s @ r) = 0 \<or> peek (scan schemechar (s @ r)) \<noteq> CHR '':''"
proof (cases "schemechar s = 0")
  case False
  obtain p where p: "s = p @ scan schemechar s" "scan schemechar p = []" "schemechar (scan schemechar s) = 0" using sc.scan_splits [of s] by metis
  have r: "schemechar r = 0" "peek r \<noteq> CHR '':''"
    using space_not_class(5,6) [OF assms(3) [unfolded uri_end_def]] assms(3) by (auto simp: schemechar_def uri_end_def class_defs)
  have "schemechar (scan schemechar s @ r) = 0" using p(3) r(1) schemechar_peek by (cases "scan schemechar s = []") auto
  then have "scan schemechar (s @ r) = scan schemechar s @ r" using sc.scan_append [OF p(2)] p(1) by (metis append_assoc)
  then show ?thesis using assms(1) False r(2) by (cases "scan schemechar s = []") (auto simp: neq_Nil_conv)
qed (use schemechar_peek [OF assms(2)] in simp)

lemma scheme_no_space:
  assumes "part_ok schemechar c" "c \<noteq> Str []" "c = NullP \<longrightarrow> \<not> isspace (peek t)"
  shows "\<not> isspace (peek (part_text ([], c, '':'') @ t))"
proof (cases c)
  case (Str s)
  then have "s \<noteq> []" "scan schemechar s = []" using assms by (auto simp: part_ok_def)
  then have "schemechar s \<noteq> 0" using sc.scan_none [of s] by auto
  then have "\<not> isspace (peek s)" using space_not_class(6) [of s] by (auto simp: schemechar_def ctype_simps ccode_def)
  with Str \<open>s \<noteq> []\<close> show ?thesis by (cases s) auto
qed (use assms in \<open>auto simp: part_ok_def\<close>)

lemma authority_stage_text:
  assumes u: "uri_ok v6 u" "unambiguous u" "opaque_part u = NullP" and m: "plentiful m" and r: "uri_end r"
    and z: "userinfo v = NullP" "host v = NullP" "port v = 0"
  defines "pt \<equiv> part_text ([], path u, []) @ part_text (''?'', query u, []) @ part_text (''#'', fragment u, []) @ r"
  shows "\<exists>t m'. uri_text u @ r = part_text ([], scheme u, '':'') @ t \<and> peek t = CHR ''/'' \<and>
    authority_stage v6 t (Some v) m = Some (False, pt, Some (v\<lparr>userinfo := userinfo u, host := host u, port := port u\<rparr>), m') \<and> plentiful m'"
proof -
  have r': "peek r \<noteq> CHR ''/''" "peek r = NUL \<or> isspace (peek r)"
    using space_not_class(5) [OF r [unfolded uri_end_def]] r by (auto simp: uri_end_def)
  have pok: "path_ok (path u) (query u) (fragment u)" using u by (simp add: uri_ok_def)
  define tail where "tail = part_text (''?'', query u, []) @ part_text (''#'', fragment u, []) @ r"
  have tail: "peek tail \<noteq> CHR ''/''" "sep tail"
    using pok r' by (cases "query u"; cases "fragment u"; simp add: tail_def path_ok_def part_ok_def sep_def)+
  have pa: "path u = NullP \<or> (\<exists>s. path u = Str s \<and> peek s = CHR ''/'' \<and> (host u = NullP \<longrightarrow> peek (tl s) \<noteq> CHR ''/''))"
    using u(2,3) pok by (cases "path u") (auto simp: unambiguous_def path_ok_def part_ok_def)
  have sp: "sep pt"
  proof (cases "path u = NullP")
    case False
    with pa obtain s where "path u = Str s" "peek s = CHR ''/''" by blast
    then have "peek pt = CHR ''/''" by (cases s) (auto simp: pt_def NUL_def)
    then show ?thesis by (simp add: sep_def)
  qed (use tail in \<open>simp add: pt_def tail_def [symmetric]\<close>)
  show ?thesis
  proof (cases "host u")
    case NullP
    with u(1,3) have n: "userinfo u = NullP" "port u = 0" "path u \<noteq> NullP" by (simp_all add: uri_ok_def)
    with pa NullP obtain s where s: "path u = Str s" "peek s = CHR ''/''" "peek (tl s) \<noteq> CHR ''/''" by blast
    then obtain s' where s': "s = CHR ''/'' # s'" using peek_Cons [of s] by (auto simp: NUL_def)
    have "pt = CHR ''/'' # s' @ tail" by (simp add: pt_def tail_def s(1) s')
    moreover have "peek (s' @ tail) \<noteq> CHR ''/''" using s(3) s' tail(1) by (cases s') auto
    moreover have "uri_text u @ r = part_text ([], scheme u, '':'') @ pt" using uri_text_path [OF u(3) NullP n(1,2)] by (simp add: pt_def)
    moreover have "v\<lparr>userinfo := userinfo u, host := host u, port := port u\<rparr> = v" using z NullP n by simp
    ultimately show ?thesis using m by (intro exI [of _ pt]) (simp add: authority_stage_def)
  next
    case (Str h)
    with u(1,3) obtain p :: u16 where p: "port u = ucast p" "auth_ok v6 (userinfo u) h p" by (auto simp: uri_ok_def)
    from authority_text [OF p(2) z(1,3) m sp] obtain m' where a: "parse_uri_authority v6 (part_text ([], userinfo u, ''@'') @ h @ port_part p @ pt) (Some v) m =
      Some (False, pt, Some (v\<lparr>userinfo := userinfo u, host := Str h, port := ucast p\<rparr>), m')" "plentiful m'" by blast
    let ?t = "''//'' @ part_text ([], userinfo u, ''@'') @ h @ port_part p @ pt"
    have "uri_text u @ r = part_text ([], scheme u, '':'') @ ?t" using uri_text_authority [OF u(3) Str p(1)] by (simp add: pt_def)
    with a p(1) Str show ?thesis by (intro exI [of _ ?t] exI [of _ m']) (simp add: authority_stage_def)
  qed (use u in \<open>simp add: uri_ok_def\<close>)
qed

lemma extract_printed:
  assumes u: "uri_ok v6 u" "unambiguous u" "case sch of None \<Rightarrow> True | Some k \<Rightarrow> scheme u \<in> {NullP, Str k}"
    and m: "plentiful m" and r: "uri_end r"
  shows "\<exists>m'. extract_uri_internal v6 sch (uri_text u @ r) (Some raw) m = Some (False, r, Some u, m')"
proof -
  have c: "part_ok schemechar (scheme u)" "scheme u \<noteq> Str []" using u(1) by (simp_all add: uri_ok_def)
  let ?v = "zero_uri\<lparr>scheme := scheme u\<rparr>"
  have go: "\<exists>m1. uri_scheme sch (drop (parse_whitespace (uri_text u @ r)) (uri_text u @ r)) (Some zero_uri) m = (False, t, Some ?v, m1) \<and> plentiful m1"
    if t: "uri_text u @ r = part_text ([], scheme u, '':'') @ t" "scheme u = NullP \<longrightarrow> \<not> isspace (peek t)"
      "scheme u = NullP \<longrightarrow> schemechar t = 0 \<or> peek (scan schemechar t) \<noteq> CHR '':''" for t
    using uri_scheme_text [OF c u(3) t(3) m] parse_whitespace_none [OF scheme_no_space [OF c t(2)]] t(1) by simp
  show ?thesis
  proof (cases "opaque_part u")
    case NullP
    obtain t where t: "uri_text u @ r = part_text ([], scheme u, '':'') @ t" "peek t = CHR ''/''"
      using authority_stage_text [OF u(1,2) NullP m r, of zero_uri] by (auto simp: zero_uri_def)
    have "\<not> isspace (peek t)" "schemechar t = 0" using t(2) by (simp_all add: schemechar_def class_defs)
    with go [OF t(1)] obtain m1 where g: "uri_scheme sch (drop (parse_whitespace (uri_text u @ r)) (uri_text u @ r)) (Some zero_uri) m = (False, t, Some ?v, m1)"
      "plentiful m1" by blast
    have v: "userinfo ?v = NullP" "host ?v = NullP" "port ?v = 0" by (simp_all add: zero_uri_def)
    define pt where "pt = part_text ([], path u, []) @ part_text (''?'', query u, []) @ part_text (''#'', fragment u, []) @ r"
    from authority_stage_text [OF u(1,2) NullP g(2) r v] t(1) obtain m2 where
      s: "authority_stage v6 t (Some ?v) m1 = Some (False, pt, Some (?v\<lparr>userinfo := userinfo u, host := host u, port := port u\<rparr>), m2)" "plentiful m2"
      unfolding pt_def by auto
    have "path_ok (path u) (query u) (fragment u)" using u(1) NullP by (simp add: uri_ok_def)
    from path_text [OF this _ _ _ s(2) r, of "?v\<lparr>userinfo := userinfo u, host := host u, port := port u\<rparr>"] obtain m3 where
      "parse_uri_path pt (Some (?v\<lparr>userinfo := userinfo u, host := host u, port := port u\<rparr>)) m2 = Some (False, r,
        Some (?v\<lparr>userinfo := userinfo u, host := host u, port := port u, path := path u, query := query u, fragment := fragment u\<rparr>), m3)"
      unfolding pt_def by (auto simp: zero_uri_def)
    moreover have "?v\<lparr>userinfo := userinfo u, host := host u, port := port u, path := path u, query := query u, fragment := fragment u\<rparr> = u"
      using NullP by (simp add: zero_uri_def)
    ultimately show ?thesis using g(1) s(1) t(2) by (simp add: extract_internal_alt)
  next
    case (Str s)
    with u(1) have n: "scan opaquechar s = []" "userinfo u = NullP" "host u = NullP" "port u = 0" "path u = NullP" "query u = NullP" "fragment u = NullP"
      by (simp_all add: uri_ok_def part_ok_def)
    have a: "peek s \<noteq> CHR ''/''" "scheme u = NullP \<longrightarrow> s \<noteq> [] \<and> (schemechar s = 0 \<or> peek (scan schemechar s) \<noteq> CHR '':'')"
      using u(2) Str by (simp_all add: unambiguous_def)
    have pk: "peek (s @ r) \<noteq> CHR ''/''"
      using a(1) space_not_class(5) [OF r [unfolded uri_end_def]] by (cases s) auto
    have "\<not> isspace (peek (s @ r))" if "s \<noteq> []"
      using that n(1) oc.scan_none [of s] by (cases s) (auto simp: opaquechar_def split: if_splits)
    with go [of "s @ r"] uri_text_opaque [OF Str] a(2) scheme_kept [OF _ _ r, of s] obtain m1 where
      g: "uri_scheme sch (drop (parse_whitespace (uri_text u @ r)) (uri_text u @ r)) (Some zero_uri) m = (False, s @ r, Some ?v, m1)" "plentiful m1" by auto
    have "opaquechar r = 0" using classes_end [OF r [unfolded uri_end_def]] by blast
    from part_text_spec [OF oc.char_class_axioms n(1) this g(2), of opaque_part_update ?v] obtain m2 where
      "parse_uri_opaque (s @ r) (Some ?v) m1 = (False, r, Some (?v\<lparr>opaque_part := Str s\<rparr>), m2)" by (auto simp: parse_uri_opaque_def Let_def)
    moreover have "?v\<lparr>opaque_part := Str s\<rparr> = u" using Str n by (simp add: zero_uri_def)
    ultimately show ?thesis using g(1) pk by (simp add: extract_internal_alt)
  qed (use u(1) in \<open>simp add: uri_ok_def part_ok_def\<close>)
qed

subsection \<open>Properties\<close>


definition sample_uri :: uri where
  "sample_uri = zero_uri\<lparr>scheme := Str ''http'', userinfo := Str ''u:p'', host := Str ''x.org'', port := 8080, path := Str ''/a%20b'', query := Str ''k=1''\<rparr>"


text \<open>
  C30: Whatever the text and whatever memory is left, extracting a URI uses no wild pointer. It
  either fails, with the position where it was and every string it made freed again, or
  answers a well-formed URI and moves the position; freeing that URI gives back everything.
\<close>

theorem extract_uri_wellformed:
  "\<exists>uo rest m1. extract_uri inet_pton6 raw sch line m = Some (uo, rest, m1) \<and> (\<exists>taken. line = taken @ rest) \<and>
    (case uo of
       None \<Rightarrow> rest = line \<and> allocs_used m1 = allocs_used m
     | Some u \<Rightarrow> uri_ok inet_pton6 u \<and> (\<exists>m2. free_uri (Some u) m1 = Some m2 \<and> allocs_used m2 = allocs_used m))"
proof -
  obtain ok m1 where M: "Malloc 64 m = (ok, m1)" by (cases "Malloc 64 m")
  note used = Malloc_used [OF M]
  show ?thesis
  proof (cases ok)
    case False
    then show ?thesis using M used by (simp add: extract_uri_def)
  next
    case True
    obtain e rest u m2 where x: "extract_uri_internal inet_pton6 sch line (Some raw) m1 = Some (e, rest, Some u, m2)" "\<exists>q. line = q @ rest"
      "if e then rest = line \<and> u = zero_uri \<and> allocs_used m2 = allocs_used m1 else uri_ok inet_pton6 u \<and> allocs_used m2 = allocs_used m1 + live_uri u"
      using extract_internal_spec [of inet_pton6 line m1 sch raw] unfolding extracted_def by blast
    have "Wild \<notin> set (uri_strs u)" "e \<longrightarrow> live_uri u = 0" using x(3) uri_ok_tame by (auto simp: uri_strs_def live_uri_def zero_uri_def split: if_splits)
    with reset_uri_spec [of u m2] obtain m3 where f: "free_uri (Some u) m2 = Some m3" "allocs_used m3 = allocs_used m2 - live_uri u - 1"
      by (auto simp: free_uri_def)
    show ?thesis using M True x f used \<open>e \<longrightarrow> live_uri u = 0\<close> by (cases e) (auto simp: extract_uri_def)
  qed
qed

lemma store_part_plentiful:
  assumes "plentiful m"
  obtains s m1 where "store_part upd from to (Some u) m = (False, Some (upd (\<lambda>_. Str s) u), m1)" "plentiful m1"
proof -
  let ?c = "take (length from - length to) (cpart from)"
  obtain m1 where "Malloc (length ?c + 1) m = (True, m1)" "plentiful m1" using Malloc_plentiful [OF assms, of "length ?c + 1"] by auto
  then show thesis using that [of ?c m1] by (simp add: store_part_def Strndup_def Let_def)
qed

lemma wild_auth_err: "path u = Wild \<Longrightarrow> auth_err line (Some u) m = None"
  by (cases "userinfo u"; cases "host u") (simp_all add: auth_err_def)

lemma authority_wild:
  assumes m: "plentiful m" and u: "path u = Wild"
  shows "\<exists>e rest u' m'. parse_uri_authority v6 line None m0 = Some (e, rest, None, m0) \<and>
    parse_uri_authority v6 line (Some u) m = (if e then None else Some (False, rest, Some u', m')) \<and> path u' = Wild"
proof -
  obtain e1 h line1 where a0: "auth_user line None m0 = (e1, h, line1, None, m0)"
  proof -
    have "\<exists>e1 h line1. auth_user line None m0 = (e1, h, line1, None, m0)" by (simp add: auth_user_def Let_def) blast
    then show thesis using that by blast
  qed
  obtain s0 m0' where "store_part userinfo_update line (scan authchar line) (Some u) m = (False, Some (u\<lparr>userinfo := Str s0\<rparr>), m0')" "plentiful m0'"
    using store_part_plentiful [OF m] by metis
  then have "\<exists>u1 m1. auth_user line (Some u) m = (e1, h, line1, Some u1, m1) \<and> path u1 = Wild \<and> plentiful m1"
    using a0 m u by (auto simp: auth_user_def Let_def split: if_splits)
  then obtain u1 m1 where a1: "auth_user line (Some u) m = (e1, h, line1, Some u1, m1)" "path u1 = Wild" "plentiful m1" by blast
  obtain e2 line2 where al: "auth_literal v6 h line1 = (e2, line2)" by (cases "auth_literal v6 h line1")
  obtain s m2 where st: "store_part host_update h line2 (Some u1) m1 = (False, Some (u1\<lparr>host := Str s\<rparr>), m2)"
    using store_part_plentiful [OF a1(3)] by metis
  obtain ret p rest where lx: "lex_u (tl line2) (0 :: u16) = (ret, p, rest)" by (cases "lex_u (tl line2) (0 :: u16)")
  have err: "auth_err l None m0 = Some (True, l, None, m0)" for l by (simp add: auth_err_def)
  have wild: "auth_err l (Some u1) m1 = None" "auth_err l (Some (u1\<lparr>host := Str s\<rparr>)) m2 = None" for l
    using a1(2) by (simp_all add: wild_auth_err)
  consider "e1" | "\<not> e1" "e2" | "\<not> e1" "\<not> e2" "peek line2 = CHR '':''" | "\<not> e1" "\<not> e2" "peek line2 \<noteq> CHR '':''" by blast
  then show ?thesis
  proof cases
    case 3
    with a0 a1 al st err wild lx show ?thesis
      by (cases "ret = 0") (auto simp: parse_uri_authority_def)
  qed (use a0 a1 al st err wild in \<open>auto simp: parse_uri_authority_def\<close>)
qed

text \<open>
  C31: extract_connect_uri never works. It parses into a block that it does not clear, so
  with an allocator that hands out blocks of garbage, every text that parse_connect_uri refuses
  makes it free wild pointers, and every text that is accepted gives a URI that cannot be freed.
\<close>

theorem extract_connect_uri_wild:
  assumes "plentiful m" "uri_strs raw = replicate 7 Wild"
  shows "case parse_connect_uri inet_pton6 line m of
      None \<Rightarrow> False
    | Some (True, _, _) \<Rightarrow> extract_connect_uri inet_pton6 raw line m = None
    | Some (False, rest, _) \<Rightarrow> \<exists>u m1. extract_connect_uri inet_pton6 raw line m = Some (Some u, rest, m1) \<and> free_uri (Some u) m1 = None"
proof -
  obtain m1 where M: "Malloc 64 m = (True, m1)" "plentiful m1" using Malloc_plentiful [OF assms(1), of 64] by auto
  have "path raw = Wild" using assms(2) by (simp add: uri_strs_def numeral_eq_Suc)
  from authority_wild [OF M(2) this, of inet_pton6 line m] obtain e rest u m2 where a:
    "parse_uri_authority inet_pton6 line None m = Some (e, rest, None, m)"
    "parse_uri_authority inet_pton6 line (Some raw) m1 = (if e then None else Some (False, rest, Some u, m2))" "path u = Wild" by blast
  have w: "free_strs ps m = None" if "Wild \<in> set ps" for ps m
    using that
  proof (induction ps arbitrary: m)
    case (Cons p ps)
    then show ?case by (cases p) auto
  qed simp
  have "free_uri (Some u) m2 = None" using a(3) w [of "uri_strs u" m2] by (simp add: free_uri_def reset_uri_def uri_strs_def)
  with a M(1) show ?thesis by (cases e) (simp_all add: parse_connect_uri_def extract_connect_uri_def)
qed

theorem extract_connect_uri_wild_witness:
  "\<exists>raw u m1. extract_connect_uri (\<lambda>_. False) raw ''h'' plenty_mem = Some (Some u, [], m1) \<and> free_uri (Some u) m1 = None"
proof -
  define raw where "raw = \<lparr>scheme = Wild, host = Wild, userinfo = Wild, path = Wild, query = Wild, fragment = Wild, port = 0, opaque_part = Wild\<rparr>"
  have r: "uri_strs raw = replicate 7 Wild" by (simp add: raw_def uri_strs_def numeral_eq_Suc)
  have p: "parse_connect_uri (\<lambda>_. False) ''h'' plenty_mem = Some (False, [], plenty_mem)"
    by (simp add: parse_connect_uri_def parse_uri_authority_def auth_user_def auth_literal_def scan.simps authchar_def hostchar_def class_defs Let_def
        rfc2396_escape_sequence_def)
  from extract_connect_uri_wild [OF _ r, of plenty_mem "\<lambda>_. False" "''h''"] p show ?thesis by auto
qed

end
