(* ===== verification/Windows.thy ===== *)
theory Windows
  imports Memlimit
begin

text \<open>
  The sliding windows of libdank/utils/mmap.c and mmap.h over a mapped file, and the windows and
  rings of libdank/objects/filewindow.h and ringbufs.h that keep the file as long as the map
  needs.

  The kernel's side is the record \<open>vm\<close>: which offset of the mapped object each address shows,
  the bytes of the object and its length (\<open>None\<close> for an anonymous map, which has no end). What a
  system call answers is an argument of the operation that makes the call: an address or
  \<open>MAP_FAILED\<close> for mmap and mremap, success or not for munmap and ftruncate. Addresses,
  lengths and offsets are naturals; \<open>len\<close> and \<open>amount\<close> are multiples of the page size, as the
  comment of mmap.h demands. An mmap over existing pages that fails may have unmapped some of them
  already; which of them is an argument too. A read of an address that shows nothing, or of a page behind the
  end of the file, answers an outer \<open>None\<close>.
\<close>

subsection \<open>The kernel\<close>

record vm =
  seen :: "nat \<Rightarrow> nat option"
  bytes :: "nat \<Rightarrow> char"
  flen :: "nat option"

definition MAP_FAILED :: nat where "MAP_FAILED = 2 ^ 64 - 1"

definition show_range :: "nat \<Rightarrow> nat \<Rightarrow> nat \<Rightarrow> vm \<Rightarrow> vm" where
  "show_range addr len off v =
     v\<lparr>seen := (\<lambda>x. if addr \<le> x \<and> x < addr + len then Some (off + (x - addr)) else seen v x)\<rparr>"

definition hide_range :: "nat \<Rightarrow> nat \<Rightarrow> vm \<Rightarrow> vm" where
  "hide_range addr len v = v\<lparr>seen := (\<lambda>x. if addr \<le> x \<and> x < addr + len then None else seen v x)\<rparr>"

text \<open>Fresh anonymous pages hold zeros.\<close>

definition Mmap :: "nat \<Rightarrow> int \<Rightarrow> nat \<Rightarrow> nat \<Rightarrow> vm \<Rightarrow> vm" where
  "Mmap ans fd len off v =
     (if ans = MAP_FAILED then v
      else
        let v1 = show_range ans len off v
        in if fd < 0 then v1\<lparr>bytes := (\<lambda>x. if off \<le> x \<and> x < off + len then NUL else bytes v x)\<rparr> else v1)"

text \<open>With MAP_FIXED: a call that fails may have lost any of the pages it was to replace.\<close>

definition Mmap_fixed :: "nat \<Rightarrow> (nat \<Rightarrow> bool) \<Rightarrow> nat \<Rightarrow> int \<Rightarrow> nat \<Rightarrow> nat \<Rightarrow> vm \<Rightarrow> vm" where
  "Mmap_fixed ans lost addr fd len off v =
     (if ans = MAP_FAILED then v\<lparr>seen := (\<lambda>x. if addr \<le> x \<and> x < addr + len \<and> lost x then None else seen v x)\<rparr>
      else Mmap ans fd len off v)"

definition Munmap :: "bool \<Rightarrow> nat \<Rightarrow> nat \<Rightarrow> vm \<Rightarrow> vm" where
  "Munmap ok addr len v = (if ok then hide_range addr len v else v)"

text \<open>mremap with MREMAP_MAYMOVE: the pages of the map and what follows them in the object, at \<open>ans\<close>.\<close>

definition Mremap :: "nat \<Rightarrow> nat \<Rightarrow> nat \<Rightarrow> nat \<Rightarrow> nat \<Rightarrow> vm \<Rightarrow> vm" where
  "Mremap ans addr oldlen newlen off v =
     (if ans = MAP_FAILED then v else show_range ans newlen off (hide_range addr oldlen v))"

text \<open>ftruncate answers whether it fails; a negative length always does. A \<open>size_t\<close> below 0 wraps to one.\<close>

definition Ftruncate :: "bool \<Rightarrow> int \<Rightarrow> vm \<Rightarrow> bool \<times> vm" where
  "Ftruncate ok len v =
     (if ok \<and> 0 \<le> len then
        (False, v\<lparr>flen := map_option (\<lambda>_. nat len) (flen v),
                  bytes := (\<lambda>x. case flen v of None \<Rightarrow> bytes v x | Some n \<Rightarrow> if min (nat len) n \<le> x then NUL else bytes v x)\<rparr>)
      else (True, v))"

definition load :: "vm \<Rightarrow> nat \<Rightarrow> char option" where
  "load v addr =
     (case seen v addr of None \<Rightarrow> None
      | Some off \<Rightarrow> if (case flen v of None \<Rightarrow> False | Some n \<Rightarrow> n \<le> off) then None else Some (bytes v off))"

subsection \<open>Windows\<close>

record mmap_window =
  mapbase :: nat
  maplen :: nat
  mapoff :: nat

text \<open>The operations answer whether they fail, with the window, the kernel's state and the allocator's counters.\<close>

definition initialize_mmap_window :: "nat \<Rightarrow> int \<Rightarrow> nat \<Rightarrow> mmap_window \<Rightarrow> vm \<Rightarrow> mem \<Rightarrow> bool \<times> mmap_window \<times> vm \<times> mem" where
  "initialize_mmap_window ans fd len mw v m =
     (let mw1 = mw\<lparr>mapbase := ans\<rparr>; v1 = Mmap ans fd len 0 v in
      if mapbase mw1 = MAP_FAILED then (True, mw1, v1, track_failloc m)
      else (False, mw1\<lparr>maplen := len, mapoff := 0\<rparr>, v1, snd (track_allocation m)))"

definition mmap_window_totallen :: "mmap_window \<Rightarrow> nat" where
  "mmap_window_totallen mw = mapoff mw + maplen mw"

definition mmap_window_maplen :: "mmap_window \<Rightarrow> nat" where
  "mmap_window_maplen mw = maplen mw"

text \<open>The char that is returned as an int is signed.\<close>

definition sext :: "char \<Rightarrow> int" where
  "sext c = (if ccode c < 128 then int (ccode c) else int (ccode c) - 256)"

definition mmap_window_charat :: "mmap_window \<Rightarrow> nat \<Rightarrow> vm \<Rightarrow> int option" where
  "mmap_window_charat mw off v =
     (if off < mapoff mw \<or> off - mapoff mw > maplen mw then Some (-1)
      else map_option sext (load v (mapbase mw + (off - mapoff mw))))"

definition mmap_window_ptrto :: "mmap_window \<Rightarrow> nat \<Rightarrow> nat option" where
  "mmap_window_ptrto mw off =
     (if off < mapoff mw \<or> off - mapoff mw > maplen mw then None else Some (mapbase mw + (off - mapoff mw)))"

definition mmap_window_const_ptrto :: "mmap_window \<Rightarrow> nat \<Rightarrow> nat option" where
  "mmap_window_const_ptrto mw off =
     (if off < mapoff mw \<or> off - mapoff mw > maplen mw then None else Some (mapbase mw + (off - mapoff mw)))"

definition shrink_mmap_window :: "bool \<Rightarrow> nat \<Rightarrow> mmap_window \<Rightarrow> vm \<Rightarrow> bool \<times> mmap_window \<times> vm" where
  "shrink_mmap_window ok shrink mw v =
     (if shrink = 0 \<or> shrink \<ge> maplen mw then (True, mw, v)
      else
        let v1 = Munmap ok (mapbase mw) shrink v in
        if \<not> ok then (True, mw, v1)
        else (False, mw\<lparr>mapbase := mapbase mw + shrink, maplen := maplen mw - shrink, mapoff := mapoff mw + shrink\<rparr>, v1))"

definition trim_mmap_window :: "bool \<Rightarrow> nat \<Rightarrow> mmap_window \<Rightarrow> vm \<Rightarrow> bool \<times> mmap_window \<times> vm" where
  "trim_mmap_window ok shrink mw v =
     (if shrink = 0 \<or> shrink \<ge> maplen mw then (True, mw, v)
      else
        let v1 = Munmap ok (mapbase mw + (maplen mw - shrink)) shrink v in
        if \<not> ok then (True, mw, v1)
        else (False, mw\<lparr>maplen := maplen mw - shrink\<rparr>, v1))"

text \<open>A failing mremap is counted by its wrapper and once more here.\<close>

definition extend_mmap_window :: "nat \<Rightarrow> nat \<Rightarrow> mmap_window \<Rightarrow> vm \<Rightarrow> mem \<Rightarrow> bool \<times> mmap_window \<times> vm \<times> mem" where
  "extend_mmap_window ans ext mw v m =
     (if ext = 0 then (True, mw, v, m)
      else
        let v1 = Mremap ans (mapbase mw) (maplen mw) (maplen mw + ext) (mapoff mw) v in
        if ans = MAP_FAILED then (True, mw, v1, track_failloc (track_failloc m))
        else (False, mw\<lparr>mapbase := ans, maplen := maplen mw + ext\<rparr>, v1, m))"

definition slide_mmap_window :: "nat \<Rightarrow> (nat \<Rightarrow> bool) \<Rightarrow> bool \<Rightarrow> int \<Rightarrow> nat \<Rightarrow> mmap_window \<Rightarrow> vm \<Rightarrow> mem \<Rightarrow> bool \<times> mmap_window \<times> vm \<times> mem" where
  "slide_mmap_window ans lost ok fd amount mw v m =
     (if amount = 0 \<or> maplen mw = 0 then (True, mw, v, m)
      else
        let v1 = Mmap_fixed ans lost (mapbase mw) fd (maplen mw) (mapoff mw + amount) v in
        if ans \<noteq> mapbase mw then
          (True, mw, if ans \<noteq> MAP_FAILED then Munmap ok ans (maplen mw) v1 else v1, track_failloc m)
        else (False, mw\<lparr>mapoff := mapoff mw + amount\<rparr>, v1, m))"

definition reset_mmap_window :: "nat \<Rightarrow> (nat \<Rightarrow> bool) \<Rightarrow> bool \<Rightarrow> int \<Rightarrow> mmap_window \<Rightarrow> vm \<Rightarrow> bool \<times> mmap_window \<times> vm" where
  "reset_mmap_window ans lost ok fd mw v =
     (if maplen mw = 0 then (True, mw, v)
      else if fd \<ge> 0 then
        let v1 = Mmap_fixed ans lost (mapbase mw) fd (maplen mw) 0 v in
        if ans \<noteq> mapbase mw then (True, mw, if ans \<noteq> MAP_FAILED then Munmap ok ans (maplen mw) v1 else v1)
        else (False, mw\<lparr>mapoff := 0\<rparr>, v1)
      else (False, mw\<lparr>mapoff := 0\<rparr>, v))"

definition release_mmap_window :: "bool \<Rightarrow> mmap_window \<Rightarrow> vm \<Rightarrow> mem \<Rightarrow> bool \<times> mmap_window \<times> vm \<times> mem" where
  "release_mmap_window ok mw v m =
     (if maplen mw \<noteq> 0 then
        (\<not> ok, mw\<lparr>mapbase := MAP_FAILED, maplen := 0, mapoff := 0\<rparr>, Munmap ok (mapbase mw) (maplen mw) v, track_deallocation m)
      else (False, mw, v, m))"

subsection \<open>Scratch files\<close>

text \<open>Whether the protection holds PROT_WRITE is the argument \<open>w\<close>.\<close>

record scratchfile_window =
  sw_mw :: mmap_window
  sw_fd :: int

definition initialize_scratchfile_window ::
  "bool \<Rightarrow> nat \<Rightarrow> int \<Rightarrow> bool \<Rightarrow> nat \<Rightarrow> scratchfile_window \<Rightarrow> vm \<Rightarrow> mem \<Rightarrow> bool \<times> scratchfile_window \<times> vm \<times> mem" where
  "initialize_scratchfile_window ftok ans fd w len sw v m =
     (let sw1 = sw\<lparr>sw_fd := fd\<rparr>;
          (ft, v1) = (if fd \<ge> 0 \<and> w then Ftruncate ftok (int len) v else (False, v))
      in if ft then (True, sw1, v1, m)
         else case initialize_mmap_window ans fd len (sw_mw sw1) v1 m of
             (e, mw, v2, m2) \<Rightarrow> (e, sw1\<lparr>sw_mw := mw\<rparr>, v2, m2))"

definition scratchfile_window_totallen :: "scratchfile_window \<Rightarrow> nat" where
  "scratchfile_window_totallen sw = mmap_window_totallen (sw_mw sw)"

definition scratchfile_window_maplen :: "scratchfile_window \<Rightarrow> nat" where
  "scratchfile_window_maplen sw = mmap_window_maplen (sw_mw sw)"

definition scratchfile_window_charat :: "scratchfile_window \<Rightarrow> nat \<Rightarrow> vm \<Rightarrow> int option" where
  "scratchfile_window_charat sw off v = mmap_window_charat (sw_mw sw) off v"

definition scratchfile_window_ptrto :: "scratchfile_window \<Rightarrow> nat \<Rightarrow> nat option" where
  "scratchfile_window_ptrto sw off = mmap_window_ptrto (sw_mw sw) off"

definition scratchfile_window_const_ptrto :: "scratchfile_window \<Rightarrow> nat \<Rightarrow> nat option" where
  "scratchfile_window_const_ptrto sw off = mmap_window_const_ptrto (sw_mw sw) off"

definition shrink_scratchfile_window :: "bool \<Rightarrow> nat \<Rightarrow> scratchfile_window \<Rightarrow> vm \<Rightarrow> bool \<times> scratchfile_window \<times> vm" where
  "shrink_scratchfile_window ok amount sw v =
     (case shrink_mmap_window ok amount (sw_mw sw) v of (e, mw, v1) \<Rightarrow> (e, sw\<lparr>sw_mw := mw\<rparr>, v1))"

definition trim_scratchfile_window :: "bool \<Rightarrow> bool \<Rightarrow> bool \<Rightarrow> nat \<Rightarrow> scratchfile_window \<Rightarrow> vm \<Rightarrow> bool \<times> scratchfile_window \<times> vm" where
  "trim_scratchfile_window ok ftok w amount sw v =
     (case trim_mmap_window ok amount (sw_mw sw) v of
        (True, mw, v1) \<Rightarrow> (True, sw\<lparr>sw_mw := mw\<rparr>, v1)
      | (False, mw, v1) \<Rightarrow>
          let sw1 = sw\<lparr>sw_mw := mw\<rparr> in
          if w \<and> sw_fd sw1 \<ge> 0 then (case Ftruncate ftok (int (scratchfile_window_totallen sw1) - int amount) v1 of (ft, v2) \<Rightarrow> (ft, sw1, v2))
          else (False, sw1, v1))"

definition extend_scratchfile_window ::
  "bool \<Rightarrow> nat \<Rightarrow> bool \<Rightarrow> nat \<Rightarrow> scratchfile_window \<Rightarrow> vm \<Rightarrow> mem \<Rightarrow> bool \<times> scratchfile_window \<times> vm \<times> mem" where
  "extend_scratchfile_window ftok ans w amount sw v m =
     (let (ft, v1) = (if w \<and> sw_fd sw \<ge> 0 then Ftruncate ftok (int (scratchfile_window_totallen sw + amount)) v else (False, v)) in
      if ft then (True, sw, v1, m)
      else case extend_mmap_window ans amount (sw_mw sw) v1 m of
          (e, mw, v2, m2) \<Rightarrow> (e, sw\<lparr>sw_mw := mw\<rparr>, v2, m2))"

definition slide_scratchfile_window ::
  "bool \<Rightarrow> nat \<Rightarrow> (nat \<Rightarrow> bool) \<Rightarrow> bool \<Rightarrow> bool \<Rightarrow> nat \<Rightarrow> scratchfile_window \<Rightarrow> vm \<Rightarrow> mem \<Rightarrow> bool \<times> scratchfile_window \<times> vm \<times> mem" where
  "slide_scratchfile_window ftok ans lost ok w amount sw v m =
     (let (ft, v1) = (if w \<and> sw_fd sw \<ge> 0 then Ftruncate ftok (int (scratchfile_window_totallen sw + amount)) v else (False, v)) in
      if ft then (True, sw, v1, m)
      else case slide_mmap_window ans lost ok (sw_fd sw) amount (sw_mw sw) v1 m of
          (e, mw, v2, m2) \<Rightarrow> (e, sw\<lparr>sw_mw := mw\<rparr>, v2, m2))"

definition reset_scratchfile_window ::
  "nat \<Rightarrow> (nat \<Rightarrow> bool) \<Rightarrow> bool \<Rightarrow> bool \<Rightarrow> bool \<Rightarrow> scratchfile_window \<Rightarrow> vm \<Rightarrow> bool \<times> scratchfile_window \<times> vm" where
  "reset_scratchfile_window ans lost ok ftok w sw v =
     (case reset_mmap_window ans lost ok (sw_fd sw) (sw_mw sw) v of
        (True, mw, v1) \<Rightarrow> (True, sw\<lparr>sw_mw := mw\<rparr>, v1)
      | (False, mw, v1) \<Rightarrow>
          let sw1 = sw\<lparr>sw_mw := mw\<rparr> in
          if w \<and> sw_fd sw1 \<ge> 0 then (case Ftruncate ftok (int (scratchfile_window_totallen sw1)) v1 of (ft, v2) \<Rightarrow> (ft, sw1, v2))
          else (False, sw1, v1))"

definition release_scratchfile_window :: "bool \<Rightarrow> scratchfile_window \<Rightarrow> vm \<Rightarrow> mem \<Rightarrow> bool \<times> scratchfile_window \<times> vm \<times> mem" where
  "release_scratchfile_window ok sw v m =
     (case release_mmap_window ok (sw_mw sw) v m of
        (e, mw, v1, m1) \<Rightarrow> (e, sw\<lparr>sw_fd := -1, sw_mw := mw\<rparr>, v1, m1))"

subsection \<open>Rings\<close>

text \<open>The same operations on a structure of its own, but for \<open>trim\<close>, which asks for no protection.\<close>

record scratchfile_ring =
  rw_mw :: mmap_window
  rw_fd :: int

definition initialize_scratchfile_ring ::
  "bool \<Rightarrow> nat \<Rightarrow> int \<Rightarrow> bool \<Rightarrow> nat \<Rightarrow> scratchfile_ring \<Rightarrow> vm \<Rightarrow> mem \<Rightarrow> bool \<times> scratchfile_ring \<times> vm \<times> mem" where
  "initialize_scratchfile_ring ftok ans fd w len rw v m =
     (let rw1 = rw\<lparr>rw_fd := fd\<rparr>;
          (ft, v1) = (if fd \<ge> 0 \<and> w then Ftruncate ftok (int len) v else (False, v))
      in if ft then (True, rw1, v1, m)
         else case initialize_mmap_window ans fd len (rw_mw rw1) v1 m of
             (e, mw, v2, m2) \<Rightarrow> (e, rw1\<lparr>rw_mw := mw\<rparr>, v2, m2))"

definition scratchfile_ring_totallen :: "scratchfile_ring \<Rightarrow> nat" where
  "scratchfile_ring_totallen rw = mmap_window_totallen (rw_mw rw)"

definition scratchfile_ring_maplen :: "scratchfile_ring \<Rightarrow> nat" where
  "scratchfile_ring_maplen rw = mmap_window_maplen (rw_mw rw)"

definition scratchfile_ring_charat :: "scratchfile_ring \<Rightarrow> nat \<Rightarrow> vm \<Rightarrow> int option" where
  "scratchfile_ring_charat rw off v = mmap_window_charat (rw_mw rw) off v"

definition scratchfile_ring_ptrto :: "scratchfile_ring \<Rightarrow> nat \<Rightarrow> nat option" where
  "scratchfile_ring_ptrto rw off = mmap_window_ptrto (rw_mw rw) off"

definition scratchfile_ring_const_ptrto :: "scratchfile_ring \<Rightarrow> nat \<Rightarrow> nat option" where
  "scratchfile_ring_const_ptrto rw off = mmap_window_const_ptrto (rw_mw rw) off"

definition shrink_scratchfile_ring :: "bool \<Rightarrow> nat \<Rightarrow> scratchfile_ring \<Rightarrow> vm \<Rightarrow> bool \<times> scratchfile_ring \<times> vm" where
  "shrink_scratchfile_ring ok amount rw v =
     (case shrink_mmap_window ok amount (rw_mw rw) v of (e, mw, v1) \<Rightarrow> (e, rw\<lparr>rw_mw := mw\<rparr>, v1))"

definition trim_scratchfile_ring :: "bool \<Rightarrow> bool \<Rightarrow> nat \<Rightarrow> scratchfile_ring \<Rightarrow> vm \<Rightarrow> bool \<times> scratchfile_ring \<times> vm" where
  "trim_scratchfile_ring ok ftok amount rw v =
     (case trim_mmap_window ok amount (rw_mw rw) v of
        (True, mw, v1) \<Rightarrow> (True, rw\<lparr>rw_mw := mw\<rparr>, v1)
      | (False, mw, v1) \<Rightarrow>
          let rw1 = rw\<lparr>rw_mw := mw\<rparr> in
          if rw_fd rw1 \<ge> 0 then (case Ftruncate ftok (int (scratchfile_ring_totallen rw1) - int amount) v1 of (ft, v2) \<Rightarrow> (ft, rw1, v2))
          else (False, rw1, v1))"

definition extend_scratchfile_ring ::
  "bool \<Rightarrow> nat \<Rightarrow> bool \<Rightarrow> nat \<Rightarrow> scratchfile_ring \<Rightarrow> vm \<Rightarrow> mem \<Rightarrow> bool \<times> scratchfile_ring \<times> vm \<times> mem" where
  "extend_scratchfile_ring ftok ans w amount rw v m =
     (let (ft, v1) = (if w \<and> rw_fd rw \<ge> 0 then Ftruncate ftok (int (scratchfile_ring_totallen rw + amount)) v else (False, v)) in
      if ft then (True, rw, v1, m)
      else case extend_mmap_window ans amount (rw_mw rw) v1 m of
          (e, mw, v2, m2) \<Rightarrow> (e, rw\<lparr>rw_mw := mw\<rparr>, v2, m2))"

definition slide_scratchfile_ring ::
  "bool \<Rightarrow> nat \<Rightarrow> (nat \<Rightarrow> bool) \<Rightarrow> bool \<Rightarrow> bool \<Rightarrow> nat \<Rightarrow> scratchfile_ring \<Rightarrow> vm \<Rightarrow> mem \<Rightarrow> bool \<times> scratchfile_ring \<times> vm \<times> mem" where
  "slide_scratchfile_ring ftok ans lost ok w amount rw v m =
     (let (ft, v1) = (if w \<and> rw_fd rw \<ge> 0 then Ftruncate ftok (int (scratchfile_ring_totallen rw + amount)) v else (False, v)) in
      if ft then (True, rw, v1, m)
      else case slide_mmap_window ans lost ok (rw_fd rw) amount (rw_mw rw) v1 m of
          (e, mw, v2, m2) \<Rightarrow> (e, rw\<lparr>rw_mw := mw\<rparr>, v2, m2))"

definition reset_scratchfile_ring :: "nat \<Rightarrow> (nat \<Rightarrow> bool) \<Rightarrow> bool \<Rightarrow> bool \<Rightarrow> bool \<Rightarrow> scratchfile_ring \<Rightarrow> vm \<Rightarrow> bool \<times> scratchfile_ring \<times> vm" where
  "reset_scratchfile_ring ans lost ok ftok w rw v =
     (case reset_mmap_window ans lost ok (rw_fd rw) (rw_mw rw) v of
        (True, mw, v1) \<Rightarrow> (True, rw\<lparr>rw_mw := mw\<rparr>, v1)
      | (False, mw, v1) \<Rightarrow>
          let rw1 = rw\<lparr>rw_mw := mw\<rparr> in
          if w \<and> rw_fd rw1 \<ge> 0 then (case Ftruncate ftok (int (scratchfile_ring_totallen rw1)) v1 of (ft, v2) \<Rightarrow> (ft, rw1, v2))
          else (False, rw1, v1))"

definition release_scratchfile_ring :: "bool \<Rightarrow> scratchfile_ring \<Rightarrow> vm \<Rightarrow> mem \<Rightarrow> bool \<times> scratchfile_ring \<times> vm \<times> mem" where
  "release_scratchfile_ring ok rw v m =
     (case release_mmap_window ok (rw_mw rw) v m of
        (e, mw, v1, m1) \<Rightarrow> (e, rw\<lparr>rw_fd := -1, rw_mw := mw\<rparr>, v1, m1))"

subsection \<open>The invariant\<close>

text \<open>
  The window lies below \<open>MAP_FAILED\<close> and its addresses show the object from \<open>mapoff\<close> on, or nothing.
  When it is \<open>intact\<close> they all do, and the file reaches to its end.
\<close>

definition window_ok :: "bool \<Rightarrow> mmap_window \<Rightarrow> vm \<Rightarrow> bool" where
  "window_ok intact mw v \<longleftrightarrow> mapbase mw + maplen mw \<le> MAP_FAILED \<and>
     (\<forall>i < maplen mw. seen v (mapbase mw + i) = Some (mapoff mw + i) \<or> \<not> intact \<and> seen v (mapbase mw + i) = None) \<and>
     (\<exists>n. flen v = Some n \<and> (intact \<longrightarrow> mmap_window_totallen mw \<le> n))"

lemma show_range_simps [simp]: "flen (show_range a n off v) = flen v" "flen (hide_range a n v) = flen v"
  "bytes (show_range a n off v) = bytes v" "bytes (hide_range a n v) = bytes v"
  by (simp_all add: show_range_def hide_range_def)

lemma window_ok_weaken: "window_ok b mw v \<Longrightarrow> (c \<longrightarrow> b) \<Longrightarrow> window_ok c mw v"
  unfolding window_ok_def by blast

lemma window_ok_lose:
  assumes "window_ok b mw v" "\<forall>x. seen v' x = (if P x then None else seen v x)" "flen v' = flen v"
    "c \<longrightarrow> b \<and> (\<forall>i < maplen mw. \<not> P (mapbase mw + i))"
  shows "window_ok c mw v'"
proof -
  have "seen v' (mapbase mw + i) = Some (mapoff mw + i) \<or> \<not> c \<and> seen v' (mapbase mw + i) = None" if "i < maplen mw" for i
  proof -
    have "seen v (mapbase mw + i) = Some (mapoff mw + i) \<or> \<not> b \<and> seen v (mapbase mw + i) = None"
      using assms(1) that unfolding window_ok_def by blast
    then show ?thesis using assms(2,4) that by (cases "P (mapbase mw + i)") auto
  qed
  moreover have "mapbase mw + maplen mw \<le> MAP_FAILED" "\<exists>n. flen v' = Some n \<and> (c \<longrightarrow> mmap_window_totallen mw \<le> n)"
    using assms(1,3,4) by (auto simp: window_ok_def)
  ultimately show ?thesis unfolding window_ok_def by blast
qed

lemma window_ok_longer:
  assumes "window_ok b mw v" "Ftruncate ok len v = (f, v')" "int (mmap_window_totallen mw) \<le> len"
  shows "window_ok b mw v'"
  using assms by (auto simp: window_ok_def Ftruncate_def split: if_splits)

lemma window_ok_cut:
  assumes "window_ok b mw v" "Ftruncate ok len v = (f, v')"
  shows "window_ok (b \<and> f) mw v'"
  using assms by (auto simp: window_ok_def Ftruncate_def split: if_splits)

lemma Ftruncate_len: "Ftruncate ok len v = (False, v') \<Longrightarrow> flen v = Some n \<Longrightarrow> flen v' = Some (nat len) \<and> 0 \<le> len"
  by (auto simp: Ftruncate_def split: if_splits)

lemma initialize_ok:
  assumes "initialize_mmap_window ans fd len mw v m = (False, mw', v', m')" "0 \<le> fd" "flen v = Some n" "len \<le> n" "ans + len \<le> MAP_FAILED"
  shows "window_ok True mw' v'"
  using assms by (auto simp: initialize_mmap_window_def Let_def window_ok_def Mmap_def show_range_def mmap_window_totallen_def split: if_splits)

lemma shrink_ok:
  assumes "window_ok b mw v" "shrink_mmap_window ok n mw v = (e, mw', v')"
  shows "window_ok b mw' v'"
proof (cases "n = 0 \<or> n \<ge> maplen mw \<or> \<not> ok")
  case False
  then have v': "v' = hide_range (mapbase mw) n v"
    "mw' = mw\<lparr>mapbase := mapbase mw + n, maplen := maplen mw - n, mapoff := mapoff mw + n\<rparr>"
    using assms(2) by (auto simp: shrink_mmap_window_def Munmap_def Let_def)
  have "seen v' (mapbase mw' + i) = Some (mapoff mw' + i) \<or> \<not> b \<and> seen v' (mapbase mw' + i) = None" if "i < maplen mw'" for i
  proof -
    have "n + i < maplen mw" using that v' by simp
    then have "seen v (mapbase mw + (n + i)) = Some (mapoff mw + (n + i)) \<or> \<not> b \<and> seen v (mapbase mw + (n + i)) = None"
      using assms(1) unfolding window_ok_def by blast
    then show ?thesis by (simp add: v' hide_range_def add.assoc)
  qed
  then show ?thesis using assms(1) False by (auto simp: window_ok_def v' mmap_window_totallen_def)
qed (use assms in \<open>auto simp: shrink_mmap_window_def Munmap_def Let_def split: if_splits\<close>)

lemma trim_ok:
  assumes "window_ok b mw v" "trim_mmap_window ok n mw v = (e, mw', v')"
  shows "window_ok b mw' v'"
proof (cases "n = 0 \<or> n \<ge> maplen mw \<or> \<not> ok")
  case False
  then have v': "v' = hide_range (mapbase mw + (maplen mw - n)) n v" "mw' = mw\<lparr>maplen := maplen mw - n\<rparr>"
    using assms(2) by (auto simp: trim_mmap_window_def Munmap_def Let_def)
  have "window_ok b mw' v" using assms(1) by (auto simp: v'(2) window_ok_def mmap_window_totallen_def)
  then show ?thesis
    by (rule window_ok_lose [where P = "\<lambda>x. mapbase mw + (maplen mw - n) \<le> x \<and> x < mapbase mw + (maplen mw - n) + n"])
      (auto simp: v' hide_range_def)
qed (use assms in \<open>auto simp: trim_mmap_window_def Munmap_def Let_def split: if_splits\<close>)

lemma extend_ok:
  assumes "window_ok b mw v" "extend_mmap_window ans n mw v m = (e, mw', v', m')"
    "ans = MAP_FAILED \<or> ans + maplen mw + n \<le> MAP_FAILED" "flen v = Some l" "mmap_window_totallen mw + n \<le> l"
  shows "window_ok b mw' v'"
  using assms
  by (auto simp: extend_mmap_window_def Let_def window_ok_def Mremap_def show_range_def hide_range_def mmap_window_totallen_def split: if_splits)

text \<open>With MAP_FIXED the kernel answers the address it was given, or a failure.\<close>

lemma slide_ok:
  assumes "window_ok b mw v" "slide_mmap_window ans lost ok fd n mw v m = (e, mw', v', m')" "0 \<le> fd"
    "ans \<in> {mapbase mw, MAP_FAILED}" "flen v = Some l" "mmap_window_totallen mw + n \<le> l"
  shows "window_ok (b \<and> (ans = MAP_FAILED \<longrightarrow> lost = (\<lambda>_. False))) mw' v'"
proof (cases "n = 0 \<or> maplen mw = 0")
  case True
  with assms(1,2) show ?thesis by (auto simp: slide_mmap_window_def window_ok_def)
next
  case False
  show ?thesis
  proof (cases "ans = mapbase mw \<and> ans \<noteq> MAP_FAILED")
    case True
    with False assms show ?thesis
      by (auto simp: slide_mmap_window_def Mmap_fixed_def Let_def window_ok_def Mmap_def show_range_def mmap_window_totallen_def)
  next
    case fail: False
    have "mapbase mw \<noteq> MAP_FAILED" using assms(1) False by (auto simp: window_ok_def)
    with False fail assms(2,4) have "mw' = mw" "ans = MAP_FAILED"
      "v' = v\<lparr>seen := (\<lambda>x. if mapbase mw \<le> x \<and> x < mapbase mw + maplen mw \<and> lost x then None else seen v x)\<rparr>"
      by (auto simp: slide_mmap_window_def Mmap_fixed_def Let_def)
    with window_ok_lose [OF assms(1), of v' "\<lambda>x. mapbase mw \<le> x \<and> x < mapbase mw + maplen mw \<and> lost x"] show ?thesis by simp
  qed
qed

lemma reset_ok:
  assumes "window_ok b mw v" "reset_mmap_window ans lost ok fd mw v = (e, mw', v')" "0 \<le> fd" "ans \<in> {mapbase mw, MAP_FAILED}"
  shows "window_ok (b \<and> (ans = MAP_FAILED \<longrightarrow> lost = (\<lambda>_. False))) mw' v'"
proof (cases "maplen mw = 0")
  case True
  with assms(1,2) show ?thesis by (auto simp: reset_mmap_window_def window_ok_def)
next
  case False
  show ?thesis
  proof (cases "ans = mapbase mw \<and> ans \<noteq> MAP_FAILED")
    case True
    with False assms show ?thesis
      by (auto simp: reset_mmap_window_def Mmap_fixed_def Let_def window_ok_def Mmap_def show_range_def mmap_window_totallen_def)
  next
    case fail: False
    have "mapbase mw \<noteq> MAP_FAILED" using assms(1) False by (auto simp: window_ok_def)
    with False fail assms(2-4) have "mw' = mw" "ans = MAP_FAILED"
      "v' = v\<lparr>seen := (\<lambda>x. if mapbase mw \<le> x \<and> x < mapbase mw + maplen mw \<and> lost x then None else seen v x)\<rparr>"
      by (auto simp: reset_mmap_window_def Mmap_fixed_def Let_def)
    with window_ok_lose [OF assms(1), of v' "\<lambda>x. mapbase mw \<le> x \<and> x < mapbase mw + maplen mw \<and> lost x"] show ?thesis by simp
  qed
qed

lemma window_ok_loads:
  assumes "window_ok b mw v" "mapoff mw \<le> off" "off < mmap_window_totallen mw"
  shows "load v (mapbase mw + (off - mapoff mw)) = Some (bytes v off) \<or> \<not> b \<and> load v (mapbase mw + (off - mapoff mw)) = None"
proof -
  have "off - mapoff mw < maplen mw" using assms(2,3) by (simp add: mmap_window_totallen_def)
  then have "seen v (mapbase mw + (off - mapoff mw)) = Some off \<or> \<not> b \<and> seen v (mapbase mw + (off - mapoff mw)) = None"
    using assms(1,2) unfolding window_ok_def by (metis le_add_diff_inverse)
  moreover obtain n where "flen v = Some n" "b \<longrightarrow> off < n" using assms(1,3) by (auto simp: window_ok_def)
  ultimately show ?thesis using assms(2) by (cases "n \<le> off") (auto simp: load_def)
qed

subsection \<open>Runs\<close>

text \<open>
  A writable scratch file and what is done to its window until it is released; the kernel answers
  as it documents. The argument is whether the window stays intact: it does unless a remapping
  that failed has lost pages, or a trim has cut the file.
\<close>

inductive window_step :: "bool \<Rightarrow> scratchfile_window \<times> vm \<times> mem \<Rightarrow> scratchfile_window \<times> vm \<times> mem \<Rightarrow> bool" where
  extend: "window_step True (sw, v, m) (sw', v', m')"
    if "extend_scratchfile_window ftok ans True n sw v m = (e, sw', v', m')" "ans = MAP_FAILED \<or> ans + maplen (sw_mw sw) + n \<le> MAP_FAILED"
| shrink: "window_step True (sw, v, m) (sw', v', m)"
    if "shrink_scratchfile_window ok n sw v = (e, sw', v')"
| trim: "window_step e (sw, v, m) (sw', v', m)"
    if "trim_scratchfile_window ok ftok True n sw v = (e, sw', v')"
| slide: "window_step (ans = MAP_FAILED \<longrightarrow> lost = (\<lambda>_. False)) (sw, v, m) (sw', v', m')"
    if "slide_scratchfile_window ftok ans lost ok True n sw v m = (e, sw', v', m')" "ans \<in> {mapbase (sw_mw sw), MAP_FAILED}"
| reset: "window_step (ans = MAP_FAILED \<longrightarrow> lost = (\<lambda>_. False)) (sw, v, m) (sw', v', m)"
    if "reset_scratchfile_window ans lost ok ftok True sw v = (e, sw', v')" "ans \<in> {mapbase (sw_mw sw), MAP_FAILED}"

inductive window_reach :: "bool \<Rightarrow> scratchfile_window \<times> vm \<times> mem \<Rightarrow> bool" where
  start: "window_reach True (sw', v', m')"
    if "initialize_scratchfile_window ftok ans fd True len sw v m = (False, sw', v', m')" "0 \<le> fd" "flen v \<noteq> None" "ans + len \<le> MAP_FAILED \<or> ans = MAP_FAILED"
| step: "window_reach (b \<and> c) s'" if "window_reach b s" "window_step c s s'"

lemma window_step_ok:
  assumes "window_step c (sw, v, m) (sw', v', m')" "window_ok b (sw_mw sw) v" "0 \<le> sw_fd sw"
  shows "window_ok (b \<and> c) (sw_mw sw') v' \<and> sw_fd sw' = sw_fd sw"
  using assms(1)
proof cases
  case (extend ftok ans n e)
  obtain f v1 where t: "Ftruncate ftok (int (scratchfile_window_totallen sw + n)) v = (f, v1)"
    by (cases "Ftruncate ftok (int (scratchfile_window_totallen sw + n)) v")
  have ok1: "window_ok b (sw_mw sw) v1" using window_ok_longer [OF assms(2) t] by (simp add: scratchfile_window_totallen_def)
  show ?thesis
  proof (cases f)
    case True
    with extend(1,2) t assms(3) ok1 show ?thesis by (simp add: extend_scratchfile_window_def)
  next
    case False
    with t assms(2) have "flen v1 = Some (mmap_window_totallen (sw_mw sw) + n)"
      using Ftruncate_len by (fastforce simp: window_ok_def scratchfile_window_totallen_def)
    with extend_ok [OF ok1 _ extend(3)] extend(1,2) t assms(3) False show ?thesis
      by (auto simp: extend_scratchfile_window_def split: prod.splits)
  qed
next
  case (shrink ok n e)
  then show ?thesis using shrink_ok [OF assms(2)] by (auto simp: shrink_scratchfile_window_def split: prod.splits)
next
  case (trim ok ftok n)
  obtain e1 mw v1 where t: "trim_mmap_window ok n (sw_mw sw) v = (e1, mw, v1)" by (rule prod_cases3)
  have ok1: "window_ok b mw v1" by (rule trim_ok [OF assms(2) t])
  show ?thesis
  proof (cases e1)
    case True
    with trim t have "sw' = sw\<lparr>sw_mw := mw\<rparr>" "v' = v1" by (simp_all add: trim_scratchfile_window_def)
    with window_ok_weaken [OF ok1, of "b \<and> c"] show ?thesis by simp
  next
    case False
    obtain f v2 where f: "Ftruncate ftok (int (scratchfile_window_totallen (sw\<lparr>sw_mw := mw\<rparr>)) - int n) v1 = (f, v2)" by (rule prod.exhaust)
    with trim t False assms(3) have "c = f" "sw' = sw\<lparr>sw_mw := mw\<rparr>" "v' = v2" by (simp_all add: trim_scratchfile_window_def Let_def)
    with window_ok_cut [OF ok1 f] show ?thesis by simp
  qed
next
  case (slide ftok ans lost ok n e)
  obtain f v1 where t: "Ftruncate ftok (int (scratchfile_window_totallen sw + n)) v = (f, v1)"
    by (cases "Ftruncate ftok (int (scratchfile_window_totallen sw + n)) v")
  have ok1: "window_ok b (sw_mw sw) v1" using window_ok_longer [OF assms(2) t] by (simp add: scratchfile_window_totallen_def)
  show ?thesis
  proof (cases f)
    case True
    with slide(2) t assms(3) window_ok_weaken [OF ok1, of "b \<and> c"] show ?thesis by (simp add: slide_scratchfile_window_def)
  next
    case False
    with t assms(2) have "flen v1 = Some (mmap_window_totallen (sw_mw sw) + n)"
      using Ftruncate_len by (fastforce simp: window_ok_def scratchfile_window_totallen_def)
    moreover obtain mw where mw: "slide_mmap_window ans lost ok (sw_fd sw) n (sw_mw sw) v1 m = (e, mw, v', m')" "sw' = sw\<lparr>sw_mw := mw\<rparr>"
      using slide(2) t assms(3) False by (auto simp: slide_scratchfile_window_def split: prod.splits)
    ultimately show ?thesis using slide_ok [OF ok1 mw(1) assms(3) slide(3)] slide(1) by simp
  qed
next
  case (reset ans lost ok ftok e)
  obtain e1 mw v1 where r: "reset_mmap_window ans lost ok (sw_fd sw) (sw_mw sw) v = (e1, mw, v1)"
    by (cases "reset_mmap_window ans lost ok (sw_fd sw) (sw_mw sw) v")
  have "window_ok (b \<and> c) mw v1" using reset_ok [OF assms(2) r assms(3) reset(4)] reset(1,2) by simp
  moreover from this have "window_ok (b \<and> c) mw v2" if "Ftruncate ftok (int (mmap_window_totallen mw)) v1 = (f, v2)" for f v2
    using window_ok_longer [OF _ that] by simp
  ultimately show ?thesis using reset(3) r assms(3)
    by (auto simp: reset_scratchfile_window_def scratchfile_window_totallen_def Let_def split: prod.splits bool.splits)
qed

lemma window_reach_ok: "window_reach b (sw, v, m) \<Longrightarrow> window_ok b (sw_mw sw) v \<and> 0 \<le> sw_fd sw"
proof (induction b "(sw, v, m)" arbitrary: sw v m rule: window_reach.induct)
  case (start ftok ans fd len sw v m sw' v' m')
  obtain n where n: "flen v = Some n" using start(3) by blast
  obtain f v1 where t: "Ftruncate ftok (int len) v = (f, v1)" by (cases "Ftruncate ftok (int len) v")
  with start(1,2) have f: "\<not> f" by (auto simp: initialize_scratchfile_window_def)
  then have "flen v1 = Some len" using Ftruncate_len [of ftok "int len" v v1 n] t n by simp
  moreover from start(1,2) t f obtain mw where i: "initialize_mmap_window ans fd len (sw_mw sw) v1 m = (False, mw, v', m')" "sw' = sw\<lparr>sw_fd := fd, sw_mw := mw\<rparr>"
    by (auto simp: initialize_scratchfile_window_def split: prod.splits)
  moreover have "ans \<noteq> MAP_FAILED" using i(1) by (auto simp: initialize_mmap_window_def Let_def split: if_splits)
  ultimately show ?case using initialize_ok [OF i(1) start(2)] start(2,4) by simp
next
  case (step b s c)
  obtain sw1 v1 m1 where s: "s = (sw1, v1, m1)" by (cases s)
  from step(2) [OF s] step(3) s show ?case using window_step_ok by auto
qed

subsection \<open>Properties\<close>

text \<open>
  C32: Whatever is done to the window of a writable scratch file until it is released (extending,
  shrinking, trimming, sliding, resetting, in any order and whichever of the system calls fail), the
  character at a virtual offset is -1 before the window and beyond the offset one past its end. In
  the window no byte of another offset is ever read: as long as no failed remapping has lost pages
  and no trim has cut the file too short (as every trim does), it is the byte of the file there, and
  otherwise that or a fault. At the offset one past the end the code, which compares with \<open>>\<close>, reads
  the address behind the map.
\<close>

theorem scratchfile_window_charat_bounds:
  assumes "window_reach intact (sw, v, m)"
  shows "(off < mapoff (sw_mw sw) \<or> scratchfile_window_totallen sw < off \<longrightarrow> scratchfile_window_charat sw off v = Some (-1)) \<and>
    (mapoff (sw_mw sw) \<le> off \<and> off < scratchfile_window_totallen sw \<longrightarrow>
       scratchfile_window_charat sw off v = Some (sext (bytes v off)) \<or> \<not> intact \<and> scratchfile_window_charat sw off v = None) \<and>
    scratchfile_window_charat sw (scratchfile_window_totallen sw) v = map_option sext (load v (mapbase (sw_mw sw) + maplen (sw_mw sw)))"
  using window_ok_loads [OF conjunct1 [OF window_reach_ok [OF assms]], of off]
  by (auto simp: scratchfile_window_charat_def mmap_window_charat_def scratchfile_window_totallen_def mmap_window_totallen_def)

text \<open>A window of four pages, slid by one.\<close>

definition blank :: vm where
  "blank = \<lparr>seen = (\<lambda>_. None), bytes = (\<lambda>_. NUL), flen = Some 0\<rparr>"

definition unset_sw :: scratchfile_window where
  "unset_sw = \<lparr>sw_mw = \<lparr>mapbase = 0, maplen = 0, mapoff = 0\<rparr>, sw_fd = -1\<rparr>"

lemma four_pages:
  "\<exists>sw v m. window_reach True (sw, v, m) \<and> sw_mw sw = \<lparr>mapbase = 8192, maplen = 16384, mapoff = 4096\<rparr> \<and> sw_fd sw = 3 \<and> bytes v = (\<lambda>_. NUL)"
proof -
  have "\<exists>sw v m. initialize_scratchfile_window True 8192 3 True 16384 unset_sw blank plenty_mem = (False, sw, v, m) \<and>
    sw_mw sw = \<lparr>mapbase = 8192, maplen = 16384, mapoff = 0\<rparr> \<and> sw_fd sw = 3 \<and> bytes v = (\<lambda>_. NUL) \<and> flen v = Some 16384"
    by (simp add: initialize_scratchfile_window_def initialize_mmap_window_def Ftruncate_def Mmap_def Let_def MAP_FAILED_def unset_sw_def blank_def)
  then obtain sw v m where i: "initialize_scratchfile_window True 8192 3 True 16384 unset_sw blank plenty_mem = (False, sw, v, m)"
    "sw_mw sw = \<lparr>mapbase = 8192, maplen = 16384, mapoff = 0\<rparr>" "sw_fd sw = 3" "bytes v = (\<lambda>_. NUL)" "flen v = Some 16384" by blast
  have r: "window_reach True (sw, v, m)"
    by (rule window_reach.start [OF i(1)]) (simp_all add: blank_def MAP_FAILED_def)
  have "\<exists>e sw' v' m'. slide_scratchfile_window True 8192 (\<lambda>_. False) True True 4096 sw v m = (e, sw', v', m') \<and>
    sw_mw sw' = \<lparr>mapbase = 8192, maplen = 16384, mapoff = 4096\<rparr> \<and> sw_fd sw' = 3 \<and> bytes v' = (\<lambda>_. NUL)"
    using i by (simp add: slide_scratchfile_window_def slide_mmap_window_def Mmap_fixed_def Ftruncate_def Mmap_def Let_def MAP_FAILED_def
        scratchfile_window_totallen_def mmap_window_totallen_def fun_eq_iff) blast
  then obtain e sw' v' m' where s: "slide_scratchfile_window True 8192 (\<lambda>_. False) True True 4096 sw v m = (e, sw', v', m')"
    "sw_mw sw' = \<lparr>mapbase = 8192, maplen = 16384, mapoff = 4096\<rparr>" "sw_fd sw' = 3" "bytes v' = (\<lambda>_. NUL)" by blast
  have "window_step (8192 = MAP_FAILED \<longrightarrow> (\<lambda>_ :: nat. False) = (\<lambda>_. False)) (sw, v, m) (sw', v', m')" by (rule window_step.slide [OF s(1)]) (simp add: i(2))
  from window_reach.step [OF r this] s(2-4) show ?thesis by auto
qed

theorem scratchfile_window_charat_bounds_witness:
  "\<exists>sw v. scratchfile_window_charat sw 4095 v = Some (-1) \<and> scratchfile_window_charat sw 4096 v = Some 0 \<and>
     scratchfile_window_charat sw 20481 v = Some (-1)"
proof -
  obtain sw v m where r: "window_reach True (sw, v, m)" "sw_mw sw = \<lparr>mapbase = 8192, maplen = 16384, mapoff = 4096\<rparr>" "bytes v = (\<lambda>_. NUL)"
    using four_pages by blast
  have "scratchfile_window_totallen sw = 20480" by (simp add: r(2) scratchfile_window_totallen_def mmap_window_totallen_def)
  with scratchfile_window_charat_bounds [OF r(1), of 4095] scratchfile_window_charat_bounds [OF r(1), of 4096]
    scratchfile_window_charat_bounds [OF r(1), of 20481] r(2,3) show ?thesis
    by (intro exI [of _ sw] exI [of _ v]) (simp add: sext_def)
qed

text \<open>
  C33: Trimming cuts the file too short. After a successful trim of a writable scratch file with an
  intact window the file ends \<open>amount\<close> bytes before the window does, because the length that is
  passed to ftruncate has the trimmed bytes taken off twice: reading any of the last \<open>amount\<close>
  bytes of the window is a fault.
\<close>

theorem trim_truncates_twice:
  assumes "window_reach True (sw, v, m)" "trim_scratchfile_window ok ftok True amount sw v = (False, sw', v')"
  shows "flen v' = Some (scratchfile_window_totallen sw' - amount) \<and> amount \<le> scratchfile_window_totallen sw' \<and>
    (off \<in> {scratchfile_window_totallen sw' - amount..<scratchfile_window_totallen sw'} \<longrightarrow> mapoff (sw_mw sw') \<le> off \<longrightarrow>
      scratchfile_window_charat sw' off v' = None)"
proof -
  have ok: "window_ok True (sw_mw sw) v" "0 \<le> sw_fd sw" using window_reach_ok [OF assms(1)] by simp_all
  then obtain n where n: "flen v = Some n" by (auto simp: window_ok_def)
  obtain mw v1 where t: "trim_mmap_window ok amount (sw_mw sw) v = (False, mw, v1)" "sw' = sw\<lparr>sw_mw := mw\<rparr>"
    "Ftruncate ftok (int (mmap_window_totallen mw) - int amount) v1 = (False, v')"
    using assms(2) ok(2) by (auto simp: trim_scratchfile_window_def scratchfile_window_totallen_def Let_def split: prod.splits bool.splits)
  have mw: "mw = (sw_mw sw)\<lparr>maplen := maplen (sw_mw sw) - amount\<rparr>" "flen v1 = Some n" "0 < amount" "amount < maplen (sw_mw sw)"
    "v1 = hide_range (mapbase (sw_mw sw) + (maplen (sw_mw sw) - amount)) amount v"
    using t(1) n by (auto simp: trim_mmap_window_def Munmap_def Let_def split: if_splits)
  have len: "flen v' = Some (mmap_window_totallen mw - amount)" "amount \<le> mmap_window_totallen mw"
    using Ftruncate_len [OF t(3) mw(2)] by (simp_all add: nat_diff_distrib')
  have "scratchfile_window_charat sw' off v' = None"
    if "mmap_window_totallen mw - amount \<le> off" "off < mmap_window_totallen mw" "mapoff mw \<le> off"
  proof -
    let ?i = "off - mapoff mw"
    have i: "?i < maplen mw" using that(2,3) by (simp add: mmap_window_totallen_def)
    have "seen v (mapbase (sw_mw sw) + ?i) = Some (mapoff (sw_mw sw) + ?i)" using ok(1) i mw(1) unfolding window_ok_def by simp
    moreover have "?i < maplen (sw_mw sw) - amount" using i mw(1) by simp
    then have "seen v1 (mapbase (sw_mw sw) + ?i) = seen v (mapbase (sw_mw sw) + ?i)" using mw(4) unfolding mw(5) hide_range_def by auto
    ultimately have "seen v1 (mapbase mw + ?i) = Some off" using that(3) by (simp add: mw(1))
    moreover have "seen v' = seen v1" using t(3) by (auto simp: Ftruncate_def split: if_splits)
    ultimately have "load v' (mapbase mw + ?i) = None" using len(1) that(1) by (simp add: load_def)
    then show ?thesis using t(2) i that(3) by (simp add: scratchfile_window_charat_def mmap_window_charat_def)
  qed
  with len t(2) show ?thesis by (simp add: scratchfile_window_totallen_def)
qed

theorem trim_truncates_twice_witness:
  "\<exists>sw v. flen v = Some 12288 \<and> scratchfile_window_totallen sw = 16384 \<and> scratchfile_window_charat sw 12288 v = None"
proof -
  obtain sw v m where r: "window_reach True (sw, v, m)" "sw_mw sw = \<lparr>mapbase = 8192, maplen = 16384, mapoff = 4096\<rparr>" "sw_fd sw = 3"
    using four_pages by blast
  obtain n where n: "flen v = Some n" using window_reach_ok [OF r(1)] by (auto simp: window_ok_def)
  have "\<exists>sw' v'. trim_scratchfile_window True True True 4096 sw v = (False, sw', v') \<and> sw_mw sw' = \<lparr>mapbase = 8192, maplen = 12288, mapoff = 4096\<rparr>"
    using r(2,3) n by (simp add: trim_scratchfile_window_def trim_mmap_window_def Munmap_def Let_def Ftruncate_def
        scratchfile_window_totallen_def mmap_window_totallen_def)
  then obtain sw' v' where t: "trim_scratchfile_window True True True 4096 sw v = (False, sw', v')" "sw_mw sw' = \<lparr>mapbase = 8192, maplen = 12288, mapoff = 4096\<rparr>"
    by blast
  have l: "scratchfile_window_totallen sw' = 16384" by (simp add: t(2) scratchfile_window_totallen_def mmap_window_totallen_def)
  show ?thesis using trim_truncates_twice [OF r(1) t(1), of 12288] l t(2) by (intro exI [of _ sw'] exI [of _ v']) simp
qed

end
