(* ===== verification/Events.thy ===== *)
theory Events
  imports Memlimit
begin

text \<open>
  The event core of libdank/modules/events (evcore.c, fds.c, signals.c, sources.c) on Linux, with
  the emulation of kevent of libdank/ersatz/compat.h over epoll and the count of descriptors of
  libdank/utils/maxfds.c.

  A callback is a name; calling one is recorded in \<open>called\<close>. The kernel's side of the epoll
  descriptor is the field \<open>epoll\<close>: the events it watches for on each descriptor. What reads on
  the signal descriptors will answer is \<open>pending\<close>. Whether a call of the operating system
  succeeds is an argument. Writing or reading outside an array of sources answers an outer
  \<open>None\<close>. The threads take turns on one handler: \<open>evmain_turn\<close> is one round of a
  thread, and the lock is a flag.
\<close>

subsection \<open>Descriptors\<close>

text \<open>
  The static \<open>max_fd\<close> and the answers of getdtablesize and sysconf; the getrlimit of the code is
  for the log only.
\<close>

definition determine_max_fds :: "int \<Rightarrow> int \<Rightarrow> int \<Rightarrow> int \<times> int" where
  "determine_max_fds dtable sc max_fd =
     (if max_fd \<noteq> 0 then (max_fd, max_fd)
      else if dtable > 0 then (dtable, dtable)
      else (sc + 1, sc))"

definition sanity_check_fd :: "int \<Rightarrow> int \<Rightarrow> int" where
  "sanity_check_fd max_fd fd = (if fd < 0 \<or> fd > max_fd then -1 else fd)"

subsection \<open>Sources\<close>

datatype cbarg = Arg nat | Handler

record 'c evsource =
  rxfxn :: "'c option"
  txfxn :: "'c option"
  cbstate :: cbarg

text \<open>\<open>mutexes z\<close> is whether the lock of source \<open>z\<close> can be made.\<close>

definition create_evsources :: "(nat \<Rightarrow> bool) \<Rightarrow> nat \<Rightarrow> mem \<Rightarrow> 'c evsource list option \<times> mem" where
  "create_evsources mutexes n m =
     (case Malloc (64 * n) m of
        (False, m1) \<Rightarrow> (None, m1)
      | (True, m1) \<Rightarrow>
          if \<forall>z \<in> set [0..<n]. mutexes z
          then (Some (replicate n \<lparr>rxfxn = None, txfxn = None, cbstate = Arg 0\<rparr>), m1)
          else (None, Free True m1))"

definition setup_evsource :: "'c evsource list \<Rightarrow> int \<Rightarrow> 'c option \<Rightarrow> 'c option \<Rightarrow> cbarg \<Rightarrow> 'c evsource list option" where
  "setup_evsource evs n rfxn tfxn v =
     (if n < 0 \<or> int (length evs) \<le> n then None
      else Some (evs[nat n := \<lparr>rxfxn = rfxn, txfxn = tfxn, cbstate = v\<rparr>]))"

text \<open>\<open>call\<close> is the call of a callback; the answer is whether there was none.\<close>

definition handle_evsource_read ::
  "('c \<Rightarrow> int \<Rightarrow> cbarg \<Rightarrow> 'h \<Rightarrow> 'h option) \<Rightarrow> 'c evsource list \<Rightarrow> int \<Rightarrow> 'h \<Rightarrow> (bool \<times> 'h) option" where
  "handle_evsource_read call evs n h =
     (if n < 0 \<or> int (length evs) \<le> n then None
      else case rxfxn (evs ! nat n) of
          None \<Rightarrow> Some (True, h)
        | Some f \<Rightarrow> map_option (\<lambda>h1. (False, h1)) (call f n (cbstate (evs ! nat n)) h))"

definition destroy_evsources :: "'c evsource list option \<Rightarrow> mem \<Rightarrow> mem" where
  "destroy_evsources evs m = Free (evs \<noteq> None) m"

subsection \<open>Event vectors\<close>

datatype evflag = EPOLLIN | EPOLLOUT | EPOLLET | EPOLLRDHUP | EPOLLPRI | EPOLLERR | EPOLLHUP

record kevententry =
  kfd :: int
  kevents :: "evflag set"

text \<open>The queued changes, all of them additions, are the first \<open>changesqueued\<close> entries.\<close>

record evectors =
  changev :: "kevententry list"
  vsizes :: nat

definition create_evector :: "nat \<Rightarrow> mem \<Rightarrow> bool \<times> mem" where
  "create_evector maxfds m =
     (case Malloc (12 * maxfds) m of
        (False, m1) \<Rightarrow> (True, m1)
      | (True, m1) \<Rightarrow>
          (case Malloc (4 * maxfds) m1 of
             (False, m2) \<Rightarrow> (True, Free True m2)
           | (True, m2) \<Rightarrow> (False, m2)))"

definition destroy_evector :: "mem \<Rightarrow> mem" where
  "destroy_evector m = Free True (Free True m)"

definition create_evectors :: "int \<Rightarrow> mem \<Rightarrow> evectors option \<times> mem" where
  "create_evectors maxfds m =
     (if maxfds \<le> 0 then (None, m)
      else case Malloc 40 m of
          (False, m1) \<Rightarrow> (None, m1)
        | (True, m1) \<Rightarrow>
            (case create_evector (nat maxfds) m1 of
               (True, m2) \<Rightarrow> (None, Free True m2)
             | (False, m2) \<Rightarrow>
                 (case create_evector (nat maxfds) m2 of
                    (True, m3) \<Rightarrow> (None, Free True (destroy_evector m3))
                  | (False, m3) \<Rightarrow> (Some \<lparr>changev = [], vsizes = nat maxfds\<rparr>, m3))))"

definition add_evector_kevents :: "evectors \<Rightarrow> kevententry list \<Rightarrow> bool \<times> evectors" where
  "add_evector_kevents e k =
     (if length (changev e) + length k \<ge> vsizes e then (True, e)
      else (False, e\<lparr>changev := changev e @ k\<rparr>))"

definition destroy_evectors :: "evectors option \<Rightarrow> mem \<Rightarrow> mem" where
  "destroy_evectors e m =
     (case e of None \<Rightarrow> m | Some _ \<Rightarrow> Free True (destroy_evector (destroy_evector m)))"

subsection \<open>The handler\<close>

datatype 'f callback = User 'f | Signalfd_demultiplexer

datatype sigread = Siginfo int | Short | Failed errno

record 'f evhandler =
  hfd :: int
  fdarray :: "'f callback evsource list"
  sigarray :: "'f evsource list"
  fdarraysize :: int
  sigarraysize :: int
  externalvec :: "evectors option"
  threadlist :: "evectors list"
  locked :: bool
  epoll :: "int \<Rightarrow> evflag set option"
  called :: "('f \<times> int \<times> cbarg) list"
  pending :: "int \<Rightarrow> sigread list"
  herrno :: errno

text \<open>
  \<open>Kevent\<close> of compat.h, up to its wait: \<open>epoll_ctl\<close> for every change, of which it refuses a
  descriptor it already watches; \<open>ctl_ok\<close> is whether the kernel takes the descriptor at all.
\<close>

fun kevent_changes :: "(int \<Rightarrow> bool) \<Rightarrow> kevententry list \<Rightarrow> (int \<Rightarrow> evflag set option) \<Rightarrow> bool \<times> (int \<Rightarrow> evflag set option)" where
  "kevent_changes ctl_ok [] w = (False, w)"
| "kevent_changes ctl_ok (k # ks) w =
     (if ctl_ok (kfd k) \<and> w (kfd k) = None then kevent_changes ctl_ok ks (w(kfd k \<mapsto> kevents k))
      else (True, snd (kevent_changes ctl_ok ks w)))"

definition flush_evector_changes :: "(int \<Rightarrow> bool) \<Rightarrow> 'f evhandler \<Rightarrow> evectors \<Rightarrow> bool \<times> 'f evhandler \<times> evectors" where
  "flush_evector_changes ctl_ok eh ev =
     (case kevent_changes ctl_ok (changev ev) (epoll eh) of
        (e, w) \<Rightarrow> (e, eh\<lparr>epoll := w, locked := False\<rparr>, ev\<lparr>changev := []\<rparr>))"

subsection \<open>Registering descriptors\<close>

definition add_fd_event :: "evectors \<Rightarrow> int \<Rightarrow> 'c option \<Rightarrow> 'c option \<Rightarrow> bool \<times> evectors" where
  "add_fd_event ev fd rfxn tfxn =
     add_evector_kevents ev
       [\<lparr>kfd = fd, kevents = {EPOLLET, EPOLLRDHUP, EPOLLPRI} \<union> (if rfxn \<noteq> None then {EPOLLIN} else {}) \<union>
          (if tfxn \<noteq> None then {EPOLLOUT} else {})\<rparr>]"

definition add_fd_to_evcore ::
  "'f evhandler \<Rightarrow> evectors \<Rightarrow> int \<Rightarrow> 'f callback option \<Rightarrow> 'f callback option \<Rightarrow> cbarg \<Rightarrow> (bool \<times> 'f evhandler \<times> evectors) option" where
  "add_fd_to_evcore eh ev fd rfxn tfxn st =
     (if fd \<ge> fdarraysize eh then Some (True, eh, ev)
      else if rfxn = None \<and> tfxn = None then Some (True, eh, ev)
      else case add_fd_event ev fd rfxn tfxn of
          (True, ev1) \<Rightarrow> Some (True, eh, ev1)
        | (False, ev1) \<Rightarrow> map_option (\<lambda>fds. (False, eh\<lparr>fdarray := fds\<rparr>, ev1)) (setup_evsource (fdarray eh) fd rfxn tfxn st))"

text \<open>\<open>lock_ok\<close> is whether the lock can be taken.\<close>

definition add_fd_to_evhandler ::
  "bool \<Rightarrow> (int \<Rightarrow> bool) \<Rightarrow> 'f evhandler \<Rightarrow> int \<Rightarrow> 'f callback option \<Rightarrow> 'f callback option \<Rightarrow> cbarg \<Rightarrow> (bool \<times> 'f evhandler) option" where
  "add_fd_to_evhandler lock_ok ctl_ok eh fd rfxn tfxn st =
     (if \<not> lock_ok then Some (True, eh)
      else case externalvec eh of
          None \<Rightarrow> None
        | Some ev \<Rightarrow>
            (case add_fd_to_evcore (eh\<lparr>locked := True\<rparr>) ev fd rfxn tfxn st of
               None \<Rightarrow> None
             | Some (True, eh1, ev1) \<Rightarrow> Some (True, eh1\<lparr>externalvec := Some ev1, locked := False\<rparr>)
             | Some (False, eh1, ev1) \<Rightarrow>
                 (case flush_evector_changes ctl_ok eh1 ev1 of
                    (e, eh2, ev2) \<Rightarrow> Some (e, eh2\<lparr>externalvec := Some ev2\<rparr>))))"

subsection \<open>Registering signals\<close>

text \<open>
  What the system answers: whether sigaddset and pthread_sigmask succeed, and the descriptor of
  signalfd (negative for a failure). A failing registration closes the descriptor.
\<close>

definition add_signal_event ::
  "bool \<Rightarrow> bool \<Rightarrow> int \<Rightarrow> 'f evhandler \<Rightarrow> evectors \<Rightarrow> int \<Rightarrow> 'f option \<Rightarrow> cbarg \<Rightarrow> (bool \<times> 'f evhandler \<times> evectors) option" where
  "add_signal_event set_ok mask_ok fd eh ev sig rfxn st =
     (if \<not> set_ok \<or> \<not> mask_ok \<or> fd < 0 then Some (True, eh, ev)
      else case add_fd_to_evcore eh ev fd (Some Signalfd_demultiplexer) None Handler of
          None \<Rightarrow> None
        | Some (True, eh1, ev1) \<Rightarrow> Some (True, eh1, ev1)
        | Some (False, eh1, ev1) \<Rightarrow>
            map_option (\<lambda>sigs. (False, eh1\<lparr>sigarray := sigs\<rparr>, ev1)) (setup_evsource (sigarray eh1) sig rfxn None st))"

definition add_signal_to_evcore ::
  "bool \<Rightarrow> bool \<Rightarrow> int \<Rightarrow> 'f evhandler \<Rightarrow> evectors \<Rightarrow> int \<Rightarrow> 'f option \<Rightarrow> cbarg \<Rightarrow> (bool \<times> 'f evhandler \<times> evectors) option" where
  "add_signal_to_evcore set_ok mask_ok fd eh ev sig rfxn st =
     (if sig \<ge> sigarraysize eh then Some (True, eh, ev)
      else add_signal_event set_ok mask_ok fd eh ev sig rfxn st)"

definition add_signal_to_evhandler ::
  "bool \<Rightarrow> bool \<Rightarrow> bool \<Rightarrow> (int \<Rightarrow> bool) \<Rightarrow> int \<Rightarrow> 'f evhandler \<Rightarrow> int \<Rightarrow> 'f option \<Rightarrow> cbarg \<Rightarrow> (bool \<times> 'f evhandler) option" where
  "add_signal_to_evhandler lock_ok set_ok mask_ok ctl_ok fd eh sig rfxn st =
     (if \<not> lock_ok then Some (True, eh)
      else case externalvec eh of
          None \<Rightarrow> None
        | Some ev \<Rightarrow>
            (case add_signal_to_evcore set_ok mask_ok fd (eh\<lparr>locked := True\<rparr>) ev sig rfxn st of
               None \<Rightarrow> None
             | Some (True, eh1, ev1) \<Rightarrow> Some (True, eh1\<lparr>externalvec := Some ev1, locked := False\<rparr>)
             | Some (False, eh1, ev1) \<Rightarrow>
                 (case flush_evector_changes ctl_ok eh1 ev1 of
                    (e, eh2, ev2) \<Rightarrow> Some (e, eh2\<lparr>externalvec := Some ev2\<rparr>))))"

subsection \<open>Dispatching\<close>

definition call_user :: "'f \<Rightarrow> int \<Rightarrow> cbarg \<Rightarrow> 'f evhandler \<Rightarrow> 'f evhandler option" where
  "call_user f n v eh = Some (eh\<lparr>called := called eh @ [(f, n, v)]\<rparr>)"

text \<open>
  The loop of signalfd_demultiplexer: it goes on while the read answered something and errno,
  which a successful read leaves as it was, is not EINTR. With nothing pending a read fails
  with EAGAIN.
\<close>

fun demux_loop :: "sigread list \<Rightarrow> 'f evhandler \<Rightarrow> (sigread list \<times> 'f evhandler) option" where
  "demux_loop [] eh = Some ([], eh\<lparr>herrno := EAGAIN\<rparr>)"
| "demux_loop (Failed e # rs) eh = Some (rs, eh\<lparr>herrno := e\<rparr>)"
| "demux_loop (Short # rs) eh = (if herrno eh \<noteq> EINTR then demux_loop rs eh else Some (rs, eh))"
| "demux_loop (Siginfo sig # rs) eh =
     (case handle_evsource_read call_user (sigarray eh) sig eh of
        None \<Rightarrow> None
      | Some (_, eh1) \<Rightarrow> if herrno eh1 \<noteq> EINTR then demux_loop rs eh1 else Some (rs, eh1))"

definition signalfd_demultiplexer :: "int \<Rightarrow> 'f evhandler \<Rightarrow> 'f evhandler option" where
  "signalfd_demultiplexer fd eh =
     (case demux_loop (pending eh fd) eh of
        None \<Rightarrow> None
      | Some (rs, eh1) \<Rightarrow> Some (eh1\<lparr>pending := (pending eh1)(fd := rs)\<rparr>))"

fun call_fd :: "'f callback \<Rightarrow> int \<Rightarrow> cbarg \<Rightarrow> 'f evhandler \<Rightarrow> 'f evhandler option" where
  "call_fd (User f) fd v eh = call_user f fd v eh"
| "call_fd Signalfd_demultiplexer fd v eh = signalfd_demultiplexer fd eh"

definition handle_read_event :: "kevententry \<Rightarrow> 'f evhandler \<Rightarrow> (bool \<times> 'f evhandler) option" where
  "handle_read_event k eh =
     (if kfd k \<ge> fdarraysize eh \<or> kfd k < 0 then Some (False, eh)
      else handle_evsource_read call_fd (fdarray eh) (kfd k) eh)"

text \<open>\<open>handle_write_event\<close> only writes to the log.\<close>

definition handle_write_event :: "kevententry \<Rightarrow> bool" where
  "handle_write_event k = False"

definition handle_event :: "kevententry \<Rightarrow> 'f evhandler \<Rightarrow> 'f evhandler option" where
  "handle_event k eh =
     (case (if EPOLLIN \<in> kevents k then handle_read_event k eh else Some (False, eh)) of
        None \<Rightarrow> None
      | Some (True, eh1) \<Rightarrow> Some eh1
      | Some (False, eh1) \<Rightarrow>
          if EPOLLOUT \<in> kevents k \<and> handle_write_event k then Some eh1 else Some eh1)"

text \<open>From the last event to the first.\<close>

fun handle_events :: "nat \<Rightarrow> 'f evhandler \<Rightarrow> kevententry list \<Rightarrow> 'f evhandler option" where
  "handle_events 0 eh evs = Some eh"
| "handle_events (Suc n) eh evs =
     (if n \<ge> length evs then None
      else case handle_event (evs ! n) eh of None \<Rightarrow> None | Some eh1 \<Rightarrow> handle_events n eh1 evs)"

text \<open>One round of a thread's loop; \<open>evs\<close> is what epoll_wait answers, \<open>None\<close> for an error.\<close>

definition evmain_turn :: "(int \<Rightarrow> bool) \<Rightarrow> kevententry list option \<Rightarrow> 'f evhandler \<Rightarrow> evectors \<Rightarrow> ('f evhandler \<times> evectors) option" where
  "evmain_turn ctl_ok evs eh ev =
     (case kevent_changes ctl_ok (changev ev) (epoll eh) of
        (e, w) \<Rightarrow>
          let eh1 = eh\<lparr>epoll := w\<rparr>; ev1 = ev\<lparr>changev := []\<rparr> in
          (case (if e then None else evs) of
             None \<Rightarrow> Some (eh1, ev1)
           | Some ks \<Rightarrow> if ks = [] then Some (eh1, ev1) else map_option (\<lambda>eh2. (eh2, ev1)) (handle_events (length ks) eh1 ks)))"

subsection \<open>Life of a handler\<close>

text \<open>What the system answers while a handler is made.\<close>

record boot =
  epfd :: int
  nonblock_ok :: bool
  mutex_ok :: bool
  cond_ok :: bool
  maxfds :: "32 word"
  locks :: "nat \<Rightarrow> bool"
  set_ok :: bool
  mask_ok :: bool
  sigfd :: int
  ctl_ok :: "int \<Rightarrow> bool"

definition EVTHREAD_SIGNAL :: int where "EVTHREAD_SIGNAL = 23"
definition SIGRTMAX :: nat where "SIGRTMAX = 64"
definition LIBDANK_FD_CLOEXEC :: int where "LIBDANK_FD_CLOEXEC = 1"
definition LIBDANK_FD_NONBLOCK :: int where "LIBDANK_FD_NONBLOCK = 2"

definition add_evhandler_baseevents :: "boot \<Rightarrow> 'f evhandler \<Rightarrow> mem \<Rightarrow> (bool \<times> 'f evhandler \<times> mem) option" where
  "add_evhandler_baseevents b e m =
     (case create_evectors (sint (maxfds b)) m of
        (None, m1) \<Rightarrow> Some (True, e, m1)
      | (Some ev, m1) \<Rightarrow>
          (case add_signal_to_evcore (set_ok b) (mask_ok b) (sigfd b) e ev EVTHREAD_SIGNAL None (Arg 0) of
             None \<Rightarrow> None
           | Some (True, e1, ev1) \<Rightarrow> Some (True, e1, destroy_evectors (Some ev1) m1)
           | Some (False, e1, ev1) \<Rightarrow>
               (case kevent_changes (ctl_ok b) (changev ev1) (epoll e1) of
                  (True, w) \<Rightarrow> Some (True, e1\<lparr>epoll := w\<rparr>, destroy_evectors (Some ev1) m1)
                | (False, w) \<Rightarrow> Some (False, e1\<lparr>epoll := w, externalvec := Some (ev1\<lparr>changev := []\<rparr>)\<rparr>, m1))))"

definition initialize_evhandler :: "boot \<Rightarrow> 'f evhandler \<Rightarrow> int \<Rightarrow> mem \<Rightarrow> (bool \<times> 'f evhandler \<times> mem) option" where
  "initialize_evhandler b e fd m =
     (if \<not> mutex_ok b \<or> \<not> cond_ok b then Some (True, e, m)
      else
        let e1 = e\<lparr>threadlist := [], hfd := fd, fdarraysize := sint (maxfds b), locked := False\<rparr> in
        case create_evsources (locks b) (unat (maxfds b)) m of
          (None, m1) \<Rightarrow> Some (True, e1, m1)
        | (Some fds, m1) \<Rightarrow>
            let e2 = e1\<lparr>fdarray := fds, sigarraysize := int SIGRTMAX\<rparr> in
            (case create_evsources (locks b) SIGRTMAX m1 of
               (None, m2) \<Rightarrow> Some (True, e2, destroy_evsources (Some fds) m2)
             | (Some sigs, m2) \<Rightarrow>
                 (case add_evhandler_baseevents b (e2\<lparr>sigarray := sigs\<rparr>) m2 of
                    None \<Rightarrow> None
                  | Some (True, e3, m3) \<Rightarrow>
                      Some (True, e3, destroy_evsources (Some (fdarray e3)) (destroy_evsources (Some (sigarray e3)) m3))
                  | Some (False, e3, m3) \<Rightarrow> Some (False, e3, m3))))"

text \<open>\<open>raw\<close> is the block as it comes from Malloc; a new epoll descriptor watches nothing. \<open>sizeof (evhandler)\<close> is 136.\<close>

definition create_evhandler :: "boot \<Rightarrow> 'f evhandler \<Rightarrow> int \<Rightarrow> mem \<Rightarrow> ('f evhandler option \<times> mem) option" where
  "create_evhandler b raw flags m =
     (if flags \<noteq> 0 \<and> flags \<noteq> (flags AND (LIBDANK_FD_CLOEXEC OR LIBDANK_FD_NONBLOCK)) then Some (None, m)
      else if epfd b < 0 then Some (None, m)
      else if flags AND LIBDANK_FD_NONBLOCK \<noteq> 0 \<and> \<not> nonblock_ok b then Some (None, m)
      else case Malloc 136 m of
          (False, m1) \<Rightarrow> Some (None, m1)
        | (True, m1) \<Rightarrow>
            (case initialize_evhandler b (raw\<lparr>epoll := Map.empty, pending := (\<lambda>_. [])\<rparr>) (epfd b) m1 of
               None \<Rightarrow> None
             | Some (True, e, m2) \<Rightarrow> Some (None, Free True m2)
             | Some (False, e, m2) \<Rightarrow> Some (Some e, m2)))"

text \<open>The thread frees the marshalled arguments when it starts.\<close>

definition spawn_evthread :: "int \<Rightarrow> bool \<Rightarrow> 'f evhandler \<Rightarrow> mem \<Rightarrow> bool \<times> 'f evhandler \<times> mem" where
  "spawn_evthread mfds thread_ok eh m =
     (case Malloc 32 m of
        (False, m1) \<Rightarrow> (True, eh, m1)
      | (True, m1) \<Rightarrow>
          (case create_evectors mfds m1 of
             (None, m2) \<Rightarrow> (True, eh, Free True m2)
           | (Some ev, m2) \<Rightarrow>
               (case Malloc 16 m2 of
                  (False, m3) \<Rightarrow> (True, eh, Free True (destroy_evectors (Some ev) m3))
                | (True, m3) \<Rightarrow>
                    if \<not> thread_ok then (True, eh, Free True (destroy_evectors (Some ev) (Free True m3)))
                    else (False, eh\<lparr>threadlist := ev # threadlist eh\<rparr>, Free True m3))))"

fun destroy_evthreadlist :: "evectors list \<Rightarrow> mem \<Rightarrow> mem" where
  "destroy_evthreadlist [] m = m"
| "destroy_evthreadlist (ev # evs) m = destroy_evthreadlist evs (Free True (destroy_evectors (Some ev) m))"

definition destroy_evhandler :: "'f evhandler option \<Rightarrow> mem \<Rightarrow> mem" where
  "destroy_evhandler eo m =
     (case eo of None \<Rightarrow> m
      | Some e \<Rightarrow>
          Free True (destroy_evectors (externalvec e)
            (destroy_evsources (Some (fdarray e)) (destroy_evsources (Some (sigarray e)) (destroy_evthreadlist (threadlist e) m)))))"

definition create_evthread :: "boot \<Rightarrow> bool \<Rightarrow> 'f evhandler \<Rightarrow> int \<Rightarrow> mem \<Rightarrow> ('f evhandler option \<times> mem) option" where
  "create_evthread b thread_ok raw flags m =
     (case create_evhandler b raw flags m of
        None \<Rightarrow> None
      | Some (None, m1) \<Rightarrow> Some (None, m1)
      | Some (Some e, m1) \<Rightarrow>
          (case spawn_evthread (sint (maxfds b)) thread_ok e m1 of
             (True, e1, m2) \<Rightarrow> Some (None, destroy_evhandler (Some e1) m2)
           | (False, e1, m2) \<Rightarrow> Some (Some e1, m2)))"

subsection \<open>Memory\<close>

lemma create_evector_used: "create_evector n m = (e, m') \<Longrightarrow> allocs_used m' = allocs_used m + (if e then 0 else 2)"
  by (auto simp: create_evector_def split: prod.splits bool.splits dest!: Malloc_used)

lemma create_evectors_used:
  "create_evectors n m = (eo, m') \<Longrightarrow> allocs_used m' = allocs_used m + (if eo = None then 0 else 5) \<and>
     (\<forall>ev. eo = Some ev \<longrightarrow> changev ev = [] \<and> vsizes ev = nat n)"
  by (auto simp: create_evectors_def destroy_evector_def split: prod.splits bool.splits if_splits dest!: Malloc_used create_evector_used)

lemma create_evsources_used:
  "create_evsources l n m = (eo, m') \<Longrightarrow> allocs_used m' = allocs_used m + of_bool (eo \<noteq> None) \<and> (\<forall>es. eo = Some es \<longrightarrow> length es = n)"
  by (auto simp: create_evsources_def split: prod.splits bool.splits if_splits dest!: Malloc_used)

lemma destroy_evectors_used [simp]: "allocs_used (destroy_evectors (Some ev) m) = allocs_used m - 5"
  by (simp add: destroy_evectors_def destroy_evector_def)

lemma destroy_evsources_used [simp]: "allocs_used (destroy_evsources (Some evs) m) = allocs_used m - 1"
  by (simp add: destroy_evsources_def)

lemma destroy_evthreadlist_used: "allocs_used (destroy_evthreadlist evs m) = allocs_used m - 6 * int (length evs)"
  by (induction evs arbitrary: m) simp_all

subsection \<open>The invariant\<close>

definition ev_ok :: "'f evhandler \<Rightarrow> bool" where
  "ev_ok eh \<longleftrightarrow> fdarraysize eh = int (length (fdarray eh)) \<and> sigarraysize eh = int (length (sigarray eh)) \<and> \<not> locked eh \<and>
     (\<exists>ev. externalvec eh = Some ev \<and> changev ev = [] \<and> int (vsizes ev) = fdarraysize eh) \<and> (\<forall>ev \<in> set (threadlist eh). changev ev = []) \<and>
     (\<forall>fd. epoll eh fd \<noteq> None \<longrightarrow> 0 \<le> fd \<and> fd < fdarraysize eh) \<and>
     (\<forall>fd sig. Siginfo sig \<in> set (pending eh fd) \<longrightarrow> 0 \<le> sig \<and> sig < sigarraysize eh)"

text \<open>What a handler is to its users: the callback that reads on a watched descriptor go to.\<close>

definition watch :: "'f evhandler \<Rightarrow> int \<Rightarrow> ('f callback \<times> cbarg) option" where
  "watch eh fd =
     (case epoll eh fd of None \<Rightarrow> None
      | Some w \<Rightarrow> if EPOLLIN \<in> w then map_option (\<lambda>f. (f, cbstate (fdarray eh ! nat fd))) (rxfxn (fdarray eh ! nat fd)) else None)"

definition fd_flags :: "'c option \<Rightarrow> 'c option \<Rightarrow> evflag set" where
  "fd_flags rfxn tfxn = {EPOLLET, EPOLLRDHUP, EPOLLPRI} \<union> (if rfxn \<noteq> None then {EPOLLIN} else {}) \<union>
     (if tfxn \<noteq> None then {EPOLLOUT} else {})"

lemma EPOLLIN_flags [simp]: "EPOLLIN \<in> fd_flags rfxn tfxn \<longleftrightarrow> rfxn \<noteq> None"
  by (simp add: fd_flags_def)

lemma nth_update_source:
  "0 \<le> fd \<Longrightarrow> 0 \<le> fd' \<Longrightarrow> fd' < int (length xs) \<Longrightarrow> xs[nat fd := s] ! nat fd' = (if fd' = fd then s else xs ! nat fd')"
  by (auto simp: nth_list_update eq_nat_nat_iff)

text \<open>What adding a descriptor to the core does: nothing, or one queued change and its source.\<close>

definition refused :: "'f evhandler \<Rightarrow> int \<Rightarrow> 'c option \<Rightarrow> 'c option \<Rightarrow> bool" where
  "refused eh fd rfxn tfxn \<longleftrightarrow> fd \<ge> fdarraysize eh \<or> rfxn = None \<and> tfxn = None \<or> fdarraysize eh \<le> 1"

lemma refused_locked [simp]: "refused (eh\<lparr>locked := b\<rparr>) fd r t = refused eh fd r t"
  by (simp add: refused_def)

lemma add_fd_event_eq: "add_fd_event ev fd rfxn tfxn = add_evector_kevents ev [\<lparr>kfd = fd, kevents = fd_flags rfxn tfxn\<rparr>]"
  by (simp only: add_fd_event_def fd_flags_def)

lemma add_fd_to_evcore_spec:
  assumes "0 \<le> fd" "fdarraysize eh = int (length (fdarray eh))" "changev ev = []" "int (vsizes ev) = fdarraysize eh"
  shows "add_fd_to_evcore eh ev fd rfxn tfxn st =
    Some (if refused eh fd rfxn tfxn then (True, eh, ev)
      else (False, eh\<lparr>fdarray := (fdarray eh)[nat fd := \<lparr>rxfxn = rfxn, txfxn = tfxn, cbstate = st\<rparr>]\<rparr>,
            ev\<lparr>changev := [\<lparr>kfd = fd, kevents = fd_flags rfxn tfxn\<rparr>]\<rparr>))"
  using assms
  by (auto simp: add_fd_to_evcore_def add_fd_event_eq add_evector_kevents_def setup_evsource_def refused_def)

text \<open>The handler with a source installed, and watched when the kernel takes the descriptor.\<close>

definition takes :: "(int \<Rightarrow> bool) \<Rightarrow> 'f evhandler \<Rightarrow> int \<Rightarrow> bool" where
  "takes c eh fd \<longleftrightarrow> c fd \<and> epoll eh fd = None"

definition installed :: "(int \<Rightarrow> bool) \<Rightarrow> 'f evhandler \<Rightarrow> int \<Rightarrow> 'f callback option \<Rightarrow> 'f callback option \<Rightarrow> cbarg \<Rightarrow> 'f evhandler" where
  "installed c eh fd rfxn tfxn st =
     eh\<lparr>fdarray := (fdarray eh)[nat fd := \<lparr>rxfxn = rfxn, txfxn = tfxn, cbstate = st\<rparr>],
        epoll := (if takes c eh fd then (epoll eh)(fd \<mapsto> fd_flags rfxn tfxn) else epoll eh)\<rparr>"

lemma add_fd_to_evhandler_spec:
  assumes "ev_ok eh" "0 \<le> fd"
  shows "add_fd_to_evhandler l c eh fd rfxn tfxn st =
    Some (if \<not> l \<or> refused eh fd rfxn tfxn then (True, eh) else (\<not> takes c eh fd, installed c eh fd rfxn tfxn st))"
proof -
  obtain ev where ev: "externalvec eh = Some ev" "changev ev = []" "int (vsizes ev) = fdarraysize eh" and l: "\<not> locked eh"
    and n: "fdarraysize eh = int (length (fdarray eh))" using assms(1) unfolding ev_ok_def by blast

  have v: "ev\<lparr>changev := []\<rparr> = ev" using ev(2) by (cases ev) simp
  have u: "eh\<lparr>locked := True, externalvec := Some ev, locked := False\<rparr> = eh" using ev(1) l by (cases eh) simp
  have w: "eh\<lparr>fdarray := x, epoll := y, locked := False, externalvec := Some ev\<rparr> = eh\<lparr>fdarray := x, epoll := y\<rparr>" for x y
    using ev(1) l by (cases eh) simp
  have w1: "eh\<lparr>fdarray := x, locked := False, externalvec := Some ev\<rparr> = eh\<lparr>fdarray := x\<rparr>" for x
    using ev(1) l by (cases eh) simp
  show ?thesis using u assms(2)
    by (simp add: add_fd_to_evhandler_def ev n add_fd_to_evcore_spec flush_evector_changes_def takes_def installed_def v w w1)
qed

lemma add_signal_to_evhandler_spec:
  fixes eh :: "'f evhandler"
  assumes "ev_ok eh" "s \<Longrightarrow> 0 \<le> sig"
  shows "add_signal_to_evhandler l s k c fd eh sig f st =
    Some (if \<not> l \<or> sig \<ge> sigarraysize eh \<or> \<not> s \<or> \<not> k \<or> fd < 0 \<or> refused eh fd (Some Signalfd_demultiplexer) (None :: 'f callback option)
      then (True, eh)
      else (\<not> takes c eh fd, (installed c eh fd (Some Signalfd_demultiplexer) None Handler)
         \<lparr>sigarray := (sigarray eh)[nat sig := \<lparr>rxfxn = f, txfxn = None, cbstate = st\<rparr>]\<rparr>))"
proof -
  obtain ev where ev: "externalvec eh = Some ev" "changev ev = []" "int (vsizes ev) = fdarraysize eh" and l: "\<not> locked eh"
    and n: "fdarraysize eh = int (length (fdarray eh))" and m: "sigarraysize eh = int (length (sigarray eh))"
    using assms(1) unfolding ev_ok_def by blast
  have v: "ev\<lparr>changev := []\<rparr> = ev" using ev(2) by (cases ev) simp
  have u: "eh\<lparr>locked := True, externalvec := Some ev, locked := False\<rparr> = eh" using ev(1) l by (cases eh) simp
  have w: "eh\<lparr>fdarray := x, sigarray := z, epoll := y, locked := False, externalvec := Some ev\<rparr> = eh\<lparr>fdarray := x, epoll := y, sigarray := z\<rparr>" for x y z
    using ev(1) l by (cases eh) simp
  have w1: "eh\<lparr>fdarray := x, sigarray := z, locked := False, externalvec := Some ev\<rparr> = eh\<lparr>fdarray := x, sigarray := z\<rparr>" for x z
    using ev(1) l by (cases eh) simp
  show ?thesis
  proof (cases "l \<and> sig < sigarraysize eh \<and> s \<and> k \<and> 0 \<le> fd")
    case False
    with ev u show ?thesis by (auto simp: add_signal_to_evhandler_def add_signal_to_evcore_def add_signal_event_def)
  next
    case True
    then have "0 \<le> sig" "0 \<le> fd" using assms(2) by auto
    with True u m show ?thesis
      by (simp add: add_signal_to_evhandler_def add_signal_to_evcore_def add_signal_event_def ev n setup_evsource_def
          add_fd_to_evcore_spec flush_evector_changes_def takes_def installed_def v w w1)
  qed
qed

lemma refused_range: "\<not> refused eh fd r t \<Longrightarrow> fd < fdarraysize eh" by (simp add: refused_def)

lemma installed_ok:
  assumes "ev_ok eh" "0 \<le> fd" "fd < fdarraysize eh"
  shows "ev_ok (installed c eh fd r t st)"
  using assms unfolding ev_ok_def installed_def by auto

lemma watch_installed:
  assumes "ev_ok eh" "0 \<le> fd" "fd < fdarraysize eh" "takes c eh fd"
  shows "watch (installed c eh fd r t st) = (watch eh)(fd := map_option (\<lambda>f. (f, st)) r)"
proof
  fix fd'
  show "watch (installed c eh fd r t st) fd' = ((watch eh)(fd := map_option (\<lambda>f. (f, st)) r)) fd'"
  proof (cases "epoll eh fd' = None \<or> fd' = fd")
    case True
    then show ?thesis using assms by (auto simp: watch_def installed_def ev_ok_def)
  next
    case False
    then have "0 \<le> fd'" "fd' < int (length (fdarray eh))" using assms(1) unfolding ev_ok_def by (blast, metis)
    moreover obtain w where "epoll eh fd' = Some w" using False by auto
    ultimately show ?thesis using False assms(2,4) by (simp add: watch_def installed_def nth_update_source)
  qed
qed


subsection \<open>What a round does\<close>

text \<open>The calls that the pending reads on a signal descriptor are to lead to.\<close>

fun sig_calls :: "'f evsource list \<Rightarrow> sigread list \<Rightarrow> ('f \<times> int \<times> cbarg) list" where
  "sig_calls sigs [] = []"
| "sig_calls sigs (Failed e # rs) = []"
| "sig_calls sigs (Short # rs) = sig_calls sigs rs"
| "sig_calls sigs (Siginfo sig # rs) =
     (case rxfxn (sigs ! nat sig) of None \<Rightarrow> [] | Some f \<Rightarrow> [(f, sig, cbstate (sigs ! nat sig))]) @ sig_calls sigs rs"

definition sigs_in :: "'f evhandler \<Rightarrow> sigread list \<Rightarrow> bool" where
  "sigs_in eh rs \<longleftrightarrow> (\<forall>sig. Siginfo sig \<in> set rs \<longrightarrow> 0 \<le> sig \<and> sig < int (length (sigarray eh)))"

definition quiet :: "'f evhandler \<Rightarrow> bool" where
  "quiet eh \<longleftrightarrow> herrno eh \<noteq> EINTR \<and> (\<forall>fd. Failed EINTR \<notin> set (pending eh fd))"

lemma demux_loop_spec:
  assumes "sigs_in eh rs"
  shows "\<exists>rs' h c. demux_loop rs eh = Some (rs', eh\<lparr>called := c, herrno := h\<rparr>) \<and> set rs' \<subseteq> set rs \<and>
    (herrno eh \<noteq> EINTR \<and> Failed EINTR \<notin> set rs \<longrightarrow> c = called eh @ sig_calls (sigarray eh) rs \<and> h \<noteq> EINTR)"
  using assms
proof (induction rs eh rule: demux_loop.induct)
  case (1 eh)
  show ?case by (intro exI [of _ "[]"] exI [of _ EAGAIN] exI [of _ "called eh"]) simp
next
  case (2 e rs eh)
  show ?case by (intro exI [of _ rs] exI [of _ e] exI [of _ "called eh"]) auto
next
  case (3 rs eh)
  show ?case
  proof (cases "herrno eh = EINTR")
    case True
    then show ?thesis by (intro exI [of _ rs] exI [of _ EINTR] exI [of _ "called eh"]) auto
  next
    case False
    have "sigs_in eh rs" using 3(2) by (simp add: sigs_in_def)
    from 3(1) [OF False this] obtain rs' h c where "demux_loop rs eh = Some (rs', eh\<lparr>called := c, herrno := h\<rparr>)" "set rs' \<subseteq> set rs"
      "Failed EINTR \<notin> set rs \<longrightarrow> c = called eh @ sig_calls (sigarray eh) rs \<and> h \<noteq> EINTR" using False by blast
    with False show ?thesis by (intro exI [of _ rs'] exI [of _ h] exI [of _ c]) auto
  qed
next
  case (4 sig rs eh)
  have sig: "0 \<le> sig" "sig < int (length (sigarray eh))" and rs: "sigs_in eh rs" using 4(2) by (simp_all add: sigs_in_def)
  define c0 where "c0 = (case rxfxn (sigarray eh ! nat sig) of None \<Rightarrow> [] | Some f \<Rightarrow> [(f, sig, cbstate (sigarray eh ! nat sig))])"
  obtain b where h: "handle_evsource_read call_user (sigarray eh) sig eh = Some (b, eh\<lparr>called := called eh @ c0\<rparr>)"
    using sig by (cases "rxfxn (sigarray eh ! nat sig)") (auto simp: handle_evsource_read_def call_user_def c0_def)
  show ?case
  proof (cases "herrno eh = EINTR")
    case True
    then show ?thesis using h by (intro exI [of _ rs] exI [of _ EINTR] exI [of _ "called eh @ c0"]) (auto simp: sigs_in_def)
  next
    case False
    from rs have "sigs_in (eh\<lparr>called := called eh @ c0\<rparr>) rs" by (simp add: sigs_in_def)
    with 4(1) [OF h] False obtain rs' h' c where
      "demux_loop rs (eh\<lparr>called := called eh @ c0\<rparr>) = Some (rs', eh\<lparr>called := c, herrno := h'\<rparr>)" "set rs' \<subseteq> set rs"
      "Failed EINTR \<notin> set rs \<longrightarrow> c = called eh @ c0 @ sig_calls (sigarray eh) rs \<and> h' \<noteq> EINTR"
      by auto
    with h False show ?thesis by (intro exI [of _ rs'] exI [of _ h'] exI [of _ c]) (auto simp: c0_def)
  qed
qed

text \<open>The calls an event is to lead to.\<close>

definition deliver :: "'f evhandler \<Rightarrow> kevententry \<Rightarrow> ('f \<times> int \<times> cbarg) list" where
  "deliver eh k =
     (if EPOLLIN \<in> kevents k \<and> 0 \<le> kfd k \<and> kfd k < fdarraysize eh then
        (case rxfxn (fdarray eh ! nat (kfd k)) of
           None \<Rightarrow> []
         | Some (User f) \<Rightarrow> [(f, kfd k, cbstate (fdarray eh ! nat (kfd k)))]
         | Some Signalfd_demultiplexer \<Rightarrow> sig_calls (sigarray eh) (pending eh (kfd k)))
      else [])"

lemma handle_event_spec:
  assumes "ev_ok eh"
  shows "\<exists>c p h. handle_event k eh = Some (eh\<lparr>called := c, pending := (pending eh)(kfd k := p), herrno := h\<rparr>) \<and>
    set p \<subseteq> set (pending eh (kfd k)) \<and> (quiet eh \<longrightarrow> c = called eh @ deliver eh k \<and> h \<noteq> EINTR)"
proof (cases "EPOLLIN \<in> kevents k \<and> 0 \<le> kfd k \<and> kfd k < fdarraysize eh")
  case False
  then show ?thesis
    by (intro exI [of _ "called eh"] exI [of _ "pending eh (kfd k)"] exI [of _ "herrno eh"])
      (auto simp: handle_event_def handle_read_event_def deliver_def quiet_def)
next
  case True
  let ?s = "fdarray eh ! nat (kfd k)"
  have n: "fdarraysize eh = int (length (fdarray eh))" "sigarraysize eh = int (length (sigarray eh))" using assms by (simp_all add: ev_ok_def)
  have r: "handle_event k eh = (case rxfxn ?s of None \<Rightarrow> Some eh | Some f \<Rightarrow> call_fd f (kfd k) (cbstate ?s) eh)"
    using True n by (auto simp: handle_event_def handle_read_event_def handle_evsource_read_def split: option.splits)
  show ?thesis
  proof (cases "rxfxn ?s")
    case None
    then show ?thesis using r True
      by (intro exI [of _ "called eh"] exI [of _ "pending eh (kfd k)"] exI [of _ "herrno eh"]) (auto simp: deliver_def quiet_def)
  next
    case (Some f)
    show ?thesis
    proof (cases f)
      case (User u)
      then show ?thesis using r True Some
        by (intro exI [of _ "called eh @ [(u, kfd k, cbstate ?s)]"] exI [of _ "pending eh (kfd k)"] exI [of _ "herrno eh"])
          (auto simp: deliver_def quiet_def call_user_def)
    next
      case Signalfd_demultiplexer
      have "sigs_in eh (pending eh (kfd k))" using assms n unfolding ev_ok_def sigs_in_def by metis
      from demux_loop_spec [OF this] obtain rs' h c where d: "demux_loop (pending eh (kfd k)) eh = Some (rs', eh\<lparr>called := c, herrno := h\<rparr>)"
        "set rs' \<subseteq> set (pending eh (kfd k))"
        "herrno eh \<noteq> EINTR \<and> Failed EINTR \<notin> set (pending eh (kfd k)) \<longrightarrow> c = called eh @ sig_calls (sigarray eh) (pending eh (kfd k)) \<and> h \<noteq> EINTR"
        by blast
      then show ?thesis using r True Some Signalfd_demultiplexer
        by (intro exI [of _ c] exI [of _ rs'] exI [of _ h]) (auto simp: deliver_def quiet_def signalfd_demultiplexer_def)
    qed
  qed
qed

lemma ev_ok_frame:
  assumes "ev_ok eh" "\<And>fd. set (p fd) \<subseteq> set (pending eh fd)"
  shows "ev_ok (eh\<lparr>called := c, pending := p, herrno := h\<rparr>)"
proof -
  have "\<forall>fd sig. Siginfo sig \<in> set (p fd) \<longrightarrow> 0 \<le> sig \<and> sig < sigarraysize eh" using assms unfolding ev_ok_def by blast
  then show ?thesis using assms(1) unfolding ev_ok_def by auto
qed

lemma handle_events_spec:
  assumes "ev_ok eh" "n \<le> length ks"
  shows "\<exists>c p h. handle_events n eh ks = Some (eh\<lparr>called := c, pending := p, herrno := h\<rparr>) \<and> (\<forall>fd. set (p fd) \<subseteq> set (pending eh fd)) \<and>
    (quiet eh \<and> distinct (map kfd (take n ks)) \<longrightarrow> c = called eh @ concat (map (deliver eh) (rev (take n ks))) \<and> h \<noteq> EINTR)"
  using assms
proof (induction n arbitrary: eh)
  case 0
  show ?case by (intro exI [of _ "called eh"] exI [of _ "pending eh"] exI [of _ "herrno eh"]) (simp add: quiet_def)
next
  case (Suc n)
  let ?k = "ks ! n"
  obtain c p h where e: "handle_event ?k eh = Some (eh\<lparr>called := c, pending := (pending eh)(kfd ?k := p), herrno := h\<rparr>)"
    "set p \<subseteq> set (pending eh (kfd ?k))" "quiet eh \<longrightarrow> c = called eh @ deliver eh ?k \<and> h \<noteq> EINTR"
    using handle_event_spec [OF Suc.prems(1)] by blast
  let ?eh = "eh\<lparr>called := c, pending := (pending eh)(kfd ?k := p), herrno := h\<rparr>"
  have "ev_ok ?eh" by (rule ev_ok_frame [OF Suc.prems(1)]) (use e(2) in auto)
  from Suc.IH [OF this] Suc.prems(2) obtain c' p' h' where
    i: "handle_events n ?eh ks = Some (eh\<lparr>called := c', pending := p', herrno := h'\<rparr>)" "\<forall>fd. set (p' fd) \<subseteq> set (pending ?eh fd)"
      "quiet ?eh \<and> distinct (map kfd (take n ks)) \<longrightarrow> c' = c @ concat (map (deliver ?eh) (rev (take n ks))) \<and> h' \<noteq> EINTR"
    by auto
  have t: "take (Suc n) ks = take n ks @ [?k]" using Suc.prems(2) by (simp add: take_Suc_conv_app_nth)
  have "c' = called eh @ concat (map (deliver eh) (rev (take (Suc n) ks))) \<and> h' \<noteq> EINTR"
    if q: "quiet eh" "distinct (map kfd (take (Suc n) ks))"
  proof -
    have "quiet ?eh" using q(1) e(2,3) by (auto simp: quiet_def)
    moreover have dm: "map (deliver ?eh) (rev (take n ks)) = map (deliver eh) (rev (take n ks))"
    proof (rule map_cong [OF refl])
      fix k assume "k \<in> set (rev (take n ks))"
      then have "kfd k \<in> kfd ` set (take n ks)" by simp
      moreover have "kfd ?k \<notin> kfd ` set (take n ks)" using q(2) by (simp add: t)
      ultimately have "kfd k \<noteq> kfd ?k" by metis
      then show "deliver ?eh k = deliver eh k" by (simp add: deliver_def cong: option.case_cong callback.case_cong)
    qed
    ultimately have "c' = c @ concat (map (deliver eh) (rev (take n ks))) \<and> h' \<noteq> EINTR"
      using i(3) q(2) unfolding dm by (simp add: t)
    then show ?thesis using e(3) q(1) by (simp add: t)
  qed
  moreover have "\<forall>fd. set (p' fd) \<subseteq> set (pending eh fd)" using i(2) e(2) by (auto split: if_splits)
  moreover have "handle_events (Suc n) eh ks = Some (eh\<lparr>called := c', pending := p', herrno := h'\<rparr>)" using e(1) i(1) Suc.prems(2) by simp
  ultimately show ?case by blast
qed


subsection \<open>Making a handler\<close>

text \<open>What create_evhandler keeps: an invariant handler and eight blocks, or none.\<close>

lemma int_unat_sint:
  fixes w :: "32 word"
  assumes "0 < sint w"
  shows "int (unat w) = sint w"
proof -
  have u: "0 \<le> uint w" "uint w < 2 ^ 32" using uint_lt2p [of w] by simp_all
  have "sint w = (uint w + 2 ^ 31) mod 2 ^ 32 - 2 ^ 31"
    by (simp add: sint_uint signed_take_bit_eq_take_bit_shift take_bit_eq_mod)
  moreover have "(uint w + 2 ^ 31) mod 2 ^ 32 = uint w - 2 ^ 31" if "2 ^ 31 \<le> uint w"
  proof -
    have "uint w + 2 ^ 31 = (uint w - 2 ^ 31) + 2 ^ 32" by simp
    then have "(uint w + 2 ^ 31) mod 2 ^ 32 = (uint w - 2 ^ 31) mod 2 ^ 32" by (metis mod_add_self2)
    also have "\<dots> = uint w - 2 ^ 31" by (rule mod_pos_pos_trivial) (use u that in simp_all)
    finally show ?thesis .
  qed
  moreover have "(uint w + 2 ^ 31) mod 2 ^ 32 = uint w + 2 ^ 31" if "uint w < 2 ^ 31"
    by (rule mod_pos_pos_trivial) (use u that in simp_all)
  ultimately show ?thesis using u assms by (cases "uint w < 2 ^ 31") simp_all
qed

lemma add_evhandler_baseevents_spec:
  assumes "0 < sint (maxfds b) \<Longrightarrow> fdarraysize e = int (length (fdarray e)) \<and> fdarraysize e = sint (maxfds b)"
    "sigarraysize e = 64" "length (sigarray e) = 64" "\<not> locked e" "threadlist e = []" "epoll e = Map.empty" "pending e = (\<lambda>_. [])"
  shows "\<exists>f e' m'. add_evhandler_baseevents b e m = Some (f, e', m') \<and>
    (if f then allocs_used m' = allocs_used m else allocs_used m' = allocs_used m + 5 \<and> ev_ok e' \<and> threadlist e' = [])"
proof (cases "create_evectors (sint (maxfds b)) m")
  case (Pair eo m1)
  note cr = create_evectors_used [OF Pair]
  show ?thesis
  proof (cases eo)
    case None
    with Pair cr show ?thesis by (auto simp: add_evhandler_baseevents_def)
  next
    case (Some ev)
    with Pair have pos: "0 < sint (maxfds b)" by (auto simp: create_evectors_def split: if_splits)
    with assms(1) cr Some have ev: "changev ev = []" "int (vsizes ev) = fdarraysize e" and n: "fdarraysize e = int (length (fdarray e))"
      by auto
    show ?thesis
    proof (cases "set_ok b \<and> mask_ok b \<and> 0 \<le> sigfd b \<and> \<not> refused e (sigfd b) (Some Signalfd_demultiplexer) (None :: 'a callback option)")
      case False
      then have "add_signal_to_evcore (set_ok b) (mask_ok b) (sigfd b) e ev EVTHREAD_SIGNAL None (Arg 0) = Some (True, e, ev)"
        using add_fd_to_evcore_spec [OF _ n ev(1) ev(2)] assms(2)
        by (auto simp: add_signal_to_evcore_def add_signal_event_def EVTHREAD_SIGNAL_def)
      with Pair cr Some show ?thesis by (auto simp: add_evhandler_baseevents_def)
    next
      case True
      let ?s = "\<lparr>rxfxn = Some Signalfd_demultiplexer, txfxn = None, cbstate = Handler\<rparr>"
      let ?e = "e\<lparr>fdarray := (fdarray e)[nat (sigfd b) := ?s], sigarray := (sigarray e)[nat EVTHREAD_SIGNAL := \<lparr>rxfxn = None, txfxn = None, cbstate = Arg 0\<rparr>]\<rparr>"
      have a: "add_signal_to_evcore (set_ok b) (mask_ok b) (sigfd b) e ev EVTHREAD_SIGNAL None (Arg 0) =
        Some (False, ?e, ev\<lparr>changev := [\<lparr>kfd = sigfd b, kevents = fd_flags (Some Signalfd_demultiplexer) (None :: 'a callback option)\<rparr>]\<rparr>)"
        using True add_fd_to_evcore_spec [OF _ n ev(1) ev(2)] assms(2,3)
        by (simp add: add_signal_to_evcore_def add_signal_event_def EVTHREAD_SIGNAL_def setup_evsource_def)
      have r: "0 \<le> sigfd b" "sigfd b < fdarraysize e" using True refused_range by blast+
      show ?thesis
      proof (cases "ctl_ok b (sigfd b)")
        case False
        with Pair cr Some a assms(6) show ?thesis by (auto simp: add_evhandler_baseevents_def)
      next
        case True
        let ?w = "Map.empty(sigfd b \<mapsto> fd_flags (Some Signalfd_demultiplexer) (None :: 'a callback option))"
        have "add_evhandler_baseevents b e m = Some (False, ?e\<lparr>epoll := ?w, externalvec := Some (ev\<lparr>changev := []\<rparr>)\<rparr>, m1)"
          using True Pair Some a assms(6) by (simp add: add_evhandler_baseevents_def)
        moreover have "ev_ok (?e\<lparr>epoll := ?w, externalvec := Some (ev\<lparr>changev := []\<rparr>)\<rparr>)"
          using assms(2-7) n ev r by (auto simp: ev_ok_def)
        ultimately show ?thesis using cr Some assms(5) by fastforce
      qed
    qed
  qed
qed


lemma create_evhandler_spec:
  fixes raw :: "'f evhandler"
  shows "\<exists>eo m'. create_evhandler b raw flags m = Some (eo, m') \<and>
    (case eo of None \<Rightarrow> allocs_used m' = allocs_used m
     | Some e \<Rightarrow> allocs_used m' = allocs_used m + 8 \<and> ev_ok e \<and> threadlist e = [])"
proof (cases "flags \<noteq> 0 \<and> flags \<noteq> (flags AND (LIBDANK_FD_CLOEXEC OR LIBDANK_FD_NONBLOCK)) \<or> epfd b < 0 \<or>
    flags AND LIBDANK_FD_NONBLOCK \<noteq> 0 \<and> \<not> nonblock_ok b")
  case True
  then show ?thesis by (auto simp: create_evhandler_def)
next
  case False
  obtain g m1 where g: "Malloc 136 m = (g, m1)" by (cases "Malloc 136 m")
  note g1 = Malloc_used [OF g]
  obtain fo :: "'f callback evsource list option" and m2 where f: "create_evsources (locks b) (unat (maxfds b)) m1 = (fo, m2)"
    by (rule prod.exhaust)
  note f1 = create_evsources_used [OF f]
  obtain so :: "'f evsource list option" and m3 where s: "create_evsources (locks b) SIGRTMAX m2 = (so, m3)" by (rule prod.exhaust)
  note s1 = create_evsources_used [OF s]
  show ?thesis
  proof (cases "g \<and> mutex_ok b \<and> cond_ok b \<and> fo \<noteq> None \<and> so \<noteq> None")
    case no: False
    with False g f s g1 f1 s1 show ?thesis
      by (cases g; cases fo; cases so) (auto simp: create_evhandler_def initialize_evhandler_def Let_def destroy_evsources_def)
  next
    case yes: True
    then obtain fds sigs where fs: "fo = Some fds" "so = Some sigs" by blast
    let ?e = "raw\<lparr>epoll := Map.empty, pending := \<lambda>_. [], threadlist := [], hfd := epfd b, fdarraysize := sint (maxfds b),
      locked := False, fdarray := fds, sigarraysize := int SIGRTMAX, sigarray := sigs\<rparr>"
    have "0 < sint (maxfds b) \<Longrightarrow> int (length fds) = sint (maxfds b)" using f1 fs int_unat_sint by simp
    with s1 fs have "\<exists>r e' m'. add_evhandler_baseevents b ?e m3 = Some (r, e', m') \<and>
      (if r then allocs_used m' = allocs_used m3 else allocs_used m' = allocs_used m3 + 5 \<and> ev_ok e' \<and> threadlist e' = [])"
      by (intro add_evhandler_baseevents_spec) (simp_all add: SIGRTMAX_def)
    then obtain r e' m' where r: "add_evhandler_baseevents b ?e m3 = Some (r, e', m')"
      "if r then allocs_used m' = allocs_used m3 else allocs_used m' = allocs_used m3 + 5 \<and> ev_ok e' \<and> threadlist e' = []" by blast
    then show ?thesis using False yes g f s g1 f1 s1 fs
      by (cases r) (auto simp: create_evhandler_def initialize_evhandler_def Let_def)
  qed
qed

lemma spawn_evthread_spec:
  assumes "spawn_evthread n t eh m = (e, eh', m')"
  shows "allocs_used m' = allocs_used m + (if e then 0 else 6) \<and>
    (if e then eh' = eh else \<exists>ev. changev ev = [] \<and> eh' = eh\<lparr>threadlist := ev # threadlist eh\<rparr>)"
  using assms
  by (auto simp: spawn_evthread_def split: prod.splits bool.splits option.splits if_splits dest!: Malloc_used create_evectors_used)

lemma destroy_evhandler_used:
  "ev_ok e \<Longrightarrow> allocs_used (destroy_evhandler (Some e) m) = allocs_used m - (8 + 6 * int (length (threadlist e)))"
  by (auto simp: destroy_evhandler_def ev_ok_def destroy_evthreadlist_used)

lemma create_evthread_spec:
  "\<exists>eo m'. create_evthread b t raw flags m = Some (eo, m') \<and>
    (case eo of None \<Rightarrow> allocs_used m' = allocs_used m
     | Some e \<Rightarrow> allocs_used m' = allocs_used m + 14 \<and> ev_ok e \<and> length (threadlist e) = 1)"
proof -
  obtain eo m1 where c: "create_evhandler b raw flags m = Some (eo, m1)"
    "case eo of None \<Rightarrow> allocs_used m1 = allocs_used m | Some e \<Rightarrow> allocs_used m1 = allocs_used m + 8 \<and> ev_ok e \<and> threadlist e = []"
    using create_evhandler_spec by blast
  show ?thesis
  proof (cases eo)
    case None
    with c show ?thesis by (simp add: create_evthread_def)
  next
    case (Some e)
    obtain f e1 m2 where s: "spawn_evthread (sint (maxfds b)) t e m1 = (f, e1, m2)" by (cases "spawn_evthread (sint (maxfds b)) t e m1") auto
    note sp = spawn_evthread_spec [OF s]
    show ?thesis
    proof (cases f)
      case True
      with c Some s sp show ?thesis by (auto simp: create_evthread_def destroy_evhandler_used)
    next
      case False
      with sp obtain ev where "changev ev = []" "e1 = e\<lparr>threadlist := ev # threadlist e\<rparr>" by auto
      with False c Some s sp show ?thesis by (auto simp: create_evthread_def ev_ok_def)
    qed
  qed
qed


subsection \<open>Runs\<close>

text \<open>
  What may happen to a handler: registrations, a descriptor closed, a read becoming possible on a
  signal descriptor, errno left by another call, and a round of one of its threads.
\<close>

inductive ev_step :: "'f evhandler \<Rightarrow> 'f evhandler \<Rightarrow> bool" where
  add_fd: "ev_step eh eh'" if "add_fd_to_evhandler l c eh fd rfxn tfxn st = Some (e, eh')" "0 \<le> fd"
| add_signal: "ev_step eh eh'" if "add_signal_to_evhandler l s k c fd eh sig f st = Some (e, eh')" "s \<longrightarrow> 0 \<le> sig"
| close: "ev_step eh (eh\<lparr>epoll := (epoll eh)(fd := None), pending := (pending eh)(fd := [])\<rparr>)"
| arrive: "ev_step eh (eh\<lparr>pending := (pending eh)(fd := pending eh fd @ [r])\<rparr>)"
    if "\<And>sig. r = Siginfo sig \<Longrightarrow> 0 \<le> sig \<and> sig < sigarraysize eh"
| err: "ev_step eh (eh\<lparr>herrno := e\<rparr>)"
| turn: "ev_step eh eh'" if "evmain_turn c evs eh ev = Some (eh', ev')" "ev \<in> set (threadlist eh)"

inductive ev_reach :: "'f evhandler \<Rightarrow> bool" where
  start: "ev_reach eh" if "create_evthread b t raw flags m = Some (Some eh, m')"
| step: "ev_reach eh'" if "ev_reach eh" "ev_step eh eh'"

lemma evmain_turn_spec:
  assumes "ev_ok eh" "ev \<in> set (threadlist eh)"
  shows "\<exists>k p h. evmain_turn c evs eh ev = Some (eh\<lparr>called := k, pending := p, herrno := h\<rparr>, ev) \<and>
    (\<forall>fd. set (p fd) \<subseteq> set (pending eh fd)) \<and>
    (quiet eh \<and> (\<exists>ks. evs = Some ks \<and> distinct (map kfd ks)) \<longrightarrow> k = called eh @ concat (map (deliver eh) (rev (the evs))))"
proof -
  have ev: "changev ev = []" using assms by (simp add: ev_ok_def)
  then have v: "ev\<lparr>changev := []\<rparr> = ev" by (cases ev) simp
  have u: "eh\<lparr>epoll := epoll eh\<rparr> = eh" by simp
  show ?thesis
  proof (cases evs)
    case None
    then show ?thesis
      by (intro exI [of _ "called eh"] exI [of _ "pending eh"] exI [of _ "herrno eh"]) (simp add: evmain_turn_def ev v)
  next
    case (Some ks)
    from handle_events_spec [OF assms(1) le_refl, of ks] obtain k p h where
      "handle_events (length ks) eh ks = Some (eh\<lparr>called := k, pending := p, herrno := h\<rparr>)" "\<forall>fd. set (p fd) \<subseteq> set (pending eh fd)"
      "quiet eh \<and> distinct (map kfd ks) \<longrightarrow> k = called eh @ concat (map (deliver eh) (rev ks))" by auto
    moreover have "evmain_turn c evs eh ev = map_option (\<lambda>eh2. (eh2, ev)) (handle_events (length ks) eh ks)"
      using Some by (simp add: evmain_turn_def ev v)
    ultimately show ?thesis using Some by (intro exI [of _ k] exI [of _ p] exI [of _ h]) auto
  qed
qed

lemma sigarray_update_ok: "ev_ok eh \<Longrightarrow> ev_ok (eh\<lparr>sigarray := (sigarray eh)[n := x]\<rparr>)"
  by (auto simp: ev_ok_def)

lemma ev_step_ok:
  assumes "ev_step eh eh'" "ev_ok eh"
  shows "ev_ok eh'"
  using assms(1)
proof cases
  case (add_fd l c fd rfxn tfxn st e)
  with add_fd_to_evhandler_spec [OF assms(2)] assms(2) show ?thesis
    by (auto split: if_splits intro!: installed_ok dest: refused_range)
next
  case (add_signal l s k c fd sig f st e)
  have "ev_ok (installed c eh fd (Some Signalfd_demultiplexer) None Handler)" if "0 \<le> fd" "fd < fdarraysize eh"
    using installed_ok [OF assms(2) that] .
  moreover have "sigarray (installed c eh fd (Some Signalfd_demultiplexer) None Handler) = sigarray eh" by (simp add: installed_def)
  ultimately have "ev_ok ((installed c eh fd (Some Signalfd_demultiplexer) None Handler)\<lparr>sigarray := (sigarray eh)[n := x]\<rparr>)"
    if "0 \<le> fd" "fd < fdarraysize eh" for n x
    using that sigarray_update_ok by metis
  with add_signal add_signal_to_evhandler_spec [OF assms(2), of s sig] assms(2) show ?thesis
    by (auto split: if_splits dest: refused_range)
next
  case (turn c evs ev ev')
  with evmain_turn_spec [OF assms(2) turn(2), of c evs] ev_ok_frame [OF assms(2)] show ?thesis by auto
qed (use assms(2) in \<open>auto simp: ev_ok_def\<close>)

lemma ev_reach_ok: "ev_reach eh \<Longrightarrow> ev_ok eh"
proof (induction rule: ev_reach.induct)
  case (start b t raw flags m eh m')
  with create_evthread_spec [of b t raw flags m] show ?case by auto
qed (rule ev_step_ok)


lemma watch_not_taken:
  assumes "ev_ok eh" "0 \<le> fd" "fd < fdarraysize eh" "\<not> takes c eh fd" "epoll eh fd = None"
  shows "watch (installed c eh fd r t st) = watch eh"
proof
  fix fd'
  show "watch (installed c eh fd r t st) fd' = watch eh fd'"
  proof (cases "epoll eh fd'")
    case None
    then show ?thesis using assms(4) by (simp add: watch_def installed_def)
  next
    case (Some w)
    then have "0 \<le> fd'" "fd' < int (length (fdarray eh))" "fd' \<noteq> fd" using assms(1,5) unfolding ev_ok_def by (blast, metis option.distinct(1), force)
    then show ?thesis using Some assms(2,4) by (simp add: watch_def installed_def nth_update_source)
  qed
qed

lemma watch_replaced:
  assumes "ev_ok eh" "0 \<le> fd" "fd < fdarraysize eh" "epoll eh fd = Some w" "EPOLLIN \<in> w"
  shows "watch (installed c eh fd (Some f) t st) = (watch eh)(fd \<mapsto> (f, st))"
proof
  fix fd'
  show "watch (installed c eh fd (Some f) t st) fd' = ((watch eh)(fd \<mapsto> (f, st))) fd'"
  proof (cases "epoll eh fd'")
    case None
    then show ?thesis using assms(4) by (auto simp: watch_def installed_def takes_def)
  next
    case (Some w')
    then have "0 \<le> fd'" "fd' < int (length (fdarray eh))" using assms(1) unfolding ev_ok_def by (blast, metis option.distinct(1))
    then show ?thesis using Some assms(2,4,5) by (auto simp: watch_def installed_def nth_update_source takes_def)
  qed
qed

lemma ev_step_threads: "ev_step eh eh' \<Longrightarrow> ev_ok eh \<Longrightarrow> length (threadlist eh') = length (threadlist eh)"
proof (induction rule: ev_step.cases)
  case (add_fd l c eh fd rfxn tfxn st e eh')
  then show ?case using add_fd_to_evhandler_spec [of eh fd l c rfxn tfxn st] by (auto simp: installed_def split: if_splits)
next
  case (add_signal l s k c fd eh sig f st e eh')
  then show ?case using add_signal_to_evhandler_spec [of eh s sig l k c fd f st] by (auto simp: installed_def split: if_splits)
next
  case (turn c evs eh ev eh' ev')
  then show ?case using evmain_turn_spec [of eh ev c evs] by auto
qed auto

lemma ev_steps_ok: "ev_step\<^sup>*\<^sup>* eh eh' \<Longrightarrow> ev_ok eh \<Longrightarrow> ev_ok eh' \<and> length (threadlist eh') = length (threadlist eh)"
  by (induction rule: rtranclp_induct) (simp_all add: ev_step_ok ev_step_threads)

lemma watch_delivers:
  assumes "ev_ok eh" "EPOLLIN \<in> kevents k" "watch eh (kfd k) = Some (f, st)"
  shows "deliver eh k = (case f of User u \<Rightarrow> [(u, kfd k, st)] | Signalfd_demultiplexer \<Rightarrow> sig_calls (sigarray eh) (pending eh (kfd k)))"
proof -
  obtain w where w: "epoll eh (kfd k) = Some w" "EPOLLIN \<in> w" "rxfxn (fdarray eh ! nat (kfd k)) = Some f"
    "cbstate (fdarray eh ! nat (kfd k)) = st"
    using assms(3) by (auto simp: watch_def split: option.splits if_splits)
  then have "0 \<le> kfd k" "kfd k < fdarraysize eh" using assms(1) unfolding ev_ok_def by (blast, metis option.distinct(1))
  with w assms(2) show ?thesis by (cases f) (simp_all add: deliver_def)
qed

text \<open>A handler of eight descriptors, whose signal descriptor is 3.\<close>

definition small_boot :: boot where
  "small_boot = \<lparr>epfd = 5, nonblock_ok = True, mutex_ok = True, cond_ok = True, maxfds = 8, locks = (\<lambda>_. True),
     set_ok = True, mask_ok = True, sigfd = 3, ctl_ok = (\<lambda>_. True)\<rparr>"

lemma create_evectors_plentiful:
  assumes "plentiful m" "0 < n"
  shows "\<exists>m'. create_evectors n m = (Some \<lparr>changev = [], vsizes = nat n\<rparr>, m') \<and> plentiful m'"
proof -
  have ev: "\<exists>m'. create_evector (nat n) m = (False, m') \<and> plentiful m'" if p: "plentiful m" for m
  proof -
    from Malloc_plentiful [OF p, of "12 * nat n"] assms(2) obtain m1 where m1: "Malloc (12 * nat n) m = (True, m1)" "plentiful m1" by auto
    with Malloc_plentiful [OF m1(2), of "4 * nat n"] assms(2) show ?thesis by (auto simp: create_evector_def)
  qed
  obtain m1 where m1: "Malloc 40 m = (True, m1)" "plentiful m1" using Malloc_plentiful [OF assms(1), of 40] by auto
  from ev [OF m1(2)] obtain m2 where m2: "create_evector (nat n) m1 = (False, m2)" "plentiful m2" by blast
  from ev [OF m2(2)] obtain m3 where "create_evector (nat n) m2 = (False, m3)" "plentiful m3" by blast
  with m1 m2 assms(2) show ?thesis by (simp add: create_evectors_def)
qed

lemma create_evsources_plentiful:
  "plentiful m \<Longrightarrow> 0 < n \<Longrightarrow>
   \<exists>m'. create_evsources (\<lambda>_. True) n m = (Some (replicate n \<lparr>rxfxn = None, txfxn = None, cbstate = Arg 0\<rparr>), m') \<and> plentiful m'"
  using Malloc_plentiful [of m "64 * n"] by (auto simp: create_evsources_def)

lemma small_create:
  fixes raw :: "'f evhandler"
  assumes "plentiful m" "flags \<in> {0, LIBDANK_FD_CLOEXEC}"
  shows "\<exists>eh m'. create_evthread small_boot True raw flags m = Some (Some eh, m') \<and> fdarraysize eh = 8 \<and> sigarraysize eh = 64 \<and>
     epoll eh = [3 \<mapsto> fd_flags (Some (Signalfd_demultiplexer :: 'f callback)) (None :: 'f callback option)] \<and>
     pending eh = (\<lambda>_. []) \<and> threadlist eh \<noteq> []"
proof -
  let ?s = "\<lparr>rxfxn = None, txfxn = None, cbstate = Arg 0\<rparr>"
  let ?f = "\<lparr>rxfxn = Some Signalfd_demultiplexer, txfxn = None, cbstate = Handler\<rparr>"
  let ?ev = "\<lparr>changev = [], vsizes = 8\<rparr>"
  obtain m1 where m1: "Malloc 136 m = (True, m1)" "plentiful m1" using Malloc_plentiful [OF assms(1), of 136] by auto
  obtain m2 where m2: "create_evsources (\<lambda>_. True) 8 m1 = (Some (replicate 8 (?s :: 'f callback evsource)), m2)" "plentiful m2"
    using create_evsources_plentiful [OF m1(2), of 8] by auto
  obtain m3 where m3: "create_evsources (\<lambda>_. True) SIGRTMAX m2 = (Some (replicate SIGRTMAX (?s :: 'f evsource)), m3)" "plentiful m3"
    using create_evsources_plentiful [OF m2(2), of SIGRTMAX] by (auto simp: SIGRTMAX_def)
  obtain m4 where m4: "create_evectors 8 m3 = (Some ?ev, m4)" "plentiful m4" using create_evectors_plentiful [OF m3(2), of 8] by auto
  let ?e0 = "raw\<lparr>epoll := Map.empty, pending := \<lambda>_. [], threadlist := [], hfd := 5, fdarraysize := 8,
      locked := False, fdarray := replicate 8 ?s, sigarraysize := int SIGRTMAX, sigarray := replicate SIGRTMAX ?s\<rparr>"
  have nr: "\<not> refused ?e0 3 (Some Signalfd_demultiplexer) (None :: 'f callback option)" by (simp add: refused_def)
  let ?w = "[3 \<mapsto> fd_flags (Some (Signalfd_demultiplexer :: 'f callback)) (None :: 'f callback option)]"
  let ?e1 = "?e0\<lparr>fdarray := (replicate 8 ?s)[3 := ?f], sigarray := (replicate SIGRTMAX ?s)[23 := ?s]\<rparr>"
  let ?e2 = "?e1\<lparr>epoll := ?w, externalvec := Some ?ev\<rparr>"
  have "add_signal_to_evcore True True 3 ?e0 ?ev EVTHREAD_SIGNAL None (Arg 0) =
    Some (False, ?e1, ?ev\<lparr>changev := [\<lparr>kfd = 3, kevents = fd_flags (Some (Signalfd_demultiplexer :: 'f callback)) (None :: 'f callback option)\<rparr>]\<rparr>)"
    using add_fd_to_evcore_spec [of 3 ?e0 ?ev "Some Signalfd_demultiplexer" None Handler] nr
    by (simp add: add_signal_to_evcore_def add_signal_event_def setup_evsource_def EVTHREAD_SIGNAL_def SIGRTMAX_def)
  then have "add_evhandler_baseevents small_boot ?e0 m3 = Some (False, ?e2, m4)"
    using m4(1) by (simp add: add_evhandler_baseevents_def small_boot_def)
  then have "create_evhandler small_boot raw flags m = Some (Some ?e2, m4)"
    using m1(1) m2(1) m3(1) assms(2) by (auto simp: LIBDANK_FD_CLOEXEC_def LIBDANK_FD_NONBLOCK_def create_evhandler_def initialize_evhandler_def small_boot_def Let_def)
  moreover obtain m5 where "spawn_evthread 8 True ?e2 m4 = (False, ?e2\<lparr>threadlist := [?ev]\<rparr>, m5)"
  proof -
    obtain n1 where n1: "Malloc 32 m4 = (True, n1)" "plentiful n1" using Malloc_plentiful [OF m4(2), of 32] by auto
    obtain n2 where n2: "create_evectors 8 n1 = (Some ?ev, n2)" "plentiful n2" using create_evectors_plentiful [OF n1(2), of 8] by auto
    obtain n3 where n3: "Malloc 16 n2 = (True, n3)" using Malloc_plentiful [OF n2(2), of 16] by auto
    from n1 n2 n3 that show ?thesis by (simp add: spawn_evthread_def)
  qed
  ultimately have "create_evthread small_boot True raw flags m = Some (Some (?e2\<lparr>threadlist := [?ev]\<rparr>), m5)"
    by (simp add: create_evthread_def small_boot_def)
  then show ?thesis by (intro exI [of _ "?e2\<lparr>threadlist := [?ev]\<rparr>"] exI [of _ m5]) (auto simp: SIGRTMAX_def)
qed

lemma small_handler:
  "\<exists>eh :: 'f evhandler. ev_reach eh \<and> fdarraysize eh = 8 \<and> sigarraysize eh = 64 \<and>
     epoll eh = [3 \<mapsto> fd_flags (Some (Signalfd_demultiplexer :: 'f callback)) (None :: 'f callback option)] \<and>
     pending eh = (\<lambda>_. []) \<and> threadlist eh \<noteq> [] \<and> (\<exists>raw m. create_evthread small_boot True raw 0 plenty_mem = Some (Some eh, m))"
  using small_create [of plenty_mem 0] ev_reach.start by (metis init_mem_plentiful insertI1)

lemma small_registered:
  "\<exists>eh :: nat evhandler. ev_reach eh \<and> quiet eh \<and> fdarraysize eh = 8 \<and> threadlist eh \<noteq> [] \<and> epoll eh 5 \<noteq> None \<and>
     watch eh 5 = Some (User 7, Arg 1)"
proof -
  obtain eh :: "nat evhandler" where eh: "ev_reach eh" "fdarraysize eh = 8" "pending eh = (\<lambda>_. [])" "threadlist eh \<noteq> []"
    "epoll eh = [3 \<mapsto> fd_flags (Some (Signalfd_demultiplexer :: nat callback)) (None :: nat callback option)]"
    using small_handler by blast
  have ok: "ev_ok eh" by (rule ev_reach_ok [OF eh(1)])
  let ?eh = "installed (\<lambda>_. True) eh 5 (Some (User 7)) None (Arg 1)"
  have t: "takes (\<lambda>_. True) eh 5" by (simp add: takes_def eh(5))
  have "add_fd_to_evhandler True (\<lambda>_. True) eh 5 (Some (User 7)) None (Arg 1) = Some (False, ?eh)"
    using add_fd_to_evhandler_spec [OF ok, of 5 True] eh(2) t by (simp add: refused_def)
  then have "ev_step eh ?eh" by (rule ev_step.add_fd) simp
  then have "ev_reach ?eh" by (rule ev_reach.step [OF eh(1)])
  then have r: "ev_reach (?eh\<lparr>herrno := EAGAIN\<rparr>)" by (rule ev_reach.step) (rule ev_step.err)
  have "watch ?eh 5 = Some (User 7, Arg 1)" using watch_installed [OF ok _ _ t] eh(2) by simp
  moreover have "watch (?eh\<lparr>herrno := EAGAIN\<rparr>) 5 = watch ?eh 5" by (simp add: watch_def split: option.split)
  moreover have "quiet (?eh\<lparr>herrno := EAGAIN\<rparr>)" "fdarraysize ?eh = 8" "threadlist ?eh \<noteq> []" "epoll ?eh 5 \<noteq> None"
    using eh t by (simp_all add: quiet_def installed_def)
  ultimately show ?thesis using r by (intro exI [of _ "?eh\<lparr>herrno := EAGAIN\<rparr>"]) simp
qed

text \<open>
  The loop of signalfd_demultiplexer looks at an errno that a read which succeeds does not set:
  when some earlier call has left EINTR in it, the loop stops behind the first signal, and with
  edge-triggered events nothing asks for the others.
\<close>

lemma stale_errno_stops_demultiplexer:
  assumes "ev_reach eh" "herrno eh = EINTR" "pending eh fd = Siginfo sig # rs"
  shows "\<exists>eh'. signalfd_demultiplexer fd eh = Some eh' \<and> pending eh' fd = rs \<and>
    called eh' = called eh @ sig_calls (sigarray eh) [Siginfo sig]"
proof -
  have ok: "ev_ok eh" by (rule ev_reach_ok [OF assms(1)])
  moreover have "Siginfo sig \<in> set (pending eh fd)" by (simp add: assms(3))
  ultimately have "0 \<le> sig \<and> sig < int (length (sigarray eh))" unfolding ev_ok_def by metis
  then show ?thesis using assms(2,3)
    by (cases "rxfxn (sigarray eh ! nat sig)") (auto simp: signalfd_demultiplexer_def handle_evsource_read_def call_user_def)
qed

text \<open>A negative descriptor passes the check of add_fd_to_evcore, and setup_evsource writes before its array.\<close>

lemma negative_fd_undefined:
  assumes "ev_reach eh" "fd < 0" "1 < fdarraysize eh"
  shows "add_fd_to_evhandler True c eh fd (Some f) tfxn st = None"
proof -
  obtain ev where "externalvec eh = Some ev" "changev ev = []" "int (vsizes ev) = fdarraysize eh"
    using ev_reach_ok [OF assms(1)] unfolding ev_ok_def by blast
  with assms(2,3) show ?thesis
    by (simp add: add_fd_to_evhandler_def add_fd_to_evcore_def add_fd_event_eq add_evector_kevents_def setup_evsource_def)
qed

subsection \<open>Properties\<close>

text \<open>
  C34: Registering a descriptor the handler does not watch yet, in any reachable state, answers
  failure exactly when the lock cannot be taken, the number lies beyond the arrays, there is no
  callback, the vector of changes has no room or the kernel refuses; a failure leaves what is
  watched as it was, a success makes reads on that descriptor, and on no other, go to the new
  callback.
\<close>

theorem add_fd_to_evhandler_correct:
  assumes "ev_reach eh" "0 \<le> fd" "epoll eh fd = None"
  shows "\<exists>e eh'. add_fd_to_evhandler l c eh fd rfxn tfxn st = Some (e, eh') \<and>
    (e \<longleftrightarrow> \<not> l \<or> fdarraysize eh \<le> max fd 1 \<or> (rfxn = None \<and> tfxn = None) \<or> \<not> c fd) \<and>
    watch eh' = (if e then watch eh else (watch eh)(fd := map_option (\<lambda>f. (f, st)) rfxn))"
proof (cases "l \<and> \<not> refused eh fd rfxn tfxn")
  case False
  then show ?thesis using add_fd_to_evhandler_spec [OF ev_reach_ok [OF assms(1)] assms(2)] by (auto simp: refused_def)
next
  case True
  have ok: "ev_ok eh" by (rule ev_reach_ok [OF assms(1)])
  from True have f: "fd < fdarraysize eh" "l" by (auto dest: refused_range)
  have a: "add_fd_to_evhandler l c eh fd rfxn tfxn st = Some (\<not> takes c eh fd, installed c eh fd rfxn tfxn st)"
    using add_fd_to_evhandler_spec [OF ok assms(2)] True by simp
  have "watch (installed c eh fd rfxn tfxn st) = watch eh" if "\<not> takes c eh fd"
    using watch_not_taken [OF ok assms(2) f(1) that assms(3)] .
  with a True watch_installed [OF ok assms(2) f(1)] assms(3) show ?thesis by (auto simp: refused_def takes_def)
qed

theorem add_fd_to_evhandler_correct_witness:
  "\<exists>(eh :: nat evhandler) eh'. add_fd_to_evhandler True (\<lambda>_. True) eh 5 (Some (User 7)) None (Arg 1) = Some (False, eh') \<and>
     watch eh' 5 = Some (User 7, Arg 1)"
proof -
  obtain eh :: "nat evhandler" where eh: "ev_reach eh" "fdarraysize eh = 8"
    "epoll eh = [3 \<mapsto> fd_flags (Some (Signalfd_demultiplexer :: nat callback)) (None :: nat callback option)]"
    using small_handler by blast
  obtain eh' where "add_fd_to_evhandler True (\<lambda>_. True) eh 5 (Some (User 7)) None (Arg 1) = Some (False, eh')"
    "watch eh' = (watch eh)(5 \<mapsto> (User 7, Arg 1))"
    using add_fd_to_evhandler_correct [OF eh(1), of 5 True "\<lambda>_. True" "Some (User 7)" None "Arg 1"] eh(2,3) by auto
  then show ?thesis by (intro exI [of _ eh] exI [of _ eh']) simp
qed

text \<open>
  C8: A round of a thread, in any reachable state in which errno is not EINTR and no read is
  about to be interrupted, and for any events on different descriptors, returns and makes exactly
  the calls the events are to lead to, from the last event to the first: for a watched descriptor
  the callback that was registered for reads on it, once and with its argument, for a signal
  descriptor the callback of every signal that is pending on it. What is watched does not change.
\<close>

theorem evmain_turn_delivers:
  assumes "ev_reach eh" "ev \<in> set (threadlist eh)" "quiet eh" "distinct (map kfd ks)"
  shows "\<exists>eh'. evmain_turn c (Some ks) eh ev = Some (eh', ev) \<and> watch eh' = watch eh \<and>
    called eh' = called eh @ concat (map (deliver eh) (rev ks)) \<and>
    (\<forall>k f st. EPOLLIN \<in> kevents k \<and> watch eh (kfd k) = Some (f, st) \<longrightarrow>
       deliver eh k = (case f of User u \<Rightarrow> [(u, kfd k, st)] | Signalfd_demultiplexer \<Rightarrow> sig_calls (sigarray eh) (pending eh (kfd k))))"
proof -
  have ok: "ev_ok eh" by (rule ev_reach_ok [OF assms(1)])
  obtain k p h where e: "evmain_turn c (Some ks) eh ev = Some (eh\<lparr>called := k, pending := p, herrno := h\<rparr>, ev)"
    "k = called eh @ concat (map (deliver eh) (rev ks))"
    using evmain_turn_spec [OF ok assms(2), of c "Some ks"] assms(3,4) by auto
  have "watch (eh\<lparr>called := k, pending := p, herrno := h\<rparr>) = watch eh"
    by (rule ext) (simp add: watch_def split: option.split)
  with e watch_delivers [OF ok] show ?thesis by auto
qed


theorem evmain_turn_delivers_witness:
  "\<exists>(eh :: nat evhandler) ev eh'. evmain_turn (\<lambda>_. True) (Some [\<lparr>kfd = 5, kevents = {EPOLLIN}\<rparr>]) eh ev = Some (eh', ev) \<and>
     called eh' = called eh @ [(7, 5, Arg 1)]"
proof -
  obtain eh :: "nat evhandler" where eh: "ev_reach eh" "quiet eh" "threadlist eh \<noteq> []" "watch eh 5 = Some (User 7, Arg 1)"
    using small_registered by blast
  then obtain ev where "ev \<in> set (threadlist eh)" by (cases "threadlist eh") auto
  from evmain_turn_delivers [OF eh(1) this eh(2), of "[\<lparr>kfd = 5, kevents = {EPOLLIN}\<rparr>]" "\<lambda>_. True"] eh(4)
  obtain eh' where "evmain_turn (\<lambda>_. True) (Some [\<lparr>kfd = 5, kevents = {EPOLLIN}\<rparr>]) eh ev = Some (eh', ev)"
    "called eh' = called eh @ [(7, 5, Arg 1)]" by auto
  then show ?thesis by (intro exI [of _ eh] exI [of _ ev] exI [of _ eh']) simp
qed



text \<open>
  C36: Registering a descriptor that is watched already answers a failure and yet takes the
  descriptor over: reads on it go to the new callback, and the one it was registered with is lost.
\<close>

theorem add_fd_twice_takes_over:
  assumes "ev_reach eh" "epoll eh fd = Some w" "EPOLLIN \<in> w" "1 < fdarraysize eh"
  shows "\<exists>eh'. add_fd_to_evhandler True c eh fd (Some f) tfxn st = Some (True, eh') \<and> watch eh' = (watch eh)(fd \<mapsto> (f, st))"
proof -
  have ok: "ev_ok eh" by (rule ev_reach_ok [OF assms(1)])
  have fd: "0 \<le> fd" "fd < fdarraysize eh" using ok assms(2) unfolding ev_ok_def by (blast, metis option.distinct(1))
  have "add_fd_to_evhandler True c eh fd (Some f) tfxn st = Some (True, installed c eh fd (Some f) tfxn st)"
    using add_fd_to_evhandler_spec [OF ok fd(1)] fd assms(2,4) by (simp add: refused_def takes_def)
  with watch_replaced [OF ok fd assms(2,3)] show ?thesis by blast
qed

theorem add_fd_twice_takes_over_witness:
  "\<exists>(eh :: nat evhandler) eh'. watch eh 5 = Some (User 7, Arg 1) \<and>
     add_fd_to_evhandler True (\<lambda>_. True) eh 5 (Some (User 8)) None (Arg 2) = Some (True, eh') \<and> watch eh' 5 = Some (User 8, Arg 2)"
proof -
  obtain eh :: "nat evhandler" where eh: "ev_reach eh" "fdarraysize eh = 8" "watch eh 5 = Some (User 7, Arg 1)"
    using small_registered by blast
  then obtain w where "epoll eh 5 = Some w" "EPOLLIN \<in> w" by (auto simp: watch_def split: option.splits if_splits)
  from add_fd_twice_takes_over [OF eh(1) this, of "\<lambda>_. True" "User 8" None "Arg 2"] eh(2,3)
  obtain eh' where "add_fd_to_evhandler True (\<lambda>_. True) eh 5 (Some (User 8)) None (Arg 2) = Some (True, eh')"
    "watch eh' = (watch eh)(5 \<mapsto> (User 8, Arg 2))" by auto
  with eh(3) show ?thesis by (intro exI [of _ eh] exI [of _ eh']) simp
qed

end
