(* ===== verification/Ctlserver.thy ===== *)
theory Ctlserver
  imports Events Strings Ustring "HOL-Library.Multiset"
begin

text \<open>
  The control server of libdank/modules/ctlserver/ctlserver.c with the command state of
  libdank/objects/cmdstate.c: a table of commands, connections that pass a command and a
  descriptor, and a herd of drones that run the commands.

  An entry of the table is a pair of its address and its contents; addresses are never given out
  twice, so that a pointer to a freed entry finds nothing. Sections under the server's lock are
  one step. What the handler of a command does is a parameter: the text it leaves in the two log
  buffers and whether it has sent its success itself. An access to freed memory or behind the
  buffer for commands answers an outer \<open>None\<close>.
\<close>

subsection \<open>State\<close>

record export_cmd =
  refcount :: nat
  ecmd :: string

record cmd_state =
  cs_sd :: int
  cs_errsd :: int
  sent_success :: bool

record scheduled_cmd =
  scs :: cmd_state
  scmd :: nat

text \<open>
  \<open>next_addr\<close> is the address of the next entry; \<open>open_fds\<close> the descriptors the process has open,
  \<open>ran\<close> the handlers that were called, \<open>written\<close> what was written to descriptors.
\<close>

record ctlserver =
  cmdtable :: "(nat \<times> export_cmd) list"
  next_addr :: nat
  pending_cmd_states :: "scheduled_cmd list"
  drone_horde :: "scheduled_cmd option list"
  cmdbuf :: string
  open_fds :: "int multiset"
  ran :: "(string \<times> cmd_state) list"
  written :: "(int \<times> string) list"

definition DRONE_HORDE_SIZE :: nat where "DRONE_HORDE_SIZE = 3"
definition CMDBUF_SIZE :: nat where "CMDBUF_SIZE = 128"

definition init_cmd_state :: "int \<Rightarrow> int \<Rightarrow> cmd_state" where
  "init_cmd_state sd errsd = \<lparr>cs_sd = sd, cs_errsd = errsd, sent_success = False\<rparr>"

definition close_fd :: "int \<Rightarrow> ctlserver \<Rightarrow> ctlserver" where
  "close_fd fd s = s\<lparr>open_fds := open_fds s - {#fd#}\<rparr>"

definition close_cmd_state :: "cmd_state \<Rightarrow> ctlserver \<Rightarrow> cmd_state \<times> ctlserver" where
  "close_cmd_state cs s =
     (let (cs1, s1) = (if cs_sd cs \<ge> 0 then (cs\<lparr>cs_sd := -1\<rparr>, close_fd (cs_sd cs) s) else (cs, s))
      in if cs_errsd cs1 \<ge> 0 then (cs1\<lparr>cs_errsd := -1\<rparr>, close_fd (cs_errsd cs1) s1) else (cs1, s1))"

definition Writen :: "int \<Rightarrow> string \<Rightarrow> ctlserver \<Rightarrow> ctlserver" where
  "Writen fd t s = s\<lparr>written := written s @ [(fd, t)]\<rparr>"

subsection \<open>The table of commands\<close>

definition regcommand :: "string \<Rightarrow> ctlserver \<Rightarrow> mem \<Rightarrow> bool \<times> ctlserver \<times> mem" where
  "regcommand cmd s m =
     (case Malloc 24 m of
        (False, m1) \<Rightarrow> (True, s, m1)
      | (True, m1) \<Rightarrow>
          (False, s\<lparr>cmdtable := (next_addr s, \<lparr>refcount = 0, ecmd = cmd\<rparr>) # cmdtable s, next_addr := Suc (next_addr s)\<rparr>, m1))"

text \<open>The walk of delcommand under the lock: the count of the first entry of that name, which is taken out when it is zero.\<close>

fun delcommand_scan :: "string \<Rightarrow> (nat \<times> export_cmd) list \<Rightarrow> (nat \<times> (nat \<times> export_cmd) list) option" where
  "delcommand_scan cmd [] = None"
| "delcommand_scan cmd ((a, e) # t) =
     (if ecmd e = cmd then Some (refcount e, if refcount e = 0 then t else (a, e) # t)
      else map_option (\<lambda>(r, t1). (r, (a, e) # t1)) (delcommand_scan cmd t))"

datatype del_result = Missing | Busy | Deleted

text \<open>One turn of delcommand's loop.\<close>

definition delcommand_try :: "string \<Rightarrow> ctlserver \<Rightarrow> mem \<Rightarrow> del_result \<times> ctlserver \<times> mem" where
  "delcommand_try cmd s m =
     (case delcommand_scan cmd (cmdtable s) of
        None \<Rightarrow> (Missing, s, m)
      | Some (r, t) \<Rightarrow> if r \<noteq> 0 then (Busy, s, m) else (Deleted, s\<lparr>cmdtable := t\<rparr>, Free True m))"

text \<open>
  The loop itself, as long as no other thread moves: \<open>None\<close> when it goes round for ever,
  otherwise whether it fails.
\<close>

definition delcommand :: "string \<Rightarrow> ctlserver \<Rightarrow> mem \<Rightarrow> (bool \<times> ctlserver \<times> mem) option" where
  "delcommand cmd s m =
     (case delcommand_try cmd s m of
        (Missing, s1, m1) \<Rightarrow> Some (True, s1, m1)
      | (Busy, s1, m1) \<Rightarrow> None
      | (Deleted, s1, m1) \<Rightarrow> Some (False, s1, m1))"

fun delcommands :: "string list \<Rightarrow> ctlserver \<Rightarrow> mem \<Rightarrow> (bool \<times> ctlserver \<times> mem) option" where
  "delcommands [] s m = Some (False, s, m)"
| "delcommands (c # cs) s m =
     (case delcommand c s m of
        None \<Rightarrow> None
      | Some (e, s1, m1) \<Rightarrow> map_option (\<lambda>(e2, s2, m2). (e \<or> e2, s2, m2)) (delcommands cs s1 m1))"

text \<open>\<open>reg\<close> are the commands registered so far, the last one first, as a failure takes them back.\<close>

fun regcommands_loop :: "string list \<Rightarrow> string list \<Rightarrow> ctlserver \<Rightarrow> mem \<Rightarrow> (bool \<times> ctlserver \<times> mem) option" where
  "regcommands_loop reg [] s m = Some (False, s, m)"
| "regcommands_loop reg (c # cs) s m =
     (case regcommand c s m of
        (True, s1, m1) \<Rightarrow> map_option (\<lambda>(_, s2, m2). (True, s2, m2)) (delcommands reg s1 m1)
      | (False, s1, m1) \<Rightarrow> regcommands_loop (c # reg) cs s1 m1)"

definition regcommands :: "string list \<Rightarrow> ctlserver \<Rightarrow> mem \<Rightarrow> (bool \<times> ctlserver \<times> mem) option" where
  "regcommands cmds s m = regcommands_loop [] cmds s m"

subsection \<open>Scheduling\<close>

definition map_entry :: "nat \<Rightarrow> (export_cmd \<Rightarrow> export_cmd) \<Rightarrow> (nat \<times> export_cmd) list \<Rightarrow> (nat \<times> export_cmd) list" where
  "map_entry a f t = map (\<lambda>(b, e). (b, if b = a then f e else e)) t"

fun find_cmd :: "string \<Rightarrow> (nat \<times> export_cmd) list \<Rightarrow> nat option" where
  "find_cmd c [] = None"
| "find_cmd c ((a, e) # t) = (if ecmd e = c then Some a else find_cmd c t)"

definition schedule :: "int \<Rightarrow> int \<Rightarrow> string \<Rightarrow> ctlserver \<Rightarrow> mem \<Rightarrow> bool \<times> ctlserver \<times> mem" where
  "schedule sd errsd cmdstr s m =
     (case find_cmd cmdstr (cmdtable s) of
        None \<Rightarrow> (True, close_fd errsd (close_fd sd (Writen errsd (''No handler for command.'' @ [CHR 0x0A]) s)), m)
      | Some a \<Rightarrow>
          (case Malloc 32 m of
             (False, m1) \<Rightarrow> (True, close_fd errsd (close_fd sd (Writen errsd (''No resources for command.'' @ [CHR 0x0A]) s)), m1)
           | (True, m1) \<Rightarrow>
               (False, s\<lparr>cmdtable := map_entry a (\<lambda>e. e\<lparr>refcount := refcount e + 1\<rparr>) (cmdtable s),
                  pending_cmd_states := \<lparr>scs = init_cmd_state sd errsd, scmd = a\<rparr> # pending_cmd_states s\<rparr>, m1)))"

text \<open>The two halves of a round of a drone: taking a command under the lock, and running it.\<close>

definition drone_take :: "nat \<Rightarrow> ctlserver \<Rightarrow> ctlserver" where
  "drone_take d s =
     (case pending_cmd_states s of
        [] \<Rightarrow> s
      | me # ps \<Rightarrow> s\<lparr>pending_cmd_states := ps, drone_horde := (drone_horde s)[d := Some me]\<rparr>)"

definition drone_reply :: "cmd_state \<Rightarrow> string \<Rightarrow> string \<Rightarrow> ctlserver \<Rightarrow> ctlserver" where
  "drone_reply cs out err s =
     (if sent_success cs then s
      else
        let s1 = (if out \<noteq> [] then Writen (cs_sd cs) out s else s)
        in if err \<noteq> [] then Writen (cs_errsd cs) err s1 else s1)"

definition drone_run ::
  "(string \<Rightarrow> cmd_state \<Rightarrow> string \<times> string \<times> bool) \<Rightarrow> nat \<Rightarrow> scheduled_cmd \<Rightarrow> ctlserver \<Rightarrow> mem \<Rightarrow> (ctlserver \<times> mem) option" where
  "drone_run fxn d me s m =
     (case map_of (cmdtable s) (scmd me) of
        None \<Rightarrow> None
      | Some e \<Rightarrow>
          (case fxn (ecmd e) (scs me) of (out, err, sent) \<Rightarrow>
             let cs = (scs me)\<lparr>sent_success := sent\<rparr>;
                 s1 = drone_reply cs out err (s\<lparr>ran := ran s @ [(ecmd e, scs me)]\<rparr>);
                 s2 = s1\<lparr>cmdtable := map_entry (scmd me) (\<lambda>e. e\<lparr>refcount := refcount e - 1\<rparr>) (cmdtable s1)\<rparr>;
                 (_, s3) = close_cmd_state cs s2
             in Some (s3\<lparr>drone_horde := (drone_horde s3)[d := None]\<rparr>, Free True m)))"

subsection \<open>Connections\<close>

text \<open>
  A connection waiting on the listening socket: its descriptor, what the first recvmsg answers,
  the control message (whether its length, level and type are right, and the descriptor it
  carries), the bytes the client sends and whether fcntl works on the descriptor.
\<close>

record connection =
  conn_sd :: int
  first_recv :: int
  cmsg :: "(bool \<times> bool \<times> bool \<times> int) option"
  sent :: string
  cloexec_ok :: bool

text \<open>The loop of recv_fd: byte after byte into the buffer, up to a NUL or \<open>sz\<close> of them.\<close>

fun read_command :: "string \<Rightarrow> nat \<Rightarrow> nat \<Rightarrow> string \<Rightarrow> nat option \<times> string" where
  "read_command [] z sz data = (if z < sz then None else Some z, data)"
| "read_command (c # cs) z sz data =
     (if z < sz then
        let data1 = data[z := c] in if c = NUL then (Some z, data1) else read_command cs (Suc z) sz data1
      else (Some z, data))"

text \<open>The answer is the first byte of the descriptor; a failure is negative.\<close>

definition recv_fd :: "connection \<Rightarrow> string \<Rightarrow> nat \<Rightarrow> int \<times> string \<times> nat" where
  "recv_fd c data sz =
     (if first_recv c < 4 then (-1, data, sz)
      else case cmsg c of
          None \<Rightarrow> (-1, data, sz)
        | Some (len_ok, level_ok, type_ok, fd) \<Rightarrow>
            if \<not> len_ok \<or> \<not> level_ok \<or> \<not> type_ok then (-1, data, sz)
            else case read_command (sent c) 0 sz data of
                (None, data1) \<Rightarrow> (-1, data1, sz)
              | (Some z, data1) \<Rightarrow> (fd mod 256, data1, z))"

definition ctlserv_accept :: "connection \<Rightarrow> string \<Rightarrow> nat \<Rightarrow> (int \<times> string) option" where
  "ctlserv_accept c buf sz =
     (if sz < 2 then Some (-1, buf)
      else case recv_fd c buf sz of
          (fd, buf1, z) \<Rightarrow>
            if fd < 0 then Some (-1, buf1)
            else if z \<ge> length buf1 then None
            else Some (fd, buf1[z := NUL]))"

text \<open>The kernel opens the descriptor that a message passes.\<close>

definition passed_fds :: "connection \<Rightarrow> int multiset" where
  "passed_fds c = (case cmsg c of Some (_, True, True, fd) \<Rightarrow> if first_recv c > 0 then {#fd#} else {#} | _ \<Rightarrow> {#})"

definition server_commands :: "string list" where
  "server_commands = [''shutdown'', ''internal_noop'']"

definition commands :: "string list" where
  "commands = [''help'', ''external_noop'']"

definition check_for_server_command :: "int \<Rightarrow> int \<Rightarrow> string \<Rightarrow> ctlserver \<Rightarrow> bool \<times> ctlserver" where
  "check_for_server_command sd errsd cmd s =
     (if cmd \<in> set server_commands then
        (False, snd (close_cmd_state (init_cmd_state sd errsd) (s\<lparr>ran := ran s @ [(cmd, init_cmd_state sd errsd)]\<rparr>)))
      else (True, s))"

definition admit :: "connection \<Rightarrow> string \<Rightarrow> ctlserver \<Rightarrow> ctlserver" where
  "admit c buf s = s\<lparr>cmdbuf := buf, open_fds := open_fds s + {#conn_sd c#} + passed_fds c\<rparr>"

text \<open>The text of the help command.\<close>

fun help_loop :: "string \<Rightarrow> string list \<Rightarrow> ustring \<Rightarrow> mem \<Rightarrow> bool \<times> ustring \<times> mem" where
  "help_loop tag [] u m = (False, u, m)"
| "help_loop tag (c # cs) u m =
     (case print_step (tag @ c @ [CHR 0x0A]) u m of
        (True, u1, m1) \<Rightarrow> (True, u1, m1)
      | (False, u1, m1) \<Rightarrow> help_loop tag cs u1 m1)"

definition stringize_help_locked :: "ctlserver \<Rightarrow> ustring \<Rightarrow> mem \<Rightarrow> bool \<times> ustring \<times> mem" where
  "stringize_help_locked s u m =
     (case help_loop ''internal] '' server_commands u m of
        (True, u1, m1) \<Rightarrow> (True, u1, m1)
      | (False, u1, m1) \<Rightarrow> help_loop ''external] '' (map (\<lambda>(a, e). ecmd e) (cmdtable s)) u1 m1)"

text \<open>The callback on the listening socket; the answer includes the connections it leaves waiting.\<close>

fun localaccept :: "connection list \<Rightarrow> ctlserver \<Rightarrow> mem \<Rightarrow> (connection list \<times> ctlserver \<times> mem) option" where
  "localaccept [] s m = Some ([], s, m)"
| "localaccept (c # cs) s m =
     (case ctlserv_accept c (cmdbuf s) CMDBUF_SIZE of
        None \<Rightarrow> None
      | Some (errsd, buf) \<Rightarrow>
          let s1 = admit c buf s in
          if errsd < 0 then Some (cs, close_fd (conn_sd c) s1, m)
          else if \<not> cloexec_ok c then Some (cs, close_fd errsd (close_fd (conn_sd c) s1), m)
          else case check_for_server_command (conn_sd c) errsd (cpart buf) s1 of
              (False, s2) \<Rightarrow> Some (cs, s2, m)
            | (True, s2) \<Rightarrow>
                (case schedule (conn_sd c) errsd (cpart buf) s2 m of
                   (True, s3, m1) \<Rightarrow> Some (cs, s3, m1)
                 | (False, s3, m1) \<Rightarrow> localaccept cs s3 m1))"

subsection \<open>Starting and stopping\<close>

text \<open>
  The static state beside the table: the name and descriptor of the listening socket, the event
  handler (a pointer that may be null, or dangle), whether the marshalled state is allocated, and
  how many drones live. The operating system's answers are a record. Locks and the removal of the
  socket's file only call the system.
\<close>

datatype 'a pointer = Null | Ref 'a | Dangling

datatype srvcb = Localaccept

record daemon =
  core :: ctlserver
  listensn :: "string option"
  listenfd :: int
  ctlev :: "srvcb evhandler pointer"
  cmarsh :: bool
  herd :: nat

record srv_env =
  srvrlock_ok :: bool
  srvrcond_ok :: bool
  drone_ok :: "nat \<Rightarrow> bool"
  listen_local_fd :: int
  listen_flags_ok :: bool
  ev_boot :: boot
  ev_thread_ok :: bool
  ev_raw :: "srvcb evhandler"
  ev_lock_ok :: bool

definition mainserv_close :: "daemon \<Rightarrow> mem \<Rightarrow> daemon \<times> mem" where
  "mainserv_close d m =
     (let d1 = (if listenfd d \<ge> 0 then d\<lparr>core := close_fd (listenfd d) (core d), listenfd := -1\<rparr> else d)
      in (d1\<lparr>listensn := None\<rparr>, Free (listensn d1 \<noteq> None) m))"

definition destroy_ctlev :: "daemon \<Rightarrow> mem \<Rightarrow> mem option" where
  "destroy_ctlev d m =
     (case ctlev d of Null \<Rightarrow> Some (destroy_evhandler (None :: srvcb evhandler option) m)
      | Ref e \<Rightarrow> Some (destroy_evhandler (Some e) m)
      | Dangling \<Rightarrow> None)"

definition corral_the_herd :: "daemon \<Rightarrow> daemon" where
  "corral_the_herd d = d\<lparr>herd := 0\<rparr>"

fun sew_loop :: "(nat \<Rightarrow> bool) \<Rightarrow> nat \<Rightarrow> nat \<Rightarrow> daemon \<Rightarrow> bool \<times> daemon" where
  "sew_loop ok z 0 d = (False, d)"
| "sew_loop ok z (Suc n) d = (if ok z then sew_loop ok (Suc z) n (d\<lparr>herd := Suc (herd d)\<rparr>) else (True, corral_the_herd d))"

definition sew_dragon_teeth :: "(nat \<Rightarrow> bool) \<Rightarrow> nat \<Rightarrow> daemon \<Rightarrow> bool \<times> daemon" where
  "sew_dragon_teeth ok n d = sew_loop ok 0 n d"

definition listen_on :: "int \<Rightarrow> daemon \<Rightarrow> daemon" where
  "listen_on fd d =
     d\<lparr>listenfd := fd, core := (if fd < 0 then core d else (core d)\<lparr>open_fds := open_fds (core d) + {#fd#}\<rparr>)\<rparr>"

text \<open>The labels \<open>err\<close>, \<open>herderr\<close> and \<open>cmderr\<close> of init_ctlserver.\<close>

definition init_err :: "daemon \<Rightarrow> mem \<Rightarrow> (bool \<times> daemon \<times> mem) option" where
  "init_err d m =
     (case mainserv_close d m of
        (d1, m1) \<Rightarrow> map_option (\<lambda>m2. (True, d1\<lparr>ctlev := Null, cmarsh := False\<rparr>, Free (cmarsh d1) m2)) (destroy_ctlev d1 m1))"

definition init_herderr :: "daemon \<Rightarrow> mem \<Rightarrow> (bool \<times> daemon \<times> mem) option" where
  "init_herderr d m = init_err (corral_the_herd d) m"

definition init_cmderr :: "daemon \<Rightarrow> mem \<Rightarrow> (bool \<times> daemon \<times> mem) option" where
  "init_cmderr d m =
     (case delcommands commands (core d) m of
        None \<Rightarrow> None
      | Some (_, c, m1) \<Rightarrow> init_herderr (d\<lparr>core := c\<rparr>) m1)"

text \<open>init_ctlserver in three parts: from create_evthread on, from listen_local on, and from the start.\<close>

definition init_serve :: "srv_env \<Rightarrow> daemon \<Rightarrow> mem \<Rightarrow> (bool \<times> daemon \<times> mem) option" where
  "init_serve v d m =
     (case create_evthread (ev_boot v) (ev_thread_ok v) (ev_raw v) LIBDANK_FD_CLOEXEC m of
        None \<Rightarrow> None
      | Some (None, m1) \<Rightarrow> init_cmderr (d\<lparr>ctlev := Null\<rparr>) m1
      | Some (Some e, m1) \<Rightarrow>
          (case add_fd_to_evhandler (ev_lock_ok v) (ctl_ok (ev_boot v)) e (listenfd d) (Some (User Localaccept)) None (Arg 0) of
             None \<Rightarrow> None
           | Some (True, e1) \<Rightarrow> init_cmderr (d\<lparr>ctlev := Ref e1\<rparr>) m1
           | Some (False, e1) \<Rightarrow> Some (False, d\<lparr>ctlev := Ref e1\<rparr>, m1)))"

definition init_listen :: "srv_env \<Rightarrow> daemon \<Rightarrow> mem \<Rightarrow> (bool \<times> daemon \<times> mem) option" where
  "init_listen v d m =
     (let d1 = listen_on (listen_local_fd v) d in
      if listenfd d1 < 0 \<or> \<not> listen_flags_ok v then init_herderr d1 m
      else case regcommands commands (core d1) m of
          None \<Rightarrow> None
        | Some (True, c, m1) \<Rightarrow> init_herderr (d1\<lparr>core := c\<rparr>) m1
        | Some (False, c, m1) \<Rightarrow> init_serve v (d1\<lparr>core := c\<rparr>) m1)"

definition init_ctlserver :: "srv_env \<Rightarrow> string \<Rightarrow> daemon \<Rightarrow> mem \<Rightarrow> (bool \<times> daemon \<times> mem) option" where
  "init_ctlserver v sn d m =
     (case Malloc 238 m of
        (False, m1) \<Rightarrow> init_err (d\<lparr>cmarsh := False\<rparr>) m1
      | (True, m1) \<Rightarrow>
          (case Strdup (Some sn) m1 of
             (None, m2) \<Rightarrow> init_err (d\<lparr>cmarsh := True, listensn := None\<rparr>) m2
           | (Some t, m2) \<Rightarrow>
               if \<not> srvrlock_ok v \<or> \<not> srvrcond_ok v then init_err (d\<lparr>cmarsh := True, listensn := Some t\<rparr>) m2
               else (case sew_dragon_teeth (drone_ok v) DRONE_HORDE_SIZE (d\<lparr>cmarsh := True, listensn := Some t\<rparr>) of
                   (True, d1) \<Rightarrow> init_err d1 m2
                 | (False, d1) \<Rightarrow> init_listen v d1 m2)))"

definition stop_ctlserver :: "daemon \<Rightarrow> mem \<Rightarrow> (bool \<times> daemon \<times> mem) option" where
  "stop_ctlserver d m =
     (if ctlev d = Null then Some (True, d, m)
      else case delcommands commands (core d) m of
          None \<Rightarrow> None
        | Some (e, c, m1) \<Rightarrow>
            (case mainserv_close (d\<lparr>core := c\<rparr>) m1 of
               (d1, m2) \<Rightarrow>
                 (case destroy_ctlev d1 m2 of
                    None \<Rightarrow> None
                  | Some m3 \<Rightarrow> Some (e, (corral_the_herd d1)\<lparr>ctlev := Dangling, cmarsh := False\<rparr>, Free (cmarsh d1) m3))))"

subsection \<open>Runs\<close>

text \<open>
  The steps of the threads: the callback on waiting connections, a drone taking a command, a
  drone running the one it has, and a registration or a turn of a removal by any thread. The
  connections satisfy \<open>P\<close>; the kernel's descriptors are not negative. A request that is written
  past the buffer is undefined and has no step (\<open>ctlserv_accept_bounds\<close> says which those are).
\<close>

definition conn_ok :: "connection \<Rightarrow> bool" where
  "conn_ok c \<longleftrightarrow> 0 \<le> conn_sd c \<and> (case cmsg c of Some (l, v, t, fd) \<Rightarrow> 0 \<le> fd | None \<Rightarrow> True)"

text \<open>The descriptor passed fits the byte that \<open>recv_fd\<close> reads of it.\<close>

definition narrow :: "connection \<Rightarrow> bool" where
  "narrow c \<longleftrightarrow> (case cmsg c of Some (l, v, t, fd) \<Rightarrow> fd < 256 | None \<Rightarrow> True)"

definition new_server :: "string \<Rightarrow> nat \<Rightarrow> ctlserver" where
  "new_server buf n = \<lparr>cmdtable = [], next_addr = 0, pending_cmd_states = [], drone_horde = replicate n None, cmdbuf = buf,
     open_fds = {#}, ran = [], written = []\<rparr>"

inductive drone_step :: "(string \<Rightarrow> cmd_state \<Rightarrow> string \<times> string \<times> bool) \<Rightarrow> ctlserver \<times> mem \<Rightarrow> ctlserver \<times> mem \<Rightarrow> bool" for fxn where
  take: "drone_step fxn (s, m) (drone_take d s, m)" if "d < length (drone_horde s)" "drone_horde s ! d = None"
| run: "drone_step fxn (s, m) (s', m')"
    if "d < length (drone_horde s)" "drone_horde s ! d = Some me" "drone_run fxn d me s m = Some (s', m')"

inductive srv_step :: "(string \<Rightarrow> cmd_state \<Rightarrow> string \<times> string \<times> bool) \<Rightarrow> (connection \<Rightarrow> bool) \<Rightarrow> ctlserver \<times> mem \<Rightarrow> ctlserver \<times> mem \<Rightarrow> bool"
  for fxn P where
  accept: "srv_step fxn P (s, m) (s', m')" if "localaccept cs s m = Some (cs', s', m')" "\<forall>c \<in> set cs. conn_ok c \<and> P c"
| drone: "srv_step fxn P c c'" if "drone_step fxn c c'"
| reg: "srv_step fxn P (s, m) (s', m')" if "regcommand c s m = (e, s', m')"
| del: "srv_step fxn P (s, m) (s', m')" if "delcommand_try c s m = (r, s', m')"

inductive srv_reach :: "(string \<Rightarrow> cmd_state \<Rightarrow> string \<times> string \<times> bool) \<Rightarrow> (connection \<Rightarrow> bool) \<Rightarrow> int \<Rightarrow> ctlserver \<times> mem \<Rightarrow> bool"
  for fxn P base where
  start: "srv_reach fxn P base (new_server buf DRONE_HORDE_SIZE, m)" if "length buf = CMDBUF_SIZE" "allocs_used m = base"
| step: "srv_reach fxn P base c'" if "srv_reach fxn P base c" "srv_step fxn P c c'"

subsection \<open>The invariant\<close>

definition active :: "scheduled_cmd option list \<Rightarrow> scheduled_cmd multiset" where
  "active ds = image_mset the (filter_mset (\<lambda>x. x \<noteq> None) (mset ds))"

definition jobs :: "ctlserver \<Rightarrow> scheduled_cmd multiset" where
  "jobs s = mset (pending_cmd_states s) + active (drone_horde s)"

definition uses :: "scheduled_cmd multiset \<Rightarrow> nat \<Rightarrow> nat" where
  "uses js a = count (image_mset scmd js) a"

definition job_fds :: "scheduled_cmd \<Rightarrow> int multiset" where
  "job_fds j = {#cs_sd (scs j), cs_errsd (scs j)#}"

definition table_ok :: "(nat \<times> export_cmd) list \<Rightarrow> nat \<Rightarrow> scheduled_cmd multiset \<Rightarrow> bool" where
  "table_ok t n js \<longleftrightarrow> distinct (map fst t) \<and> (\<forall>a e. (a, e) \<in> set t \<longrightarrow> a < n \<and> refcount e = uses js a) \<and> (\<forall>j \<in># js. scmd j \<in> fst ` set t)"

text \<open>\<open>n\<close>: whether the descriptors that were passed are narrow, so that what a command closes is its own.\<close>

definition srv_ok :: "bool \<Rightarrow> int \<Rightarrow> ctlserver \<times> mem \<Rightarrow> bool" where
  "srv_ok n base c \<longleftrightarrow> (case c of (s, m) \<Rightarrow>
     table_ok (cmdtable s) (next_addr s) (jobs s) \<and> length (cmdbuf s) = CMDBUF_SIZE \<and> length (drone_horde s) = DRONE_HORDE_SIZE \<and>
     allocs_used m = base + int (length (cmdtable s) + size (jobs s)) \<and>
     (\<forall>j \<in># jobs s. 0 \<le> cs_sd (scs j) \<and> 0 \<le> cs_errsd (scs j)) \<and>
     (n \<longrightarrow> \<Sum>\<^sub># (image_mset job_fds (jobs s)) \<subseteq># open_fds s))"

lemma uses_simps [simp]: "uses {#} a = 0" "uses (add_mset j js) a = (if scmd j = a then Suc (uses js a) else uses js a)"
  by (simp_all add: uses_def)

lemma active_set:
  assumes "d < length ds"
  shows "ds ! d = None \<Longrightarrow> active (ds[d := Some j]) = add_mset j (active ds)"
    "ds ! d = Some j \<Longrightarrow> add_mset j (active (ds[d := None])) = active ds"
proof -
  obtain xs y ys where ds: "ds = xs @ y # ys" "length xs = d" using assms id_take_nth_drop [of d ds] by (metis length_take min.absorb4)
  show "ds ! d = None \<Longrightarrow> active (ds[d := Some j]) = add_mset j (active ds)"
    "ds ! d = Some j \<Longrightarrow> add_mset j (active (ds[d := None])) = active ds"
    using ds(2) [symmetric] by (simp_all add: active_def ds(1) list_update_append nth_append)
qed

lemma map_entry_simps [simp]: "map fst (map_entry a f t) = map fst t" "length (map_entry a f t) = length t"
  "fst ` set (map_entry a f t) = fst ` set t"
  by (auto simp: map_entry_def comp_def case_prod_beta image_image)

lemma in_map_entry [simp]: "(b, e') \<in> set (map_entry a f t) \<longleftrightarrow> (\<exists>e. (b, e) \<in> set t \<and> e' = (if b = a then f e else e))"
  by (induction t) (auto simp: map_entry_def)

lemma find_cmd_in: "find_cmd c t = Some a \<Longrightarrow> a \<in> fst ` set t"
  by (induction c t rule: find_cmd.induct) (auto split: if_splits)

lemma table_ok_add:
  assumes "table_ok t n js" "scmd j \<in> fst ` set t"
  shows "table_ok (map_entry (scmd j) (\<lambda>e. e\<lparr>refcount := refcount e + 1\<rparr>) t) n (add_mset j js)"
  using assms by (auto simp: table_ok_def)

lemma table_ok_remove:
  assumes "table_ok t n (add_mset j js)"
  shows "table_ok (map_entry (scmd j) (\<lambda>e. e\<lparr>refcount := refcount e - 1\<rparr>) t) n js"
proof -
  have "a < n \<and> refcount e = uses js a" if e: "(a, e) \<in> set (map_entry (scmd j) (\<lambda>e. e\<lparr>refcount := refcount e - 1\<rparr>) t)" for a e
  proof -
    obtain f where f: "(a, f) \<in> set t" "e = (if a = scmd j then f\<lparr>refcount := refcount f - 1\<rparr> else f)" using e by auto
    have r: "\<forall>a e. (a, e) \<in> set t \<longrightarrow> a < n \<and> refcount e = uses (add_mset j js) a" using assms unfolding table_ok_def by blast
    have "a < n" "refcount f = uses (add_mset j js) a" using r f(1) by blast+
    with f(2) show ?thesis by (cases "a = scmd j") simp_all
  qed
  moreover have "distinct (map fst t)" "\<forall>j \<in># js. scmd j \<in> fst ` set t" using assms by (simp_all add: table_ok_def)
  ultimately show ?thesis unfolding table_ok_def map_entry_simps by blast
qed

lemma delcommand_scan_spec:
  "delcommand_scan c t = Some (r, t') \<Longrightarrow>
   \<exists>t1 a e t2. t = t1 @ (a, e) # t2 \<and> ecmd e = c \<and> r = refcount e \<and> t' = (if r = 0 then t1 @ t2 else t) \<and> (\<forall>x \<in> set t1. ecmd (snd x) \<noteq> c)"
proof (induction c t arbitrary: t' rule: delcommand_scan.induct)
  case (2 c a e t)
  show ?case
  proof (cases "ecmd e = c")
    case True
    with 2(2) show ?thesis by (intro exI [of _ "[]"] exI [of _ a] exI [of _ e] exI [of _ t]) auto
  next
    case False
    with 2(2) obtain t3 where t3: "delcommand_scan c t = Some (r, t3)" "t' = (a, e) # t3" by auto
    from 2(1) [OF False t3(1)] obtain t1 b f t2 where "t = t1 @ (b, f) # t2" "ecmd f = c" "r = refcount f"
      "t3 = (if r = 0 then t1 @ t2 else t)" "\<forall>x \<in> set t1. ecmd (snd x) \<noteq> c" by blast
    with False t3(2) show ?thesis by (intro exI [of _ "(a, e) # t1"] exI [of _ b] exI [of _ f] exI [of _ t2]) auto
  qed
qed simp

lemma table_ok_delete:
  assumes "table_ok (t1 @ (a, e) # t2) n js" "refcount e = 0"
  shows "table_ok (t1 @ t2) n js"
proof -
  have "uses js a = 0" using assms by (auto simp: table_ok_def)
  then have "\<forall>j \<in># js. scmd j \<noteq> a" by (auto simp: uses_def count_eq_zero_iff)
  with assms(1) show ?thesis by (auto simp: table_ok_def)
qed

subsection \<open>The steps keep the invariant\<close>

lemma close_fd_simps [simp]: "cmdtable (close_fd fd s) = cmdtable s" "next_addr (close_fd fd s) = next_addr s"
  "pending_cmd_states (close_fd fd s) = pending_cmd_states s" "drone_horde (close_fd fd s) = drone_horde s"
  "cmdbuf (close_fd fd s) = cmdbuf s" "open_fds (close_fd fd s) = open_fds s - {#fd#}" "jobs (close_fd fd s) = jobs s"
  "ran (close_fd fd s) = ran s" "written (close_fd fd s) = written s"
  by (simp_all add: close_fd_def jobs_def)

lemma Writen_simps [simp]: "cmdtable (Writen fd t s) = cmdtable s" "next_addr (Writen fd t s) = next_addr s"
  "pending_cmd_states (Writen fd t s) = pending_cmd_states s" "drone_horde (Writen fd t s) = drone_horde s"
  "cmdbuf (Writen fd t s) = cmdbuf s" "open_fds (Writen fd t s) = open_fds s" "jobs (Writen fd t s) = jobs s" "ran (Writen fd t s) = ran s"
  by (simp_all add: Writen_def jobs_def)

lemma close_cmd_state_eq:
  "0 \<le> cs_sd cs \<Longrightarrow> 0 \<le> cs_errsd cs \<Longrightarrow> snd (close_cmd_state cs s) = close_fd (cs_errsd cs) (close_fd (cs_sd cs) s)"
  by (simp add: close_cmd_state_def)

lemma read_command_length: "read_command cs z sz data = (r, data') \<Longrightarrow> length data' = length data"
  by (induction cs z sz data rule: read_command.induct) (auto simp: Let_def split: if_splits)

lemma ctlserv_accept_length: "ctlserv_accept c buf sz = Some (fd, buf') \<Longrightarrow> length buf' = length buf"
  by (auto simp: ctlserv_accept_def recv_fd_def split: if_splits option.splits prod.splits dest: read_command_length)

text \<open>A descriptor below 256 is received as it was passed.\<close>

lemma ctlserv_accept_fd:
  "ctlserv_accept c buf sz = Some (fd, buf') \<Longrightarrow> conn_ok c \<Longrightarrow> narrow c \<Longrightarrow> 0 \<le> fd \<Longrightarrow> passed_fds c = {#fd#}"
  by (auto simp: ctlserv_accept_def recv_fd_def passed_fds_def conn_ok_def narrow_def split: if_splits option.splits prod.splits)

lemma jobs_upd [simp]: "jobs (s\<lparr>cmdtable := t\<rparr>) = jobs s" "jobs (s\<lparr>cmdbuf := b\<rparr>) = jobs s" "jobs (s\<lparr>open_fds := f\<rparr>) = jobs s"
  "jobs (s\<lparr>ran := r\<rparr>) = jobs s" "jobs (s\<lparr>next_addr := n\<rparr>) = jobs s"
  by (simp_all add: jobs_def)

lemma admit_simps [simp]: "cmdtable (admit c buf s) = cmdtable s" "next_addr (admit c buf s) = next_addr s"
  "pending_cmd_states (admit c buf s) = pending_cmd_states s" "drone_horde (admit c buf s) = drone_horde s"
  "cmdbuf (admit c buf s) = buf" "open_fds (admit c buf s) = open_fds s + {#conn_sd c#} + passed_fds c"
  "jobs (admit c buf s) = jobs s" "ran (admit c buf s) = ran s" "written (admit c buf s) = written s"
  by (simp_all add: admit_def)

lemma srv_ok_close:
  assumes "srv_ok n base (s, m)" "n \<longrightarrow> \<Sum>\<^sub># (image_mset job_fds (jobs s)) + {#fd#} \<subseteq># open_fds s"
  shows "srv_ok n base (close_fd fd s, m)"
  using assms by (auto simp: srv_ok_def insert_subset_eq_iff)


lemma schedule_ok:
  assumes ok: "srv_ok n base (s, m)" and fds: "n \<longrightarrow> \<Sum>\<^sub># (image_mset job_fds (jobs s)) + {#sd, errsd#} \<subseteq># open_fds s"
    and nn: "0 \<le> sd" "0 \<le> errsd" and sc: "schedule sd errsd c s m = (e, s', m')"
  shows "srv_ok n base (s', m')"
proof -
  have closed: "srv_ok n base (close_fd errsd (close_fd sd (Writen errsd t s)), k)" if "allocs_used k = allocs_used m" for t k
    using ok fds that by (simp add: srv_ok_def insert_subset_eq_iff)
  show ?thesis
  proof (cases "find_cmd c (cmdtable s)")
    case None
    with sc closed show ?thesis by (auto simp: schedule_def)
  next
    case (Some a)
    obtain g m1 where g: "Malloc 32 m = (g, m1)" by (cases "Malloc 32 m")
    show ?thesis
    proof (cases g)
      case False
      with sc Some g closed Malloc_used [OF g] show ?thesis by (auto simp: schedule_def)
    next
      case True
      let ?j = "\<lparr>scs = init_cmd_state sd errsd, scmd = a\<rparr>"
      from True sc Some g have s': "m' = m1" "s' = s\<lparr>cmdtable := map_entry a (\<lambda>e. e\<lparr>refcount := refcount e + 1\<rparr>) (cmdtable s),
          pending_cmd_states := ?j # pending_cmd_states s\<rparr>" by (auto simp: schedule_def)
      have j: "jobs s' = add_mset ?j (jobs s)" by (simp add: s' jobs_def)
      have t: "table_ok (cmdtable s') (next_addr s') (jobs s')"
        using table_ok_add [of "cmdtable s" "next_addr s" "jobs s" ?j] ok find_cmd_in [OF Some] unfolding j by (simp add: s' srv_ok_def)
      have f: "job_fds ?j = {#sd, errsd#}" "0 \<le> cs_sd (scs ?j)" "0 \<le> cs_errsd (scs ?j)" using nn by (simp_all add: job_fds_def init_cmd_state_def)
      have rest: "length (cmdtable s') = length (cmdtable s)" "cmdbuf s' = cmdbuf s" "drone_horde s' = drone_horde s" "open_fds s' = open_fds s"
        by (simp_all add: s')
      from ok fds f Malloc_used [OF g] True t show ?thesis unfolding srv_ok_def j prod.case rest by (simp add: s'(1) add.commute)
    qed
  qed
qed

lemma accept_one:
  assumes "srv_ok n base (s, m)" "conn_ok c" "n \<longrightarrow> narrow c" "ctlserv_accept c (cmdbuf s) CMDBUF_SIZE = Some (errsd, buf)"
    "s1 = admit c buf s"
  shows "srv_ok n base (s1, m)" "n \<longrightarrow> \<Sum>\<^sub># (image_mset job_fds (jobs s1)) + {#conn_sd c#} \<subseteq># open_fds s1"
    "0 \<le> errsd \<Longrightarrow> n \<longrightarrow> \<Sum>\<^sub># (image_mset job_fds (jobs s1)) + {#conn_sd c, errsd#} \<subseteq># open_fds s1"
proof -
  have l: "length buf = CMDBUF_SIZE" using ctlserv_accept_length [OF assms(4)] assms(1) by (simp add: srv_ok_def)
  have f: "n \<Longrightarrow> \<Sum>\<^sub># (image_mset job_fds (jobs s)) \<subseteq># open_fds s" using assms(1) by (simp add: srv_ok_def)
  have le: "x \<subseteq># y + z" if "x \<subseteq># y" for x y z :: "int multiset" using that by (simp add: subset_mset.add_increasing2)
  show "srv_ok n base (s1, m)" using assms(1) l le [OF f, of "{#conn_sd c#} + passed_fds c"] by (cases n) (simp_all add: assms(5) srv_ok_def)
  show "n \<longrightarrow> \<Sum>\<^sub># (image_mset job_fds (jobs s1)) + {#conn_sd c#} \<subseteq># open_fds s1"
    using le [OF f, of "passed_fds c"] by (simp add: assms(5))
  show "n \<longrightarrow> \<Sum>\<^sub># (image_mset job_fds (jobs s1)) + {#conn_sd c, errsd#} \<subseteq># open_fds s1" if "0 \<le> errsd"
    using f ctlserv_accept_fd [OF assms(4,2) _ that] assms(3) by (simp add: assms(5))
qed

lemma localaccept_ok:
  assumes "localaccept cs s m = Some (cs', s', m')" "srv_ok n base (s, m)" "\<forall>c \<in> set cs. conn_ok c \<and> (n \<longrightarrow> narrow c)"
  shows "srv_ok n base (s', m')"
  using assms
proof (induction cs s m rule: localaccept.induct)
  case (2 c cs s m)
  obtain errsd buf where a: "ctlserv_accept c (cmdbuf s) CMDBUF_SIZE = Some (errsd, buf)" using 2(2) by (auto split: option.splits)
  define s1 where s1: "s1 = admit c buf s"
  have c: "conn_ok c" "n \<longrightarrow> narrow c" using 2(4) by simp_all
  then have sd: "0 \<le> conn_sd c" by (simp add: conn_ok_def)
  note one = accept_one [OF 2(3) c a s1]
  have cl: "srv_ok n base (close_fd errsd (close_fd (conn_sd c) s1), m)" if "0 \<le> errsd"
    using one(1) one(3) [OF that] by (simp add: srv_ok_def insert_subset_eq_iff)
  show ?case
  proof (cases "errsd < 0 \<or> \<not> cloexec_ok c")
    case True
    with 2(2) a cl srv_ok_close [OF one(1,2)] show ?thesis by (auto simp: Let_def s1 [symmetric] split: if_splits)
  next
    case False
    show ?thesis
    proof (cases "cpart buf \<in> set server_commands")
      case True
      have "srv_ok n base (close_fd errsd (close_fd (conn_sd c) (s1\<lparr>ran := x\<rparr>)), m)" for x
        using cl False by (simp add: srv_ok_def jobs_def)
      then have "srv_ok n base (snd (check_for_server_command (conn_sd c) errsd (cpart buf) s1), m)"
        using True False sd by (simp add: check_for_server_command_def close_cmd_state_eq init_cmd_state_def)
      with True False 2(2) a show ?thesis by (auto simp: Let_def s1 [symmetric] check_for_server_command_def)
    next
      case nosrv: False
      then have ch: "check_for_server_command (conn_sd c) errsd (cpart buf) s1 = (True, s1)" by (simp add: check_for_server_command_def)
      obtain e s3 m1 where sc: "schedule (conn_sd c) errsd (cpart buf) s1 m = (e, s3, m1)" by (metis prod_cases3)
      have ok3: "srv_ok n base (s3, m1)" using schedule_ok [OF one(1) one(3) sd _ sc] False by simp
      show ?thesis
      proof (cases e)
        case True
        with False 2(2) a ch sc ok3 show ?thesis by (auto simp: Let_def s1 [symmetric])
      next
        case e: False
        with False 2(2) a ch sc have "localaccept cs s3 m1 = Some (cs', s', m')" by (simp add: Let_def s1 [symmetric])
        then show ?thesis
          using 2(1) [OF a refl s1] e ch sc ok3 2(4) False by simp
      qed
    qed
  qed
qed simp

lemma drone_take_ok:
  assumes "srv_ok n base (s, m)" "d < length (drone_horde s)" "drone_horde s ! d = None"
  shows "srv_ok n base (drone_take d s, m)"
proof (cases "pending_cmd_states s")
  case Nil
  with assms show ?thesis by (simp add: drone_take_def)
next
  case (Cons me ps)
  then have "jobs (drone_take d s) = jobs s" using assms(2,3) by (simp add: drone_take_def jobs_def active_set)
  with assms Cons show ?thesis by (simp add: srv_ok_def drone_take_def)
qed


text \<open>Running a command always works: its entry is there, and it leaves the table without it.\<close>

definition names :: "(nat \<times> export_cmd) list \<Rightarrow> string list" where
  "names t = map (\<lambda>(a, e). ecmd e) t"

lemma names_simps [simp]: "names [] = []" "names ((a, e) # t) = ecmd e # names t" "names (t @ u) = names t @ names u"
  by (simp_all add: names_def)

lemma names_map_entry [simp]: "names (map_entry a (\<lambda>e. e\<lparr>refcount := f e\<rparr>) t) = names t"
  by (auto simp: names_def map_entry_def)

lemma drone_run_spec:
  assumes "srv_ok n base (s, m)" "d < length (drone_horde s)" "drone_horde s ! d = Some me"
  shows "\<exists>s' m' c. drone_run fxn d me s m = Some (s', m') \<and> srv_ok n base (s', m') \<and> jobs s = add_mset me (jobs s') \<and>
    pending_cmd_states s' = pending_cmd_states s \<and> drone_horde s' = (drone_horde s)[d := None] \<and>
    names (cmdtable s') = names (cmdtable s) \<and> ran s' = ran s @ [(c, scs me)] \<and> c \<in> set (names (cmdtable s))"
proof -
  let ?dec = "\<lambda>e. e\<lparr>refcount := refcount e - 1\<rparr>"
  let ?ds = "(drone_horde s)[d := None]"
  have js: "jobs s = add_mset me (mset (pending_cmd_states s) + active ?ds)"
    using active_set(2) [OF assms(2,3)] by (simp add: jobs_def)
  have tab: "table_ok (cmdtable s) (next_addr s) (jobs s)" and mem: "allocs_used m = base + int (length (cmdtable s) + size (jobs s))"
    and nn: "\<forall>j \<in># jobs s. 0 \<le> cs_sd (scs j) \<and> 0 \<le> cs_errsd (scs j)" and fds: "n \<longrightarrow> \<Sum>\<^sub># (image_mset job_fds (jobs s)) \<subseteq># open_fds s"
    and len: "length (cmdbuf s) = CMDBUF_SIZE" "length (drone_horde s) = DRONE_HORDE_SIZE"
    using assms(1) by (simp_all add: srv_ok_def)
  have "scmd me \<in> fst ` set (cmdtable s)" using tab js by (simp add: table_ok_def)
  then obtain e where e: "map_of (cmdtable s) (scmd me) = Some e" by (metis map_of_eq_None_iff option.exhaust)
  obtain out err sent where f: "fxn (ecmd e) (scs me) = (out, err, sent)" by (rule prod_cases3)
  let ?cs = "(scs me)\<lparr>sent_success := sent\<rparr>"
  define w where "w = drone_reply ?cs out err (s\<lparr>ran := ran s @ [(ecmd e, scs me)]\<rparr>)"
  have w: "cmdtable w = cmdtable s" "next_addr w = next_addr s" "pending_cmd_states w = pending_cmd_states s" "drone_horde w = drone_horde s"
    "cmdbuf w = cmdbuf s" "open_fds w = open_fds s" "ran w = ran s @ [(ecmd e, scs me)]" by (simp_all add: w_def drone_reply_def Let_def)
  define x where "x = close_fd (cs_errsd (scs me)) (close_fd (cs_sd (scs me)) (w\<lparr>cmdtable := map_entry (scmd me) ?dec (cmdtable s)\<rparr>))"
  have r: "drone_run fxn d me s m = Some (x\<lparr>drone_horde := (drone_horde x)[d := None]\<rparr>, Free True m)"
  proof -
    have "0 \<le> cs_sd ?cs" "0 \<le> cs_errsd ?cs" using nn js by auto
    then have "snd (close_cmd_state ?cs (w\<lparr>cmdtable := map_entry (scmd me) ?dec (cmdtable s)\<rparr>)) = x"
      by (simp add: close_cmd_state_eq x_def)
    then show ?thesis using w(1) by (simp add: drone_run_def e f w_def [symmetric] Let_def case_prod_beta)
  qed
  define s' where "s' = x\<lparr>drone_horde := (drone_horde x)[d := None]\<rparr>"
  have x: "cmdtable x = map_entry (scmd me) ?dec (cmdtable s)" "next_addr x = next_addr s" "pending_cmd_states x = pending_cmd_states s"
    "drone_horde x = drone_horde s" "cmdbuf x = cmdbuf s" "open_fds x = open_fds s - {#cs_sd (scs me)#} - {#cs_errsd (scs me)#}"
    "ran x = ran s @ [(ecmd e, scs me)]" by (simp_all add: x_def w)
  have y: "cmdtable s' = cmdtable x" "next_addr s' = next_addr x" "pending_cmd_states s' = pending_cmd_states x"
    "drone_horde s' = ?ds" "cmdbuf s' = cmdbuf x" "open_fds s' = open_fds x" "ran s' = ran x" by (simp_all add: s'_def x)
  have js': "jobs s' = mset (pending_cmd_states s) + active ?ds" by (simp add: jobs_def x y)
  have t: "table_ok (cmdtable x) (next_addr s) (jobs s')"
    unfolding js' x(1) by (rule table_ok_remove) (use tab js in metis)
  have fd': "n \<longrightarrow> \<Sum>\<^sub># (image_mset job_fds (jobs s')) \<subseteq># open_fds x"
    using fds unfolding js js' x by (simp add: job_fds_def insert_subset_eq_iff)
  have ok': "srv_ok n base (s', Free True m)"
    using t fd' len mem nn unfolding srv_ok_def prod.case js js' by (simp add: x y)
  have c: "ecmd e \<in> set (names (cmdtable s))" using map_of_SomeD [OF e] by (force simp: names_def)
  show ?thesis using r [folded s'_def] ok' js js' c by (intro exI [of _ s'] exI [of _ "Free True m"] exI [of _ "ecmd e"]) (simp add: x y)
qed

lemma regcommand_ok:
  assumes "srv_ok n base (s, m)" "regcommand c s m = (e, s', m')"
  shows "srv_ok n base (s', m')"
proof (cases e)
  case True
  with assms Malloc_used show ?thesis by (auto simp: regcommand_def srv_ok_def split: prod.splits bool.splits)
next
  case False
  with assms(2) obtain m1 where g: "Malloc 24 m = (True, m1)" and s': "m' = m1"
    "s' = s\<lparr>cmdtable := (next_addr s, \<lparr>refcount = 0, ecmd = c\<rparr>) # cmdtable s, next_addr := Suc (next_addr s)\<rparr>"
    by (auto simp: regcommand_def split: prod.splits bool.splits)
  have t: "table_ok (cmdtable s) (next_addr s) (jobs s)" using assms(1) by (simp add: srv_ok_def)
  then have fresh: "next_addr s \<notin> fst ` set (cmdtable s)" by (fastforce simp: table_ok_def)
  have "\<forall>j \<in># jobs s. scmd j \<noteq> next_addr s" using t fresh unfolding table_ok_def by metis
  then have "uses (jobs s) (next_addr s) = 0" by (auto simp: uses_def count_eq_zero_iff)
  with t fresh have "table_ok (cmdtable s') (next_addr s') (jobs s)" by (auto simp: table_ok_def s' less_Suc_eq)
  with assms(1) Malloc_used [OF g] show ?thesis by (simp add: srv_ok_def s')
qed

lemma delcommand_try_ok:
  assumes "srv_ok n base (s, m)" "delcommand_try c s m = (r, s', m')"
  shows "srv_ok n base (s', m')"
proof (cases "r = Deleted")
  case False
  with assms show ?thesis by (auto simp: delcommand_try_def split: option.splits if_splits)
next
  case True
  with assms(2) obtain t where t: "delcommand_scan c (cmdtable s) = Some (0, t)" "s' = s\<lparr>cmdtable := t\<rparr>" "m' = Free True m"
    by (auto simp: delcommand_try_def split: option.splits if_splits)
  from delcommand_scan_spec [OF t(1)] obtain t1 a e t2 where "cmdtable s = t1 @ (a, e) # t2" "refcount e = 0" "t = t1 @ t2" by auto
  with assms(1) t table_ok_delete show ?thesis by (auto simp: srv_ok_def)
qed

lemma drone_step_ok:
  assumes "drone_step fxn c c'" "srv_ok n base c"
  shows "srv_ok n base c'"
  using assms
proof (induction rule: drone_step.cases)
  case (run d s me m s' m')
  then show ?case using drone_run_spec [of n base s m d me fxn] by auto
qed (auto dest: drone_take_ok)

lemma srv_step_ok:
  assumes "srv_step fxn P c c'" "srv_ok n base c" "\<forall>c. n \<and> P c \<longrightarrow> narrow c"
  shows "srv_ok n base c'"
  using assms(1,2)
proof (induction rule: srv_step.cases)
  case (accept cs s m cs' s' m')
  then show ?case using localaccept_ok [of cs s m cs' s' m' n base] assms(3) by auto
qed (auto dest: drone_step_ok regcommand_ok delcommand_try_ok)

lemma srv_reach_ok: "srv_reach fxn P base c \<Longrightarrow> \<forall>c. n \<and> P c \<longrightarrow> narrow c \<Longrightarrow> srv_ok n base c"
proof (induction rule: srv_reach.induct)
  case (start buf m)
  then show ?case by (simp add: srv_ok_def new_server_def jobs_def active_def table_ok_def)
qed (use srv_step_ok in blast)

subsection \<open>Draining\<close>

definition todo :: "ctlserver \<Rightarrow> nat" where
  "todo s = 2 * length (pending_cmd_states s) + size (active (drone_horde s))"

lemma active_empty: "active ds = {#} \<longleftrightarrow> (\<forall>x \<in> set ds. x = None)"
  by (auto simp: active_def)

text \<open>While there is work, some drone can move, and there is less of it afterwards.\<close>

lemma drone_progress:
  assumes "srv_ok n base (s, m)" "jobs s \<noteq> {#}"
  shows "\<exists>s' m'. drone_step fxn (s, m) (s', m') \<and> todo s = Suc (todo s') \<and> names (cmdtable s') = names (cmdtable s)"
proof (cases "active (drone_horde s) = {#}")
  case True
  then obtain me ps where p: "pending_cmd_states s = me # ps" using assms(2) by (cases "pending_cmd_states s") (auto simp: jobs_def)
  have h: "0 < length (drone_horde s)" "drone_horde s ! 0 = None"
    using assms(1) True active_empty [of "drone_horde s"] by (auto simp: srv_ok_def DRONE_HORDE_SIZE_def)
  have "drone_step fxn (s, m) (drone_take 0 s, m)" by (rule drone_step.take [OF h])
  moreover have "todo s = Suc (todo (drone_take 0 s))" using p active_set(1) [OF h] by (simp add: todo_def drone_take_def)
  ultimately show ?thesis using p by (intro exI [of _ "drone_take 0 s"] exI [of _ m]) (simp add: drone_take_def)
next
  case False
  then obtain d me where d: "d < length (drone_horde s)" "drone_horde s ! d = Some me"
    unfolding active_empty by (metis in_set_conv_nth option.exhaust)
  from drone_run_spec [OF assms(1) d] obtain s' m' where r: "drone_run fxn d me s m = Some (s', m')"
    "pending_cmd_states s' = pending_cmd_states s" "drone_horde s' = (drone_horde s)[d := None]" "names (cmdtable s') = names (cmdtable s)"
    by blast
  have "drone_step fxn (s, m) (s', m')" by (rule drone_step.run [OF d r(1)])
  moreover have "todo s = Suc (todo s')" using active_set(2) [OF d] r by (simp add: todo_def flip: active_set(2) [OF d])
  ultimately show ?thesis using r(4) by blast
qed

lemma drone_drain:
  "srv_ok n base (s, m) \<Longrightarrow> \<exists>s' m'. (drone_step fxn ^^ todo s) (s, m) (s', m') \<and> srv_ok n base (s', m') \<and> jobs s' = {#} \<and>
     names (cmdtable s') = names (cmdtable s)"
proof (induction "todo s" arbitrary: s m)
  case 0
  then have j: "jobs s = {#}" by (simp add: todo_def jobs_def)
  with 0 show ?case by (metis relpowp_0_I)
next
  case (Suc k)
  then have "jobs s \<noteq> {#}" by (auto simp: todo_def jobs_def)
  from drone_progress [OF Suc(3) this] obtain s1 m1 where s1: "drone_step fxn (s, m) (s1, m1)" "todo s = Suc (todo s1)"
    "names (cmdtable s1) = names (cmdtable s)" by blast
  with Suc(2) have k: "k = todo s1" by simp
  from Suc(1) [OF k drone_step_ok [OF s1(1) Suc(3)]] obtain s2 m2 where "(drone_step fxn ^^ todo s1) (s1, m1) (s2, m2)"
    "srv_ok n base (s2, m2)" "jobs s2 = {#}" "names (cmdtable s2) = names (cmdtable s1)" by blast
  then show ?case unfolding s1(2) using s1(1,3) relpowp_Suc_I2 [of "drone_step fxn" "(s, m)" "(s1, m1)"] by metis
qed

lemma delcommand_scan_found: "c \<in> set (names t) \<Longrightarrow> \<exists>r t'. delcommand_scan c t = Some (r, t')"
  by (induction c t rule: delcommand_scan.induct) auto

lemma delcommand_try_free:
  assumes "srv_ok n base (s, m)" "jobs s = {#}" "c \<in> set (names (cmdtable s))"
  shows "\<exists>s'. delcommand_try c s m = (Deleted, s', Free True m) \<and> names (cmdtable s') = remove1 c (names (cmdtable s))"
proof -
  obtain r t where t: "delcommand_scan c (cmdtable s) = Some (r, t)" using delcommand_scan_found [OF assms(3)] by blast
  from delcommand_scan_spec [OF t] obtain t1 a e t2 where f: "cmdtable s = t1 @ (a, e) # t2" "ecmd e = c" "r = refcount e"
    "t = (if r = 0 then t1 @ t2 else cmdtable s)" "\<forall>x \<in> set t1. ecmd (snd x) \<noteq> c" by blast
  have "r = 0" using assms(1,2) f(1,3) by (auto simp: srv_ok_def table_ok_def)
  moreover have "c \<notin> set (names t1)" using f(5) by (auto simp: names_def)
  ultimately show ?thesis using t f by (simp add: delcommand_try_def remove1_append)
qed


subsection \<open>Registration\<close>

text \<open>Removing names finds them in the new entries in front, which nothing uses yet.\<close>

lemma delcommand_scan_front:
  assumes "c \<in> set (names xs)" "\<forall>x \<in> set xs. refcount (snd x) = 0"
  shows "\<exists>ys. delcommand_scan c (xs @ t) = Some (0, ys @ t) \<and> length xs = Suc (length ys) \<and> set ys \<subseteq> set xs \<and>
    mset (names xs) = add_mset c (mset (names ys))"
  using assms
proof (induction xs)
  case (Cons x xs)
  obtain a e where x: "x = (a, e)" by (cases x)
  show ?case
  proof (cases "ecmd e = c")
    case True
    with Cons.prems(2) show ?thesis by (intro exI [of _ xs]) (auto simp: x)
  next
    case False
    with Cons x obtain ys where "delcommand_scan c (xs @ t) = Some (0, ys @ t)" "length xs = Suc (length ys)" "set ys \<subseteq> set xs"
      "mset (names xs) = add_mset c (mset (names ys))" by auto
    with False show ?thesis by (intro exI [of _ "x # ys"]) (auto simp: x)
  qed
qed simp

lemma delcommands_front:
  assumes "cmdtable s = xs @ t" "\<forall>x \<in> set xs. refcount (snd x) = 0" "mset (names xs) = mset cs"
  shows "\<exists>m'. delcommands cs s m = Some (False, s\<lparr>cmdtable := t\<rparr>, m') \<and> allocs_used m' = allocs_used m - int (length cs)"
  using assms
proof (induction cs arbitrary: xs s m)
  case Nil
  then have "xs = []" by (cases xs) auto
  with Nil(1) show ?case by simp
next
  case (Cons c cs)
  have "c \<in> set (names xs)" using Cons.prems(3) by (metis list.set_intros(1) set_mset_mset)
  from delcommand_scan_front [OF this Cons.prems(2), of t] obtain ys where
    d: "delcommand_scan c (xs @ t) = Some (0, ys @ t)" "set ys \<subseteq> set xs" "mset (names xs) = add_mset c (mset (names ys))" by blast
  let ?s = "s\<lparr>cmdtable := ys @ t\<rparr>"
  have del: "delcommand c s m = Some (False, ?s, Free True m)" using d(1) Cons.prems(1) by (simp add: delcommand_def delcommand_try_def)
  have "\<forall>x \<in> set ys. refcount (snd x) = 0" "mset (names ys) = mset cs" using d(2,3) Cons.prems(2,3) by auto
  from Cons.IH [of ?s ys "Free True m", OF _ this] obtain m' where
    "delcommands cs ?s (Free True m) = Some (False, ?s\<lparr>cmdtable := t\<rparr>, m')" "allocs_used m' = allocs_used (Free True m) - int (length cs)" by auto
  with del show ?case by simp
qed

lemma regcommands_loop_spec:
  assumes "cmdtable s = xs @ t" "\<forall>x \<in> set xs. refcount (snd x) = 0" "names xs = reg"
  shows "\<exists>e s' m'. regcommands_loop reg cs s m = Some (e, s', m') \<and>
    (if e then cmdtable s' = t \<and> allocs_used m' = allocs_used m - int (length reg)
     else allocs_used m' = allocs_used m + int (length cs) \<and>
       (\<exists>ys. cmdtable s' = ys @ t \<and> names ys = rev cs @ reg \<and> (\<forall>x \<in> set ys. refcount (snd x) = 0)))"
  using assms
proof (induction cs arbitrary: reg xs s m)
  case Nil
  then show ?case by auto
next
  case (Cons c cs)
  obtain e1 s1 m1 where r: "regcommand c s m = (e1, s1, m1)" by (rule prod_cases3)
  show ?case
  proof (cases e1)
    case True
    with r have s1: "s1 = s" "allocs_used m1 = allocs_used m" by (auto simp: regcommand_def dest: Malloc_used split: prod.splits bool.splits)
    have "mset (names xs) = mset reg" using Cons.prems(3) by simp
    from delcommands_front [OF Cons.prems(1,2) this, of m1] obtain m' where
      "delcommands reg s m1 = Some (False, s\<lparr>cmdtable := t\<rparr>, m')" "allocs_used m' = allocs_used m1 - int (length reg)" by blast
    with True r s1 show ?thesis by (intro exI [of _ True]) simp
  next
    case False
    with r have s1: "cmdtable s1 = ((next_addr s, \<lparr>refcount = 0, ecmd = c\<rparr>) # xs) @ t" "allocs_used m1 = allocs_used m + 1"
      using Cons.prems(1) by (auto simp: regcommand_def dest: Malloc_used split: prod.splits bool.splits)
    have z: "\<forall>x \<in> set ((next_addr s, \<lparr>refcount = 0, ecmd = c\<rparr>) # xs). refcount (snd x) = 0"
      "names ((next_addr s, \<lparr>refcount = 0, ecmd = c\<rparr>) # xs) = c # reg" using Cons.prems(2,3) by simp_all
    from Cons.IH [OF s1(1) z, of m1] r False s1(2) show ?thesis by (auto split: if_splits)
  qed
qed

subsection \<open>Receiving a command\<close>

lemma read_command_spec:
  assumes "z \<le> sz" "length data = sz"
  shows "read_command cs z sz data =
    (let t = takeWhile (\<lambda>c. c \<noteq> NUL) (take (sz - z) cs) in
     if length t = sz - z then (Some sz, take z data @ t)
     else if length t = length cs then (None, take z data @ cs @ drop (z + length cs) data)
     else (Some (z + length t), take z data @ t @ NUL # drop (Suc (z + length t)) data))"
  using assms
proof (induction cs z sz data rule: read_command.induct)
  case (1 z sz data)
  then show ?case by (auto simp: Let_def)
next
  case (2 c cs z sz data)
  show ?case
  proof (cases "z < sz")
    case False
    with 2(2,3) show ?thesis by simp
  next
    case True
    have t: "take (sz - z) (c # cs) = c # take (sz - Suc z) cs" using True by (simp add: take_Cons' Suc_diff_Suc)
    have u: "take z data @ [c] = take (Suc z) (data[z := c])" "drop (Suc n) (data[z := c]) = drop (Suc n) data" if "z \<le> n" for n
      using True 2(3) that by (simp_all add: take_Suc_conv_app_nth)
    show ?thesis
    proof (cases "c = NUL")
      case True
      then show ?thesis using \<open>z < sz\<close> 2(3) by (simp add: t [unfolded True] upd_conv_take_nth_drop Let_def)
    next
      case False
      define T where "T = takeWhile (\<lambda>c. c \<noteq> NUL) (take (sz - Suc z) cs)"
      have T: "takeWhile (\<lambda>c. c \<noteq> NUL) (take (sz - z) (c # cs)) = c # T" using False by (simp add: t T_def)
      have n: "length (c # T) = sz - z \<longleftrightarrow> length T = sz - Suc z" using True by auto
      have rc: "read_command (c # cs) z sz data = read_command cs (Suc z) sz (data[z := c])" using True False by (simp add: Let_def)
      have ih: "read_command cs (Suc z) sz (data[z := c]) =
        (if length T = sz - Suc z then (Some sz, take (Suc z) (data[z := c]) @ T)
         else if length T = length cs then (None, take (Suc z) (data[z := c]) @ cs @ drop (Suc z + length cs) (data[z := c]))
         else (Some (Suc z + length T), take (Suc z) (data[z := c]) @ T @ NUL # drop (Suc (Suc z + length T)) (data[z := c])))"
        using 2(1) [OF True refl False] True 2(3) unfolding Let_def T_def [symmetric] by simp
      have w: "take (Suc z) (data[z := c]) = take z data @ [c]" "drop (Suc z + k) (data[z := c]) = drop (Suc z + k) data" for k
        using u(1) [OF le_refl] u(2) [of "z + k"] by simp_all
      have w2: "drop (Suc (Suc z + k)) (data[z := c]) = drop (Suc (Suc z + k)) data" for k using u(2) [of "Suc z + k"] by simp
      show ?thesis unfolding Let_def T n rc ih w w2 by simp
    qed
  qed
qed

text \<open>The first recvmsg brought a version and one descriptor.\<close>

definition header_ok :: "connection \<Rightarrow> int \<Rightarrow> bool" where
  "header_ok c fd \<longleftrightarrow> 4 \<le> first_recv c \<and> cmsg c = Some (True, True, True, fd)"

lemma cpart_upto: "NUL \<notin> set t \<Longrightarrow> cpart (t @ NUL # u) = t"
  by (simp add: cpart_def takeWhile_append)

lemma ctlserv_accept_spec:
  assumes "header_ok c fd" "length buf = sz" "2 \<le> sz"
  shows "ctlserv_accept c buf sz =
    (let t = takeWhile (\<lambda>c. c \<noteq> NUL) (take sz (sent c)) in
     if length t = sz then None
     else if length t = length (sent c) then Some (-1, sent c @ drop (length (sent c)) buf)
     else Some (fd mod 256, t @ NUL # drop (Suc (length t)) buf))"
proof -
  have r: "read_command (sent c) 0 sz buf =
    (let t = takeWhile (\<lambda>c. c \<noteq> NUL) (take sz (sent c)) in
     if length t = sz then (Some sz, t)
     else if length t = length (sent c) then (None, sent c @ drop (length (sent c)) buf)
     else (Some (length t), t @ NUL # drop (Suc (length t)) buf))"
    using read_command_spec [of 0 sz buf "sent c"] assms(2) by (simp add: Let_def)
  define t where "t = takeWhile (\<lambda>c. c \<noteq> NUL) (take sz (sent c))"
  have "length t \<le> sz" unfolding t_def by (metis le_trans length_take length_takeWhile_le min.cobounded2)
  moreover have "\<not> fd mod 256 < 0" by simp
  ultimately show ?thesis using assms unfolding t_def [symmetric] Let_def
    by (simp add: ctlserv_accept_def recv_fd_def header_ok_def r [folded t_def, unfolded Let_def])
qed


lemma takeWhile_take: "takeWhile P (take n xs) = take n (takeWhile P xs)"
  by (induction xs arbitrary: n) (auto simp: take_Cons')

text \<open>A well-formed request: the command that is asked for and the descriptor for its errors.\<close>

definition asks :: "connection \<Rightarrow> string \<Rightarrow> int \<Rightarrow> bool" where
  "asks c n fd \<longleftrightarrow> header_ok c fd \<and> cloexec_ok c \<and> 0 \<le> fd \<and> fd < 256 \<and> length n < CMDBUF_SIZE \<and> NUL \<notin> set n \<and>
     (\<exists>rest. sent c = n @ NUL # rest)"

lemma ctlserv_accept_asks:
  assumes "asks c n fd" "length buf = CMDBUF_SIZE"
  shows "\<exists>buf'. ctlserv_accept c buf CMDBUF_SIZE = Some (fd, buf') \<and> cpart buf' = n \<and> length buf' = CMDBUF_SIZE"
proof -
  obtain rest where r: "sent c = n @ NUL # rest" using assms(1) by (auto simp: asks_def)
  have t: "takeWhile (\<lambda>c. c \<noteq> NUL) (take CMDBUF_SIZE (sent c)) = n"
    using assms(1) unfolding takeWhile_take r by (auto simp: asks_def takeWhile_append)
  have "ctlserv_accept c buf CMDBUF_SIZE = Some (fd, n @ NUL # drop (Suc (length n)) buf)"
    using assms ctlserv_accept_spec [of c fd buf CMDBUF_SIZE] unfolding Let_def t
    by (simp add: asks_def r) (simp add: CMDBUF_SIZE_def)
  then show ?thesis using cpart_upto [of n] assms by (auto simp: asks_def)
qed

lemma find_cmd_map_entry [simp]: "find_cmd n (map_entry a (\<lambda>e. e\<lparr>refcount := f e\<rparr>) t) = find_cmd n t"
  by (induction n t rule: find_cmd.induct) (auto simp: map_entry_def)

lemma find_cmd_names: "n \<in> set (names t) \<Longrightarrow> \<exists>a. find_cmd n t = Some a"
  by (induction n t rule: find_cmd.induct) auto

definition job_of :: "(nat \<times> export_cmd) list \<Rightarrow> connection \<times> string \<times> int \<Rightarrow> scheduled_cmd" where
  "job_of t r = (case r of (c, n, fd) \<Rightarrow> \<lparr>scs = init_cmd_state (conn_sd c) fd, scmd = the (find_cmd n t)\<rparr>)"

lemma localaccept_request:
  assumes "asks c n fd" "length (cmdbuf s) = CMDBUF_SIZE" "plentiful m" "n \<in> set (names (cmdtable s))" "n \<notin> set server_commands"
  shows "\<exists>s1 m1. localaccept (c # cs) s m = localaccept cs s1 m1 \<and> plentiful m1 \<and> length (cmdbuf s1) = CMDBUF_SIZE \<and>
    pending_cmd_states s1 = job_of (cmdtable s) (c, n, fd) # pending_cmd_states s \<and> names (cmdtable s1) = names (cmdtable s) \<and>
    (\<forall>k. find_cmd k (cmdtable s1) = find_cmd k (cmdtable s))"
proof -
  obtain buf where b: "ctlserv_accept c (cmdbuf s) CMDBUF_SIZE = Some (fd, buf)" "cpart buf = n" "length buf = CMDBUF_SIZE"
    using ctlserv_accept_asks [OF assms(1,2)] by blast
  obtain a where a: "find_cmd n (cmdtable s) = Some a" using find_cmd_names [OF assms(4)] by blast
  obtain m1 where m1: "Malloc 32 m = (True, m1)" "plentiful m1" using Malloc_plentiful [OF assms(3), of 32] by auto
  let ?s = "admit c buf s"
  let ?s1 = "?s\<lparr>cmdtable := map_entry a (\<lambda>e. e\<lparr>refcount := refcount e + 1\<rparr>) (cmdtable s),
    pending_cmd_states := \<lparr>scs = init_cmd_state (conn_sd c) fd, scmd = a\<rparr> # pending_cmd_states s\<rparr>"
  have "schedule (conn_sd c) fd n ?s m = (False, ?s1, m1)" using a m1(1) by (simp add: schedule_def)
  moreover have "\<not> fd < 0" "cloexec_ok c" using assms(1) by (simp_all add: asks_def)
  ultimately have "localaccept (c # cs) s m = localaccept cs ?s1 m1"
    using b assms(5) by (simp add: check_for_server_command_def)
  then show ?thesis using m1(2) b(3) a by (intro exI [of _ ?s1] exI [of _ m1]) (simp add: job_of_def)
qed

lemma localaccept_requests:
  assumes "\<forall>(c, n, fd) \<in> set rs. asks c n fd \<and> n \<in> set (names (cmdtable s)) \<and> n \<notin> set server_commands"
    "length (cmdbuf s) = CMDBUF_SIZE" "plentiful m"
  shows "\<exists>s' m'. localaccept (map fst rs) s m = Some ([], s', m') \<and>
    pending_cmd_states s' = rev (map (job_of (cmdtable s)) rs) @ pending_cmd_states s \<and> names (cmdtable s') = names (cmdtable s)"
  using assms
proof (induction rs arbitrary: s m)
  case (Cons r rs)
  obtain c n fd where r: "r = (c, n, fd)" by (cases r)
  from Cons.prems(1) r have "asks c n fd" "n \<in> set (names (cmdtable s))" "n \<notin> set server_commands" by auto
  from localaccept_request [OF this(1) Cons.prems(2,3) this(2,3), of "map fst rs"] obtain s1 m1 where
    s1: "localaccept (map fst (r # rs)) s m = localaccept (map fst rs) s1 m1" "plentiful m1" "length (cmdbuf s1) = CMDBUF_SIZE"
      "pending_cmd_states s1 = job_of (cmdtable s) r # pending_cmd_states s" "names (cmdtable s1) = names (cmdtable s)"
      "\<forall>k. find_cmd k (cmdtable s1) = find_cmd k (cmdtable s)" unfolding r by auto
  have j: "job_of (cmdtable s1) = job_of (cmdtable s)" using s1(6) by (auto simp: job_of_def fun_eq_iff)
  from Cons.IH [of s1 m1] Cons.prems(1) s1 obtain s' m' where
    "localaccept (map fst rs) s1 m1 = Some ([], s', m')" "names (cmdtable s') = names (cmdtable s1)"
    "pending_cmd_states s' = rev (map (job_of (cmdtable s1)) rs) @ pending_cmd_states s1" by auto
  with s1(1,4,5) j show ?case by simp
qed simp

text \<open>
  The callback returns after a command that the server runs itself, and after every failure, and
  leaves the other connections waiting, although an edge-triggered event is not repeated for them.
\<close>

lemma server_command_stops_accepting:
  assumes "asks c n fd" "length (cmdbuf s) = CMDBUF_SIZE" "n \<in> set server_commands"
  shows "\<exists>s'. localaccept (c # cs) s m = Some (cs, s', m)"
proof -
  obtain buf where "ctlserv_accept c (cmdbuf s) CMDBUF_SIZE = Some (fd, buf)" "cpart buf = n"
    using ctlserv_accept_asks [OF assms(1,2)] by blast
  with assms show ?thesis by (simp add: asks_def check_for_server_command_def)
qed

text \<open>A descriptor of 256 or more is taken for another one, of the same low byte.\<close>

lemma wide_descriptor_misread:
  assumes "ctlserv_accept c buf sz = Some (fd, buf')" "0 \<le> fd" "cmsg c = Some (l, v, t, passed)" "256 \<le> passed"
  shows "fd = passed mod 256 \<and> fd \<noteq> passed"
proof -
  have "fd = passed mod 256" using assms(1-3) by (auto simp: ctlserv_accept_def recv_fd_def split: if_splits option.splits prod.splits)
  moreover have "passed mod 256 < 256" by simp
  ultimately show ?thesis using assms(4) by linarith
qed

text \<open>A command that ends before its NUL leaves the descriptor it came with open.\<close>

lemma short_command_leaks:
  assumes "header_ok c fd" "length (cmdbuf s) = CMDBUF_SIZE" "NUL \<notin> set (sent c)" "length (sent c) < CMDBUF_SIZE"
  shows "\<exists>s'. localaccept (c # cs) s m = Some (cs, s', m) \<and> open_fds s' = open_fds s + {#fd#}"
proof -
  have "takeWhile (\<lambda>c. c \<noteq> NUL) (sent c) = sent c" using assms(3) by (auto simp: takeWhile_eq_all_conv)
  with assms ctlserv_accept_spec [OF assms(1,2)]
  obtain buf where "ctlserv_accept c (cmdbuf s) CMDBUF_SIZE = Some (-1, buf)" by (auto simp: takeWhile_take CMDBUF_SIZE_def Let_def)
  with assms(1) show ?thesis by (simp add: header_ok_def passed_fds_def)
qed

definition help_pieces :: "ctlserver \<Rightarrow> string list" where
  "help_pieces s = map (\<lambda>c. ''internal] '' @ c @ [CHR 0x0A]) server_commands @
     map (\<lambda>c. ''external] '' @ c @ [CHR 0x0A]) (names (cmdtable s))"

lemma help_loop_pieces: "help_loop tag cs u m = for_each print_step (map (\<lambda>c. tag @ c @ [CHR 0x0A]) cs) u m"
  by (induction tag cs u m rule: help_loop.induct) (auto split: prod.splits bool.splits)

text \<open>The help names every command, the server's own first.\<close>

lemma stringize_help_locked_text:
  assumes "ustring_ok u" "stringize_help_locked s u m = (False, u', m')"
  shows "us_text u' = us_text u @ concat (help_pieces s)"
proof (rule print_loop_text [OF assms(1)])
  show "for_each print_step (help_pieces s) u m = (False, u', m')"
    using assms(2) by (auto simp: stringize_help_locked_def help_pieces_def names_def for_each_append help_loop_pieces split: prod.splits bool.splits)
qed

text \<open>A server with one command, which one client has asked for.\<close>

lemma busy_server:
  "\<exists>s m. srv_reach (\<lambda>_ _. ([], [], False)) narrow 0 (s, m) \<and> length (pending_cmd_states s) = 1 \<and> length (cmdtable s) = 1 \<and>
     drone_horde s = replicate DRONE_HORDE_SIZE None \<and> names (cmdtable s) = [''go''] \<and> delcommand_try ''go'' s m = (Busy, s, m)"
proof -
  let ?s0 = "new_server (replicate CMDBUF_SIZE NUL) DRONE_HORDE_SIZE"
  let ?go = "''go''"
  let ?s1 = "?s0\<lparr>cmdtable := [(0, \<lparr>refcount = 0, ecmd = ?go\<rparr>)], next_addr := 1\<rparr>"
  let ?c = "\<lparr>conn_sd = 7, first_recv = 4, cmsg = Some (True, True, True, 8), sent = ?go @ [NUL], cloexec_ok = True\<rparr>"
  have r0: "srv_reach (\<lambda>_ _. ([], [], False)) narrow 0 (?s0, plenty_mem)" by (rule srv_reach.start) (simp_all add: init_mem_def)
  obtain m1 where m1: "Malloc 24 plenty_mem = (True, m1)" "plentiful m1" using Malloc_plentiful [of plenty_mem 24] by auto
  then have "regcommand ?go ?s0 plenty_mem = (False, ?s1, m1)" by (simp add: regcommand_def new_server_def)
  then have r1: "srv_reach (\<lambda>_ _. ([], [], False)) narrow 0 (?s1, m1)" by (rule srv_reach.step [OF r0 srv_step.reg])
  have a: "asks ?c ?go 8" by (auto simp: asks_def header_ok_def CMDBUF_SIZE_def NUL_def)
  have l: "length (cmdbuf ?s1) = CMDBUF_SIZE" by (simp add: new_server_def)
  obtain buf where b: "ctlserv_accept ?c (cmdbuf ?s1) CMDBUF_SIZE = Some (8, buf)" "cpart buf = ?go"
    using ctlserv_accept_asks [OF a l] by blast
  obtain m2 where m2: "Malloc 32 m1 = (True, m2)" using Malloc_plentiful [OF m1(2), of 32] by auto
  let ?s2 = "(admit ?c buf ?s1)\<lparr>cmdtable := [(0, \<lparr>refcount = 1, ecmd = ?go\<rparr>)],
    pending_cmd_states := [\<lparr>scs = init_cmd_state 7 8, scmd = 0\<rparr>]\<rparr>"
  have "localaccept [?c] ?s1 m1 = Some ([], ?s2, m2)"
    using b m2 by (simp add: check_for_server_command_def server_commands_def schedule_def map_entry_def new_server_def)
  then have "srv_reach (\<lambda>_ _. ([], [], False)) narrow 0 (?s2, m2)"
    by (rule srv_reach.step [OF r1 srv_step.accept]) (simp add: conn_ok_def narrow_def)
  then show ?thesis by (intro exI [of _ ?s2] exI [of _ m2]) (simp add: new_server_def delcommand_try_def)
qed

subsection \<open>Properties\<close>

text \<open>
  C6: Take any interleaving of accepted connections (whatever they send, as long as no request is
  written past the buffer), drones, registrations and removals. The reference count of an entry is
  the number of commands, waiting or being run, that point to it; every drone that has a command
  can run it, so no entry is freed under one; and the blocks that are out are the entries and the
  commands. If moreover every client passes a descriptor below 256, every descriptor that a command
  is going to close is open, as often as it is going to be closed. (\<open>recv_fd\<close> reads one byte of a
  descriptor, so a greater one is taken for another: \<open>wide_descriptor_misread\<close>.)
\<close>

theorem commands_never_dangle:
  assumes "srv_reach fxn P base (s, m)"
  shows "(\<forall>a e. (a, e) \<in> set (cmdtable s) \<longrightarrow> refcount e = size {#j \<in># jobs s. scmd j = a#}) \<and>
    (\<forall>d me. d < length (drone_horde s) \<and> drone_horde s ! d = Some me \<longrightarrow> drone_run fxn d me s m \<noteq> None) \<and>
    outstanding_allocs m = base + int (length (cmdtable s) + size (jobs s)) \<and>
    ((\<forall>c. P c \<longrightarrow> narrow c) \<longrightarrow> \<Sum>\<^sub># (image_mset (\<lambda>j. {#cs_sd (scs j), cs_errsd (scs j)#}) (jobs s)) \<subseteq># open_fds s)"
proof -
  have ok: "srv_ok False base (s, m)" using srv_reach_ok [OF assms] by simp
  have u: "uses js a = size {#j \<in># js. scmd j = a#}" for js a by (induction js) auto
  have f: "(\<lambda>j. {#cs_sd (scs j), cs_errsd (scs j)#}) = job_fds" by (simp add: fun_eq_iff job_fds_def)
  have n: "(\<forall>c. P c \<longrightarrow> narrow c) \<longrightarrow> \<Sum>\<^sub># (image_mset job_fds (jobs s)) \<subseteq># open_fds s"
    using srv_reach_ok [OF assms, of True] by (simp add: srv_ok_def)
  have "drone_run fxn d me s m \<noteq> None" if "d < length (drone_horde s)" "drone_horde s ! d = Some me" for d me
    using drone_run_spec [OF ok that, of fxn] by auto
  with ok n show ?thesis unfolding f by (simp add: srv_ok_def table_ok_def u outstanding_allocs_def)
qed

theorem commands_never_dangle_witness:
  "\<exists>s m. length (pending_cmd_states s) = 1 \<and> (\<forall>a e. (a, e) \<in> set (cmdtable s) \<longrightarrow> refcount e = size {#j \<in># jobs s. scmd j = a#}) \<and>
     outstanding_allocs m = 2 \<and> \<Sum>\<^sub># (image_mset (\<lambda>j. {#cs_sd (scs j), cs_errsd (scs j)#}) (jobs s)) \<subseteq># open_fds s"
proof -
  obtain s m where r: "srv_reach (\<lambda>_ _. ([], [], False)) narrow 0 (s, m)" "length (pending_cmd_states s) = 1" "length (cmdtable s) = 1"
    "drone_horde s = replicate DRONE_HORDE_SIZE None" using busy_server by blast
  have "size (jobs s) = 1" using r(2,4) by (simp add: jobs_def active_def)
  with commands_never_dangle [OF r(1)] r(2,3) show ?thesis by (intro exI [of _ s] exI [of _ m]) simp
qed

text \<open>
  C7: A removal that waits does not wait for ever: from every reachable state in which a command
  is registered there is a run of the drones alone, of at most two steps for each command waiting
  or being run, after which nothing is left to do, and then the removal takes out the entry
  registered last under that name and gives its block back.
\<close>

theorem delcommand_gets_through:
  assumes "srv_reach fxn P base (s, m)" "c \<in> set (names (cmdtable s))"
  shows "\<exists>n s1 m1 s2. n \<le> 2 * size (jobs s) \<and> (drone_step fxn ^^ n) (s, m) (s1, m1) \<and> jobs s1 = {#} \<and>
    delcommand_try c s1 m1 = (Deleted, s2, Free True m1) \<and> names (cmdtable s2) = remove1 c (names (cmdtable s))"
proof -
  have "srv_ok False base (s, m)" using srv_reach_ok [OF assms(1)] by simp
  from drone_drain [OF this] obtain s1 m1 where d: "(drone_step fxn ^^ todo s) (s, m) (s1, m1)"
    "srv_ok False base (s1, m1)" "jobs s1 = {#}" "names (cmdtable s1) = names (cmdtable s)" by blast
  moreover have "todo s \<le> 2 * size (jobs s)" by (simp add: todo_def jobs_def)
  moreover from d assms(2) obtain s2 where "delcommand_try c s1 m1 = (Deleted, s2, Free True m1)"
    "names (cmdtable s2) = remove1 c (names (cmdtable s))" using delcommand_try_free [of False base s1 m1 c] by auto
  ultimately show ?thesis by blast
qed

theorem delcommand_gets_through_witness:
  "\<exists>s m s1 m1 s2. names (cmdtable s) = [''go''] \<and> delcommand_try ''go'' s m = (Busy, s, m) \<and>
     delcommand_try ''go'' s1 m1 = (Deleted, s2, Free True m1) \<and> names (cmdtable s2) = []"
proof -
  obtain s m where r: "srv_reach (\<lambda>_ _. ([], [], False)) narrow 0 (s, m)" "names (cmdtable s) = [''go'']" "delcommand_try ''go'' s m = (Busy, s, m)"
    using busy_server by blast
  with delcommand_gets_through [OF r(1), of "''go''"] show ?thesis by auto
qed

text \<open>
  C37: Registering a list of commands returns and is all or nothing: when a block is refused, the
  table and the number of blocks are what they were; otherwise the names are in front, in reverse,
  and removing the list, while nothing uses them, brings back the table, entry for entry, and the
  number of blocks.
\<close>

theorem regcommands_transaction:
  "\<exists>e s' m'. regcommands cmds s m = Some (e, s', m') \<and>
    (if e then cmdtable s' = cmdtable s \<and> allocs_used m' = allocs_used m
     else names (cmdtable s') = rev cmds @ names (cmdtable s) \<and> allocs_used m' = allocs_used m + int (length cmds) \<and>
       (\<exists>s2 m2. delcommands cmds s' m' = Some (False, s2, m2) \<and> cmdtable s2 = cmdtable s \<and> allocs_used m2 = allocs_used m))"
proof -
  obtain e s' m' where r: "regcommands cmds s m = Some (e, s', m')" "if e then cmdtable s' = cmdtable s \<and> allocs_used m' = allocs_used m
     else allocs_used m' = allocs_used m + int (length cmds) \<and>
       (\<exists>ys. cmdtable s' = ys @ cmdtable s \<and> names ys = rev cmds \<and> (\<forall>x \<in> set ys. refcount (snd x) = 0))"
    using regcommands_loop_spec [of s "[]" "cmdtable s" "[]" cmds m] by (auto simp: regcommands_def cong: if_cong)
  show ?thesis
  proof (cases e)
    case False
    with r(2) obtain ys where ys: "cmdtable s' = ys @ cmdtable s" "names ys = rev cmds" "\<forall>x \<in> set ys. refcount (snd x) = 0"
      and m: "allocs_used m' = allocs_used m + int (length cmds)" by auto
    have "mset (names ys) = mset cmds" using ys(2) by simp
    from delcommands_front [OF ys(1,3) this, of m'] False r(1) ys m show ?thesis by auto
  qed (use r in auto)
qed


text \<open>
  C38: A request with a well-formed message leaves the buffer for commands exactly when its name
  has no NUL among as many bytes as the buffer has; then the terminator is written one past the
  buffer. A shorter name that is terminated arrives as it was sent, with the low byte of the
  descriptor for its descriptor.
\<close>

theorem ctlserv_accept_bounds:
  assumes "header_ok c fd" "length buf = CMDBUF_SIZE"
  shows "(ctlserv_accept c buf CMDBUF_SIZE = None \<longleftrightarrow> CMDBUF_SIZE \<le> length (cpart (sent c))) \<and>
    (NUL \<in> set (take CMDBUF_SIZE (sent c)) \<longrightarrow>
       (\<exists>buf'. ctlserv_accept c buf CMDBUF_SIZE = Some (fd mod 256, buf') \<and> length buf' = CMDBUF_SIZE \<and> cpart buf' = cpart (sent c)))"
proof -
  define t where "t = takeWhile (\<lambda>c. c \<noteq> NUL) (take CMDBUF_SIZE (sent c))"
  have tc: "t = take CMDBUF_SIZE (cpart (sent c))" by (simp add: t_def takeWhile_take cpart_def)
  have e: "ctlserv_accept c buf CMDBUF_SIZE =
    (if length t = CMDBUF_SIZE then None
     else if length t = length (sent c) then Some (-1, sent c @ drop (length (sent c)) buf)
     else Some (fd mod 256, t @ NUL # drop (Suc (length t)) buf))"
    using ctlserv_accept_spec [OF assms] unfolding t_def [symmetric] Let_def by (simp add: CMDBUF_SIZE_def)
  have n: "length t = CMDBUF_SIZE \<longleftrightarrow> CMDBUF_SIZE \<le> length (cpart (sent c))" by (auto simp: tc min_def)
  have "length t < CMDBUF_SIZE" "length t < length (sent c)" "t = cpart (sent c)" if has: "NUL \<in> set (take CMDBUF_SIZE (sent c))"
  proof -
    obtain u v where u: "take CMDBUF_SIZE (sent c) = u @ NUL # v" "NUL \<notin> set u" using split_list_first [OF has] by blast
    have "t = u" using u by (auto simp: t_def takeWhile_append)
    moreover have "length (u @ NUL # v) \<le> CMDBUF_SIZE" "length (u @ NUL # v) \<le> length (sent c)" unfolding u(1) [symmetric] by simp_all
    ultimately show "length t < CMDBUF_SIZE" "length t < length (sent c)" by simp_all
    then show "t = cpart (sent c)" using tc by auto
  qed
  moreover have "cpart (t @ NUL # w) = t" for w by (rule cpart_upto) (auto simp: t_def dest: set_takeWhileD)
  ultimately show ?thesis using e n assms(2) by auto
qed

theorem ctlserv_accept_bounds_witness:
  "ctlserv_accept \<lparr>conn_sd = 7, first_recv = 4, cmsg = Some (True, True, True, 300), sent = replicate 128 (CHR ''x''), cloexec_ok = True\<rparr>
     (replicate CMDBUF_SIZE NUL) CMDBUF_SIZE = None \<and>
   (\<exists>buf. ctlserv_accept \<lparr>conn_sd = 7, first_recv = 4, cmsg = Some (True, True, True, 300), sent = [CHR ''x'', NUL], cloexec_ok = True\<rparr>
     (replicate CMDBUF_SIZE NUL) CMDBUF_SIZE = Some (44, buf) \<and> cpart buf = ''x'')"
proof -
  have h: "header_ok \<lparr>conn_sd = 7, first_recv = 4, cmsg = Some (True, True, True, 300), sent = t, cloexec_ok = True\<rparr> 300" for t
    by (simp add: header_ok_def)
  have l: "length (replicate CMDBUF_SIZE NUL) = CMDBUF_SIZE" by simp
  have "cpart (replicate 128 (CHR ''x'')) = replicate 128 (CHR ''x'')" by (simp add: cpart_def takeWhile_eq_all_conv NUL_def)
  with ctlserv_accept_bounds [OF h l, of "replicate 128 (CHR ''x'')"] ctlserv_accept_bounds [OF h l, of "[CHR ''x'', NUL]"]
  show ?thesis by (auto simp: CMDBUF_SIZE_def cpart_def take_Cons' NUL_def)
qed




subsection \<open>Starting and stopping, checked\<close>

text \<open>A stopped server, with nothing registered by others.\<close>

definition stopped :: "daemon \<Rightarrow> bool" where
  "stopped d \<longleftrightarrow> listensn d = None \<and> listenfd d < 0 \<and> (\<forall>h. ctlev d \<noteq> Ref h) \<and> herd d = 0 \<and> cmdtable (core d) = []"

text \<open>How many blocks the static pointers hold.\<close>

definition held :: "daemon \<Rightarrow> int" where
  "held d = of_bool (listensn d \<noteq> None) + of_bool (cmarsh d) + (case ctlev d of Ref e \<Rightarrow> 8 + 6 * int (length (threadlist e)) | _ \<Rightarrow> 0)"

definition handler_ok :: "daemon \<Rightarrow> bool" where
  "handler_ok d \<longleftrightarrow> (case ctlev d of Null \<Rightarrow> True | Ref e \<Rightarrow> ev_ok e | Dangling \<Rightarrow> False)"

lemma destroy_evhandler_None [simp]: "destroy_evhandler None m = m"
  by (simp add: destroy_evhandler_def)

lemma init_err_spec:
  assumes "handler_ok d" "cmdtable (core d) = []" "herd d = 0"
  shows "\<exists>d' m'. init_err d m = Some (True, d', m') \<and> stopped d' \<and> ctlev d' = Null \<and> allocs_used m' = allocs_used m - held d"
  using assms by (cases "ctlev d")
    (auto simp: init_err_def mainserv_close_def destroy_ctlev_def Let_def stopped_def held_def handler_ok_def destroy_evhandler_used)

lemma init_cmderr_spec:
  assumes "handler_ok d" "cmdtable (core d) = xs" "\<forall>x \<in> set xs. refcount (snd x) = 0" "names xs = rev commands"
  shows "\<exists>d' m'. init_cmderr d m = Some (True, d', m') \<and> stopped d' \<and> ctlev d' = Null \<and> allocs_used m' = allocs_used m - held d - int (length commands)"
proof -
  have "mset (names xs) = mset commands" using assms(4) by simp
  from delcommands_front [of "core d" xs "[]" commands m] assms(2,3) this obtain m1 where
    m1: "delcommands commands (core d) m = Some (False, (core d)\<lparr>cmdtable := []\<rparr>, m1)" "allocs_used m1 = allocs_used m - int (length commands)" by auto
  let ?d = "corral_the_herd (d\<lparr>core := (core d)\<lparr>cmdtable := []\<rparr>\<rparr>)"
  have "handler_ok ?d" "cmdtable (core ?d) = []" "herd ?d = 0" "held ?d = held d"
    using assms(1) by (simp_all add: handler_ok_def corral_the_herd_def held_def)
  with init_err_spec [of ?d m1] m1 show ?thesis by (auto simp: init_cmderr_def init_herderr_def)
qed

lemma sew_loop_spec:
  "sew_loop ok z n d = (e, d') \<Longrightarrow>
   core d' = core d \<and> listensn d' = listensn d \<and> listenfd d' = listenfd d \<and> ctlev d' = ctlev d \<and> cmarsh d' = cmarsh d \<and> (e \<longrightarrow> herd d' = 0)"
  by (induction ok z n d rule: sew_loop.induct) (auto simp: corral_the_herd_def split: if_splits)

lemma Strdup_used: "Strdup (Some t) m = (so, m') \<Longrightarrow> allocs_used m' = allocs_used m + of_bool (so \<noteq> None)"
  by (auto simp: Strdup_def split: prod.splits bool.splits dest!: Malloc_used)


text \<open>What init_ctlserver leaves: a stopped server and the blocks as they were, or a running one.\<close>

definition running :: "daemon \<Rightarrow> bool" where
  "running d \<longleftrightarrow> handler_ok d \<and> ctlev d \<noteq> Null \<and> listenfd d \<ge> 0 \<and> listensn d \<noteq> None \<and> cmarsh d \<and>
     (\<exists>xs. cmdtable (core d) = xs \<and> (\<forall>x \<in> set xs. refcount (snd x) = 0) \<and> names xs = rev commands)"

definition init_result :: "int \<Rightarrow> (bool \<times> daemon \<times> mem) option \<Rightarrow> bool" where
  "init_result n r \<longleftrightarrow> (\<exists>e d' m'. r = Some (e, d', m') \<and>
     (if e then stopped d' \<and> ctlev d' = Null \<and> allocs_used m' = n
      else running d' \<and> allocs_used m' = n + held d' + int (length commands) \<and>
        (\<exists>h. ctlev d' = Ref h \<and> watch h (listenfd d') = Some (User Localaccept, Arg 0))))"

lemma init_err_result:
  assumes "handler_ok d" "cmdtable (core d) = []" "herd d = 0" "allocs_used m = n + held d"
  shows "init_result n (init_err d m)"
  using init_err_spec [OF assms(1-3), of m] assms(4) by (auto simp: init_result_def intro!: exI [of _ True])

lemma init_herderr_result:
  assumes "handler_ok d" "cmdtable (core d) = []" "allocs_used m = n + held d"
  shows "init_result n (init_herderr d m)"
  unfolding init_herderr_def
  by (rule init_err_result) (use assms in \<open>simp_all add: handler_ok_def corral_the_herd_def held_def\<close>)

lemma init_cmderr_result:
  assumes "handler_ok d" "\<forall>x \<in> set (cmdtable (core d)). refcount (snd x) = 0" "names (cmdtable (core d)) = rev commands"
    "allocs_used m = n + held d + int (length commands)"
  shows "init_result n (init_cmderr d m)"
  using init_cmderr_spec [OF assms(1) refl assms(2,3), of m] assms(4) by (auto simp: init_result_def intro!: exI [of _ True])

lemma init_serve_result:
  assumes t: "\<forall>x \<in> set (cmdtable (core d)). refcount (snd x) = 0" "names (cmdtable (core d)) = rev commands"
    and d: "0 \<le> listenfd d" "listensn d \<noteq> None" "cmarsh d" "ctlev d = Null" and m: "allocs_used m = n + 2 + int (length commands)"
  shows "init_result n (init_serve v d m)"
proof -
  obtain eo m1 where c: "create_evthread (ev_boot v) (ev_thread_ok v) (ev_raw v) LIBDANK_FD_CLOEXEC m = Some (eo, m1)"
    "case eo of None \<Rightarrow> allocs_used m1 = allocs_used m | Some e \<Rightarrow> allocs_used m1 = allocs_used m + 14 \<and> ev_ok e \<and> length (threadlist e) = 1"
    using create_evthread_spec by blast
  show ?thesis
  proof (cases eo)
    case None
    have "init_result n (init_cmderr (d\<lparr>ctlev := Null\<rparr>) m1)"
      by (rule init_cmderr_result) (use t d m c(2) None in \<open>simp_all add: handler_ok_def held_def\<close>)
    with c(1) None show ?thesis by (simp add: init_serve_def)
  next
    case (Some e)
    with c(2) have e: "allocs_used m1 = allocs_used m + 14" "ev_ok e" "length (threadlist e) = 1" by simp_all
    let ?i = "installed (ctl_ok (ev_boot v)) e (listenfd d) (Some (User Localaccept)) None (Arg 0)"
    define f where "f \<longleftrightarrow> \<not> ev_lock_ok v \<or> refused e (listenfd d) (Some (User Localaccept)) (None :: srvcb callback option)"
    have a: "add_fd_to_evhandler (ev_lock_ok v) (ctl_ok (ev_boot v)) e (listenfd d) (Some (User Localaccept)) None (Arg 0) =
      Some (if f then (True, e) else (\<not> takes (ctl_ok (ev_boot v)) e (listenfd d), ?i))"
      using add_fd_to_evhandler_spec [OF e(2) d(1)] by (simp add: f_def)
    have cm: "init_result n (init_cmderr (d\<lparr>ctlev := Ref h\<rparr>) m1)" if "ev_ok h" "length (threadlist h) = 1" for h
      by (rule init_cmderr_result) (use t d m e that in \<open>simp_all add: handler_ok_def held_def\<close>)
    have i: "ev_ok ?i" "length (threadlist ?i) = 1" "listenfd d < fdarraysize e" if "\<not> f"
    proof -
      show r: "listenfd d < fdarraysize e" using that refused_range by (auto simp: f_def)
      show "ev_ok ?i" by (rule installed_ok [OF e(2) d(1) r])
      show "length (threadlist ?i) = 1" using e(3) by (simp add: installed_def)
    qed
    show ?thesis
    proof (cases "f \<or> \<not> takes (ctl_ok (ev_boot v)) e (listenfd d)")
      case True
      with c(1) Some a cm [OF e(2,3)] cm [OF i(1,2)] show ?thesis by (cases f) (simp_all add: init_serve_def)
    next
      case False
      then have w: "watch ?i (listenfd d) = Some (User Localaccept, Arg 0)" using watch_installed [OF e(2) d(1) i(3)] by simp
      have "init_serve v d m = Some (False, d\<lparr>ctlev := Ref ?i\<rparr>, m1)" using c(1) Some a False by (simp add: init_serve_def)
      then show ?thesis using t d m e i False w
        unfolding init_result_def by (intro exI [of _ False]) (simp add: running_def handler_ok_def held_def)
    qed
  qed
qed

lemma init_listen_result:
  assumes "cmdtable (core d) = []" "listensn d \<noteq> None" "cmarsh d" "ctlev d = Null" "allocs_used m = n + 2"
  shows "init_result n (init_listen v d m)"
proof -
  let ?d = "listen_on (listen_local_fd v) d"
  have d: "cmdtable (core ?d) = []" "listensn ?d = listensn d" "cmarsh ?d = cmarsh d" "ctlev ?d = Null" using assms by (simp_all add: listen_on_def)
  have he: "init_result n (init_herderr (?d\<lparr>core := c\<rparr>) m1)" if "cmdtable c = []" "allocs_used m1 = n + 2" for c m1
    by (rule init_herderr_result) (use assms d that in \<open>simp_all add: handler_ok_def held_def\<close>)
  show ?thesis
  proof (cases "listenfd ?d < 0 \<or> \<not> listen_flags_ok v")
    case True
    with he [of "core ?d" m] d assms(5) show ?thesis by (simp add: init_listen_def Let_def)
  next
    case False
    obtain e c m1 where r: "regcommands commands (core ?d) m = Some (e, c, m1)" "if e then cmdtable c = [] \<and> allocs_used m1 = allocs_used m
      else allocs_used m1 = allocs_used m + int (length commands) \<and>
       (\<exists>ys. cmdtable c = ys \<and> names ys = rev commands \<and> (\<forall>x \<in> set ys. refcount (snd x) = 0))"
      using regcommands_loop_spec [of "core ?d" "[]" "[]" "[]" commands m] d(1) by (auto simp: regcommands_def cong: if_cong)
    show ?thesis
    proof (cases e)
      case True
      with False r he assms(5) show ?thesis by (simp add: init_listen_def Let_def)
    next
      case nf: False
      have "init_result n (init_serve v (?d\<lparr>core := c\<rparr>) m1)"
        by (rule init_serve_result) (use nf False r(2) d assms in auto)
      with False nf r(1) show ?thesis by (simp add: init_listen_def Let_def)
    qed
  qed
qed

lemma init_ctlserver_result:
  assumes "stopped d" "ctlev d = Null"
  shows "init_result (allocs_used m) (init_ctlserver v sn d m)"
proof -
  have st: "listensn d = None" "ctlev d = Null" "herd d = 0" "cmdtable (core d) = []" using assms by (simp_all add: stopped_def)
  obtain g m1 where g: "Malloc 238 m = (g, m1)" by (cases "Malloc 238 m")
  obtain so m2 where so: "Strdup (Some sn) m1 = (so, m2)" by (cases "Strdup (Some sn) m1")
  note u1 = Malloc_used [OF g] and u2 = Strdup_used [OF so]
  have er: "init_result (allocs_used m) (init_err (d\<lparr>cmarsh := b, listensn := l\<rparr>) k)"
    if "allocs_used k = allocs_used m + of_bool b + of_bool (l \<noteq> None)" for b l k
    by (rule init_err_result) (use st that in \<open>simp_all add: handler_ok_def held_def\<close>)
  have er0: "init_result (allocs_used m) (init_err (d\<lparr>cmarsh := False\<rparr>) k)" if "allocs_used k = allocs_used m" for k
    by (rule init_err_result) (use st that in \<open>simp_all add: handler_ok_def held_def\<close>)
  show ?thesis
  proof (cases "g \<and> so \<noteq> None \<and> srvrlock_ok v \<and> srvrcond_ok v")
    case False
    with g so u1 u2 er er0 show ?thesis by (cases g; cases so) (auto simp: init_ctlserver_def)
  next
    case True
    then obtain t where t: "so = Some t" by blast
    let ?d = "d\<lparr>cmarsh := True, listensn := Some t\<rparr>"
    obtain se d1 where se: "sew_dragon_teeth (drone_ok v) DRONE_HORDE_SIZE ?d = (se, d1)" by (rule prod.exhaust)
    note sw = sew_loop_spec [OF se [unfolded sew_dragon_teeth_def]]
    have a2: "allocs_used m2 = allocs_used m + 2" using u1 u2 True by simp
    have "init_result (allocs_used m) (if se then init_err d1 m2 else init_listen v d1 m2)"
      using init_err_result [of d1 m2 "allocs_used m"] init_listen_result [of d1 m2 "allocs_used m" v] sw st a2
      by (simp add: handler_ok_def held_def)
    with True g so t se show ?thesis by (cases se) (simp_all add: init_ctlserver_def)
  qed
qed

text \<open>Starting where the handler dangles: as from a null pointer, unless that fails before the new handler.\<close>

definition as_null :: "(bool \<times> daemon \<times> mem) option \<Rightarrow> (bool \<times> daemon \<times> mem) option \<Rightarrow> bool" where
  "as_null r r0 \<longleftrightarrow> r = r0 \<or> r = None \<and> (\<exists>d' m'. r0 = Some (True, d', m'))"

lemma daemon_order:
  "d\<lparr>ctlev := x, core := c\<rparr> = d\<lparr>core := c, ctlev := x\<rparr>" "d\<lparr>ctlev := x, cmarsh := b\<rparr> = d\<lparr>cmarsh := b, ctlev := x\<rparr>"
  "d\<lparr>ctlev := x, listensn := l\<rparr> = d\<lparr>listensn := l, ctlev := x\<rparr>" "d\<lparr>ctlev := x, herd := k\<rparr> = d\<lparr>herd := k, ctlev := x\<rparr>"
  by simp_all

lemma init_err_null: "ctlev d = Dangling \<Longrightarrow> as_null (init_err d m) (init_err (d\<lparr>ctlev := Null\<rparr>) m)"
  by (simp add: as_null_def init_err_def mainserv_close_def destroy_ctlev_def Let_def)

lemma sew_loop_ctlev: "sew_loop ok z n (d\<lparr>ctlev := x\<rparr>) = map_prod id (\<lambda>d. d\<lparr>ctlev := x\<rparr>) (sew_loop ok z n d)"
  by (induction ok z n d rule: sew_loop.induct) (simp_all add: corral_the_herd_def daemon_order)

lemma init_serve_ctlev: "init_serve v (d\<lparr>ctlev := x\<rparr>) m = init_serve v d m"
  by (auto simp: init_serve_def split: option.split prod.split bool.split)

lemma init_listen_null:
  assumes "ctlev d = Dangling"
  shows "as_null (init_listen v d m) (init_listen v (d\<lparr>ctlev := Null\<rparr>) m)"
proof -
  let ?d = "listen_on (listen_local_fd v) d"
  have l: "listen_on (listen_local_fd v) (d\<lparr>ctlev := Null\<rparr>) = ?d\<lparr>ctlev := Null\<rparr>" "ctlev ?d = Dangling" using assms by (simp_all add: listen_on_def)
  have h: "as_null (init_herderr (?d\<lparr>core := c\<rparr>) k) (init_herderr (?d\<lparr>ctlev := Null, core := c\<rparr>) k)" for c k
    using init_err_null [of "corral_the_herd (?d\<lparr>core := c\<rparr>)" k] l(2) by (simp add: init_herderr_def corral_the_herd_def daemon_order)
  have s: "init_serve v (?d\<lparr>ctlev := Null, core := c\<rparr>) k = init_serve v (?d\<lparr>core := c\<rparr>) k" for c k
    by (simp add: daemon_order init_serve_ctlev)
  show ?thesis
  proof (cases "listenfd ?d < 0 \<or> \<not> listen_flags_ok v")
    case True
    with h [of "core ?d" m] l(1) show ?thesis by (simp add: init_listen_def Let_def)
  next
    case False
    show ?thesis
    proof (cases "regcommands commands (core ?d) m")
      case None
      with False l(1) show ?thesis by (simp add: init_listen_def Let_def as_null_def)
    next
      case (Some x)
      obtain e c m1 where "x = (e, c, m1)" by (rule prod_cases3)
      with False l(1) Some h [of c m1] s [of c m1] show ?thesis by (cases e) (simp_all add: init_listen_def Let_def as_null_def)
    qed
  qed
qed

lemma init_ctlserver_null:
  assumes "ctlev d = Dangling"
  shows "as_null (init_ctlserver v sn d m) (init_ctlserver v sn (d\<lparr>ctlev := Null\<rparr>) m)"
proof -
  have er: "as_null (init_err (d\<lparr>cmarsh := b, listensn := l\<rparr>) k) (init_err (d\<lparr>ctlev := Null, cmarsh := b, listensn := l\<rparr>) k)" for b l k
    using init_err_null [of "d\<lparr>cmarsh := b, listensn := l\<rparr>" k] assms by (simp add: daemon_order)
  have er0: "as_null (init_err (d\<lparr>cmarsh := b\<rparr>) k) (init_err (d\<lparr>ctlev := Null, cmarsh := b\<rparr>) k)" for b k
    using init_err_null [of "d\<lparr>cmarsh := b\<rparr>" k] assms by (simp add: daemon_order)
  obtain g m1 where g: "Malloc 238 m = (g, m1)" by (cases "Malloc 238 m")
  obtain so m2 where so: "Strdup (Some sn) m1 = (so, m2)" by (cases "Strdup (Some sn) m1")
  show ?thesis
  proof (cases "g \<and> so \<noteq> None \<and> srvrlock_ok v \<and> srvrcond_ok v")
    case False
    with g so er er0 show ?thesis by (cases g; cases so) (auto simp: init_ctlserver_def)
  next
    case True
    then obtain t where t: "so = Some t" by blast
    let ?d = "d\<lparr>cmarsh := True, listensn := Some t\<rparr>"
    obtain se d1 where se: "sew_dragon_teeth (drone_ok v) DRONE_HORDE_SIZE ?d = (se, d1)" by (rule prod.exhaust)
    then have se0: "sew_dragon_teeth (drone_ok v) DRONE_HORDE_SIZE (?d\<lparr>ctlev := Null\<rparr>) = (se, d1\<lparr>ctlev := Null\<rparr>)"
      by (simp add: sew_dragon_teeth_def sew_loop_ctlev)
    have "ctlev d1 = Dangling" using sew_loop_spec [OF se [unfolded sew_dragon_teeth_def]] assms by simp
    with init_err_null [of d1 m2] init_listen_null [of d1 v m2] True g so t se se0 show ?thesis
      by (cases se) (simp_all add: init_ctlserver_def daemon_order)
  qed
qed

text \<open>Removing names that are all there, of entries that nothing uses.\<close>

lemma delcommands_found:
  assumes "\<forall>x \<in> set (cmdtable s). refcount (snd x) = 0" "mset cs \<subseteq># mset (names (cmdtable s))"
  shows "\<exists>t m'. delcommands cs s m = Some (False, s\<lparr>cmdtable := t\<rparr>, m') \<and> allocs_used m' = allocs_used m - int (length cs) \<and>
    set t \<subseteq> set (cmdtable s) \<and> mset (names t) = mset (names (cmdtable s)) - mset cs"
  using assms
proof (induction cs arbitrary: s m)
  case Nil
  show ?case by (intro exI [of _ "cmdtable s"] exI [of _ m]) simp
next
  case (Cons c cs)
  have "c \<in> set (names (cmdtable s))" using Cons.prems(2) by (simp add: insert_subset_eq_iff)
  from delcommand_scan_front [OF this Cons.prems(1), of "[]"] obtain ys where
    d: "delcommand_scan c (cmdtable s) = Some (0, ys)" "set ys \<subseteq> set (cmdtable s)" "mset (names (cmdtable s)) = add_mset c (mset (names ys))" by auto
  let ?s = "s\<lparr>cmdtable := ys\<rparr>"
  have del: "delcommand c s m = Some (False, ?s, Free True m)" using d(1) by (simp add: delcommand_def delcommand_try_def)
  have "\<forall>x \<in> set (cmdtable ?s). refcount (snd x) = 0" "mset cs \<subseteq># mset (names (cmdtable ?s))" using d(2,3) Cons.prems by auto
  from Cons.IH [OF this, of "Free True m"] obtain t m' where "delcommands cs ?s (Free True m) = Some (False, ?s\<lparr>cmdtable := t\<rparr>, m')"
    "allocs_used m' = allocs_used (Free True m) - int (length cs)" "set t \<subseteq> set ys" "mset (names t) = mset (names ys) - mset cs" by auto
  with del d(2,3) show ?case by (intro exI [of _ t] exI [of _ m']) auto
qed

lemma stop_ctlserver_running:
  assumes "listenfd d \<ge> 0" "listensn d \<noteq> None" "cmarsh d" "ctlev d = Ref h" "ev_ok h"
    and "\<forall>x \<in> set (cmdtable (core d)). refcount (snd x) = 0" "mset commands \<subseteq># mset (names (cmdtable (core d)))"
  shows "\<exists>d' m'. stop_ctlserver d m = Some (False, d', m') \<and> allocs_used m' = allocs_used m - held d - int (length commands) \<and>
    ctlev d' = Dangling \<and> mset (names (cmdtable (core d'))) = mset (names (cmdtable (core d))) - mset commands \<and>
    open_fds (core d') = open_fds (core d) - {#listenfd d#} \<and> listenfd d' = -1 \<and> listensn d' = None \<and> herd d' = 0"
proof -
  from delcommands_found [OF assms(6,7), of m] obtain t m1 where
    m1: "delcommands commands (core d) m = Some (False, (core d)\<lparr>cmdtable := t\<rparr>, m1)" "allocs_used m1 = allocs_used m - int (length commands)"
    "mset (names t) = mset (names (cmdtable (core d))) - mset commands" by blast
  with assms(1-5) show ?thesis
    by (auto simp: stop_ctlserver_def mainserv_close_def destroy_ctlev_def Let_def corral_the_herd_def held_def destroy_evhandler_used)
qed

lemma stopped_none:
  assumes "ctlev d = Dangling"
  shows "stop_ctlserver d m = None" and "Malloc 238 m = (False, m1) \<Longrightarrow> init_ctlserver v sn d m = None"
  using assms
  by (auto simp: stop_ctlserver_def mainserv_close_def destroy_ctlev_def Let_def init_ctlserver_def init_err_def split: option.splits)

text \<open>A server of which nothing runs, and a system that grants everything.\<close>

definition idle :: daemon where
  "idle = \<lparr>core = new_server (replicate CMDBUF_SIZE NUL) DRONE_HORDE_SIZE, listensn = None, listenfd = -1, ctlev = Null, cmarsh = False, herd = 0\<rparr>"

definition good_env :: "srvcb evhandler \<Rightarrow> srv_env" where
  "good_env raw = \<lparr>srvrlock_ok = True, srvrcond_ok = True, drone_ok = (\<lambda>_. True), listen_local_fd = 7, listen_flags_ok = True,
     ev_boot = small_boot, ev_thread_ok = True, ev_raw = raw, ev_lock_ok = True\<rparr>"

lemma good_start: "\<exists>d m. init_ctlserver (good_env raw) ''/s'' idle plenty_mem = Some (False, d, m)"
proof -
  obtain m1 where m1: "Malloc 238 plenty_mem = (True, m1)" "plentiful m1" using Malloc_plentiful [of plenty_mem 238] by auto
  obtain m2 where m2: "Strdup (Some ''/s'') m1 = (Some (cpart ''/s''), m2)" "plentiful m2"
    using Malloc_plentiful [OF m1(2), of "length (cpart ''/s'') + 1"] by (auto simp: Strdup_def)
  let ?d1 = "idle\<lparr>cmarsh := True, listensn := Some (cpart ''/s''), herd := 3\<rparr>"
  have sw: "sew_dragon_teeth (\<lambda>_. True) DRONE_HORDE_SIZE (idle\<lparr>cmarsh := True, listensn := Some (cpart ''/s'')\<rparr>) = (False, ?d1)"
    by (simp add: sew_dragon_teeth_def DRONE_HORDE_SIZE_def numeral_3_eq_3 idle_def)
  obtain c m3 where m3: "regcommands commands (core (listen_on 7 ?d1)) m2 = Some (False, c, m3)" "plentiful m3"
  proof -
    obtain n1 where n1: "Malloc 24 m2 = (True, n1)" "plentiful n1" using Malloc_plentiful [OF m2(2), of 24] by auto
    obtain n2 where "Malloc 24 n1 = (True, n2)" "plentiful n2" using Malloc_plentiful [OF n1(2), of 24] by auto
    with n1 that show ?thesis by (simp add: regcommands_def commands_def regcommand_def)
  qed
  obtain e m4 where e: "create_evthread small_boot True raw LIBDANK_FD_CLOEXEC m3 = Some (Some e, m4)" "fdarraysize e = 8"
    "epoll e = [3 \<mapsto> fd_flags (Some (Signalfd_demultiplexer :: srvcb callback)) (None :: srvcb callback option)]"
    using small_create [OF m3(2), of LIBDANK_FD_CLOEXEC raw] by auto
  have ok: "ev_ok e" using create_evthread_spec [of small_boot True raw LIBDANK_FD_CLOEXEC m3] e(1) by auto
  have "takes (\<lambda>_. True) e 7" by (simp add: takes_def e(3))
  then have a: "\<exists>e1. add_fd_to_evhandler True (\<lambda>_. True) e 7 (Some (User Localaccept)) None (Arg 0) = Some (False, e1)"
    using add_fd_to_evhandler_spec [OF ok, of 7 True] e(2) by (simp add: refused_def)
  have "ctl_ok small_boot = (\<lambda>_. True)" by (simp add: small_boot_def)
  with m1 m2 sw m3 e a show ?thesis
    by (auto simp: init_ctlserver_def init_listen_def init_serve_def good_env_def Let_def listen_on_def idle_def)
qed



end
