(* ===== verification/Crlfreader.thy ===== *)
theory Crlfreader
  imports Strings
begin

text \<open>
  The line reader of libdank/objects/crlfreader.c on a stream socket. What the socket does is a
  list of answers of read, used up in order: bytes, of which a read takes as many as it has
  room for, the end of the stream, or an error; with none left a read would block. How the bytes are cut into answers
  is thus arbitrary. A freed buffer that the reader still points to is \<open>Freed\<close>; an operation that
  would use it, or read outside the buffer, answers an outer \<open>None\<close>.
\<close>

subsection \<open>The socket\<close>

datatype answer = Data string | Eof | Err errno

fun sock_read :: "nat \<Rightarrow> answer list \<Rightarrow> answer \<times> answer list" where
  "sock_read n [] = (Err EAGAIN, [])"
| "sock_read n (Data s # es) =
     (if n = 0 then (Eof, Data s # es)
      else if s = [] then sock_read n es
      else if length s \<le> n then (Data s, es)
      else (Data (take n s), Data (drop n s) # es))"
| "sock_read n (Eof # es) = (Eof, es)"
| "sock_read n (Err e # es) = (Err e, es)"

subsection \<open>The reader\<close>

datatype bufptr = Null | Freed | Live string

record crlf_reader =
  iv :: "string option"                 \<comment> \<open>the line, with the artificial NUL behind it\<close>
  rbuf :: bufptr
  eof :: bool
  readreq :: bool
  count :: nat
  total :: nat
  base :: nat
  examined :: nat
  raw :: char                           \<comment> \<open>what unwritten memory holds\<close>

datatype crlf_read_res =
  CRLF_READ_SUCCESS | CRLF_READ_SHORTLINE | CRLF_READ_LONGLINE | CRLF_READ_MOREDATA
| CRLF_READ_EOF | CRLF_READ_NBLOCK | CRLF_READ_SYSERR

definition MAX_LINE_SIZE :: nat where "MAX_LINE_SIZE = 0x100000"

definition contents :: "bufptr \<Rightarrow> string" where
  "contents p = (case p of Live b \<Rightarrow> b | _ \<Rightarrow> [])"

text \<open>Realloc keeps the bytes there are; the answer is whether it fails.\<close>

definition grow_buf :: "crlf_reader \<Rightarrow> mem \<Rightarrow> bool \<times> crlf_reader \<times> mem" where
  "grow_buf cr m =
     (if total cr \<ge> MAX_LINE_SIZE then (True, cr, m)
      else
        let heap = (if total cr + 8192 > MAX_LINE_SIZE then MAX_LINE_SIZE else total cr + 8192) in
        case Realloc (rbuf cr \<noteq> Null) heap m of
          (False, m1) \<Rightarrow> (True, cr\<lparr>rbuf := (if rbuf cr = Null then Null else Freed)\<rparr>, Free (rbuf cr \<noteq> Null) m1)
        | (True, m1) \<Rightarrow>
            (False, cr\<lparr>total := heap,
               rbuf := Live (contents (rbuf cr) @ replicate (heap - length (contents (rbuf cr))) (raw cr))\<rparr>, m1))"

definition zero_reader :: "char \<Rightarrow> crlf_reader" where
  "zero_reader r = \<lparr>iv = None, rbuf = Null, eof = False, readreq = False, count = 0, total = 0, base = 0,
     examined = 0, raw = r\<rparr>"

definition init_crlf_reader :: "char \<Rightarrow> mem \<Rightarrow> bool \<times> crlf_reader \<times> mem" where
  "init_crlf_reader r m = grow_buf (zero_reader r) m"

definition setup_crlf_reader :: "string option \<Rightarrow> char \<Rightarrow> mem \<Rightarrow> bool \<times> crlf_reader \<times> mem" where
  "setup_crlf_reader buf r m =
     (case buf of None \<Rightarrow> init_crlf_reader r m
      | Some b \<Rightarrow> (False, (zero_reader r)\<lparr>total := length b, rbuf := Live b\<rparr>, m))"

definition reset_crlf_reader :: "crlf_reader option \<Rightarrow> mem \<Rightarrow> (crlf_reader option \<times> mem) option" where
  "reset_crlf_reader cro m =
     (case cro of None \<Rightarrow> Some (None, m)
      | Some cr \<Rightarrow> if rbuf cr = Freed then None
                 else Some (Some (zero_reader (raw cr)), Free (rbuf cr \<noteq> Null) m))"

lemma sock_read_err: "sock_read n es = (Err e, es1) \<Longrightarrow> e \<noteq> EAGAIN \<Longrightarrow> length es1 < length es"
  by (induction n es rule: sock_read.induct) (auto split: if_splits)

text \<open>The loop around read, which goes on after EINTR.\<close>

function read_loop :: "nat \<Rightarrow> answer list \<Rightarrow> answer \<times> answer list" where
  "read_loop n es = (case sock_read n es of (Err EINTR, es1) \<Rightarrow> read_loop n es1 | r \<Rightarrow> r)"
  by pat_completeness auto

termination
  by (relation "measure (\<lambda>(n, es). length es)") (auto dest: sock_read_err [OF sym])

declare read_loop.simps [simp del]

definition read_cr_data :: "crlf_reader \<Rightarrow> answer list \<Rightarrow> mem \<Rightarrow> (crlf_read_res \<times> crlf_reader \<times> answer list \<times> mem) option" where
  "read_cr_data cr es m =
     (if eof cr then Some (CRLF_READ_EOF, cr, es, m)
      else case (if count cr = total cr then grow_buf cr (m\<lparr>errno := E_NONE\<rparr>) else (False, cr, m)) of
        (True, cr1, m1) \<Rightarrow>
          Some (if errno m1 = ENOMEM then CRLF_READ_SYSERR else CRLF_READ_LONGLINE, cr1, es, m1)
      | (False, cr1, m1) \<Rightarrow>
          (case rbuf cr1 of
             Null \<Rightarrow> None
           | Freed \<Rightarrow> None
           | Live b \<Rightarrow>
               if length b < base cr1 + count cr1 then None
               else
                 let b1 = (if count cr1 > base cr1 \<or> base cr1 \<noteq> 0 \<and> count cr1 \<noteq> 0 then memmove b 0 (base cr1) (count cr1) else b);
                     tlen = total cr1 - count cr1;
                     cr2 = cr1\<lparr>rbuf := Live b1, base := 0, readreq := False\<rparr>
                 in case read_loop tlen es of
                      (Err e, es1) \<Rightarrow>
                        Some (if e = EAGAIN then CRLF_READ_NBLOCK else CRLF_READ_SYSERR, cr2, es1, m1\<lparr>errno := e\<rparr>)
                    | (Eof, es1) \<Rightarrow> Some (CRLF_READ_EOF, cr2\<lparr>eof := True\<rparr>, es1, m1)
                    | (Data s, es1) \<Rightarrow>
                        Some (CRLF_READ_SUCCESS,
                          cr2\<lparr>rbuf := Live (take (count cr1) b1 @ s @ drop (count cr1 + length s) b1),
                              count := count cr1 + length s, readreq := (length s = tlen)\<rparr>, es1, m1)))"

text \<open>How much the socket still holds; every read that brings bytes makes it less.\<close>

fun data :: "answer list \<Rightarrow> string" where
  "data [] = []"
| "data (Data s # es) = s @ data es"
| "data (_ # es) = data es"

definition load :: "answer list \<Rightarrow> nat" where
  "load es = length es + length (data es)"

lemma sock_read_data: "sock_read n es = (Data s, es1) \<Longrightarrow> data es = s @ data es1 \<and> s \<noteq> [] \<and> length s \<le> n \<and> load es1 < load es"
  by (induction n es rule: sock_read.induct) (auto simp: load_def split: if_splits)

lemma sock_read_other: "sock_read n es = (r, es1) \<Longrightarrow> (\<And>s. r \<noteq> Data s) \<Longrightarrow> data es1 = data es \<and> load es1 \<le> load es"
  by (induction n es rule: sock_read.induct) (auto simp: load_def split: if_splits)

lemma read_loop_data: "read_loop n es = (Data s, es1) \<Longrightarrow> data es = s @ data es1 \<and> s \<noteq> [] \<and> length s \<le> n \<and> load es1 < load es"
proof (induction n es rule: read_loop.induct)
  case (1 n es)
  obtain r es2 where s: "sock_read n es = (r, es2)" by (cases "sock_read n es")
  show ?case
  proof (cases "r = Err EINTR")
    case True
    with 1 s sock_read_other [OF s] show ?thesis by (fastforce simp: read_loop.simps [of n es])
  next
    case False
    then have "read_loop n es = (r, es2)" using s by (auto simp: read_loop.simps [of n es] split: answer.splits errno.splits)
    with 1 s sock_read_data show ?thesis by auto
  qed
qed

lemma read_loop_other: "read_loop n es = (r, es1) \<Longrightarrow> (\<And>s. r \<noteq> Data s) \<Longrightarrow> data es1 = data es"
proof (induction n es rule: read_loop.induct)
  case (1 n es)
  obtain r2 es2 where s: "sock_read n es = (r2, es2)" by (cases "sock_read n es")
  show ?case
  proof (cases "r2 = Err EINTR")
    case True
    with 1 s sock_read_other [OF s] show ?thesis by (fastforce simp: read_loop.simps [of n es])
  next
    case False
    then have "read_loop n es = (r2, es2)" using s by (auto simp: read_loop.simps [of n es] split: answer.splits errno.splits)
    with 1 s sock_read_other show ?thesis by auto
  qed
qed

lemma strnchr_bound: "strnchr s c n = Some (Some i) \<Longrightarrow> i < n \<and> i < length s \<and> s ! i = c \<and> (\<forall>j < i. s ! j \<noteq> c)"
proof (induction s c n arbitrary: i rule: strnchr.induct)
  case (3 x s c n)
  then show ?case by (cases i) (auto simp: nth_Cons' less_Suc_eq_0_disj split: if_splits)
qed auto

lemma read_cr_data_load:
  assumes "read_cr_data cr es m = Some (CRLF_READ_SUCCESS, cr1, es1, m1)"
  shows "load es1 < load es"
  using assms read_loop_data
  by (auto simp: read_cr_data_def Let_def split: if_splits prod.splits bool.splits bufptr.splits answer.splits)

function read_crlf_line :: "crlf_reader \<Rightarrow> answer list \<Rightarrow> mem \<Rightarrow> (crlf_read_res \<times> crlf_reader \<times> answer list \<times> mem) option" where
  "read_crlf_line cr es m =
     (case (if examined cr = count cr then read_cr_data cr es m else Some (CRLF_READ_SUCCESS, cr, es, m)) of
        None \<Rightarrow> None
      | Some (res, cr1, es1, m1) \<Rightarrow>
          if res \<noteq> CRLF_READ_SUCCESS then
            Some (if res \<noteq> CRLF_READ_NBLOCK \<and> count cr1 \<noteq> 0 \<and> res = CRLF_READ_EOF then CRLF_READ_SHORTLINE else res, cr1, es1, m1)
          else
            let b = contents (rbuf cr1); slen = count cr1 - examined cr1 in
            (case strnchr (drop (base cr1 + examined cr1) b) CHR 0x0A slen of
               None \<Rightarrow> None
             | Some None \<Rightarrow> read_crlf_line (cr1\<lparr>examined := count cr1\<rparr>) es1 m1
             | Some (Some i) \<Rightarrow>
                 let pos = examined cr1 + i in
                 if pos = 0 then read_crlf_line (cr1\<lparr>examined := 1\<rparr>) es1 m1
                 else if b ! (base cr1 + pos - 1) \<noteq> CHR 0x0D then read_crlf_line (cr1\<lparr>examined := pos + 1\<rparr>) es1 m1
                 else
                   let len = pos + 1 in
                   (case Malloc (len + 1) m1 of
                      (False, m2) \<Rightarrow> Some (CRLF_READ_SYSERR, cr1, es1, m2)
                    | (True, m2) \<Rightarrow>
                        let cr2 = cr1\<lparr>iv := Some (take len (drop (base cr1) b) @ [NUL]), count := count cr1 - len,
                                     base := base cr1 + len, examined := 0\<rparr>
                        in Some (if count cr2 \<noteq> 0 \<or> eof cr2 then CRLF_READ_MOREDATA else CRLF_READ_SUCCESS, cr2, es1, m2))))"
  by pat_completeness auto

termination
proof (relation "measures [\<lambda>(cr, es, m). load es, \<lambda>(cr, es, m). if examined cr = count cr then 0 else 1 + (count cr - examined cr)]", goal_cases)
  case 1
  show ?case by simp
next
  case (2 cr es m)
  then show ?case using read_cr_data_load by (auto split: if_splits)
next
  case (3 cr es m)
  then show ?case using read_cr_data_load by (auto split: if_splits dest!: strnchr_bound)
next
  case (4 cr es m)
  then show ?case using read_cr_data_load by (auto split: if_splits dest!: strnchr_bound)
qed

declare read_crlf_line.simps [simp del]

subsection \<open>What is pending\<close>

definition content :: "crlf_reader \<Rightarrow> string" where
  "content cr = take (count cr) (drop (base cr) (contents (rbuf cr)))"

definition pend :: "crlf_reader \<Rightarrow> answer list \<Rightarrow> string" where
  "pend cr es = content cr @ data es"

definition no_crlf :: "string \<Rightarrow> bool" where
  "no_crlf s \<longleftrightarrow> (\<forall>i. Suc i < length s \<longrightarrow> \<not> (s ! i = CHR 0x0D \<and> s ! Suc i = CHR 0x0A))"

text \<open>A line: it ends in CRLF and holds no other.\<close>

definition is_line :: "string \<Rightarrow> bool" where
  "is_line l \<longleftrightarrow> (\<exists>body. l = body @ [CHR 0x0D, CHR 0x0A] \<and> no_crlf (body @ [CHR 0x0D]))"

definition reader_ok :: "crlf_reader \<Rightarrow> bool" where
  "reader_ok cr \<longleftrightarrow> (\<exists>b. rbuf cr = Live b \<and> length b = total cr \<and> base cr + count cr \<le> total cr \<and> examined cr \<le> count cr \<and>
     total cr \<le> MAX_LINE_SIZE \<and> no_crlf (take (examined cr) (content cr)))"

text \<open>A socket that only delivers bytes, with interruptions, up to its end.\<close>

fun clean :: "answer list \<Rightarrow> bool" where
  "clean [] \<longleftrightarrow> True"
| "clean (Data s # es) \<longleftrightarrow> clean es"
| "clean (Err e # es) \<longleftrightarrow> e = EINTR \<and> clean es"
| "clean (Eof # es) \<longleftrightarrow> data es = [] \<and> clean es"

lemma no_crlf_extend:
  "no_crlf (take e s) \<Longrightarrow> (\<And>j. e \<le> j \<Longrightarrow> j < p \<Longrightarrow> s ! j = CHR 0x0A \<Longrightarrow> j \<noteq> 0 \<and> s ! (j - 1) \<noteq> CHR 0x0D) \<Longrightarrow> p \<le> length s \<Longrightarrow> no_crlf (take p s)"
  unfolding no_crlf_def
proof (intro allI impI notI)
  fix i
  assume a: "\<forall>i. Suc i < length (take e s) \<longrightarrow> \<not> (take e s ! i = CHR 0x0D \<and> take e s ! Suc i = CHR 0x0A)"
    and b: "\<And>j. e \<le> j \<Longrightarrow> j < p \<Longrightarrow> s ! j = CHR 0x0A \<Longrightarrow> j \<noteq> 0 \<and> s ! (j - 1) \<noteq> CHR 0x0D"
    and p: "p \<le> length s" and i: "Suc i < length (take p s)" and c: "take p s ! i = CHR 0x0D \<and> take p s ! Suc i = CHR 0x0A"
  show False
  proof (cases "Suc i < e")
    case True
    with a [rule_format, of i] i c p show False by simp
  next
    case False
    with b [of "Suc i"] i c p show False by simp
  qed
qed

lemma no_crlf_extend_none:
  "no_crlf (take e s) \<Longrightarrow> (\<And>j. e \<le> j \<Longrightarrow> j < p \<Longrightarrow> s ! j \<noteq> CHR 0x0A) \<Longrightarrow> p \<le> length s \<Longrightarrow> no_crlf (take p s)"
  by (rule no_crlf_extend) auto

lemma line_not_in: "is_line l \<Longrightarrow> \<not> no_crlf (l @ r)"
proof
  assume "is_line l" "no_crlf (l @ r)"
  then obtain body where "l = body @ [CHR 0x0D, CHR 0x0A]" "no_crlf (l @ r)" by (auto simp: is_line_def)
  then show False by (auto simp: no_crlf_def nth_append dest!: spec [of _ "length body"])
qed

lemma no_crlf_take: "no_crlf s \<Longrightarrow> no_crlf (take n s)"
  by (simp add: no_crlf_def)

lemma line_unique:
  assumes "is_line l" "is_line l'" "l @ r = l' @ r'"
  shows "l = l' \<and> r = r'"
proof -
  have "\<not> length x < length y" if lx: "is_line x" and ly: "is_line y" and xy: "x @ u = y @ v" for x y u v
  proof
    assume lt: "length x < length y"
    obtain body where y: "y = body @ [CHR 0x0D, CHR 0x0A]" "no_crlf (body @ [CHR 0x0D])" using ly by (auto simp: is_line_def)
    have "x = take (length x) (y @ v)" using xy by (metis append_eq_conv_conj)
    also have "\<dots> = take (length x) (body @ [CHR 0x0D])" using lt y(1) by (auto simp: less_Suc_eq_le take_Cons')
    finally have "no_crlf x" using no_crlf_take [OF y(2)] by metis
    then show False using line_not_in [OF lx, of "[]"] by simp
  qed
  from this [OF assms(1,2,3)] this [OF assms(2,1) assms(3) [symmetric]] have "length l = length l'" by simp
  with assms(3) show ?thesis by simp
qed

lemma sock_read_clean: "clean es \<Longrightarrow> 0 < n \<Longrightarrow> sock_read n es = (r, es1) \<Longrightarrow>
    clean es1 \<and> (case r of Data s \<Rightarrow> True | Eof \<Rightarrow> data es1 = [] | Err e \<Rightarrow> e = EINTR \<or> e = EAGAIN \<and> data es1 = [])"
  by (induction n es rule: sock_read.induct) (auto split: if_splits)

lemma read_loop_clean: "clean es \<Longrightarrow> 0 < n \<Longrightarrow> read_loop n es = (r, es1) \<Longrightarrow>
    clean es1 \<and> (case r of Data s \<Rightarrow> True | Eof \<Rightarrow> data es1 = [] | Err e \<Rightarrow> e = EAGAIN \<and> data es1 = [])"
proof (induction n es rule: read_loop.induct)
  case (1 n es)
  obtain r2 es2 where s: "sock_read n es = (r2, es2)" by (cases "sock_read n es")
  note c = sock_read_clean [OF "1.prems"(1,2) s]
  show ?case
  proof (cases "r2 = Err EINTR")
    case True
    then have "read_loop n es2 = (r, es1)" using "1.prems"(3) s by (simp add: read_loop.simps [of n es])
    with 1 c s True show ?thesis by simp
  next
    case False
    then have "read_loop n es = (r2, es2)" using s by (auto simp: read_loop.simps [of n es] split: answer.splits errno.splits)
    with "1.prems"(3) c False show ?thesis by (auto split: answer.splits)
  qed
qed

lemma read_loop_not_eintr: "read_loop n es \<noteq> (Err EINTR, es1)"
proof (induction n es rule: read_loop.induct)
  case (1 n es)
  then show ?case by (subst read_loop.simps) (auto split: prod.splits answer.splits errno.splits)
qed

subsection \<open>Reading more\<close>

lemma memmove_front: "k + n \<le> length b \<Longrightarrow> take n (memmove b 0 k n) = take n (drop k b) \<and> length (memmove b 0 k n) = length b"
  by (auto simp: memmove_def)

lemma grow_buf_spec:
  assumes ok: "reader_ok cr" and full: "count cr = total cr"
  obtains (grown) cr1 m1 where "grow_buf cr m = (False, cr1, m1)" "reader_ok cr1" "content cr1 = content cr" "count cr1 = count cr"
      "count cr1 < total cr1" "examined cr1 = examined cr" "eof cr1 = eof cr" "plentiful m \<longrightarrow> plentiful m1"
  | (refused) "grow_buf cr m = (True, cr, m)" "count cr = MAX_LINE_SIZE"
  | (no_memory) cr1 m1 where "grow_buf cr m = (True, cr1, m1)" "errno m1 = ENOMEM" "rbuf cr1 = Freed" "count cr1 = count cr" "\<not> plentiful m"
proof -
  from ok obtain b where b: "rbuf cr = Live b" "length b = total cr" "base cr = 0" "examined cr \<le> count cr" "total cr \<le> MAX_LINE_SIZE"
    "no_crlf (take (examined cr) (content cr))" using full by (auto simp: reader_ok_def)
  show thesis
  proof (cases "total cr \<ge> MAX_LINE_SIZE")
    case True
    with b(5) full that(2) show thesis by (simp add: grow_buf_def)
  next
    case False
    define heap where "heap = (if total cr + 8192 > MAX_LINE_SIZE then MAX_LINE_SIZE else total cr + 8192)"
    have h: "total cr < heap" "heap \<le> MAX_LINE_SIZE" using False by (auto simp: heap_def)
    obtain k m1 where r: "Realloc True heap m = (k, m1)" by (cases "Realloc True heap m")
    have g: "grow_buf cr m = (if k then (False, cr\<lparr>total := heap, rbuf := Live (b @ replicate (heap - length b) (raw cr))\<rparr>, m1)
        else (True, cr\<lparr>rbuf := Freed\<rparr>, Free True m1))"
      using False b(1) r by (simp add: grow_buf_def heap_def [symmetric] Let_def contents_def del: Free_False)
    show thesis
    proof (cases k)
      case True
      define cr1 where "cr1 = cr\<lparr>total := heap, rbuf := Live (b @ replicate (heap - length b) (raw cr))\<rparr>"
      have c: "content cr1 = content cr" using b full by (simp add: content_def contents_def cr1_def)
      have ok1: "reader_ok cr1" using b h c by (simp add: reader_ok_def cr1_def full)
      show thesis
        by (rule that(1) [of cr1 m1])
          (use g True c ok1 h full Realloc_plentiful [of m heap True] r in \<open>auto simp: cr1_def\<close>)
    next
      case False
      have "errno m1 = ENOMEM" using r False by (auto simp: Realloc_def split: prod.splits bool.splits if_splits)
      moreover have "\<not> plentiful m" using r False Realloc_plentiful [of m heap True] h by auto
      ultimately show thesis using g False that(3) by (simp add: Free_def)
    qed
  qed
qed

lemma length_content: "reader_ok cr \<Longrightarrow> length (content cr) = count cr"
  by (auto simp: reader_ok_def content_def contents_def)

lemma read_cr_data_spec:
  assumes ok: "reader_ok cr" and ex: "examined cr = count cr"
  obtains (bytes) s cr1 es1 m1 where "read_cr_data cr es m = Some (CRLF_READ_SUCCESS, cr1, es1, m1)" "reader_ok cr1"
      "content cr1 = content cr @ s" "data es = s @ data es1" "s \<noteq> []" "examined cr1 = examined cr" "count cr1 = count cr + length s"
      "eof cr1 = eof cr" "\<not> eof cr" "clean es \<longrightarrow> clean es1" "plentiful m \<longrightarrow> plentiful m1"
  | (pause) cr1 es1 m1 where "read_cr_data cr es m = Some (CRLF_READ_NBLOCK, cr1, es1, m1)" "reader_ok cr1" "content cr1 = content cr"
      "data es1 = data es" "examined cr1 = count cr1" "count cr1 = count cr" "eof cr1 = eof cr" "clean es \<longrightarrow> clean es1 \<and> data es = []"
      "plentiful m \<longrightarrow> plentiful m1"
  | (finished) cr1 es1 m1 where "read_cr_data cr es m = Some (CRLF_READ_EOF, cr1, es1, m1)" "reader_ok cr1" "content cr1 = content cr"
      "data es1 = data es" "eof cr1" "examined cr1 = count cr1" "count cr1 = count cr" "clean es \<and> (eof cr \<longrightarrow> data es = []) \<longrightarrow> data es = []"
      "clean es \<longrightarrow> clean es1" "plentiful m \<longrightarrow> plentiful m1"
  | (long) m1 where "read_cr_data cr es m = Some (CRLF_READ_LONGLINE, cr, es, m1)" "count cr = MAX_LINE_SIZE"
  | (failed) cr1 es1 m1 where "read_cr_data cr es m = Some (CRLF_READ_SYSERR, cr1, es1, m1)" "\<not> (clean es \<and> plentiful m)"
proof (cases "eof cr")
  case True
  then have "read_cr_data cr es m = Some (CRLF_READ_EOF, cr, es, m)" by (simp add: read_cr_data_def)
  with True ok ex show thesis by (intro that(3)) auto
next
  case False
  note res = that
  define g where "g = (if count cr = total cr then grow_buf cr (m\<lparr>errno := E_NONE\<rparr>) else (False, cr, m))"
  have pe: "plentiful (m\<lparr>errno := E_NONE\<rparr>) = plentiful m" by (simp add: plentiful_def)
  have after: thesis if g1: "g = (False, cr1, m1)" and ok1: "reader_ok cr1" and same: "content cr1 = content cr" "count cr1 = count cr"
      "count cr1 < total cr1" "examined cr1 = examined cr" "eof cr1 = eof cr" and pl: "plentiful m \<longrightarrow> plentiful m1" for cr1 m1
  proof -
    from ok1 obtain b where b: "rbuf cr1 = Live b" "length b = total cr1" "base cr1 + count cr1 \<le> total cr1" "total cr1 \<le> MAX_LINE_SIZE"
      "no_crlf (take (examined cr1) (content cr1))" by (auto simp: reader_ok_def)
    define b1 where "b1 = (if count cr1 > base cr1 \<or> base cr1 \<noteq> 0 \<and> count cr1 \<noteq> 0 then memmove b 0 (base cr1) (count cr1) else b)"
    have b1: "take (count cr1) b1 = take (count cr1) (drop (base cr1) b)" "length b1 = total cr1"
      using memmove_front [of "base cr1" "count cr1" b] b(2,3) by (auto simp: b1_def)
    define cr2 where "cr2 = cr1\<lparr>rbuf := Live b1, base := 0, readreq := False\<rparr>"
    have c2: "content cr2 = content cr" using b1(1) b(1) same(1) by (simp add: content_def contents_def cr2_def)
    have fields: "count cr2 = count cr" "examined cr2 = examined cr" "eof cr2 = eof cr" "total cr2 = total cr1" using same by (simp_all add: cr2_def)
    have ok2: "reader_ok cr2" using b b1(2) c2 same ex by (simp add: reader_ok_def cr2_def)
    define tlen where "tlen = total cr1 - count cr1"
    have tl: "0 < tlen" using same(3) by (simp add: tlen_def)
    have e: "read_cr_data cr es m = (case read_loop tlen es of
        (Err e, es1) \<Rightarrow> Some (if e = EAGAIN then CRLF_READ_NBLOCK else CRLF_READ_SYSERR, cr2, es1, m1\<lparr>errno := e\<rparr>)
      | (Eof, es1) \<Rightarrow> Some (CRLF_READ_EOF, cr2\<lparr>eof := True\<rparr>, es1, m1)
      | (Data s, es1) \<Rightarrow> Some (CRLF_READ_SUCCESS, cr2\<lparr>rbuf := Live (take (count cr1) b1 @ s @ drop (count cr1 + length s) b1),
                              count := count cr1 + length s, readreq := (length s = tlen)\<rparr>, es1, m1))"
    proof -
      have n: "\<not> length b < base cr1 + count cr1" using b(2,3) by simp
      show ?thesis
        unfolding read_cr_data_def if_not_P [OF False] g_def [symmetric] g1 prod.case bool.case b(1) bufptr.case Let_def
          b1_def [symmetric] cr2_def [symmetric] tlen_def [symmetric] if_not_P [OF n] ..
    qed
    obtain r es1 where r: "read_loop tlen es = (r, es1)" by (cases "read_loop tlen es")
    show thesis
    proof (cases r)
      case (Data s)
      have rd: "data es = s @ data es1" "s \<noteq> []" "length s \<le> tlen" using read_loop_data [of tlen es s es1] r Data by auto
      define cr3 where "cr3 = cr2\<lparr>rbuf := Live (take (count cr1) b1 @ s @ drop (count cr1 + length s) b1),
                              count := count cr1 + length s, readreq := (length s = tlen)\<rparr>"
      have lb: "length (take (count cr1) b1) = count cr1" using b1(2) same(3) by simp
      have c3: "content cr3 = content cr @ s"
      proof -
        have "content cr3 = take (count cr1) b1 @ s" using lb by (simp add: content_def contents_def cr3_def cr2_def)
        then show ?thesis using b1(1) b(1) same(1) by (simp add: content_def contents_def)
      qed
      have ok3: "reader_ok cr3"
      proof -
        have "take (examined cr3) (content cr3) = take (examined cr) (content cr)"
          using length_content [OF ok] ex c3 same(4) by (simp add: cr3_def cr2_def)
        then have "no_crlf (take (examined cr3) (content cr3))" using ok by (auto simp: reader_ok_def)
        then show ?thesis using b(4) rd(3) b1(2) lb ex same(2,3,4)
          by (simp add: reader_ok_def cr3_def cr2_def tlen_def)
      qed
      have cl: "clean es \<longrightarrow> clean es1" using read_loop_clean [OF _ tl r] by simp
      have "read_cr_data cr es m = Some (CRLF_READ_SUCCESS, cr3, es1, m1)" using e r Data by (simp add: cr3_def)
      then show thesis
        by (rule res(1) [OF _ ok3 c3 rd(1,2)]) (use fields same cl pl False in \<open>simp_all add: cr3_def\<close>)
    next
      case Eof
      have ds: "data es1 = data es" using read_loop_other [OF r] Eof by simp
      have cl: "clean es \<longrightarrow> clean es1 \<and> data es1 = []" using read_loop_clean [OF _ tl r] Eof by simp
      have ok3: "reader_ok (cr2\<lparr>eof := True\<rparr>)" "content (cr2\<lparr>eof := True\<rparr>) = content cr"
      proof -
        have c: "content (cr2\<lparr>eof := True\<rparr>) = content cr2" by (simp add: content_def)
        show "content (cr2\<lparr>eof := True\<rparr>) = content cr" using c c2 by simp
        show "reader_ok (cr2\<lparr>eof := True\<rparr>)" using ok2 by (simp add: reader_ok_def c)
      qed
      have "read_cr_data cr es m = Some (CRLF_READ_EOF, cr2\<lparr>eof := True\<rparr>, es1, m1)" using e r Eof by simp
      then show thesis
        by (rule res(3) [OF _ ok3 ds]) (use fields same cl pl ds ex in \<open>simp_all\<close>)
    next
      case (Err er)
      have ds: "data es1 = data es" using read_loop_other [OF r] Err by simp
      have cl: "clean es \<longrightarrow> clean es1 \<and> er = EAGAIN \<and> data es1 = []" using read_loop_clean [OF _ tl r] Err by simp
      show thesis
      proof (cases "er = EAGAIN")
        case True
        then have "read_cr_data cr es m = Some (CRLF_READ_NBLOCK, cr2, es1, m1\<lparr>errno := er\<rparr>)" using e r Err by simp
        then show thesis
          by (rule res(2) [OF _ ok2 c2 ds]) (use fields same cl pl ds ex in \<open>simp_all add: plentiful_def\<close>)
      next
        case no: False
        then have "read_cr_data cr es m = Some (CRLF_READ_SYSERR, cr2, es1, m1\<lparr>errno := er\<rparr>)" using e r Err by simp
        then show thesis by (rule res(5)) (use cl no in simp)
      qed
    qed
  qed
  show thesis
  proof (cases "count cr = total cr")
    case True
    from ok True show thesis
    proof (cases rule: grow_buf_spec [where m = "m\<lparr>errno := E_NONE\<rparr>"])
      case (grown cr1 m1)
      then show thesis using True pe by (intro after [of cr1 m1]) (simp_all add: g_def)
    next
      case refused
      then have "read_cr_data cr es m = Some (CRLF_READ_LONGLINE, cr, es, m\<lparr>errno := E_NONE\<rparr>)"
        using False True by (simp add: read_cr_data_def)
      then show thesis using refused by (intro res(4))
    next
      case (no_memory cr1 m1)
      then have "read_cr_data cr es m = Some (CRLF_READ_SYSERR, cr1, es, m1)"
        using False True by (simp add: read_cr_data_def)
      then show thesis using no_memory pe by (intro res(5)) simp_all
    qed
  next
    case no: False
    then have "count cr < total cr" using ok by (auto simp: reader_ok_def)
    then show thesis using no ok by (intro after [of cr m]) (simp_all add: g_def)
  qed
qed

text \<open>One line.\<close>

definition line_outcome :: "crlf_reader \<Rightarrow> answer list \<Rightarrow> mem \<Rightarrow> crlf_read_res \<Rightarrow> crlf_reader \<Rightarrow> answer list \<Rightarrow> mem \<Rightarrow> bool" where
  "line_outcome cr es m res cr' es' m' \<longleftrightarrow>
     (case res of
        CRLF_READ_SUCCESS \<Rightarrow> (\<exists>l. iv cr' = Some (l @ [NUL]) \<and> is_line l \<and> pend cr es = l @ pend cr' es' \<and> reader_ok cr' \<and>
          content cr' = [] \<and> \<not> eof cr')
      | CRLF_READ_MOREDATA \<Rightarrow> (\<exists>l. iv cr' = Some (l @ [NUL]) \<and> is_line l \<and> pend cr es = l @ pend cr' es' \<and> reader_ok cr' \<and>
          (content cr' \<noteq> [] \<or> eof cr'))
      | CRLF_READ_NBLOCK \<Rightarrow> reader_ok cr' \<and> pend cr' es' = pend cr es \<and> no_crlf (content cr') \<and> (clean es \<longrightarrow> data es' = [])
      | CRLF_READ_EOF \<Rightarrow> reader_ok cr' \<and> pend cr' es' = pend cr es \<and> content cr' = [] \<and>
          (clean es \<and> (eof cr \<longrightarrow> data es = []) \<longrightarrow> data es' = [])
      | CRLF_READ_SHORTLINE \<Rightarrow> reader_ok cr' \<and> pend cr' es' = pend cr es \<and> content cr' \<noteq> [] \<and> no_crlf (content cr') \<and>
          (clean es \<and> (eof cr \<longrightarrow> data es = []) \<longrightarrow> data es' = [])
      | CRLF_READ_LONGLINE \<Rightarrow> reader_ok cr' \<and> pend cr' es' = pend cr es \<and> no_crlf (content cr') \<and> count cr' = MAX_LINE_SIZE
      | CRLF_READ_SYSERR \<Rightarrow> \<not> (clean es \<and> plentiful m)) \<and>
     (res \<noteq> CRLF_READ_SYSERR \<longrightarrow> (clean es \<and> (eof cr \<longrightarrow> data es = []) \<longrightarrow> clean es' \<and> (eof cr' \<longrightarrow> data es' = [])) \<and> (res \<noteq> CRLF_READ_LONGLINE \<longrightarrow> plentiful m \<longrightarrow> plentiful m'))"

lemma reader_ok_examined: "reader_ok cr \<Longrightarrow> e \<le> count cr \<Longrightarrow> no_crlf (take e (content cr)) \<Longrightarrow> reader_ok (cr\<lparr>examined := e\<rparr>)"
  by (auto simp: reader_ok_def content_def)

lemma content_examined [simp]: "content (cr\<lparr>examined := e\<rparr>) = content cr"
  by (simp add: content_def)

lemma strnchr_defined: "n \<le> length s \<Longrightarrow> strnchr s c n \<noteq> None"
  by (induction s c n rule: strnchr.induct) auto

lemma strnchr_none: "strnchr s c n = Some None \<Longrightarrow> j < n \<Longrightarrow> j < length s \<Longrightarrow> s ! j \<noteq> c"
proof (induction s c n arbitrary: j rule: strnchr.induct)
  case (3 x s c n)
  then show ?case by (cases j) (auto split: if_splits)
qed auto

lemma content_nth: "i < count cr \<Longrightarrow> base cr + count cr \<le> length (contents (rbuf cr)) \<Longrightarrow> content cr ! i = contents (rbuf cr) ! (base cr + i)"
  by (simp add: content_def)

text \<open>The search of one pass, with bytes left to examine: on with more of them examined, or a line.\<close>

lemma examine_cases:
  assumes ok: "reader_ok cr" and lt: "examined cr < count cr"
    and bd: "b = contents (rbuf cr)" and fd: "f = strnchr (drop (base cr + examined cr) (contents (rbuf cr))) CHR 0x0A (count cr - examined cr)"
  obtains (absent) "f = Some None" "reader_ok (cr\<lparr>examined := count cr\<rparr>)"
  | (first) "f = Some (Some 0)" "examined cr = 0" "reader_ok (cr\<lparr>examined := 1\<rparr>)"
  | (bare) i where "f = Some (Some i)" "examined cr + i \<noteq> 0" "b ! (base cr + (examined cr + i) - 1) \<noteq> CHR 0x0D"
      "reader_ok (cr\<lparr>examined := examined cr + i + 1\<rparr>)"
  | (line) i where "f = Some (Some i)" "examined cr + i \<noteq> 0" "b ! (base cr + (examined cr + i) - 1) = CHR 0x0D"
      "is_line (take (examined cr + i + 1) (content cr))" "examined cr + i + 1 \<le> count cr"
proof -
  let ?e = "examined cr"
  from ok have k: "length b = total cr" "base cr + count cr \<le> total cr" "no_crlf (take ?e (content cr))"
    by (auto simp: reader_ok_def contents_def bd)
  have lc: "length (content cr) = count cr" by (rule length_content [OF ok])
  have nth: "content cr ! j = b ! (base cr + j)" if "j < count cr" for j
    unfolding bd by (rule content_nth [OF that]) (use k in \<open>simp add: bd\<close>)
  have d: "f \<noteq> None" unfolding fd by (rule strnchr_defined) (use k lt in \<open>simp add: bd\<close>)
  then consider "f = Some None" | i where "f = Some (Some i)" by (cases f) auto
  then show thesis
  proof cases
    case 1
    have "content cr ! j \<noteq> CHR 0x0A" if "?e \<le> j" "j < count cr" for j
    proof -
      have "drop (base cr + ?e) b ! (j - ?e) \<noteq> CHR 0x0A"
        by (rule strnchr_none [OF 1 [unfolded fd, folded bd]]) (use that k in simp_all)
      then show ?thesis using that k nth by simp
    qed
    then have "no_crlf (take (count cr) (content cr))" by (intro no_crlf_extend_none [OF k(3)]) (use lc in auto)
    with 1 that(1) ok show thesis by (simp add: reader_ok_examined)
  next
    case (2 i)
    from strnchr_bound [OF 2 [unfolded fd, folded bd]] have
      i: "i < count cr - ?e" "drop (base cr + ?e) b ! i = CHR 0x0A" "\<And>j. j < i \<Longrightarrow> drop (base cr + ?e) b ! j \<noteq> CHR 0x0A" by auto
    have before: "content cr ! j \<noteq> CHR 0x0A" if "?e \<le> j" "j < ?e + i" for j
      using i(3) [of "j - ?e"] that k nth [of j] i(1) by simp
    have prev: "?e + i \<noteq> 0 \<Longrightarrow> b ! (base cr + (?e + i) - 1) = content cr ! (?e + i - 1)"
    proof -
      assume "?e + i \<noteq> 0"
      then have "base cr + (?e + i) - 1 = base cr + (?e + i - 1)" "?e + i - 1 < count cr" using i(1) by linarith+
      with nth show ?thesis by simp
    qed
    have upto: "no_crlf (take (?e + i) (content cr))"
      by (rule no_crlf_extend_none [OF k(3)]) (use before lc i(1) in auto)
    show thesis
    proof (cases "?e + i = 0")
      case True
      have "no_crlf (take 1 (content cr))" by (simp add: no_crlf_def)
      with True 2 that(2) ok lt show thesis by (simp add: reader_ok_examined)
    next
      case False
      show thesis
      proof (cases "b ! (base cr + (?e + i) - 1) = CHR 0x0D")
        case True
        define body where "body = take (?e + i - 1) (content cr)"
        have l: "?e + i < length (content cr)" "?e + i - 1 < length (content cr)" using i(1) lc by simp_all
        have lf: "content cr ! (?e + i) = CHR 0x0A" using i(1,2) k nth [of "?e + i"] by (simp add: add.assoc)
        have cr1: "take (?e + i) (content cr) = body @ [CHR 0x0D]"
          using take_Suc_conv_app_nth [OF l(2)] True prev False by (simp add: body_def)
        have "take (?e + i + 1) (content cr) = body @ [CHR 0x0D, CHR 0x0A]"
          using take_Suc_conv_app_nth [OF l(1)] lf cr1 by simp
        then have "is_line (take (?e + i + 1) (content cr))" unfolding is_line_def using upto cr1 by auto
        with 2 False True that(4) i(1) show thesis by simp
      next
        case no: False
        have "no_crlf (take (?e + i + 1) (content cr))"
        proof (rule no_crlf_extend [OF k(3)])
          fix j assume j: "?e \<le> j" "j < ?e + i + 1" "content cr ! j = CHR 0x0A"
          then have "j = ?e + i" using before [of j] by (cases "j < ?e + i") auto
          with False no prev show "j \<noteq> 0 \<and> content cr ! (j - 1) \<noteq> CHR 0x0D" by simp
        qed (use lc i(1) in simp)
        then have "reader_ok (cr\<lparr>examined := ?e + i + 1\<rparr>)" using ok i(1) by (intro reader_ok_examined) simp_all
        with 2 False no that(3) show thesis by simp
      qed
    qed
  qed
qed

lemma line_outcome_examined: "line_outcome (cr\<lparr>examined := e\<rparr>) es m res cr' es' m' = line_outcome cr es m res cr' es' m'"
  by (cases res) (simp_all add: line_outcome_def pend_def)

lemma line_outcome_more:
  assumes "line_outcome cr1 es1 m1 res cr' es' m'" "pend cr1 es1 = pend cr es" "clean es \<longrightarrow> clean es1" "plentiful m \<longrightarrow> plentiful m1"
    "eof cr1 = eof cr" "eof cr \<longrightarrow> data es = [] \<longrightarrow> data es1 = []"
  shows "line_outcome cr es m res cr' es' m'"
  using assms by (cases res) (auto simp: line_outcome_def)

lemma read_crlf_line_spec:
  "reader_ok cr \<Longrightarrow> \<exists>res cr' es' m'. read_crlf_line cr es m = Some (res, cr', es', m') \<and> line_outcome cr es m res cr' es' m'"
proof (induction cr es m rule: read_crlf_line.induct)
  case (1 cr es m)
  note IH = "1.IH" and ok = "1.prems"
  let ?step = "if examined cr = count cr then read_cr_data cr es m else Some (CRLF_READ_SUCCESS, cr, es, m)"
  note ev = read_crlf_line.simps [of cr es m]
  have more: ?case if st: "?step = Some (CRLF_READ_SUCCESS, cr1, es1, m1)" and ok1: "reader_ok cr1" and lt: "examined cr1 < count cr1"
      and same: "pend cr1 es1 = pend cr es" "clean es \<longrightarrow> clean es1" "plentiful m \<longrightarrow> plentiful m1" "eof cr1 = eof cr"
        "eof cr \<longrightarrow> data es = [] \<longrightarrow> data es1 = []" for cr1 es1 m1
  proof -
    note lift = line_outcome_more [OF _ same]
    let ?b = "contents (rbuf cr1)"
    show ?case
    proof (rule examine_cases [OF ok1 lt refl refl], goal_cases)
      case absent: 1
      have e: "read_crlf_line cr es m = read_crlf_line (cr1\<lparr>examined := count cr1\<rparr>) es1 m1"
        unfolding ev st using absent(1) by simp
      from IH(1) [OF st refl refl refl _ refl refl absent(1) refl absent(2)] show ?thesis
        unfolding e using lift by (auto simp: line_outcome_examined)
    next
      case first: 2
      have e: "read_crlf_line cr es m = read_crlf_line (cr1\<lparr>examined := 1\<rparr>) es1 m1"
        unfolding ev st using first(1,2) by (simp add: Let_def)
      from IH(2) [OF st refl refl refl _ refl refl first(1) refl refl _ first(3)] first(2) show ?thesis
        unfolding e using lift by (auto simp: line_outcome_examined)
    next
      case bare: (3 i)
      have e: "read_crlf_line cr es m = read_crlf_line (cr1\<lparr>examined := examined cr1 + i + 1\<rparr>) es1 m1"
        unfolding ev st using bare(1,2,3) by (simp add: Let_def)
      from IH(3) [OF st refl refl refl _ refl refl bare(1) refl refl bare(2,3,4)] show ?thesis
        unfolding e using lift by (auto simp: line_outcome_examined)
    next
      case line: (4 i)
      define len where "len = examined cr1 + i + 1"
      obtain k m2 where ml: "Malloc (len + 1) m1 = (k, m2)" by (cases "Malloc (len + 1) m1")
      define l where "l = take len (content cr1)"
      have ll: "take len (drop (base cr1) ?b) = l" using line(5) by (simp add: l_def content_def len_def min_def)
      define cr2 where "cr2 = cr1\<lparr>iv := Some (l @ [NUL]), count := count cr1 - len, base := base cr1 + len, examined := 0\<rparr>"
      have c2: "content cr2 = drop len (content cr1)"
        by (simp add: content_def cr2_def drop_take add.commute)
      have ok2: "reader_ok cr2" using ok1 line(5) by (auto simp: reader_ok_def cr2_def len_def no_crlf_def)
      show ?thesis
      proof (cases k)
        case True
        have e: "read_crlf_line cr es m = Some (if count cr2 \<noteq> 0 \<or> eof cr2 then CRLF_READ_MOREDATA else CRLF_READ_SUCCESS, cr2, es1, m2)"
          unfolding ev st using line(1,2,3) ml True ll by (auto simp: len_def cr2_def Let_def)
        have "pend cr es = l @ pend cr2 es1" using same(1) [symmetric] c2 by (simp add: pend_def l_def flip: append_assoc)
        moreover have "plentiful m1 \<longrightarrow> plentiful m2" using Malloc_plentiful [of m1 "len + 1"] ml by auto
        moreover have "content cr2 = [] \<longleftrightarrow> count cr2 = 0" using length_content [OF ok2] by auto
        ultimately have "line_outcome cr es m (if count cr2 \<noteq> 0 \<or> eof cr2 then CRLF_READ_MOREDATA else CRLF_READ_SUCCESS) cr2 es1 m2"
          using line(4) ok2 same by (auto simp: line_outcome_def cr2_def len_def l_def)
        with e show ?thesis by blast
      next
        case False
        have e: "read_crlf_line cr es m = Some (CRLF_READ_SYSERR, cr1, es1, m2)"
          unfolding ev st using line(1,2,3) ml False by (auto simp: len_def Let_def)
        have "\<not> plentiful m1" using Malloc_plentiful [of m1 "len + 1"] ml False by auto
        with e same show ?thesis by (auto simp: line_outcome_def)
      qed
    qed
  qed
  show ?case
  proof (cases "examined cr = count cr")
    case False
    with ok have "examined cr < count cr" by (auto simp: reader_ok_def)
    with False ok show ?thesis by (intro more [of cr es m]) simp_all
  next
    case True
    have nc: "no_crlf (content cr)" using ok True length_content [OF ok] by (auto simp: reader_ok_def)
    from ok True show ?thesis
    proof (cases rule: read_cr_data_spec [where es = es and m = m])
      case (bytes s cr1 es1 m1)
      then show ?thesis using True by (intro more [of cr1 es1 m1]) (auto simp: pend_def)
    next
      case (pause cr1 es1 m1)
      then have "read_crlf_line cr es m = Some (CRLF_READ_NBLOCK, cr1, es1, m1)" unfolding ev using True by simp
      with pause nc show ?thesis by (auto simp: line_outcome_def pend_def)
    next
      case (finished cr1 es1 m1)
      then have "read_crlf_line cr es m = Some (if count cr1 \<noteq> 0 then CRLF_READ_SHORTLINE else CRLF_READ_EOF, cr1, es1, m1)"
        unfolding ev using True by simp
      with finished nc length_content [OF finished(2)] show ?thesis by (auto simp: line_outcome_def pend_def)
    next
      case (long m1)
      then have "read_crlf_line cr es m = Some (CRLF_READ_LONGLINE, cr, es, m1)" unfolding ev using True by simp
      with long nc ok show ?thesis by (auto simp: line_outcome_def)
    next
      case (failed cr1 es1 m1)
      then have "read_crlf_line cr es m = Some (CRLF_READ_SYSERR, cr1, es1, m1)" unfolding ev using True by simp
      with failed show ?thesis by (auto simp: line_outcome_def)
    qed
  qed
qed

subsection \<open>Properties\<close>

text \<open>Reading \<open>n\<close> lines in a row: the lines, if each call answers one.\<close>

fun read_lines :: "nat \<Rightarrow> crlf_reader \<Rightarrow> answer list \<Rightarrow> mem \<Rightarrow> (string list \<times> crlf_reader \<times> answer list \<times> mem) option" where
  "read_lines 0 cr es m = Some ([], cr, es, m)"
| "read_lines (Suc n) cr es m =
     (case read_crlf_line cr es m of
        None \<Rightarrow> None
      | Some (res, cr1, es1, m1) \<Rightarrow>
          if res \<noteq> CRLF_READ_SUCCESS \<and> res \<noteq> CRLF_READ_MOREDATA then None
          else case iv cr1 of None \<Rightarrow> None
             | Some l \<Rightarrow> map_option (\<lambda>(ls, r). (butlast l # ls, r)) (read_lines n cr1 es1 m1))"

lemma next_line:
  assumes ok: "reader_ok cr" and cl: "clean es" "eof cr \<longrightarrow> data es = []" and pl: "plentiful m"
    and l: "is_line l" "length l \<le> MAX_LINE_SIZE" "pend cr es = l @ rest"
  shows "\<exists>res cr' es' m'. read_crlf_line cr es m = Some (res, cr', es', m') \<and> (res = CRLF_READ_SUCCESS \<or> res = CRLF_READ_MOREDATA) \<and>
    iv cr' = Some (l @ [NUL]) \<and> pend cr' es' = rest \<and> reader_ok cr' \<and> clean es' \<and> (eof cr' \<longrightarrow> data es' = []) \<and> plentiful m'"
proof -
  from read_crlf_line_spec [OF ok, of es m] obtain res cr' es' m' where
    r: "read_crlf_line cr es m = Some (res, cr', es', m')" "line_outcome cr es m res cr' es' m'" by blast
  have has: "\<not> no_crlf (pend cr es)" using line_not_in [OF l(1)] l(3) by simp
  have res: "res = CRLF_READ_SUCCESS \<or> res = CRLF_READ_MOREDATA"
  proof (cases res)
    case CRLF_READ_SHORTLINE
    with r(2) cl have "pend cr es = content cr'" "no_crlf (content cr')" by (auto simp: line_outcome_def pend_def)
    with has show ?thesis by simp
  next
    case CRLF_READ_LONGLINE
    with r(2) have c: "reader_ok cr'" "pend cr' es' = pend cr es" "no_crlf (content cr')" "count cr' = MAX_LINE_SIZE" by (auto simp: line_outcome_def)
    have "length l \<le> length (content cr')" using length_content [OF c(1)] c(4) l(2) by simp
    moreover have "content cr' @ data es' = l @ rest" using c(2) l(3) by (simp add: pend_def)
    ultimately have "take (length l) (content cr') = l" by (metis append_eq_conv_conj take_append diff_is_0_eq take0 append_Nil2)
    then have "content cr' = l @ drop (length l) (content cr')" by (metis append_take_drop_id)
    with line_not_in [OF l(1)] c(3) show ?thesis by metis
  next
    case CRLF_READ_EOF
    with r(2) cl have "pend cr es = []" by (auto simp: line_outcome_def pend_def)
    with l(1,3) show ?thesis by (auto simp: is_line_def)
  next
    case CRLF_READ_NBLOCK
    with r(2) cl have "pend cr es = content cr'" "no_crlf (content cr')" by (auto simp: line_outcome_def pend_def)
    with has show ?thesis by simp
  next
    case CRLF_READ_SYSERR
    with r(2) cl pl show ?thesis by (simp add: line_outcome_def)
  qed simp_all
  then obtain l' where l': "iv cr' = Some (l' @ [NUL])" "is_line l'" "pend cr es = l' @ pend cr' es'" "reader_ok cr'"
    using r(2) by (auto simp: line_outcome_def)
  have "l @ rest = l' @ pend cr' es'" using l(3) l'(3) by simp
  then have "l = l'" "rest = pend cr' es'" using line_unique [OF l(1) l'(2)] by blast+
  with r res l' cl pl show ?thesis by (auto simp: line_outcome_def)
qed

lemma lines_in_order:
  "reader_ok cr \<Longrightarrow> clean es \<Longrightarrow> eof cr \<longrightarrow> data es = [] \<Longrightarrow> plentiful m \<Longrightarrow> \<forall>l \<in> set ls. is_line l \<and> length l \<le> MAX_LINE_SIZE \<Longrightarrow>
   pend cr es = concat ls @ rest \<Longrightarrow> \<exists>cr' es' m'. read_lines (length ls) cr es m = Some (ls, cr', es', m') \<and> pend cr' es' = rest"
proof (induction ls arbitrary: cr es m)
  case (Cons l ls)
  from next_line [OF Cons.prems(1-4), of l "concat ls @ rest"] Cons.prems(5,6) obtain res cr1 es1 m1 where
    r: "read_crlf_line cr es m = Some (res, cr1, es1, m1)" "res = CRLF_READ_SUCCESS \<or> res = CRLF_READ_MOREDATA" "iv cr1 = Some (l @ [NUL])"
    "pend cr1 es1 = concat ls @ rest" "reader_ok cr1" "clean es1" "eof cr1 \<longrightarrow> data es1 = []" "plentiful m1" by auto
  from Cons.IH [OF r(5-8) _ r(4)] Cons.prems(5) r(1-3) show ?case by auto
qed simp

lemma init_reader_ok:
  assumes "init_crlf_reader r m = (False, cr, m')"
  shows "reader_ok cr \<and> content cr = [] \<and> \<not> eof cr"
  using assms
  by (auto simp: init_crlf_reader_def grow_buf_def zero_reader_def Let_def MAX_LINE_SIZE_def reader_ok_def content_def contents_def
      no_crlf_def split: prod.splits bool.splits)

text \<open>After a failed growth the reader points to the buffer that was freed; a reset frees it again.\<close>

lemma reset_after_failed_growth:
  assumes "rbuf cr = Live b" "total cr < MAX_LINE_SIZE" "grow_buf cr m = (True, cr', m')"
  shows "reset_crlf_reader (Some cr') m' = None"
  using assms by (auto simp: grow_buf_def reset_crlf_reader_def Let_def split: prod.splits bool.splits)

text \<open>
  C4: Reading lines off a socket. However the bytes are cut into reads, with interruptions
  anywhere, a fresh reader that is called once per line answers exactly the lines of the
  stream, in order and each with its CRLF, and nothing of what follows is lost. Each line may
  be as long as the reader's limit; memory must be available.
\<close>

theorem crlf_lines_any_chunking:
  assumes "init_crlf_reader r m = (False, cr, m0)" "plentiful m0" "clean es" "data es = concat ls @ rest"
    "\<forall>l \<in> set ls. is_line l \<and> length l \<le> MAX_LINE_SIZE"
  shows "\<exists>cr' es' m'. read_lines (length ls) cr es m0 = Some (ls, cr', es', m') \<and> pend cr' es' = rest"
proof -
  have "pend cr es = concat ls @ rest" using init_reader_ok [OF assms(1)] assms(4) by (simp add: pend_def)
  with init_reader_ok [OF assms(1)] assms(2,3,5) show ?thesis by (intro lines_in_order) auto
qed

text \<open>Two lines and a bit, cut inside the first CRLF and inside the second line.\<close>

definition two_lines :: "answer list" where
  "two_lines = [Data [CHR ''a'', CHR 0x0A, CHR 0x0D], Err EINTR, Data [CHR 0x0A, CHR ''b''], Data [CHR 0x0D, CHR 0x0A, CHR ''c'']]"

theorem crlf_lines_any_chunking_witness:
  "\<exists>cr m0 cr' es' m'. init_crlf_reader NUL plenty_mem = (False, cr, m0) \<and>
     read_lines (length [[CHR ''a'', CHR 0x0A, CHR 0x0D, CHR 0x0A], [CHR ''b'', CHR 0x0D, CHR 0x0A]]) cr two_lines m0 =
       Some ([[CHR ''a'', CHR 0x0A, CHR 0x0D, CHR 0x0A], [CHR ''b'', CHR 0x0D, CHR 0x0A]], cr', es', m') \<and> pend cr' es' = ''c''"
proof -
  obtain f cr m0 where i: "init_crlf_reader NUL plenty_mem = (f, cr, m0)" by (cases "init_crlf_reader NUL plenty_mem")
  have p: "\<not> f" "plentiful m0" using i
    by (auto simp: init_crlf_reader_def grow_buf_def zero_reader_def MAX_LINE_SIZE_def Let_def Realloc_def check_alloc_req_def
        init_mem_def plentiful_def)
  have "is_line [CHR ''a'', CHR 0x0A, CHR 0x0D, CHR 0x0A]" "is_line [CHR ''b'', CHR 0x0D, CHR 0x0A]"
    unfolding is_line_def by (rule exI [of _ "[CHR ''a'', CHR 0x0A]"], simp add: no_crlf_def nth_Cons', rule exI [of _ "''b''"], simp add: no_crlf_def nth_Cons')
  then have ls: "\<forall>l \<in> set [[CHR ''a'', CHR 0x0A, CHR 0x0D, CHR 0x0A], [CHR ''b'', CHR 0x0D, CHR 0x0A]]. is_line l \<and> length l \<le> MAX_LINE_SIZE"
    by (simp add: MAX_LINE_SIZE_def)
  have "clean two_lines" "data two_lines = concat [[CHR ''a'', CHR 0x0A, CHR 0x0D, CHR 0x0A], [CHR ''b'', CHR 0x0D, CHR 0x0A]] @ ''c''"
    by (simp_all add: two_lines_def)
  from crlf_lines_any_chunking [OF _ p(2) this ls] i p(1) show ?thesis by (cases f) auto
qed

end
