(* ===== verification/Magic.thy ===== *)
theory Magic
  imports Memlimit
begin

text \<open>
  The bit tricks of libdank/utils/magic.h and magic.c: population count, leading zeros, the
  logarithm of a power of two by a table of residues modulo 67, the approximate square root
  and the search for a coprime.
\<close>

subsection \<open>Bits\<close>

definition pop_count32 :: "u32 \<Rightarrow> u32" where
  "pop_count32 n =
     (let n = n - (drop_bit 1 n AND 0x55555555);
          n = (n AND 0x33333333) + (drop_bit 2 n AND 0x33333333);
          n = (n + drop_bit 4 n) AND 0x0f0f0f0f;
          n = n + drop_bit 8 n;
          n = n + drop_bit 16 n
      in n AND 0x0000003f)"

definition nlz32 :: "u32 \<Rightarrow> u32" where
  "nlz32 n =
     (let n = n OR drop_bit 1 n;
          n = n OR drop_bit 2 n;
          n = n OR drop_bit 4 n;
          n = n OR drop_bit 8 n;
          n = n OR drop_bit 16 n
      in pop_count32 (NOT n))"

definition pow2table :: "nat list" where
  "pow2table = [
    127, 0, 1, 39, 2, 15, 40, 23, 3, 12, 16, 59, 41, 19, 24, 54,
    4, 127, 13, 10, 17, 62, 60, 28, 42, 30, 20, 51, 25, 44, 55, 47,
    5, 32, 127, 38, 14, 22, 11, 58, 18, 53, 63, 9, 61, 27, 29, 50,
    43, 46, 31, 37, 21, 57, 52, 8, 26, 49, 45, 36, 56, 7, 48, 35,
    6, 34, 33]"

definition uintlog2 :: "u64 \<Rightarrow> nat" where
  "uintlog2 n = pow2table ! (unat n mod 67)"

definition sqrtu32 :: "u32 \<Rightarrow> u32" where
  "sqrtu32 n = drop_bit (unat ((32 - nlz32 n) div 2)) n"

subsection \<open>The search for a coprime\<close>

text \<open>
  The model of \<open>find_coprime\<close> is for arguments below \<open>2 ^ 32\<close>, where no variable wraps;
  numbers are naturals. \<open>strip_factor\<close> is the inner loop that divides by the prime \<open>cur\<close>,
  which is at least 2 there (the test for 1 is never taken).
\<close>

lemma quotient_less: "Suc 0 < n div cur \<Longrightarrow> cur \<noteq> Suc 0 \<Longrightarrow> n div cur < (n :: nat)"
  by (cases "cur = 0"; cases "n = 0") (auto intro: div_less_dividend)

function strip_factor :: "nat \<Rightarrow> nat \<Rightarrow> nat \<Rightarrow> nat \<times> nat" where
  "strip_factor n cur f =
     (let f' = f + 1; n' = n div cur in
      if n' > 1 \<and> n' mod cur = 0 \<and> cur \<noteq> 1 then strip_factor n' cur f' else (n', f'))"
  by pat_completeness auto
termination by (relation "measure (\<lambda>(n, cur, f). n)") (auto intro: quotient_less)

declare strip_factor.simps [simp del]

function sieve :: "nat \<Rightarrow> nat \<Rightarrow> nat \<Rightarrow> nat list \<Rightarrow> nat list \<Rightarrow> nat \<times> nat list \<times> nat list" where
  "sieve cur sqr n primes factor =
     (if cur \<le> sqr \<and> n > 1 then
        (if list_ex (\<lambda>p. cur mod p = 0) primes then sieve (cur + 1) sqr n primes factor
         else if n mod cur = 0 then
           (case strip_factor n cur (factor ! length primes) of
              (n', f) \<Rightarrow> sieve (cur + 1) sqr n' (primes @ [cur]) (factor[length primes := f]))
         else sieve (cur + 1) sqr n (primes @ [cur]) factor)
      else (n, primes, factor))"
  by pat_completeness auto
termination by (relation "measure (\<lambda>(cur, sqr, n, primes, factor). Suc sqr - cur)") auto

declare sieve.simps [simp del]

definition no_factor :: "nat list \<Rightarrow> nat list \<Rightarrow> nat \<Rightarrow> bool" where
  "no_factor primes factor cur \<longleftrightarrow>
     list_all (\<lambda>(p, f). \<not> (f \<noteq> 0 \<and> cur mod p = 0)) (zip primes factor)"

function search_up :: "nat list \<Rightarrow> nat list \<Rightarrow> nat \<Rightarrow> nat \<Rightarrow> nat" where
  "search_up primes factor cur modulus =
     (if cur < modulus then
        (if no_factor primes factor cur then cur else search_up primes factor (cur + 1) modulus)
      else 0)"
  by pat_completeness auto
termination by (relation "measure (\<lambda>(primes, factor, cur, modulus). modulus - cur)") auto

declare search_up.simps [simp del]

text \<open>The downward loop stores the number of primes, not the candidate.\<close>

fun search_down :: "nat list \<Rightarrow> nat list \<Rightarrow> nat \<Rightarrow> nat" where
  "search_down primes factor 0 = 0"
| "search_down primes factor (Suc cur) =
     (if Suc cur > 1 then
        (if no_factor primes factor (Suc cur) then length primes else search_down primes factor cur)
      else 0)"

text \<open>\<open>heap\<close> is what the block of the factor vector holds when it is allocated.\<close>

definition find_coprime :: "nat list \<Rightarrow> nat \<Rightarrow> mem \<Rightarrow> nat \<times> mem" where
  "find_coprime heap n m =
     (let sqr = unat (sqrtu32 (word_of_nat n)) in
      case Malloc (4 * sqr) m of
        (False, m1) \<Rightarrow> (1, m1)
      | (True, m1) \<Rightarrow>
          (case Malloc (4 * sqr) m1 of
             (False, m2) \<Rightarrow> (1, Free True m2)
           | (True, m2) \<Rightarrow>
               (case sieve 2 sqr n [] (take sqr heap) of
                  (n1, primes1, factor1) \<Rightarrow>
                    let primes2 = (if n1 > 1 then primes1 @ [n1] else primes1);
                        factor2 = (if n1 > 1 then factor1[length primes1 := 1] else factor1);
                        ret1 = search_up primes2 factor2 sqr n;
                        ret2 = (if ret1 = 0 then search_down primes2 factor2 (sqr - 1) else ret1)
                    in (if ret2 = 0 then 1 else ret2, Free True (Free True m2)))))"

subsection \<open>The table\<close>

lemma uintlog2_table: "k < 64 \<Longrightarrow> pow2table ! (2 ^ k mod 67) = k"
proof -
  have "map (\<lambda>k. pow2table ! (2 ^ k mod 67)) [0..<64] = [0..<64]"
    by (simp add: pow2table_def upt_rec)
  then have "\<forall>k \<in> set [0..<64]. pow2table ! (2 ^ k mod 67) = k" by (simp only: map_idI map_eq_conv [where g = id, simplified])
  then show "k < 64 \<Longrightarrow> ?thesis" by simp
qed

lemma uintlog2_push_bit: "k < 64 \<Longrightarrow> uintlog2 (push_bit k 1) = k"
proof -
  assume k: "k < 64"
  then have "(2 :: nat) ^ k < 2 ^ 64" by (intro power_strict_increasing) simp_all
  then have "unat (2 ^ k :: u64) = 2 ^ k" using unat_word_of_nat [of "2 ^ k", where ?'a = 64] by simp
  with k show ?thesis by (simp add: uintlog2_def push_bit_eq_mult uintlog2_table)
qed

subsection \<open>Numbers as rows of digits\<close>

text \<open>
  \<open>digits B ds\<close> is the number with the digits \<open>ds\<close> in base \<open>B\<close>, the lowest first. The folding
  steps of \<open>pop_count32\<close> read the same number in ever larger bases.
\<close>

fun digits :: "nat \<Rightarrow> nat list \<Rightarrow> nat" where
  "digits B [] = 0"
| "digits B (d # ds) = d + B * digits B ds"

fun evens :: "'a list \<Rightarrow> 'a list" where
  "evens (a # b # xs) = a # evens xs"
| "evens xs = []"

fun odds :: "'a list \<Rightarrow> 'a list" where
  "odds (a # b # xs) = b # odds xs"
| "odds xs = []"

fun pair_sums :: "nat list \<Rightarrow> nat list" where
  "pair_sums (a # b # xs) = (a + b) # pair_sums xs"
| "pair_sums xs = []"

lemma and_low: "a < 2 ^ k \<Longrightarrow> m < 2 ^ k \<Longrightarrow> (a + 2 ^ k * b) AND (m + 2 ^ k * c) = (a AND m) + 2 ^ k * (b AND c)"
  for a b m c :: nat
proof -
  assume a: "a < 2 ^ k" "m < 2 ^ k"
  have "take_bit k ((a + 2 ^ k * b) AND (m + 2 ^ k * c)) = a AND m"
    using a by (simp only: take_bit_and) (simp add: take_bit_eq_mod)
  moreover have "drop_bit k ((a + 2 ^ k * b) AND (m + 2 ^ k * c)) = b AND c"
    using a by (simp only: drop_bit_and) (simp add: drop_bit_eq_div)
  ultimately show ?thesis by (metis bits_ident add.commute push_bit_eq_mult mult.commute)
qed


lemma shift_digits: "d < 2 ^ k \<Longrightarrow> drop_bit k (digits (2 ^ k) (d # ds)) = digits (2 ^ k) ds"
  by (simp add: drop_bit_eq_div)

lemma mask_digits:
  "\<forall>d \<in> set ds. d < 2 ^ k \<Longrightarrow> even (length ds) \<Longrightarrow>
   digits (2 ^ k) ds AND digits (2 ^ k) (concat (replicate (length ds div 2) [2 ^ k - 1, 0])) =
   digits (2 ^ k * 2 ^ k) (evens ds)"
proof (induction ds rule: evens.induct)
  case (1 a b xs)
  let ?B = "2 ^ k :: nat" and ?M = "digits (2 ^ k) (concat (replicate (length xs div 2) [2 ^ k - 1, 0]))"
  have "(b + ?B * digits ?B xs) AND (0 + ?B * ?M) = ?B * (digits ?B xs AND ?M)"
    using and_low [of b k 0 "digits ?B xs" ?M] 1 by simp
  moreover have "a AND mask k = a" using 1 by (simp add: take_bit_nat_eq_self flip: take_bit_eq_mask)
  then have "a AND (?B - 1) = a" by (simp only: mask_eq_exp_minus_1)
  ultimately show ?case
    using and_low [of a k "?B - 1" "b + ?B * digits ?B xs" "0 + ?B * ?M"] 1 by simp
qed auto

lemma digits_pairs: "even (length ds) \<Longrightarrow> digits B ds = digits (B * B) (evens ds) + B * digits (B * B) (odds ds)"
  by (induction ds rule: evens.induct) (auto simp: algebra_simps)

lemma digits_sums:
  "even (length ds) \<Longrightarrow> digits B (evens ds) + digits B (odds ds) = digits B (pair_sums ds)"
  by (induction ds rule: evens.induct) (auto simp flip: distrib_left)

lemma evens_tl: "even (length ds) \<Longrightarrow> evens (tl ds @ [0]) = odds ds"
proof (induction ds rule: evens.induct)
  case (1 a b xs)
  then show ?case by (cases xs rule: evens.cases) auto
qed auto

lemma sum_pair_sums: "even (length ds) \<Longrightarrow> sum_list (pair_sums ds) = sum_list ds"
  by (induction ds rule: evens.induct) auto

lemma digits_bound: "\<forall>d \<in> set ds. d < B \<Longrightarrow> digits B ds < B ^ length ds"
proof (induction ds)
  case (Cons d ds)
  then have "digits B ds + 1 \<le> B ^ length ds" "d < B" by simp_all
  then have "d + B * digits B ds < B * (digits B ds + 1)" by (simp add: algebra_simps)
  also have "\<dots> \<le> B * B ^ length ds" using \<open>digits B ds + 1 \<le> _\<close> by (rule mult_le_mono2)
  finally show ?case by simp
qed simp

subsection \<open>The population count\<close>

lemma digits_bits: "digits 2 (map (\<lambda>i. of_bool (bit x i)) [0..<k]) = take_bit k x" for x :: nat
proof (induction k arbitrary: x)
  case (Suc k)
  have "map (\<lambda>i. of_bool (bit x i) :: nat) [0..<Suc k] = (x mod 2) # map (\<lambda>i. of_bool (bit (x div 2) i)) [0..<k]"
    by (simp only: upt_conv_Cons [OF zero_less_Suc] list.map map_Suc_upt [symmetric] map_map)
      (auto simp: bit_Suc bit_0 mod_2_eq_odd)
  with Suc.IH [of "x div 2"] show ?case by (simp add: take_bit_Suc)
qed simp

definition bits_of :: "u32 \<Rightarrow> nat list" where
  "bits_of n = map (\<lambda>i. of_bool (bit n i)) [0..<32]"

lemma bits_of: "unat n = digits 2 (bits_of n)" "length (bits_of n) = 32" "\<forall>d \<in> set (bits_of n). d \<le> 1"
proof -
  have "digits 2 (map (\<lambda>i. of_bool (bit (unat n) i)) [0..<32]) = unat n"
    using unsigned_less [of n, where ?'a = nat] by (simp only: digits_bits) (simp add: take_bit_nat_eq_self)
  then show "unat n = digits 2 (bits_of n)" by (simp add: bits_of_def bit_unsigned_iff)
qed (auto simp: bits_of_def)

lemma sum_bits_of: "sum_list (bits_of n) = card {i. bit n i}"
proof -
  have "{i. bit n i} = {i. i < 32 \<and> bit n i}" using bit_imp_le_length [of n] by auto
  moreover have "sum_list (map (\<lambda>i. of_bool (P i) :: nat) [0..<k]) = card {i. i < k \<and> P i}" for P k
  proof -
    have "sum_list (map (\<lambda>i. of_bool (P i) :: nat) [0..<k]) = (\<Sum>i \<in> {0..<k}. of_bool (P i))"
      by (simp add: interv_sum_list_conv_sum_set_nat)
    also have "\<dots> = card {i. i < k \<and> P i}"
      by (simp add: of_bool_def sum.If_cases) (rule arg_cong [of _ _ card], auto)
    finally show ?thesis .
  qed
  ultimately show ?thesis by (simp add: bits_of_def)
qed

lemma pair_sums_le: "\<forall>d \<in> set ds. d \<le> c \<Longrightarrow> \<forall>d \<in> set (pair_sums ds). d \<le> 2 * c"
  by (induction ds rule: pair_sums.induct) auto

lemma length_pairs [simp]: "length (pair_sums ds) = length ds div 2" "length (evens ds) = length ds div 2"
  by (induction ds rule: pair_sums.induct) auto

lemma digits_tl: "ds \<noteq> [] \<Longrightarrow> \<forall>d \<in> set ds. d < 2 ^ k \<Longrightarrow> drop_bit k (digits (2 ^ k) ds) = digits (2 ^ k) (tl ds @ [0])"
proof -
  have "digits B (xs @ [0]) = digits B xs" for B xs by (induction xs) auto
  then show "ds \<noteq> [] \<Longrightarrow> \<forall>d \<in> set ds. d < 2 ^ k \<Longrightarrow> ?thesis"
    using shift_digits [of "hd ds" k "tl ds"] by (cases ds) auto
qed

text \<open>The masked halves of a number are its even and its odd digits.\<close>

lemma masked_halves:
  assumes "\<forall>d \<in> set ds. d < 2 ^ k" "even (length ds)" "ds \<noteq> []"
    and "M = digits (2 ^ k) (concat (replicate (length ds div 2) [2 ^ k - 1, 0]))"
  shows "digits (2 ^ k) ds AND M = digits (2 ^ k * 2 ^ k) (evens ds)"
    and "drop_bit k (digits (2 ^ k) ds) AND M = digits (2 ^ k * 2 ^ k) (odds ds)"
proof -
  show "digits (2 ^ k) ds AND M = digits (2 ^ k * 2 ^ k) (evens ds)"
    unfolding assms(4) by (rule mask_digits [OF assms(1,2)])
  have l: "length (tl ds @ [0 :: nat]) = length ds" using assms(3) by simp
  have "\<forall>d \<in> set (tl ds @ [0]). d < 2 ^ k" using assms(1,3) by (auto dest: list.set_sel(2))
  from mask_digits [OF this] show "drop_bit k (digits (2 ^ k) ds) AND M = digits (2 ^ k * 2 ^ k) (odds ds)"
    unfolding assms(4) digits_tl [OF assms(3,1)] using assms(2) by (simp only: l evens_tl)
qed

lemma unat_add_small: "unat a + unat b < 2 ^ 32 \<Longrightarrow> unat (a + b) = unat a + unat b" for a b :: u32
  by (simp add: unat_word_ariths)

lemma unat_bit_ops: "unat (a AND b) = unat a AND unat b" "unat (drop_bit k a) = drop_bit k (unat a)" for a b :: u32
  by (simp_all add: unsigned_and_eq unsigned_drop_bit_eq take_bit_nat_eq_self unsigned_less [where ?'a = nat, of a, simplified])

lemma pop_masks:
  "(0x55555555 :: nat) = digits (2 ^ 1) (concat (replicate 16 [2 ^ 1 - 1, 0]))"
  "(0x33333333 :: nat) = digits (2 ^ 2) (concat (replicate 8 [2 ^ 2 - 1, 0]))"
  "(0x0f0f0f0f :: nat) = digits (2 ^ 4) (concat (replicate 4 [2 ^ 4 - 1, 0]))"
proof -
  have r: "concat (replicate 4 [x, y]) = [x, y, x, y, x, y, x, y]" for x y :: nat by (simp add: eval_nat_numeral)
  have r8: "concat (replicate (4 + 4) xs) = concat (replicate 4 xs) @ concat (replicate 4 xs)" for xs :: "nat list"
    by (simp only: replicate_add concat_append)
  have r16: "concat (replicate (8 + 8) xs) = concat (replicate 8 xs) @ concat (replicate 8 xs)" for xs :: "nat list"
    by (simp only: replicate_add concat_append)
  show "(0x55555555 :: nat) = digits (2 ^ 1) (concat (replicate 16 [2 ^ 1 - 1, 0]))"
    using r16 [of "[2 ^ 1 - 1, 0]"] r8 [of "[2 ^ 1 - 1, 0]"] r [of "2 ^ 1 - 1" 0] by simp
  show "(0x33333333 :: nat) = digits (2 ^ 2) (concat (replicate 8 [2 ^ 2 - 1, 0]))"
    using r8 [of "[2 ^ 2 - 1, 0]"] r [of "2 ^ 2 - 1" 0] by simp
  show "(0x0f0f0f0f :: nat) = digits (2 ^ 4) (concat (replicate 4 [2 ^ 4 - 1, 0]))"
    using r [of "2 ^ 4 - 1" 0] by simp
qed

text \<open>One folding step for each of the first three lines.\<close>

lemma pop_step1:
  fixes n :: u32
  assumes "unat n = digits 2 ds" "length ds = 32" "\<forall>d \<in> set ds. d \<le> 1"
  shows "unat (n - (drop_bit 1 n AND 0x55555555)) = digits 4 (pair_sums ds)"
proof -
  have d: "\<forall>d \<in> set ds. d < 2 ^ 1" "even (length ds)" "ds \<noteq> []" "length ds div 2 = 16" using assms by auto
  have h: "unat (drop_bit 1 n AND 0x55555555) = digits 4 (odds ds)"
    using masked_halves(2) [OF d(1-3), unfolded d(4), OF pop_masks(1)] by (simp add: unat_bit_ops assms(1))
  have e: "unat n = digits 4 (evens ds) + 2 * digits 4 (odds ds)"
    using digits_pairs [of ds 2] d(2) assms(1) by simp
  then have "(drop_bit 1 n AND 0x55555555) \<le> n" unfolding word_le_nat_alt h by simp
  then show ?thesis using digits_sums [OF d(2), of 4] by (simp only: unat_sub h e)
qed

lemma pop_step2:
  fixes n :: u32
  assumes "unat n = digits 4 ds" "length ds = 16" "\<forall>d \<in> set ds. d \<le> 2"
  shows "unat ((n AND 0x33333333) + (drop_bit 2 n AND 0x33333333)) = digits 16 (pair_sums ds)"
proof -
  have d: "\<forall>d \<in> set ds. d < 2 ^ 2" "even (length ds)" "ds \<noteq> []" "length ds div 2 = 8" using assms by auto
  have h: "unat (n AND 0x33333333) = digits 16 (evens ds)" "unat (drop_bit 2 n AND 0x33333333) = digits 16 (odds ds)"
    using masked_halves [OF d(1-3), unfolded d(4), OF pop_masks(2)] by (simp_all add: unat_bit_ops assms(1))
  have "digits 16 (pair_sums ds) < 16 ^ length (pair_sums ds)"
    using pair_sums_le [OF assms(3)] by (intro digits_bound) auto
  then have "digits 16 (evens ds) + digits 16 (odds ds) < 2 ^ 32"
    using digits_sums [OF d(2), of 16] assms(2) by simp
  then show ?thesis using digits_sums [OF d(2), of 16] by (subst unat_add_small) (simp_all add: h)
qed

lemma pop_step3:
  fixes n :: u32
  assumes "unat n = digits 16 ds" "length ds = 8" "\<forall>d \<in> set ds. d \<le> 4"
  shows "unat ((n + drop_bit 4 n) AND 0x0f0f0f0f) = digits 256 (pair_sums ds)"
proof -
  define es where "es = map2 (+) ds (tl ds @ [0])"
  have d: "\<forall>d \<in> set ds. d < 2 ^ 4" "ds \<noteq> []" "even (length ds)" using assms by auto
  have le: "\<forall>d \<in> set es. d \<le> 8"
  proof
    fix e assume "e \<in> set es"
    then obtain a b where e: "e = a + b" "(a, b) \<in> set (zip ds (tl ds @ [0]))"
      unfolding es_def by auto
    then have "a \<in> set ds" "b \<in> set (tl ds @ [0])"
      using set_zip_leftD set_zip_rightD by fast+
    then have "a \<le> 4" "b \<le> 4" using assms(3) d(2) by (auto dest: list.set_sel(2))
    with e(1) show "e \<le> 8" by simp
  qed
  have sum: "digits B xs + digits B ys = digits B (map2 (+) xs ys)" if "length xs = length ys" for B xs ys
    using that by (induction xs ys rule: list_induct2) (auto simp flip: distrib_left)
  have s: "unat n + unat (drop_bit 4 n) = digits 16 es"
    using digits_tl [OF d(2,1)] sum [of ds "tl ds @ [0]" 16] d(2) assms(1)
    by (simp add: unat_bit_ops es_def)
  have el: "length es = 8" using assms(2) d(2) by (simp add: es_def)
  have "digits 16 es < 16 ^ length es" using le by (intro digits_bound) auto
  then have u: "unat (n + drop_bit 4 n) = digits 16 es" using s el by (subst unat_add_small) simp_all
  have "evens es = pair_sums ds" using assms(2) unfolding es_def
    by (auto simp: length_Suc_conv numeral_eq_Suc)
  moreover have e: "\<forall>d \<in> set es. d < 2 ^ 4" "even (length es)" "es \<noteq> []" "length es div 2 = 4" using le el by auto
  ultimately show ?thesis
    using masked_halves(1) [OF e(1-3), unfolded e(4), OF pop_masks(3)] by (simp add: unat_bit_ops u)
qed

lemma pop_step4:
  fixes n :: u32
  assumes "unat n = digits 256 [a, b, c, d]" "a \<le> 8" "b \<le> 8" "c \<le> 8" "d \<le> 8"
  shows "unat ((let n = n + drop_bit 8 n; n = n + drop_bit 16 n in n AND 0x0000003f) :: u32) = a + b + c + d"
proof -
  have n: "unat n = a + 256 * b + 65536 * c + 16777216 * d" using assms(1) by simp
  have n8: "unat (drop_bit 8 n) = b + 256 * c + 65536 * d"
    unfolding unat_bit_ops(2) n unfolding drop_bit_eq_div using assms(2) by simp
  let ?m = "n + drop_bit 8 n"
  have m: "unat ?m = a + b + 256 * (b + c) + 65536 * (c + d) + 16777216 * d"
    by (subst unat_add_small) (use n n8 assms in simp_all)
  have m16: "unat (drop_bit 16 ?m) = c + d + 256 * d"
  proof -
    have "unat ?m = (a + b + 256 * (b + c)) + 65536 * (c + d + 256 * d)" using m by simp
    moreover have "a + b + 256 * (b + c) < 65536" using assms by simp
    ultimately show ?thesis unfolding unat_bit_ops(2) unfolding drop_bit_eq_div by simp
  qed
  define K where "K = 4 * (b + c + d) + 1024 * (c + d) + 262144 * d"
  have "unat (?m + drop_bit 16 ?m) = a + b + c + d + 64 * K"
    by (subst unat_add_small) (use m m16 assms in \<open>simp_all add: K_def\<close>)
  moreover have "unat (w AND 0x3f) = unat w mod 64" for w :: u32
    using take_bit_eq_mask [of 6 "unat w"] by (simp add: unat_bit_ops mask_eq_exp_minus_1 take_bit_eq_mod)
  ultimately show ?thesis using assms by (simp add: Let_def)
qed

lemma pop_count32_card: "unat (pop_count32 n) = card {i. bit n i}"
proof -
  let ?d1 = "pair_sums (bits_of n)"
  let ?d2 = "pair_sums ?d1"
  let ?d3 = "pair_sums ?d2"
  note b = bits_of [of n]
  have le: "\<forall>d \<in> set ?d1. d \<le> 2" "\<forall>d \<in> set ?d2. d \<le> 4" "\<forall>d \<in> set ?d3. d \<le> 8"
    using pair_sums_le [OF b(3)] pair_sums_le [of ?d1 2] pair_sums_le [of ?d2 4] by simp_all
  have "length ?d3 = Suc (Suc (Suc (Suc 0)))" using b(2) by simp
  then obtain p q r s where d3: "?d3 = [p, q, r, s]" unfolding length_Suc_conv length_0_conv by blast
  define n1 where "n1 = n - (drop_bit 1 n AND 0x55555555)"
  define n2 where "n2 = (n1 AND 0x33333333) + (drop_bit 2 n1 AND 0x33333333)"
  define n3 where "n3 = (n2 + drop_bit 4 n2) AND 0x0f0f0f0f"
  have "unat n1 = digits 4 ?d1" unfolding n1_def by (rule pop_step1 [OF b])
  then have "unat n2 = digits 16 ?d2" unfolding n2_def by (rule pop_step2) (use b(2) le(1) in simp_all)
  then have "unat n3 = digits 256 ?d3" unfolding n3_def by (rule pop_step3) (use b(2) le(2) in simp_all)
  then have "unat (pop_count32 n) = p + q + r + s"
    using pop_step4 [of n3 p q r s] le(3) by (simp add: pop_count32_def n1_def n2_def n3_def d3 Let_def)
  also have "\<dots> = sum_list ?d3" by (simp add: d3)
  also have "\<dots> = sum_list (bits_of n)" using b(2) by (simp add: sum_pair_sums)
  finally show ?thesis by (simp add: sum_bits_of)
qed

subsection \<open>Leading zeros and the square root\<close>

definition smear :: "u32 \<Rightarrow> u32" where
  "smear n =
     (let n = n OR drop_bit 1 n; n = n OR drop_bit 2 n; n = n OR drop_bit 4 n; n = n OR drop_bit 8 n in
      n OR drop_bit 16 n)"

lemma nlz32_smear: "nlz32 n = pop_count32 (NOT (smear n))"
  by (simp only: nlz32_def smear_def Let_def)

lemma bit_smear: "bit (smear n) i \<longleftrightarrow> (\<exists>j < 32. bit n (i + j))" for n :: u32
proof -
  have "(\<exists>j < 2 * k. bit n (i + j)) \<longleftrightarrow> (\<exists>j < k. bit n (i + j)) \<or> (\<exists>j < k. bit n (k + i + j))" for k i
  proof
    assume "\<exists>j < 2 * k. bit n (i + j)"
    then obtain j where j: "j < 2 * k" "bit n (i + j)" by blast
    show "(\<exists>j < k. bit n (i + j)) \<or> (\<exists>j < k. bit n (k + i + j))"
    proof (cases "j < k")
      case False
      with j have "j - k < k" "bit n (k + i + (j - k))" by (auto simp: add.commute)
      then show ?thesis by blast
    qed (use j in blast)
  next
    assume "(\<exists>j < k. bit n (i + j)) \<or> (\<exists>j < k. bit n (k + i + j))"
    then show "\<exists>j < 2 * k. bit n (i + j)"
    proof
      assume "\<exists>j < k. bit n (k + i + j)"
      then obtain j where "j < k" "bit n (k + i + j)" by blast
      then show ?thesis by (intro exI [of _ "k + j"]) (simp add: ac_simps)
    next
      assume "\<exists>j < k. bit n (i + j)"
      then obtain j where "j < k" "bit n (i + j)" by blast
      then show ?thesis by (intro exI [of _ j]) simp
    qed
  qed
  note dbl = this
  have e: "bit n i \<longleftrightarrow> (\<exists>j < 1. bit n (i + j))" for i by simp
  define n1 where "n1 = n OR drop_bit 1 n"
  define n2 where "n2 = n1 OR drop_bit 2 n1"
  define n3 where "n3 = n2 OR drop_bit 4 n2"
  define n4 where "n4 = n3 OR drop_bit 8 n3"
  have b1: "bit n1 i \<longleftrightarrow> (\<exists>j < 2. bit n (i + j))" for i
    using dbl [of 1 i] by (simp add: n1_def bit_or_iff bit_drop_bit_eq)
  have b2: "bit n2 i \<longleftrightarrow> (\<exists>j < 4. bit n (i + j))" for i
    using dbl [of 2 i] by (simp add: n2_def bit_or_iff bit_drop_bit_eq b1)
  have b3: "bit n3 i \<longleftrightarrow> (\<exists>j < 8. bit n (i + j))" for i
    using dbl [of 4 i] by (simp add: n3_def bit_or_iff bit_drop_bit_eq b2)
  have b4: "bit n4 i \<longleftrightarrow> (\<exists>j < 16. bit n (i + j))" for i
    using dbl [of 8 i] by (simp add: n4_def bit_or_iff bit_drop_bit_eq b3)
  have "bit (n4 OR drop_bit 16 n4) i \<longleftrightarrow> (\<exists>j < 32. bit n (i + j))"
    using dbl [of 16 i] by (simp add: bit_or_iff bit_drop_bit_eq b4)
  then show ?thesis by (simp only: smear_def Let_def n1_def n2_def n3_def n4_def)
qed

lemma bit_above: "x < 2 ^ k \<Longrightarrow> k \<le> j \<Longrightarrow> \<not> bit x j" for x :: nat
proof -
  assume "x < 2 ^ k" "k \<le> j"
  then have "x < 2 ^ j" by (meson less_le_trans one_le_numeral power_increasing)
  then show "\<not> bit x j" by (simp add: bit_iff_odd)
qed

lemma bit_top: "2 ^ k \<le> x \<Longrightarrow> x < 2 ^ Suc k \<Longrightarrow> bit x k" for x :: nat
proof -
  assume "2 ^ k \<le> x" "x < 2 ^ Suc k"
  then have "x div 2 ^ k = 1" by (intro div_nat_eqI) simp_all
  then show "bit x k" by (simp add: bit_iff_odd)
qed

lemma nlz32_spec:
  obtains L where "L \<le> 32" "unat (nlz32 n) = 32 - L" "unat n < 2 ^ L" "0 < L \<longrightarrow> 2 ^ (L - 1) \<le> unat n"
proof -
  define L where "L = (LEAST l. unat n < 2 ^ l)"
  have n32: "unat n < 2 ^ 32" using unsigned_less [of n, where ?'a = nat] by simp
  have L: "unat n < 2 ^ L" "L \<le> 32" unfolding L_def using n32 by (rule LeastI, rule Least_le)
  have low: "2 ^ (L - 1) \<le> unat n" if "0 < L"
  proof (rule ccontr)
    assume "\<not> ?thesis"
    then have "L \<le> L - 1" unfolding L_def by (intro Least_le) simp
    with that show False by simp
  qed
  have ex: "(\<exists>j < 32. bit n (i + j)) \<longleftrightarrow> i < L" for i
  proof
    assume "\<exists>j < 32. bit n (i + j)"
    then obtain j where "bit n (i + j)" by blast
    then have "bit (unat n) (i + j)" by (simp add: bit_unsigned_iff)
    then show "i < L" using bit_above [OF L(1), of "i + j"] by (meson le_add1 le_trans not_le)
  next
    assume i: "i < L"
    then have "bit (unat n) (L - 1)" using L(1) low by (intro bit_top) simp_all
    then have "bit n (i + (L - 1 - i))" using i by (simp add: bit_unsigned_iff)
    moreover have "L - 1 - i < 32" using L(2) i by simp
    ultimately show "\<exists>j < 32. bit n (i + j)" by blast
  qed
  have "bit (NOT (smear n)) i \<longleftrightarrow> i < 32 \<and> L \<le> i" for i
  proof -
    have "bit (NOT (smear n)) i \<longleftrightarrow> possible_bit TYPE(u32) i \<and> \<not> i < L" by (simp only: bit_not_iff bit_smear ex)
    then show ?thesis by (simp add: possible_bit_word not_less)
  qed
  then have "{i. bit (NOT (smear n)) i} = {i. i < 32 \<and> L \<le> i}" by (simp only:)
  moreover have "{i. i < 32 \<and> L \<le> i} = {L..<32}" by auto
  ultimately have "{i. bit (NOT (smear n)) i} = {L..<32}" by (simp only:)
  then have "unat (nlz32 n) = 32 - L" unfolding nlz32_smear pop_count32_card by simp
  with L low that show thesis by blast
qed

lemma sqrtu32_spec:
  obtains h where "unat (sqrtu32 n) = unat n div 2 ^ h" "unat n < 2 ^ (2 * h + 1)"
    "n \<noteq> 0 \<longrightarrow> 2 ^ (2 * h) \<le> 2 * unat n" "n = 0 \<longrightarrow> h = 0" "2 \<le> unat n \<longrightarrow> 0 < h"
    "n \<noteq> 0 \<longrightarrow> 0 < unat (sqrtu32 n)"
proof -
  obtain L where L: "L \<le> 32" "unat (nlz32 n) = 32 - L" "unat n < 2 ^ L" "0 < L \<longrightarrow> 2 ^ (L - 1) \<le> unat n"
    by (rule nlz32_spec)
  have "unat (32 - nlz32 n) = L" using L(1,2) by (subst unat_sub) (simp_all add: word_le_nat_alt)
  then have k: "unat ((32 - nlz32 n) div 2) = L div 2" by (simp add: unat_div)
  have s: "unat (sqrtu32 n) = unat n div 2 ^ (L div 2)"
    unfolding sqrtu32_def k unat_bit_ops(2) unfolding drop_bit_eq_div ..
  have "unat n < 2 ^ (2 * (L div 2) + 1)"
    using L(3) by (rule less_le_trans) (intro power_increasing, simp_all)
  moreover have "2 ^ (2 * (L div 2)) \<le> 2 * unat n" if "n \<noteq> 0"
  proof -
    have "0 < L" using L(3) that by (cases L) (auto simp: unsigned_eq_0_iff)
    then have "2 * 2 ^ (L - 1) \<le> 2 * unat n" using L(4) by simp
    moreover have "2 * 2 ^ (L - 1) = (2 :: nat) ^ L" using \<open>0 < L\<close> by (metis Suc_diff_1 power_Suc)
    moreover have "(2 :: nat) ^ (2 * (L div 2)) \<le> 2 ^ L" by (rule power_increasing) simp_all
    ultimately show ?thesis by linarith
  qed
  moreover have "L div 2 = 0" if "n = 0"
    using L(4) that by (cases L) auto
  moreover have "0 < L div 2" if "2 \<le> unat n"
  proof -
    have "2 \<le> L"
    proof (rule ccontr)
      assume "\<not> 2 \<le> L"
      then have "(2 :: nat) ^ L \<le> 2 ^ 1" by (intro power_increasing) simp_all
      with L(3) that show False by simp
    qed
    then show ?thesis by simp
  qed
  moreover have "0 < unat (sqrtu32 n)" if "n \<noteq> 0"
  proof -
    have "0 < L" using L(3) that by (cases L) (auto simp: unsigned_eq_0_iff)
    then have "2 ^ (L div 2) \<le> (2 :: nat) ^ (L - 1)" by (intro power_increasing) simp_all
    then have "2 ^ (L div 2) \<le> unat n" using L(4) \<open>0 < L\<close> by linarith
    then show ?thesis by (simp add: s div_greater_zero_iff)
  qed
  ultimately show thesis using that s by blast
qed

lemma sqrtu32_bounds:
  defines "r n \<equiv> unat (sqrtu32 n)"
  shows "r n \<le> unat n" "r n * r n \<le> 2 * unat n" "unat n < 2 * (r n + 1) * (r n + 1)"
    "n \<noteq> 0 \<Longrightarrow> 0 < r n" "2 \<le> unat n \<Longrightarrow> r n < unat n"
proof -
  obtain h where h: "r n = unat n div 2 ^ h" "unat n < 2 ^ (2 * h + 1)" "n \<noteq> 0 \<longrightarrow> 2 ^ (2 * h) \<le> 2 * unat n"
    "n = 0 \<longrightarrow> h = 0" "2 \<le> unat n \<longrightarrow> 0 < h" "n \<noteq> 0 \<longrightarrow> 0 < r n"
    unfolding r_def by (rule sqrtu32_spec)
  let ?B = "2 ^ h :: nat"
  have lo: "r n * ?B \<le> unat n" unfolding h(1) by simp
  have hi: "unat n < (r n + 1) * ?B"
    unfolding h(1) by (simp add: dividend_less_times_div algebra_simps)
  show "r n \<le> unat n" unfolding h(1) by simp
  show "n \<noteq> 0 \<Longrightarrow> 0 < r n" using h(6) by blast
  have "r n < 2 * ?B"
  proof -
    have "unat n < 2 * ?B * ?B" using h(2) by (simp add: power_add mult_2 distrib_right)
    then have "r n * ?B < 2 * ?B * ?B" using lo by linarith
    then show ?thesis by simp
  qed
  then have "r n * r n \<le> r n * (2 * ?B)" by (intro mult_le_mono) simp_all
  also have "\<dots> = 2 * (r n * ?B)" by simp
  finally show "r n * r n \<le> 2 * unat n" using lo by linarith
  show "unat n < 2 * (r n + 1) * (r n + 1)"
  proof (cases "n = 0")
    case False
    then have n: "0 < unat n" "?B * ?B \<le> 2 * unat n"
      using h(3) by (auto simp: unsigned_eq_0_iff power_add mult_2 intro: gr0I)
    have "unat n * unat n < ((r n + 1) * ?B) * ((r n + 1) * ?B)" using hi by (intro mult_strict_mono) simp_all
    also have "\<dots> = ((r n + 1) * (r n + 1)) * (?B * ?B)" by (simp only: ac_simps)
    also have "\<dots> \<le> ((r n + 1) * (r n + 1)) * (2 * unat n)" using n(2) by (rule mult_le_mono2)
    finally have "unat n * unat n < (2 * (r n + 1) * (r n + 1)) * unat n" by (simp only: ac_simps)
    then show ?thesis by (metis mult_less_cancel2)
  qed simp
  show "r n < unat n" if "2 \<le> unat n"
    unfolding h(1) using that h(5) one_less_power [of "2 :: nat" h] by (intro div_less_dividend) auto
qed

subsection \<open>The coprime\<close>

lemma strip_factor_spec:
  assumes "strip_factor n cur f = (n', f')" "cur dvd n" "0 < n" "1 < cur"
  shows "0 < n' \<and> f' \<noteq> 0 \<and> (n' = 1 \<or> \<not> cur dvd n') \<and> (\<exists>e. n = n' * cur ^ e)"
  using assms
proof (induction n cur f arbitrary: n' f' rule: strip_factor.induct)
  case (1 n cur f)
  have c: "n = n div cur * cur" "0 < n div cur" using "1.prems" by (auto simp: dvd_div_eq_0_iff)
  show ?case
  proof (cases "n div cur > 1 \<and> n div cur mod cur = 0 \<and> cur \<noteq> 1")
    case True
    with "1.prems" have "strip_factor (n div cur) cur (f + 1) = (n', f')"
      by (subst (asm) strip_factor.simps) (simp add: Let_def)
    from "1.IH" [OF refl refl True this] True "1.prems" c(2) obtain e
      where "0 < n'" "f' \<noteq> 0" "n' = 1 \<or> \<not> cur dvd n'" "n div cur = n' * cur ^ e" by auto
    with c(1) show ?thesis by (metis mult.assoc power_Suc2)
  next
    case False
    with "1.prems" have "n' = n div cur" "f' = f + 1"
      by (subst (asm) strip_factor.simps, auto simp: Let_def split: if_splits)+
    moreover have "\<exists>e. n = n div cur * cur ^ e" using c(1) by (intro exI [of _ 1]) simp
    moreover have "n div cur = 1 \<or> \<not> cur dvd n div cur" using False c(2) "1.prems" by (auto simp: dvd_eq_mod_eq_0)
    ultimately show ?thesis using c(2) by simp
  qed
qed

text \<open>
  What the sieve knows when it is about to look at \<open>cur\<close>: the primes below, which of them
  divide the modulus, and what is left of the modulus, which has only larger divisors. The
  index of the next prime is within the vectors.
\<close>

definition tracked :: "nat list \<Rightarrow> nat list \<Rightarrow> nat set" where
  "tracked primes factor = (!) primes ` {k. k < length primes \<and> factor ! k \<noteq> 0}"

definition sieve_inv :: "nat \<Rightarrow> nat \<Rightarrow> nat \<Rightarrow> nat \<Rightarrow> nat list \<Rightarrow> nat list \<Rightarrow> bool" where
  "sieve_inv modulus sqr cur n primes factor \<longleftrightarrow>
     0 < n \<and> n dvd modulus \<and> length factor = sqr \<and> length primes + 2 \<le> cur \<and> cur \<le> sqr + 1 \<and>
     (\<forall>q. 1 < q \<and> q < cur \<longrightarrow> (\<exists>p \<in> set primes. p dvd q)) \<and>
     (\<forall>p \<in> set primes. 1 < p \<and> (\<forall>d. d dvd p \<longrightarrow> d = 1 \<or> d = p) \<and> (n = 1 \<or> \<not> p dvd n)) \<and>
     (\<forall>c. coprime c n \<and> (\<forall>p \<in> tracked primes factor. coprime c p) \<longrightarrow> coprime c modulus) \<and>
     (\<forall>p \<in> tracked primes factor. p dvd modulus) \<and>
     (\<forall>k. length primes \<le> k \<and> k < sqr \<longrightarrow> factor ! k = 0)"

lemma tracked_append:
  "length primes < length factor \<Longrightarrow>
   tracked (primes @ [p]) (factor[length primes := f]) = tracked primes factor \<union> (if f \<noteq> 0 then {p} else {})"
  "length primes < length factor \<Longrightarrow> factor ! length primes = 0 \<Longrightarrow>
   tracked (primes @ [p]) factor = tracked primes factor"
proof -
  have keep: "(!) (primes @ [p]) ` {k. k < length primes \<and> P k} = (!) primes ` {k. k < length primes \<and> P k}" for P
    by (rule image_cong) (auto simp: nth_append)
  assume l: "length primes < length factor"
  have "{k. k < length (primes @ [p]) \<and> factor[length primes := f] ! k \<noteq> 0} =
      {k. k < length primes \<and> factor ! k \<noteq> 0} \<union> (if f \<noteq> 0 then {length primes} else {})"
    using l by (auto simp: nth_list_update less_Suc_eq)
  then show "tracked (primes @ [p]) (factor[length primes := f]) = tracked primes factor \<union> (if f \<noteq> 0 then {p} else {})"
    unfolding tracked_def by (simp add: image_Un keep)
  assume "factor ! length primes = 0"
  then have "{k. k < length (primes @ [p]) \<and> factor ! k \<noteq> 0} = {k. k < length primes \<and> factor ! k \<noteq> 0}"
    by (auto simp: less_Suc_eq)
  then show "tracked (primes @ [p]) factor = tracked primes factor"
    unfolding tracked_def by (simp add: keep)
qed

lemma sieve_inv_step:
  assumes i: "sieve_inv modulus sqr cur n primes factor" and c: "cur \<le> sqr" "1 < n"
  shows "list_ex (\<lambda>p. cur mod p = 0) primes \<Longrightarrow> sieve_inv modulus sqr (cur + 1) n primes factor"
    and "\<not> list_ex (\<lambda>p. cur mod p = 0) primes \<Longrightarrow> n mod cur \<noteq> 0 \<Longrightarrow>
      sieve_inv modulus sqr (cur + 1) n (primes @ [cur]) factor"
    and "\<not> list_ex (\<lambda>p. cur mod p = 0) primes \<Longrightarrow> n mod cur = 0 \<Longrightarrow>
      strip_factor n cur (factor ! length primes) = (n', f) \<Longrightarrow>
      sieve_inv modulus sqr (cur + 1) n' (primes @ [cur]) (factor[length primes := f])"
proof -
  note i = i [unfolded sieve_inv_def]
  have len: "length primes < sqr" "length factor = sqr" "1 < cur" using i c by auto
  show "sieve_inv modulus sqr (cur + 1) n primes factor" if l: "list_ex (\<lambda>p. cur mod p = 0) primes"
  proof -
    have "\<exists>p \<in> set primes. p dvd cur" using l by (auto simp: list_ex_iff dvd_eq_mod_eq_0)
    then have "\<forall>q. 1 < q \<and> q < cur + 1 \<longrightarrow> (\<exists>p \<in> set primes. p dvd q)" using i by (metis less_Suc_eq Suc_eq_plus1)
    with i c show ?thesis by (simp add: sieve_inv_def)
  qed
  assume l: "\<not> list_ex (\<lambda>p. cur mod p = 0) primes"
  have pr: "\<forall>d. d dvd cur \<longrightarrow> d = 1 \<or> d = cur"
  proof (intro allI impI)
    fix d assume d: "d dvd cur"
    then have "0 < d" "d \<le> cur" using len(3) dvd_pos_nat [of cur d] dvd_imp_le [of d cur] by simp_all
    moreover have False if "1 < d" "d < cur"
    proof -
      from that i obtain p where "p \<in> set primes" "p dvd d" by blast
      with d have "cur mod p = 0" by (metis dvd_trans dvd_imp_mod_0)
      with \<open>p \<in> set primes\<close> l show False by (auto simp: list_ex_iff)
    qed
    ultimately show "d = 1 \<or> d = cur" by fastforce
  qed
  have low: "\<forall>q. 1 < q \<and> q < cur + 1 \<longrightarrow> (\<exists>p \<in> set (primes @ [cur]). p dvd q)"
    using i by (auto simp: less_Suc_eq)
  show "sieve_inv modulus sqr (cur + 1) n (primes @ [cur]) factor" if nm: "n mod cur \<noteq> 0"
  proof -
    have "\<not> cur dvd n" using nm by (simp add: dvd_eq_mod_eq_0)
    moreover have "tracked (primes @ [cur]) factor = tracked primes factor"
      using i len by (intro tracked_append(2)) auto
    ultimately show ?thesis using i c len pr low by (simp add: sieve_inv_def)
  qed
  show "sieve_inv modulus sqr (cur + 1) n' (primes @ [cur]) (factor[length primes := f])"
    if nm: "n mod cur = 0" and st: "strip_factor n cur (factor ! length primes) = (n', f)"
  proof -
    have "cur dvd n" using nm by (simp add: dvd_eq_mod_eq_0)
    from strip_factor_spec [OF st this] i len obtain e
      where s: "0 < n'" "f \<noteq> 0" "n' = 1 \<or> \<not> cur dvd n'" "n = n' * cur ^ e" by auto
    have t: "tracked (primes @ [cur]) (factor[length primes := f]) = insert cur (tracked primes factor)"
      using tracked_append(1) [of primes factor cur f] len s(2) by simp
    have dv: "n' dvd n" "n' dvd modulus" "cur dvd modulus"
      using s(4) i \<open>cur dvd n\<close> by (auto intro: dvd_trans)
    have old: "\<forall>p \<in> set primes. n' = 1 \<or> \<not> p dvd n'" using i dv(1) c(2) by (metis dvd_trans less_irrefl)
    have cop: "\<forall>c. coprime c n' \<and> coprime c cur \<longrightarrow> coprime c n" unfolding s(4) by simp
    show ?thesis unfolding sieve_inv_def t
      using i c len pr low s dv old cop by (auto simp: nth_list_update)
  qed
qed

lemma sieve_final:
  assumes "sieve_inv modulus sqr cur n primes factor" "sieve cur sqr n primes factor = (n', ps, fs)"
  shows "\<exists>cur'. sieve_inv modulus sqr cur' n' ps fs \<and> (n' = 1 \<or> cur' = sqr + 1)"
  using assms
proof (induction cur sqr n primes factor rule: sieve.induct)
  case (1 cur sqr n primes factor)
  note inv = "1.prems"(1) and run = "1.prems"(2)
  show ?case
  proof (cases "cur \<le> sqr \<and> n > 1")
    case True
    note step = sieve_inv_step [OF inv conjunct1 [OF True] conjunct2 [OF True]]
    consider "list_ex (\<lambda>p. cur mod p = 0) primes"
      | "\<not> list_ex (\<lambda>p. cur mod p = 0) primes" "n mod cur \<noteq> 0"
      | m f where "\<not> list_ex (\<lambda>p. cur mod p = 0) primes" "n mod cur = 0"
          "strip_factor n cur (factor ! length primes) = (m, f)"
      by (cases "strip_factor n cur (factor ! length primes)") blast
    then show ?thesis
    proof cases
      case 1
      with True run show ?thesis by (intro "1.IH"(1) step(1)) (simp_all add: sieve.simps [of cur])
    next
      case 2
      with True run show ?thesis by (intro "1.IH"(3) step(2)) (simp_all add: sieve.simps [of cur])
    next
      case 3
      have "sieve (cur + 1) sqr m (primes @ [cur]) (factor[length primes := f]) = (n', ps, fs)"
        using True run 3 by (simp add: sieve.simps [of cur])
      from "1.IH"(2) [OF True 3(1,2) 3(3) [symmetric] step(3) [OF 3] this] show ?thesis .
    qed
  next
    case False
    then have "n' = n" "ps = primes" "fs = factor" using run by (auto simp: sieve.simps [of cur])
    moreover have "n = 1 \<or> cur = sqr + 1" using inv False by (auto simp: sieve_inv_def)
    ultimately show ?thesis using inv by blast
  qed
qed

lemma search_up_spec:
  "(search_up ps fs cur modulus = 0 \<and> (\<forall>x. cur \<le> x \<and> x < modulus \<longrightarrow> \<not> no_factor ps fs x) \<or>
     cur \<le> search_up ps fs cur modulus \<and> search_up ps fs cur modulus < modulus \<and>
     no_factor ps fs (search_up ps fs cur modulus) \<and>
     (\<forall>x. cur \<le> x \<and> x < search_up ps fs cur modulus \<longrightarrow> \<not> no_factor ps fs x))"
proof (induction ps fs cur modulus rule: search_up.induct)
  case (1 ps fs cur modulus)
  let ?r = "search_up ps fs (cur + 1) modulus"
  consider "\<not> cur < modulus" | "cur < modulus" "no_factor ps fs cur" | "cur < modulus" "\<not> no_factor ps fs cur" by blast
  then show ?case
  proof cases
    case 3
    then have r: "search_up ps fs cur modulus = ?r" by (simp add: search_up.simps [of ps fs cur])
    have split: "cur \<le> x \<longleftrightarrow> x = cur \<or> cur + 1 \<le> x" for x by auto
    show ?thesis unfolding r using "1.IH" [OF 3] 3(2) unfolding split by (auto simp del: search_up.simps)
  qed (auto simp: search_up.simps [of ps fs cur])
qed

lemma no_factor_tracked:
  "length ps \<le> length fs \<Longrightarrow> no_factor ps fs c \<longleftrightarrow> (\<forall>p \<in> tracked ps fs. \<not> p dvd c)"
  by (auto simp: no_factor_def tracked_def list_all_length dvd_eq_mod_eq_0)

lemma coprime_prime: "\<forall>d. d dvd p \<longrightarrow> d = 1 \<or> d = p \<Longrightarrow> \<not> p dvd c \<Longrightarrow> coprime c p" for p c :: nat
  by (metis coprime_iff_gcd_eq_1 gcd_dvd1 gcd_dvd2)

lemma tracked_subset: "tracked ps fs \<subseteq> set ps"
  by (auto simp: tracked_def)

lemma search_coprime:
  assumes n: "2 \<le> n" "0 < sqr" "sqr < n" "n < 2 * (sqr + 1) * (sqr + 1)"
    and s: "sieve 2 sqr n [] (replicate sqr 0) = (n1, ps, fs)"
  defines "ps2 \<equiv> (if n1 > 1 then ps @ [n1] else ps)" and "fs2 \<equiv> (if n1 > 1 then fs[length ps := 1] else fs)"
  shows "coprime (search_up ps2 fs2 sqr n) n \<and> sqr \<le> search_up ps2 fs2 sqr n"
proof -
  have "sieve_inv n sqr 2 n [] (replicate sqr 0)"
    using n by (auto simp: sieve_inv_def tracked_def)
  from sieve_final [OF this s] obtain cur where i: "sieve_inv n sqr cur n1 ps fs" and e: "n1 = 1 \<or> cur = sqr + 1"
    by blast
  note i = i [unfolded sieve_inv_def]
  have len: "length ps < length fs" using i by auto
  have t: "tracked ps2 fs2 = tracked ps fs \<union> (if n1 > 1 then {n1} else {})"
    using tracked_append(1) [OF len, of n1 1] by (simp add: ps2_def fs2_def)
  have l2: "length ps2 \<le> length fs2" using len by (simp add: ps2_def fs2_def)
  have nf: "no_factor ps2 fs2 c \<longleftrightarrow> (\<forall>p \<in> tracked ps fs. \<not> p dvd c) \<and> (n1 > 1 \<longrightarrow> \<not> n1 dvd c)" for c
    unfolding no_factor_tracked [OF l2] t by auto
  have tp: "1 < p" "\<forall>d. d dvd p \<longrightarrow> d = 1 \<or> d = p" "p dvd n" "n1 = 1 \<or> \<not> p dvd n1" if "p \<in> tracked ps fs" for p
    using that i tracked_subset [of ps fs] by blast+
  have "no_factor ps2 fs2 (n - 1)"
  proof -
    have "\<not> p dvd n - 1" if "1 < p" "p dvd n" for p
    proof
      assume "p dvd n - 1"
      with that(2) n(1) have "p dvd 1" by (metis dvd_diff_nat diff_diff_cancel one_le_numeral order_trans)
      with that(1) show False by simp
    qed
    then show ?thesis unfolding nf using tp i by blast
  qed
  moreover define c where "c = search_up ps2 fs2 sqr n"
  ultimately have c: "sqr \<le> c" "c < n" "no_factor ps2 fs2 c" "\<forall>x. sqr \<le> x \<and> x < c \<longrightarrow> \<not> no_factor ps2 fs2 x"
    using search_up_spec [of ps2 fs2 sqr n] n(1,3) unfolding c_def by (auto simp: le_diff_conv)
  have cp: "coprime c p" if "p \<in> tracked ps fs" for p
    using c(3) that tp(2) [OF that] coprime_prime unfolding nf by blast
  have "coprime c n1"
  proof (cases "n1 = 1")
    case False
    then have n1: "1 < n1" "cur = sqr + 1" using i e by auto
    have big: "sqr + 1 \<le> d" if "d dvd n1" "1 < d" for d
    proof (rule ccontr)
      assume "\<not> sqr + 1 \<le> d"
      with n1(2) that(2) i obtain p where "p \<in> set ps" "p dvd d" by force
      with that(1) i False show False by (meson dvd_trans)
    qed
    show ?thesis
    proof (rule ccontr)
      assume nc: "\<not> coprime c n1"
      define g where "g = gcd c n1"
      have g: "g dvd c" "g dvd n1" "1 < g"
      proof -
        show "g dvd c" "g dvd n1" by (simp_all add: g_def)
        have "g \<noteq> 0" using n1(1) by (simp add: g_def)
        moreover have "g \<noteq> 1" using nc by (simp add: g_def coprime_iff_gcd_eq_1)
        ultimately show "1 < g" by simp
      qed
      have "g \<noteq> n1" using g(1) c(3) n1(1) unfolding nf by auto
      obtain h where h: "n1 = g * h" using g(2) by blast
      have "1 < h" using h \<open>g \<noteq> n1\<close> n1(1) by (cases h; cases "h = 1") auto
      moreover have "h dvd n1" using h by simp
      ultimately have "sqr + 1 \<le> h" "sqr + 1 \<le> g" using big g by blast+
      then have sq: "(sqr + 1) * (sqr + 1) \<le> n1" unfolding h by (intro mult_le_mono)
      obtain k where k: "n = n1 * k" using i by blast
      have "k = 1"
      proof (rule ccontr)
        assume "k \<noteq> 1"
        with k n(1) have "2 \<le> k" by (cases k) auto
        then have "n1 * 2 \<le> n" unfolding k by simp
        with sq n(4) show False by linarith
      qed
      then have nn: "n1 = n" using k by simp
      have "tracked ps fs = {}" using tp(3,4) False nn by blast
      moreover have "\<not> n1 dvd sqr" using n(2,3) nn by (auto dest: dvd_imp_le)
      ultimately have "no_factor ps2 fs2 sqr" unfolding nf by simp
      with c(1,4) have "c = sqr" by (metis le_neq_implies_less order_refl)
      with g(1) n(2) have "g \<le> sqr" by (simp add: dvd_imp_le)
      with big [OF g(2,3)] show False by simp
    qed
  qed simp
  then have "coprime c n" using cp i by blast
  with c(1) show ?thesis by (simp add: c_def)
qed

subsection \<open>Properties\<close>

text \<open>
  C20: The branch-free bit counters. \<open>pop_count32\<close> is the number of set
  bits of any 32-bit word; \<open>nlz32\<close> locates the highest set bit; \<open>uintlog2\<close> answers \<open>k\<close> for the
  word with the one bit \<open>k\<close>, for all 64 of them; and \<open>sqrtu32\<close>, which is not the integer square
  root, is bounded: it is at most its argument \<open>n\<close>, its square is at most \<open>2 n\<close> and that of its
  successor more than half of \<open>n\<close>.
\<close>

theorem magic_bits_correct:
  assumes "k < 64"
  shows "unat (pop_count32 n) = card {i. bit n i} \<and>
    unat (nlz32 n) \<le> 32 \<and> unat n < 2 ^ (32 - unat (nlz32 n)) \<and>
    (n = 0 \<or> 2 ^ (32 - unat (nlz32 n)) \<le> 2 * unat n) \<and>
    uintlog2 (push_bit k 1) = k \<and>
    sqrtu32 n \<le> n \<and> unat (sqrtu32 n) * unat (sqrtu32 n) \<le> 2 * unat n \<and>
    unat n < 2 * (unat (sqrtu32 n) + 1) * (unat (sqrtu32 n) + 1)"
proof (intro conjI)
  show "unat (pop_count32 n) = card {i. bit n i}" by (rule pop_count32_card)
  show "uintlog2 (push_bit k 1) = k" using assms by (rule uintlog2_push_bit)
  obtain L where L: "L \<le> 32" "unat (nlz32 n) = 32 - L" "unat n < 2 ^ L" "0 < L \<longrightarrow> 2 ^ (L - 1) \<le> unat n"
    by (rule nlz32_spec)
  have e: "32 - (32 - L) = L" using L(1) by simp
  have "2 ^ L \<le> 2 * unat n" if "n \<noteq> 0"
    using L(3,4) that by (cases L) (auto simp: unsigned_eq_0_iff)
  with L show "unat (nlz32 n) \<le> 32" "unat n < 2 ^ (32 - unat (nlz32 n))"
    "n = 0 \<or> 2 ^ (32 - unat (nlz32 n)) \<le> 2 * unat n" by (auto simp: L(2) e)
  show "sqrtu32 n \<le> n" "unat (sqrtu32 n) * unat (sqrtu32 n) \<le> 2 * unat n"
    "unat n < 2 * (unat (sqrtu32 n) + 1) * (unat (sqrtu32 n) + 1)"
    using sqrtu32_bounds [of n] by (simp_all add: word_le_nat_alt)
qed

theorem magic_bits_correct_witness:
  "uintlog2 (push_bit 63 1) = 63 \<and> unat (pop_count32 7) = card {i. bit (7 :: u32) i}"
  using magic_bits_correct [of 63 7] by simp

text \<open>
  For every modulus from 1 below \<open>2 ^ 32\<close>, when memory suffices and the factor vector comes
  zeroed from the heap, \<open>find_coprime\<close> answers a number coprime to it, and frees what it
  allocated.
\<close>

lemma find_coprime_correct:
  assumes "1 \<le> n" "n < 2 ^ 32" "plentiful m" "take (unat (sqrtu32 (word_of_nat n))) heap = replicate (unat (sqrtu32 (word_of_nat n))) 0"
  shows "coprime (fst (find_coprime heap n m)) n \<and> allocs_used (snd (find_coprime heap n m)) = allocs_used m"
proof -
  define sqr where "sqr = unat (sqrtu32 (word_of_nat n))"
  have u: "unat (word_of_nat n :: u32) = n" using assms(2) by (intro unat_word_of_nat) simp
  have sq: "sqr \<le> n" "n < 2 * (sqr + 1) * (sqr + 1)"
    "0 < sqr" "2 \<le> n \<Longrightarrow> sqr < n"
  proof -
    have "(word_of_nat n :: u32) \<noteq> 0" using u assms(1) by (metis unsigned_0 not_one_le_zero)
    from sqrtu32_bounds(4) [OF this] show "0 < sqr" unfolding sqr_def .
    show "sqr \<le> n" using sqrtu32_bounds(1) [of "word_of_nat n"] unfolding u sqr_def .
    show "n < 2 * (sqr + 1) * (sqr + 1)" using sqrtu32_bounds(3) [of "word_of_nat n"] unfolding u sqr_def .
    show "2 \<le> n \<Longrightarrow> sqr < n" using sqrtu32_bounds(5) [of "word_of_nat n"] unfolding u sqr_def .
  qed
  obtain m1 where m1: "Malloc (4 * sqr) m = (True, m1)" "plentiful m1"
    using Malloc_plentiful [OF assms(3), of "4 * sqr"] sq(3) by auto
  obtain m2 where m2: "Malloc (4 * sqr) m1 = (True, m2)" "plentiful m2"
    using Malloc_plentiful [OF m1(2), of "4 * sqr"] sq(3) by auto
  have au: "allocs_used m2 = allocs_used m + 2" using Malloc_used [OF m1(1)] Malloc_used [OF m2(1)] by simp
  obtain n1 ps fs where s: "sieve 2 sqr n [] (replicate sqr 0) = (n1, ps, fs)"
    by (cases "sieve 2 sqr n [] (replicate sqr 0)")
  define ps2 where "ps2 = (if n1 > 1 then ps @ [n1] else ps)"
  define fs2 where "fs2 = (if n1 > 1 then fs[length ps := 1] else fs)"
  define r1 where "r1 = search_up ps2 fs2 sqr n"
  define r2 where "r2 = (if r1 = 0 then search_down ps2 fs2 (sqr - 1) else r1)"
  have f: "find_coprime heap n m = (if r2 = 0 then 1 else r2, Free True (Free True m2))"
    unfolding find_coprime_def sqr_def [symmetric] Let_def
    using assms(4) [folded sqr_def]
    by (simp add: m1(1) m2(1) s r2_def r1_def ps2_def fs2_def)
  have "coprime (if r2 = 0 then 1 else r2) n"
  proof (cases "n = 1")
    case False
    then have "coprime r1 n \<and> sqr \<le> r1"
      using search_coprime [of n sqr n1 ps fs] assms(1) sq s by (simp add: r1_def ps2_def fs2_def)
    with sq(3) show ?thesis by (simp add: r2_def)
  qed simp
  then show ?thesis unfolding f using au by simp
qed

lemma find_coprime_correct_example:
  "coprime (fst (find_coprime (replicate 20 0) 100 plenty_mem)) 100"
proof -
  have "unat (sqrtu32 (word_of_nat 100)) \<le> 20"
  proof (rule ccontr)
    let ?r = "unat (sqrtu32 (word_of_nat 100))"
    assume "\<not> ?r \<le> 20"
    then have "21 * 21 \<le> ?r * ?r" by (intro mult_le_mono) simp_all
    with sqrtu32_bounds(2) [of "word_of_nat 100"] show False by simp
  qed
  then have "take (unat (sqrtu32 (word_of_nat 100))) (replicate 20 0) = replicate (unat (sqrtu32 (word_of_nat 100))) (0 :: nat)"
    by (simp add: min_def)
  from find_coprime_correct [OF _ _ init_mem_plentiful this] show ?thesis by simp
qed

end
