(* ===== verification/Slalloc.thy ===== *)
theory Slalloc
  imports Magic Parse
begin

text \<open>
  The slab allocator of libdank/objects/slalloc.c: blocks of pages that hold objects of one
  size, with a bit map of the objects in use for every block and a list of the blocks that
  are not full. A map word (uint_fast32_t) has 64 bits on the modelled targets.

  A pointer to a pgdata is its index in the array \<open>usemaps\<close>. A bit map that is freed or was
  never allocated is \<open>None\<close>; reading it, or reading an array at an index that was never
  written, is undefined, which an operation answers by an outer \<open>None\<close>. Addresses are
  naturals; the addresses mmap answers are a parameter of the operation that calls it.
\<close>

subsection \<open>State\<close>

record pgdata =
  usemap :: "u64 list option"
  unallocated :: u32
  next_nonfull :: "nat option"

record slalloc =
  blockcount :: nat
  pagesperblock :: nat
  pgarray :: "nat list option"
  usemaps :: "pgdata list option"
  nonfull_usemaps :: "nat option"
  objsperpage :: nat
  objsize :: nat
  pgsize :: nat

text \<open>The entries that exist; a null array has none.\<close>

abbreviation maps :: "slalloc \<Rightarrow> pgdata list" where
  "maps sl \<equiv> (case usemaps sl of None \<Rightarrow> [] | Some us \<Rightarrow> us)"

abbreviation pages :: "slalloc \<Rightarrow> nat list" where
  "pages sl \<equiv> (case pgarray sl of None \<Rightarrow> [] | Some ps \<Rightarrow> ps)"

definition count_pages :: "slalloc \<Rightarrow> nat" where
  "count_pages sl = blockcount sl * pagesperblock sl"

definition OBJSPERWORD :: nat where "OBJSPERWORD = 64"

definition OBJSPERBLOCK :: "slalloc \<Rightarrow> nat" where
  "OBJSPERBLOCK sl = objsperpage sl * pagesperblock sl"

definition OBJWORDSPERBLOCK :: "slalloc \<Rightarrow> nat" where
  "OBJWORDSPERBLOCK sl = OBJSPERBLOCK sl div OBJSPERWORD + of_bool (OBJSPERBLOCK sl mod OBJSPERWORD \<noteq> 0)"

definition OBJSPERTHISWORD :: "slalloc \<Rightarrow> nat \<Rightarrow> nat" where
  "OBJSPERTHISWORD sl z = (if z < OBJWORDSPERBLOCK sl then OBJSPERWORD else OBJSPERBLOCK sl mod OBJSPERWORD)"

subsection \<open>The maps\<close>

text \<open>
  \<open>init_usemap\<close> on the last element of the array, which has just been extended to
  \<open>blockcount + 1\<close> elements. The array's other elements stay as they are. \<open>raw\<close> is what the
  fields it does not write hold.
\<close>

definition last_map :: "slalloc \<Rightarrow> pgdata \<Rightarrow> slalloc" where
  "last_map sl pd = sl\<lparr>usemaps := Some (take (blockcount sl) (maps sl) @ [pd])\<rparr>"

definition init_usemap :: "slalloc \<Rightarrow> pgdata \<Rightarrow> mem \<Rightarrow> bool \<times> slalloc \<times> mem" where
  "init_usemap sl raw m =
     (case Malloc (8 * OBJWORDSPERBLOCK sl) m of
        (False, m1) \<Rightarrow> (True, last_map sl (raw\<lparr>usemap := None\<rparr>), m1)
      | (True, m1) \<Rightarrow>
          (False,
           (last_map sl \<lparr>usemap = Some (replicate (OBJWORDSPERBLOCK sl) 0),
              unallocated = word_of_nat (OBJSPERBLOCK sl), next_nonfull = nonfull_usemaps sl\<rparr>)
             \<lparr>nonfull_usemaps := Some (blockcount sl)\<rparr>, m1))"

definition reset_usemap :: "pgdata \<Rightarrow> mem \<Rightarrow> pgdata \<times> mem" where
  "reset_usemap pd m = (pd\<lparr>usemap := None\<rparr>, Free (usemap pd \<noteq> None) m)"

text \<open>The first word with an unset bit, and its rightmost unset bit as the sole one.\<close>

fun first_unset :: "u64 list \<Rightarrow> nat \<Rightarrow> (nat \<times> u64) option" where
  "first_unset [] z = None"
| "first_unset (w # ws) z =
     (let rmost = NOT w AND (w + 1) in
      if rmost = 0 then first_unset ws (Suc z) else Some (z, rmost))"

definition obj_address :: "slalloc \<Rightarrow> nat \<Rightarrow> nat \<Rightarrow> nat" where
  "obj_address sl k idx =
     pages sl ! k + idx div objsperpage sl * pgsize sl + idx mod objsperpage sl * objsize sl"

definition take_first_unused :: "slalloc \<Rightarrow> (nat option \<times> slalloc) option" where
  "take_first_unused sl =
     (case nonfull_usemaps sl of
        None \<Rightarrow> Some (None, sl)
      | Some k \<Rightarrow>
          (if k \<ge> length (maps sl) then None
           else case usemap (maps sl ! k) of
             None \<Rightarrow> None
           | Some ws \<Rightarrow>
               (case first_unset ws 0 of
                  None \<Rightarrow> Some (None, sl)
                | Some (z, rmost) \<Rightarrow>
                    let map = maps sl ! k;
                        map1 = map\<lparr>usemap := Some (ws[z := ws ! z OR rmost]), unallocated := unallocated map - 1\<rparr>;
                        sl1 = sl\<lparr>usemaps := Some ((maps sl)[k := map1])\<rparr>;
                        sl2 = (if unallocated map1 = 0 then sl1\<lparr>nonfull_usemaps := next_nonfull map1\<rparr> else sl1);
                        idx = z * OBJSPERWORD + uintlog2 rmost
                    in if k \<ge> length (pages sl) then None
                       else Some (Some (obj_address sl k idx), sl2))))"

subsection \<open>Pages\<close>

text \<open>\<open>addr\<close> is the address mmap answers if it serves the request.\<close>

definition snatch_contiguous_pages :: "nat \<Rightarrow> nat \<Rightarrow> nat \<Rightarrow> mem \<Rightarrow> nat option \<times> mem" where
  "snatch_contiguous_pages addr pgsz pgs m =
     (if pgs > 256 then (None, m\<lparr>errno := EINVAL\<rparr>)
      else case Mmalloc (pgsz * pgs) m of
        (False, m1) \<Rightarrow> (None, m1)
      | (True, m1) \<Rightarrow> (Some addr, m1))"

definition fistful_of_pages :: "nat \<Rightarrow> nat \<Rightarrow> nat \<Rightarrow> mem \<Rightarrow> nat option \<times> mem" where
  "fistful_of_pages addr pgsz order m =
     (if order > 32 then (None, m\<lparr>errno := EINVAL\<rparr>)
      else snatch_contiguous_pages addr pgsz (unat (push_bit order 1 :: u32)) m)"

text \<open>\<open>unmapped\<close>: whether munmap succeeds.\<close>

definition return_contiguous_pages :: "bool \<Rightarrow> mem \<Rightarrow> mem" where
  "return_contiguous_pages unmapped m = snd (Mfree unmapped m)"

subsection \<open>The interface\<close>

text \<open>\<open>pgsiz\<close> is the answer of sysconf, an int.\<close>

definition create_slalloc :: "nat \<Rightarrow> int \<Rightarrow> mem \<Rightarrow> slalloc option \<times> mem" where
  "create_slalloc osize pgsiz m =
     (if osize \<noteq> 0 then
        if pgsiz > 0 then
          if osize \<le> nat pgsiz then
            (case Malloc 56 m of
               (False, m1) \<Rightarrow> (None, m1)
             | (True, m1) \<Rightarrow>
                 let opp = nat pgsiz div osize;
                     ppb = OBJSPERWORD div opp;
                     ppb' = (if ppb = 0 then 1 else unat ((word_of_nat ppb :: u32) AND - word_of_nat ppb))
                 in (Some \<lparr>blockcount = 0, pagesperblock = ppb', pgarray = None, usemaps = None,
                           nonfull_usemaps = None, objsperpage = opp, objsize = osize, pgsize = nat pgsiz\<rparr>, m1))
          else (None, m)
        else (None, m)
      else (None, m))"

fun destroy_blocks :: "pgdata list \<Rightarrow> (nat \<Rightarrow> bool) \<Rightarrow> nat \<Rightarrow> mem \<Rightarrow> mem" where
  "destroy_blocks [] unmapped z m = m"
| "destroy_blocks (pd # pds) unmapped z m =
     destroy_blocks pds unmapped (Suc z) (snd (reset_usemap pd (return_contiguous_pages (unmapped z) m)))"

definition destroy_slalloc :: "slalloc option \<Rightarrow> (nat \<Rightarrow> bool) \<Rightarrow> mem \<Rightarrow> mem" where
  "destroy_slalloc slo unmapped m =
     (case slo of None \<Rightarrow> m
      | Some sl \<Rightarrow>
          Free True (Free (usemaps sl \<noteq> None) (Free (pgarray sl \<noteq> None)
            (destroy_blocks (take (blockcount sl) (maps sl)) unmapped 0 m))))"

definition add_slalloc_page :: "slalloc \<Rightarrow> nat \<Rightarrow> pgdata \<Rightarrow> mem \<Rightarrow> bool \<times> slalloc \<times> mem" where
  "add_slalloc_page sl addr raw m =
     (case Realloc (pgarray sl \<noteq> None) (8 * (blockcount sl + 1)) m of
        (False, m1) \<Rightarrow> (True, sl, m1)
      | (True, m1) \<Rightarrow>
          let sl1 = sl\<lparr>pgarray := Some (pages sl)\<rparr> in
          (case Realloc (usemaps sl1 \<noteq> None) (24 * (blockcount sl + 1)) m1 of
             (False, m2) \<Rightarrow> (True, sl1, m2)
           | (True, m2) \<Rightarrow>
               let sl2 = sl1\<lparr>usemaps := Some (maps sl1)\<rparr> in
               (case init_usemap sl2 raw m2 of
                  (True, sl3, m3) \<Rightarrow> (True, sl3, m3)
                | (False, sl3, m3) \<Rightarrow>
                    (case fistful_of_pages addr (pgsize sl3) (uintlog2 (word_of_nat (pagesperblock sl3))) m3 of
                       (None, m4) \<Rightarrow>
                         (case reset_usemap (maps sl3 ! blockcount sl3) m4 of
                            (pd, m5) \<Rightarrow> (True, last_map sl3 pd, m5))
                     | (Some newpages, m4) \<Rightarrow>
                         (False, sl3\<lparr>pgarray := Some (take (blockcount sl3) (pages sl3) @ [newpages]),
                                     blockcount := blockcount sl3 + 1\<rparr>, m4)))))"

text \<open>The answer is the object, if there is one.\<close>

definition slalloc_new :: "slalloc \<Rightarrow> nat \<Rightarrow> pgdata \<Rightarrow> mem \<Rightarrow> (nat option \<times> slalloc \<times> mem) option" where
  "slalloc_new sl addr raw m =
     (case take_first_unused sl of
        None \<Rightarrow> None
      | Some (Some obj, sl1) \<Rightarrow> Some (Some obj, sl1, m)
      | Some (None, sl1) \<Rightarrow>
          (case add_slalloc_page sl1 addr raw m of
             (True, sl2, m2) \<Rightarrow> Some (None, sl2, m2)
           | (False, sl2, m2) \<Rightarrow>
               (case take_first_unused sl2 of None \<Rightarrow> None | Some (obj, sl3) \<Rightarrow> Some (obj, sl3, m2))))"

text \<open>The search ends at the block that holds the object; without one it leaves the array.\<close>

fun find_block_from :: "nat list \<Rightarrow> nat \<Rightarrow> nat \<Rightarrow> nat \<Rightarrow> nat option" where
  "find_block_from [] blocksize obj z = None"
| "find_block_from (p # ps) blocksize obj z =
     (if obj < p \<or> obj \<ge> p + blocksize then find_block_from ps blocksize obj (Suc z) else Some z)"

definition find_block_idx :: "slalloc \<Rightarrow> nat \<Rightarrow> nat option" where
  "find_block_idx sl obj = find_block_from (pages sl) (pgsize sl * pagesperblock sl) obj 0"

definition slalloc_free :: "slalloc \<Rightarrow> nat \<Rightarrow> slalloc option" where
  "slalloc_free sl obj =
     (case find_block_idx sl obj of
        None \<Rightarrow> None
      | Some k \<Rightarrow>
          let distance = obj - pages sl ! k;
              objidx = distance div pgsize sl * objsperpage sl + distance mod pgsize sl div objsize sl;
              mapidx = objidx div OBJSPERWORD;
              mask = NOT (push_bit (objidx mod OBJSPERWORD) 1) :: u64;
              pd = maps sl ! k
          in case usemap pd of
               None \<Rightarrow> None
             | Some ws \<Rightarrow>
                 if mapidx \<ge> length ws then None
                 else
                   let pd1 = pd\<lparr>usemap := Some (ws[mapidx := ws ! mapidx AND mask]), unallocated := unallocated pd + 1\<rparr>
                   in if unallocated pd = 0
                      then Some (sl\<lparr>usemaps := Some ((maps sl)[k := pd1\<lparr>next_nonfull := nonfull_usemaps sl\<rparr>]),
                                   nonfull_usemaps := Some k\<rparr>)
                      else Some (sl\<lparr>usemaps := Some ((maps sl)[k := pd1])\<rparr>))"

text \<open>
  The loops over the objects in use, in the order of the code: blocks, words, bits. The
  four iterators differ in the qualifiers of their arguments and in whether an answer of the
  callback stops them.
\<close>

definition word_objs :: "slalloc \<Rightarrow> nat \<Rightarrow> nat \<Rightarrow> u64 \<Rightarrow> nat list" where
  "word_objs sl p z w =
     map (\<lambda>y. obj_address sl p (z * OBJSPERWORD + y)) (filter (\<lambda>y. bit w y) [0..<OBJSPERTHISWORD sl z])"

definition block_objs :: "slalloc \<Rightarrow> nat \<Rightarrow> nat list" where
  "block_objs sl p =
     (case usemap (maps sl ! p) of None \<Rightarrow> []
      | Some ws \<Rightarrow> concat (map (\<lambda>z. word_objs sl p z (ws ! z)) [0..<OBJWORDSPERBLOCK sl]))"

definition used_objs :: "slalloc \<Rightarrow> nat list" where
  "used_objs sl = concat (map (block_objs sl) [0..<blockcount sl])"

fun visit :: "('s \<Rightarrow> nat \<Rightarrow> bool \<times> 's) \<Rightarrow> 's \<Rightarrow> nat list \<Rightarrow> bool \<times> 's" where
  "visit fxn s [] = (False, s)"
| "visit fxn s (obj # objs) = (case fxn s obj of (True, s1) \<Rightarrow> (True, s1) | (False, s1) \<Rightarrow> visit fxn s1 objs)"

definition slalloc_foreach :: "('s \<Rightarrow> nat \<Rightarrow> bool \<times> 's) \<Rightarrow> 's \<Rightarrow> slalloc \<Rightarrow> bool \<times> 's" where
  "slalloc_foreach fxn s sl = visit fxn s (used_objs sl)"

definition slalloc_void_foreach :: "('s \<Rightarrow> nat \<Rightarrow> 's) \<Rightarrow> 's \<Rightarrow> slalloc \<Rightarrow> 's" where
  "slalloc_void_foreach fxn s sl = foldl fxn s (used_objs sl)"

definition stringize_slalloc :: "ustring \<Rightarrow> slalloc \<Rightarrow> mem \<Rightarrow> bool \<times> ustring \<times> mem" where
  "stringize_slalloc u sl m =
     for_each print_step
       [''<slalloc>'', ''<objsize>'' @ dec (objsize sl) @ ''</objsize>'',
        ''<blocks>'' @ dec (blockcount sl) @ ''</blocks>'', ''<pages>'' @ dec (count_pages sl) @ ''</pages>'',
        ''<objsperpage>'' @ dec (objsperpage sl) @ ''</objsperpage>'', ''</slalloc>''] u m"

subsection \<open>Isolating one bit\<close>

lemma lowest_bit:
  assumes "v \<noteq> (0 :: 'a::len word)"
  obtains i where "i < LENGTH('a)" "bit v i" "\<forall>j < i. \<not> bit v j" "v AND - v = push_bit i 1"
proof -
  define i where "i = (LEAST j. bit v j)"
  have "\<exists>j. bit v j" using assms bit_word_eqI [of v 0] by auto
  then have i: "bit v i" "\<forall>j < i. \<not> bit v j" unfolding i_def by (auto intro: LeastI dest: not_less_Least)
  have il: "i < LENGTH('a)" using i(1) by (rule bit_imp_le_length)
  define u where "u = drop_bit i v"
  have v: "v = push_bit i u"
    unfolding u_def
  proof (rule bit_word_eqI)
    fix n assume "n < LENGTH('a)"
    then show "bit v n \<longleftrightarrow> bit (push_bit i (drop_bit i v)) n"
      using i(2) by (cases "n < i") (simp_all add: bit_push_bit_iff bit_drop_bit_eq)
  qed
  have u0: "bit u 0" using i(1) by (simp add: u_def bit_drop_bit_eq)
  have "- u = NOT u OR 1"
  proof -
    have "- u = NOT u + 1" by (simp add: minus_eq_not_plus_1)
    also have "\<dots> = NOT u OR 1"
    proof (rule disjunctive_add)
      show "\<not> bit (NOT u) n \<or> \<not> bit (1 :: 'a word) n" for n using u0 by (cases n) (auto simp: bit_not_iff bit_1_iff)
    qed
    finally show ?thesis .
  qed
  then have "u AND - u = 1"
    using u0 by (intro bit_word_eqI) (auto simp: bit_and_iff bit_or_iff bit_not_iff bit_1_iff)
  then have "push_bit i (u AND - u) = push_bit i 1" by simp
  then have "v AND - v = push_bit i 1" unfolding v by (simp add: push_bit_and push_bit_minus)
  with il i that show thesis by blast
qed

lemma unset_bit: "w \<noteq> - 1 \<Longrightarrow> \<exists>y < 64. NOT w AND (w + 1) = push_bit y 1 \<and> \<not> bit w y \<and> (\<forall>j < y. bit w j)" for w :: u64
proof -
  assume "w \<noteq> - 1"
  then have "NOT w \<noteq> 0" by (metis bit.double_compl bit.compl_zero)
  then obtain i where "i < LENGTH(64)" "bit (NOT w) i" "\<forall>j < i. \<not> bit (NOT w) j" "NOT w AND - (NOT w) = push_bit i 1"
    by (rule lowest_bit)
  moreover have "- (NOT w) = w + 1" by (simp add: minus_eq_not_plus_1)
  ultimately show ?thesis by (intro exI [of _ i]) (auto simp: bit_not_iff)
qed

lemma bit_single: "y < 64 \<Longrightarrow> bit (2 ^ y :: u64) n \<longleftrightarrow> n = y"
  by (auto simp: bit_exp_iff)

lemma push_bit_nonzero: "y < 64 \<Longrightarrow> push_bit y 1 \<noteq> (0 :: u64)"
  using bit_single [of y y] by auto

subsection \<open>Bit maps\<close>

definition used :: "u64 list \<Rightarrow> nat \<Rightarrow> bool" where
  "used ws i \<longleftrightarrow> i div 64 < length ws \<and> bit (ws ! (i div 64)) (i mod 64)"

lemma used_Cons: "used (w # ws) i \<longleftrightarrow> (if i < 64 then bit w i else used ws (i - 64))"
proof (cases "i < 64")
  case False
  then have "i div 64 = Suc ((i - 64) div 64)" "i mod 64 = (i - 64) mod 64"
    by (simp_all add: le_div_geq le_mod_geq)
  with False show ?thesis by (simp add: used_def)
qed (simp add: used_def)

lemma first_unset_least:
  assumes "\<not> used ws j" "j < 64 * length ws"
  shows "\<exists>z y. first_unset ws z0 = Some (z0 + z, push_bit y 1) \<and> y < 64 \<and> z < length ws \<and> z * 64 + y \<le> j \<and>
    \<not> used ws (z * 64 + y)"
  using assms
proof (induction ws arbitrary: j z0)
  case (Cons w ws)
  show ?case
  proof (cases "w = - 1")
    case True
    then have "\<not> used ws (j - 64)" "64 \<le> j" "j - 64 < 64 * length ws"
      using Cons.prems by (auto simp: used_Cons split: if_splits)
    from Cons.IH [OF this(1,3), of "Suc z0"] obtain z y where
      "first_unset ws (Suc z0) = Some (Suc z0 + z, push_bit y 1)" "y < 64" "z < length ws" "z * 64 + y \<le> j - 64"
      "\<not> used ws (z * 64 + y)" by blast
    with True \<open>64 \<le> j\<close> show ?thesis by (intro exI [of _ "Suc z"] exI [of _ y]) (auto simp: used_Cons)
  next
    case False
    from unset_bit [OF this] obtain y where y: "y < 64" "NOT w AND (w + 1) = push_bit y 1" "\<not> bit w y" "\<forall>j < y. bit w j"
      by blast
    have "y \<le> j" using y Cons.prems(1) by (metis le_less_linear less_trans used_Cons)
    with y push_bit_nonzero [OF y(1)] show ?thesis
      by (intro exI [of _ 0] exI [of _ y]) (simp add: used_Cons Let_def)
  qed
qed simp

lemma div_mod_64: "y < 64 \<Longrightarrow> (z * 64 + y) div 64 = z" "y < 64 \<Longrightarrow> (z * 64 + y) mod 64 = y" for y z :: nat
  by simp_all

lemma index_64: "y < 64 \<Longrightarrow> i = z * 64 + y \<longleftrightarrow> i div 64 = z \<and> i mod 64 = y" for i y z :: nat
  by (metis div_mod_64 div_mult_mod_eq)

lemma used_set:
  "z < length ws \<Longrightarrow> y < 64 \<Longrightarrow> used (ws[z := ws ! z OR push_bit y 1]) i \<longleftrightarrow> used ws i \<or> i = z * 64 + y"
  unfolding used_def index_64 [of y i z]
  by (auto simp: nth_list_update bit_or_iff bit_single)

lemma used_clear:
  "z < length ws \<Longrightarrow> y < 64 \<Longrightarrow> used (ws[z := ws ! z AND NOT (push_bit y 1)]) i \<longleftrightarrow> used ws i \<and> i \<noteq> z * 64 + y"
  unfolding used_def index_64 [of y i z]
  by (auto simp: nth_list_update bit_and_iff bit_not_iff bit_single)

lemma used_replicate: "\<not> used (replicate n 0) i"
  by (simp add: used_def)

definition busy :: "u64 list \<Rightarrow> nat set" where
  "busy ws = {i. used ws i}"

lemma busy_set: "z < length ws \<Longrightarrow> y < 64 \<Longrightarrow> busy (ws[z := ws ! z OR push_bit y 1]) = insert (z * 64 + y) (busy ws)"
  unfolding busy_def using used_set by blast

lemma busy_clear: "z < length ws \<Longrightarrow> y < 64 \<Longrightarrow> busy (ws[z := ws ! z AND NOT (push_bit y 1)]) = busy ws - {z * 64 + y}"
  unfolding busy_def using used_clear by blast

lemma busy_replicate: "busy (replicate n 0) = {}"
  by (simp add: busy_def used_replicate)

subsection \<open>The invariant\<close>

text \<open>The list of the blocks that are not full, in the order of their links.\<close>

fun nonfull_chain :: "pgdata list \<Rightarrow> nat option \<Rightarrow> nat list \<Rightarrow> bool" where
  "nonfull_chain us start [] \<longleftrightarrow> start = None"
| "nonfull_chain us start (k # ks) \<longleftrightarrow> start = Some k \<and> k < length us \<and> nonfull_chain us (next_nonfull (us ! k)) ks"

text \<open>
  A block's map has the words the geometry asks for and no bit beyond its objects, and
  \<open>unallocated\<close> counts the rest.
\<close>

definition map_ok :: "nat \<Rightarrow> nat \<Rightarrow> pgdata \<Rightarrow> bool" where
  "map_ok nwords n pd \<longleftrightarrow>
     (\<exists>ws. usemap pd = Some ws \<and> length ws = nwords \<and> busy ws \<subseteq> {..<n} \<and> unat (unallocated pd) + card (busy ws) = n)"

lemma map_okE:
  assumes "map_ok nw n pd"
  obtains ws where "usemap pd = Some ws" "length ws = nw" "busy ws \<subseteq> {..<n}" "finite (busy ws)"
    "unat (unallocated pd) + card (busy ws) = n"
proof -
  obtain ws where w: "usemap pd = Some ws" "length ws = nw" "busy ws \<subseteq> {..<n}" "unat (unallocated pd) + card (busy ws) = n"
    using assms unfolding map_ok_def by blast
  moreover have "finite (busy ws)" using w(3) by (rule finite_subset) simp
  ultimately show thesis using that by blast
qed

definition geometry_ok :: "slalloc \<Rightarrow> bool" where
  "geometry_ok sl \<longleftrightarrow>
     0 < objsize sl \<and> 0 < objsperpage sl \<and> objsperpage sl * objsize sl \<le> pgsize sl \<and>
     (\<exists>e \<le> 6. pagesperblock sl = 2 ^ e) \<and> OBJSPERBLOCK sl < 2 ^ 32"

definition slab_ok :: "slalloc \<Rightarrow> bool" where
  "slab_ok sl \<longleftrightarrow>
     geometry_ok sl \<and> length (pages sl) = blockcount sl \<and> blockcount sl \<le> length (maps sl) \<and>
     (\<forall>k < blockcount sl. map_ok (OBJWORDSPERBLOCK sl) (OBJSPERBLOCK sl) (maps sl ! k)) \<and>
     (\<exists>ks. nonfull_chain (maps sl) (nonfull_usemaps sl) ks \<and> distinct ks \<and>
        set ks = {k. k < blockcount sl \<and> unallocated (maps sl ! k) \<noteq> 0})"

definition live :: "slalloc \<Rightarrow> nat \<Rightarrow> nat \<Rightarrow> bool" where
  "live sl k i \<longleftrightarrow> k < blockcount sl \<and> (\<exists>ws. usemap (maps sl ! k) = Some ws \<and> i \<in> busy ws)"

definition same_shape :: "slalloc \<Rightarrow> slalloc \<Rightarrow> bool" where
  "same_shape sl sl' \<longleftrightarrow> blockcount sl' = blockcount sl \<and> pagesperblock sl' = pagesperblock sl \<and>
     pages sl' = pages sl \<and> objsperpage sl' = objsperpage sl \<and> objsize sl' = objsize sl \<and> pgsize sl' = pgsize sl"

lemma chain_cong:
  "nonfull_chain us start ks \<Longrightarrow> length us \<le> length us' \<Longrightarrow>
   \<forall>k \<in> set ks. next_nonfull (us' ! k) = next_nonfull (us ! k) \<Longrightarrow> nonfull_chain us' start ks"
  by (induction ks arbitrary: start) auto

lemma words_cover: "OBJSPERBLOCK sl \<le> 64 * OBJWORDSPERBLOCK sl"
proof -
  have "n \<le> 64 * (n div 64 + of_bool (n mod 64 \<noteq> 0))" for n :: nat
  proof -
    define q r where "q = n div 64" and "r = n mod 64"
    have "n = 64 * q + r" "r < 64" by (simp_all add: q_def r_def)
    then have "n \<le> 64 * (q + of_bool (r \<noteq> 0))" by (cases "r = 0") simp_all
    then show ?thesis by (simp only: q_def r_def)
  qed
  then show ?thesis unfolding OBJWORDSPERBLOCK_def OBJSPERWORD_def .
qed

text \<open>
  Setting the first unset bit of a map that has room: the bit is one of the block's objects,
  for the reason the code's comment gives.
\<close>

lemma map_ok_take:
  assumes "map_ok nw n pd" "unallocated pd \<noteq> 0" "n \<le> 64 * nw"
  obtains ws z y where "usemap pd = Some ws" "first_unset ws 0 = Some (z, push_bit y 1)" "y < 64" "z < length ws"
    "z * 64 + y < n" "z * 64 + y \<notin> busy ws"
    "map_ok nw n (pd\<lparr>usemap := Some (ws[z := ws ! z OR push_bit y 1]), unallocated := unallocated pd - 1\<rparr>)"
proof -
  obtain ws where ws: "usemap pd = Some ws" "length ws = nw" "busy ws \<subseteq> {..<n}" "finite (busy ws)"
    "unat (unallocated pd) + card (busy ws) = n" using assms(1) by (rule map_okE)
  have u: "0 < unat (unallocated pd)" using assms(2) by (simp add: unat_gt_0)
  have "\<exists>j < n. j \<notin> busy ws"
  proof (rule ccontr)
    assume "\<not> ?thesis"
    then have "{..<n} \<subseteq> busy ws" by auto
    from card_mono [OF ws(4) this] have "n \<le> card (busy ws)" by simp
    with ws(5) u show False by simp
  qed
  then obtain j where j: "j < n" "\<not> used ws j" by (auto simp: busy_def)
  then have "j < 64 * length ws" using ws(2) assms(3) by simp
  from first_unset_least [OF j(2) this, of 0] obtain z y where
    f: "first_unset ws 0 = Some (z, push_bit y 1)" "y < 64" "z < length ws" "z * 64 + y \<le> j" "\<not> used ws (z * 64 + y)"
    unfolding add_0 by blast
  have lt: "z * 64 + y < n" using f(4) j(1) by (rule le_less_trans)
  have nb: "z * 64 + y \<notin> busy ws" using f(5) by (simp add: busy_def)
  let ?ws = "ws[z := ws ! z OR push_bit y 1]"
  have b: "busy ?ws = insert (z * 64 + y) (busy ws)" by (rule busy_set [OF f(3,2)])
  have c: "card (busy ?ws) = Suc (card (busy ws))" unfolding b using ws(4) nb by simp
  have m: "unat (unallocated pd - 1) = unat (unallocated pd) - 1" using assms(2) by (rule unat_minus_one)
  have "map_ok nw n (pd\<lparr>usemap := Some ?ws, unallocated := unallocated pd - 1\<rparr>)"
    unfolding map_ok_def
  proof (intro exI conjI)
    show "busy ?ws \<subseteq> {..<n}" unfolding b using ws(3) lt by simp
    show "unat (unallocated (pd\<lparr>usemap := Some ?ws, unallocated := unallocated pd - 1\<rparr>)) + card (busy ?ws) = n"
      unfolding c using u ws(5) by (simp add: m)
  qed (use ws(2) in simp_all)
  with ws(1) f(1-3) lt nb show thesis by (rule that)
qed

lemma map_ok_clear:
  assumes "map_ok nw n pd" "usemap pd = Some ws" "i \<in> busy ws" "n < 2 ^ 32"
  defines "ws' \<equiv> ws[i div 64 := ws ! (i div 64) AND NOT (push_bit (i mod 64) 1)]"
  shows "i div 64 < length ws" and "busy ws' = busy ws - {i}"
    and "map_ok nw n (pd\<lparr>usemap := Some ws', unallocated := unallocated pd + 1, next_nonfull := x\<rparr>)"
    and "map_ok nw n (pd\<lparr>usemap := Some ws', unallocated := unallocated pd + 1\<rparr>)"
    and "unallocated pd + 1 \<noteq> 0"
proof -
  obtain ws0 where "usemap pd = Some ws0" "length ws0 = nw" "busy ws0 \<subseteq> {..<n}" "finite (busy ws0)"
    "unat (unallocated pd) + card (busy ws0) = n" using assms(1) by (rule map_okE)
  with assms(2) have ws: "length ws = nw" "busy ws \<subseteq> {..<n}" "finite (busy ws)"
    "unat (unallocated pd) + card (busy ws) = n" by simp_all
  show z: "i div 64 < length ws" using assms(3) by (simp add: busy_def used_def)
  show b: "busy ws' = busy ws - {i}"
    unfolding ws'_def using busy_clear [OF z, of "i mod 64"] by simp
  have c: "Suc (card (busy ws')) = card (busy ws)"
    unfolding b using ws(3) assms(3) by (rule card_Suc_Diff1)
  then have "unat (unallocated pd) + 1 < 2 ^ 32" using ws(4) assms(4) by linarith
  then have un: "unat (unallocated pd + 1) = unat (unallocated pd) + 1" by (simp add: unat_word_ariths)
  then show "unallocated pd + 1 \<noteq> 0" by (metis Suc_eq_plus1 nat.distinct(1) unsigned_0)
  have "length ws' = nw" using ws(1) by (simp add: ws'_def)
  moreover have "busy ws' \<subseteq> {..<n}" unfolding b using ws(2) by blast
  moreover have "unat (unallocated pd + 1) + card (busy ws') = n" using c un ws(4) by linarith
  ultimately show "map_ok nw n (pd\<lparr>usemap := Some ws', unallocated := unallocated pd + 1, next_nonfull := x\<rparr>)"
    "map_ok nw n (pd\<lparr>usemap := Some ws', unallocated := unallocated pd + 1\<rparr>)" by (simp_all add: map_ok_def)
qed

text \<open>Replacing one block's map and the head of the list.\<close>

lemma slab_ok_update:
  assumes ok: "slab_ok sl" and k: "k < blockcount sl"
    and m: "map_ok (OBJWORDSPERBLOCK sl) (OBJSPERBLOCK sl) pd"
    and ks: "nonfull_chain ((maps sl)[k := pd]) start ks" "distinct ks"
      "set ks = {j. j < blockcount sl \<and> (if j = k then unallocated pd else unallocated (maps sl ! j)) \<noteq> 0}"
  defines "sl' \<equiv> sl\<lparr>usemaps := Some ((maps sl)[k := pd]), nonfull_usemaps := start\<rparr>"
  shows "slab_ok sl'" and "same_shape sl sl'"
    and "live sl' k' i' \<longleftrightarrow> (if k' = k then \<exists>ws. usemap pd = Some ws \<and> i' \<in> busy ws else live sl k' i')"
proof -
  have l: "k < length (maps sl)" using ok k by (auto simp: slab_ok_def)
  have e: "maps sl' = (maps sl)[k := pd]" "nonfull_usemaps sl' = start" "blockcount sl' = blockcount sl"
    "pages sl' = pages sl" "OBJSPERBLOCK sl' = OBJSPERBLOCK sl" "OBJWORDSPERBLOCK sl' = OBJWORDSPERBLOCK sl"
    by (simp_all add: sl'_def OBJSPERBLOCK_def OBJWORDSPERBLOCK_def)
  show "same_shape sl sl'" by (simp add: same_shape_def sl'_def)
  show "live sl' k' i' \<longleftrightarrow> (if k' = k then \<exists>ws. usemap pd = Some ws \<and> i' \<in> busy ws else live sl k' i')"
    using l k by (simp add: live_def e)
  have n: "maps sl' ! j = (if j = k then pd else maps sl ! j)" for j using l by (simp add: e)
  have "geometry_ok sl'" using ok by (simp add: slab_ok_def geometry_ok_def sl'_def OBJSPERBLOCK_def)
  moreover have "\<forall>j < blockcount sl'. map_ok (OBJWORDSPERBLOCK sl') (OBJSPERBLOCK sl') (maps sl' ! j)"
    unfolding n unfolding e using ok m by (simp add: slab_ok_def)
  moreover have "set ks = {j. j < blockcount sl' \<and> unallocated (maps sl' ! j) \<noteq> 0}"
    unfolding n unfolding e ks(3) by (simp add: if_distrib)
  moreover have "length (pages sl') = blockcount sl'" "blockcount sl' \<le> length (maps sl')"
    unfolding e using ok by (simp_all add: slab_ok_def)
  moreover have "nonfull_chain (maps sl') (nonfull_usemaps sl') ks" unfolding e by (rule ks(1))
  ultimately show "slab_ok sl'" using ks(2) unfolding slab_ok_def by blast
qed

lemma take_first_unused_spec:
  assumes ok: "slab_ok sl"
  obtains (full) "nonfull_usemaps sl = None" "take_first_unused sl = Some (None, sl)"
    "\<forall>k < blockcount sl. unallocated (maps sl ! k) = 0"
  | (taken) k i sl' where "take_first_unused sl = Some (Some (obj_address sl k i), sl')" "k < blockcount sl"
    "i < OBJSPERBLOCK sl" "\<not> live sl k i" "slab_ok sl'" "same_shape sl sl'"
    "\<And>k' i'. live sl' k' i' \<longleftrightarrow> live sl k' i' \<or> (k' = k \<and> i' = i)"
proof -
  obtain ks where ks: "nonfull_chain (maps sl) (nonfull_usemaps sl) ks" "distinct ks"
    "set ks = {k. k < blockcount sl \<and> unallocated (maps sl ! k) \<noteq> 0}" using ok by (auto simp: slab_ok_def)
  show thesis
  proof (cases ks)
    case Nil
    then have "nonfull_usemaps sl = None" "\<forall>k < blockcount sl. unallocated (maps sl ! k) = 0" using ks by auto
    then show thesis by (intro full) (simp_all add: take_first_unused_def)
  next
    case (Cons k ks')
    have k: "nonfull_usemaps sl = Some k" "k < length (maps sl)" "nonfull_chain (maps sl) (next_nonfull (maps sl ! k)) ks'"
      "k < blockcount sl" "unallocated (maps sl ! k) \<noteq> 0" "k \<notin> set ks'"
      using ks Cons by auto
    have "map_ok (OBJWORDSPERBLOCK sl) (OBJSPERBLOCK sl) (maps sl ! k)" using ok k(4) by (simp add: slab_ok_def)
    from map_ok_take [OF this k(5) words_cover] obtain ws z y where w: "usemap (maps sl ! k) = Some ws"
      "first_unset ws 0 = Some (z, push_bit y 1)" "y < 64" "z < length ws"
      "z * 64 + y < OBJSPERBLOCK sl" "z * 64 + y \<notin> busy ws"
      and mo: "map_ok (OBJWORDSPERBLOCK sl) (OBJSPERBLOCK sl)
         ((maps sl ! k)\<lparr>usemap := Some (ws[z := ws ! z OR push_bit y 1]), unallocated := unallocated (maps sl ! k) - 1\<rparr>)"
      by blast
    define pd where "pd = (maps sl ! k)\<lparr>usemap := Some (ws[z := ws ! z OR push_bit y 1]),
      unallocated := unallocated (maps sl ! k) - 1\<rparr>"
    define start where "start = (if unallocated pd = 0 then next_nonfull pd else nonfull_usemaps sl)"
    define sl' where "sl' = sl\<lparr>usemaps := Some ((maps sl)[k := pd]), nonfull_usemaps := start\<rparr>"
    have kp: "k < length (pages sl)" using ok k(4) by (simp add: slab_ok_def)
    have t: "take_first_unused sl = Some (Some (obj_address sl k (z * 64 + y)), sl')"
      using k(1,2) kp unfolding take_first_unused_def sl'_def start_def pd_def
      by (simp only: option.case w(1,2) Let_def uintlog2_push_bit [OF w(3)] OBJSPERWORD_def prod.case) (simp add: k(1))
    have nx: "\<forall>j \<in> set ks'. next_nonfull ((maps sl)[k := pd] ! j) = next_nonfull (maps sl ! j)"
      using k(6) by (metis nth_list_update_neq)
    have ch: "nonfull_chain ((maps sl)[k := pd]) (next_nonfull pd) ks'"
      using chain_cong [OF k(3) _ nx] by (simp add: pd_def)
    define ks'' where "ks'' = (if unallocated pd = 0 then ks' else k # ks')"
    have kset: "set ks' = {j. j < blockcount sl \<and> unallocated (maps sl ! j) \<noteq> 0} - {k}" using ks(3) k(6) Cons by auto
    have c1: "nonfull_chain ((maps sl)[k := pd]) start ks''" using ch k(1,2) by (simp add: ks''_def start_def)
    have c2: "distinct ks''" using ks(2) Cons by (simp add: ks''_def)
    have c3: "set ks'' = {j. j < blockcount sl \<and> (if j = k then unallocated pd else unallocated (maps sl ! j)) \<noteq> 0}"
      using kset k(4) by (auto simp: ks''_def)
    note up = slab_ok_update [OF ok k(4) mo [folded pd_def] c1 c2 c3, folded sl'_def]
    have "live sl' k' i' \<longleftrightarrow> live sl k' i' \<or> (k' = k \<and> i' = z * 64 + y)" for k' i'
      unfolding up(3) using k(4) w(1) busy_set [OF w(4,3)] by (auto simp: live_def pd_def)
    moreover have "\<not> live sl k (z * 64 + y)" using w(1,6) by (simp add: live_def)
    ultimately show thesis using t k(4) w(5) up(1,2) by (intro taken) blast+
  qed
qed

subsection \<open>Adding a block\<close>

lemma pagesperblock_order:
  assumes "geometry_ok sl"
  shows "unat (push_bit (uintlog2 (word_of_nat (pagesperblock sl))) 1 :: u32) = pagesperblock sl"
    and "uintlog2 (word_of_nat (pagesperblock sl)) \<le> 6" and "pagesperblock sl \<le> 64" "0 < pagesperblock sl"
proof -
  obtain e where e: "e \<le> 6" "pagesperblock sl = 2 ^ e" using assms by (auto simp: geometry_ok_def)
  have "word_of_nat (pagesperblock sl) = (push_bit e 1 :: u64)" by (simp add: e(2))
  then have l: "uintlog2 (word_of_nat (pagesperblock sl)) = e" using uintlog2_push_bit [of e] e(1) by simp
  have le: "(2 :: nat) ^ e \<le> 2 ^ 6" using e(1) by (intro power_increasing) simp_all
  then have "unat (word_of_nat (2 ^ e) :: u32) = 2 ^ e" by (intro unat_word_of_nat) simp
  moreover have "(push_bit e 1 :: u32) = word_of_nat (2 ^ e)" by simp
  ultimately show "unat (push_bit (uintlog2 (word_of_nat (pagesperblock sl))) 1 :: u32) = pagesperblock sl"
    unfolding l unfolding e(2) by (simp only:)
  show "uintlog2 (word_of_nat (pagesperblock sl)) \<le> 6" using l e(1) by simp
  show "pagesperblock sl \<le> 64" "0 < pagesperblock sl" using le e(2) by simp_all
qed

lemma OBJSPERBLOCK_pos: "geometry_ok sl \<Longrightarrow> 0 < OBJSPERBLOCK sl"
  using pagesperblock_order(4) [of sl] by (simp add: geometry_ok_def OBJSPERBLOCK_def)

lemma map_ok_fresh:
  assumes "geometry_ok sl"
  defines "pd x \<equiv> \<lparr>usemap = Some (replicate (OBJWORDSPERBLOCK sl) 0), unallocated = word_of_nat (OBJSPERBLOCK sl),
    next_nonfull = x\<rparr>"
  shows "map_ok (OBJWORDSPERBLOCK sl) (OBJSPERBLOCK sl) (pd x)" "unallocated (pd x) \<noteq> 0"
proof -
  have u: "unat (unallocated (pd x)) = OBJSPERBLOCK sl"
    using assms(1) unat_word_of_nat [of "OBJSPERBLOCK sl", where ?'a = 32] by (simp add: pd_def geometry_ok_def)
  show "map_ok (OBJWORDSPERBLOCK sl) (OBJSPERBLOCK sl) (pd x)"
    unfolding map_ok_def u by (simp add: pd_def busy_replicate)
  show "unallocated (pd x) \<noteq> 0" using u OBJSPERBLOCK_pos [OF assms(1)] by (metis less_irrefl unsigned_0)
qed

lemma Mmalloc_plentiful:
  "plentiful m \<Longrightarrow> 0 < s \<Longrightarrow> \<exists>m'. Mmalloc s m = (True, m') \<and> plentiful m'"
  by (auto simp: mem_op_defs plentiful_def Let_def)

text \<open>A null pointer becomes a block of one more element: the entries stay.\<close>

lemma slab_ok_reallocs:
  assumes "slab_ok sl"
  shows "slab_ok (sl\<lparr>pgarray := Some (pages sl)\<rparr>)" "slab_ok (sl\<lparr>usemaps := Some (maps sl)\<rparr>)"
  using assms by (auto simp: slab_ok_def geometry_ok_def OBJSPERBLOCK_def OBJWORDSPERBLOCK_def)

lemma live_maps:
  "\<forall>k < blockcount sl. maps sl' ! k = maps sl ! k \<Longrightarrow> blockcount sl' = blockcount sl \<Longrightarrow> live sl' k i \<longleftrightarrow> live sl k i"
  by (auto simp: live_def)

text \<open>
  The array of maps with one more element, as \<open>init_usemap\<close> and the failing path of
  \<open>add_slalloc_page\<close> leave it, while no block has room.
\<close>

lemma last_map_full:
  assumes "slab_ok sl" "nonfull_usemaps sl = None"
  shows "slab_ok (last_map sl pd)" "same_shape sl (last_map sl pd)" "live (last_map sl pd) k i \<longleftrightarrow> live sl k i"
proof -
  let ?sl = "last_map sl pd"
  have l: "length (take (blockcount sl) (maps sl)) = blockcount sl" using assms(1) by (simp add: slab_ok_def)
  have n: "maps ?sl ! k = maps sl ! k" if "k < blockcount sl" for k
    using that l by (simp add: last_map_def nth_append)
  show "same_shape sl ?sl" by (simp add: same_shape_def last_map_def)
  show "live ?sl k i \<longleftrightarrow> live sl k i" by (rule live_maps) (use n in \<open>auto simp: last_map_def\<close>)
  obtain ks where "nonfull_chain (maps sl) None ks" "set ks = {k. k < blockcount sl \<and> unallocated (maps sl ! k) \<noteq> 0}"
    using assms by (auto simp: slab_ok_def)
  then have full: "\<forall>k < blockcount sl. unallocated (maps sl ! k) = 0" by (cases ks) auto
  have e: "blockcount ?sl = blockcount sl" "pages ?sl = pages sl" "OBJSPERBLOCK ?sl = OBJSPERBLOCK sl"
    "OBJWORDSPERBLOCK ?sl = OBJWORDSPERBLOCK sl" "nonfull_usemaps ?sl = None" "length (maps ?sl) = Suc (blockcount sl)"
    using assms l by (simp_all add: last_map_def OBJSPERBLOCK_def OBJWORDSPERBLOCK_def)
  have "geometry_ok ?sl" using assms(1) by (simp add: slab_ok_def geometry_ok_def last_map_def OBJSPERBLOCK_def)
  moreover have "\<forall>k < blockcount sl. map_ok (OBJWORDSPERBLOCK sl) (OBJSPERBLOCK sl) (maps ?sl ! k)"
    using assms(1) n by (simp add: slab_ok_def)
  moreover have "nonfull_chain (maps ?sl) None [] \<and> distinct [] \<and>
      set [] = {k. k < blockcount sl \<and> unallocated (maps ?sl ! k) \<noteq> 0}" using full n by auto
  moreover have "length (pages sl) = blockcount sl" using assms(1) by (simp add: slab_ok_def)
  ultimately show "slab_ok ?sl" unfolding slab_ok_def e by (intro conjI exI [of _ "[]"]) simp_all
qed

text \<open>Committing the new block: the new map is the list of the blocks with room.\<close>

lemma slab_ok_grow:
  fixes addr :: nat
  assumes "slab_ok sl" "nonfull_usemaps sl = None" "map_ok (OBJWORDSPERBLOCK sl) (OBJSPERBLOCK sl) pd"
    "unallocated pd \<noteq> 0" "next_nonfull pd = None" "usemap pd = Some ws" "busy ws = {}"
  defines "sl' \<equiv> (last_map sl pd)\<lparr>nonfull_usemaps := Some (blockcount sl),
      pgarray := Some (take (blockcount sl) (pages sl) @ [addr]), blockcount := blockcount sl + 1\<rparr>"
  shows "slab_ok sl'" "live sl' k i \<longleftrightarrow> live sl k i" "pages sl' = pages sl @ [addr]"
proof -
  have l: "length (take (blockcount sl) (maps sl)) = blockcount sl" "length (pages sl) = blockcount sl"
    using assms(1) by (simp_all add: slab_ok_def)
  have n: "maps sl' ! j = maps sl ! j" if "j < blockcount sl" for j
    using that l by (simp add: sl'_def last_map_def nth_append)
  have nb: "maps sl' ! blockcount sl = pd"
    using l by (simp add: sl'_def last_map_def nth_append)
  have e: "OBJSPERBLOCK sl' = OBJSPERBLOCK sl" "OBJWORDSPERBLOCK sl' = OBJWORDSPERBLOCK sl" "blockcount sl' = Suc (blockcount sl)"
    "nonfull_usemaps sl' = Some (blockcount sl)" "length (maps sl') = Suc (blockcount sl)"
    using l by (simp_all add: sl'_def last_map_def OBJSPERBLOCK_def OBJWORDSPERBLOCK_def)
  show p: "pages sl' = pages sl @ [addr]" using l by (simp add: sl'_def last_map_def)
  obtain ks where "nonfull_chain (maps sl) None ks" "set ks = {k. k < blockcount sl \<and> unallocated (maps sl ! k) \<noteq> 0}"
    using assms(1,2) by (auto simp: slab_ok_def)
  then have full: "\<forall>k < blockcount sl. unallocated (maps sl ! k) = 0" by (cases ks) auto
  show "live sl' k i \<longleftrightarrow> live sl k i"
    using n nb assms(6,7) by (cases "k = blockcount sl") (auto simp: live_def e less_Suc_eq)
  have "geometry_ok sl'" using assms(1) by (simp add: slab_ok_def geometry_ok_def sl'_def last_map_def OBJSPERBLOCK_def)
  moreover have "\<forall>j < blockcount sl'. map_ok (OBJWORDSPERBLOCK sl) (OBJSPERBLOCK sl) (maps sl' ! j)"
    using assms(1,3) n nb by (simp add: slab_ok_def e less_Suc_eq all_conj_distrib imp_disjL)
  moreover have "nonfull_chain (maps sl') (Some (blockcount sl)) [blockcount sl]"
    using nb assms(5) by (simp add: e)
  moreover have "set [blockcount sl] = {j. j < blockcount sl' \<and> unallocated (maps sl' ! j) \<noteq> 0}"
    using full n nb assms(4) by (auto simp: e less_Suc_eq)
  ultimately show "slab_ok sl'" unfolding slab_ok_def e(1,2,4)
    using p l(2) e(3,5) by (intro conjI exI [of _ "[blockcount sl]"]) simp_all
qed

text \<open>
  What is left when the pages of a new block could not be had: its map is freed, but the
  list of blocks with room still starts with it.
\<close>

definition dangling :: "slalloc \<Rightarrow> bool" where
  "dangling sl \<longleftrightarrow> (\<exists>k. nonfull_usemaps sl = Some k \<and> k < length (maps sl) \<and> usemap (maps sl ! k) = None)"

text \<open>
  Such a state as it would be without the freed map: no link leads to it. In the states after the
  failure every chain of links ends at the freed map, until an allocation reaches it.
\<close>

definition unlink :: "nat \<Rightarrow> nat option \<Rightarrow> nat option" where
  "unlink n l = (if l = Some n then None else l)"

abbreviation unlink_map :: "nat \<Rightarrow> pgdata \<Rightarrow> pgdata" where
  "unlink_map n pd \<equiv> pd\<lparr>next_nonfull := unlink n (next_nonfull pd)\<rparr>"

definition heal :: "slalloc \<Rightarrow> slalloc" where
  "heal sl = sl\<lparr>nonfull_usemaps := unlink (blockcount sl) (nonfull_usemaps sl),
     usemaps := map_option (map (unlink_map (blockcount sl))) (usemaps sl)\<rparr>"

definition stale :: "slalloc \<Rightarrow> bool" where
  "stale sl \<longleftrightarrow> blockcount sl < length (maps sl) \<and> usemap (maps sl ! blockcount sl) = None \<and> nonfull_usemaps sl \<noteq> None \<and>
     (\<forall>k < blockcount sl. unallocated (maps sl ! k) \<noteq> 0 \<longrightarrow> next_nonfull (maps sl ! k) \<noteq> None)"

lemma maps_heal: "maps (heal sl) = map (unlink_map (blockcount sl)) (maps sl)"
  by (simp add: heal_def split: option.split)

lemma heal_simps [simp]:
  "blockcount (heal sl) = blockcount sl" "pagesperblock (heal sl) = pagesperblock sl" "pgarray (heal sl) = pgarray sl"
  "objsperpage (heal sl) = objsperpage sl" "objsize (heal sl) = objsize sl" "pgsize (heal sl) = pgsize sl"
  "nonfull_usemaps (heal sl) = unlink (blockcount sl) (nonfull_usemaps sl)" "OBJSPERBLOCK (heal sl) = OBJSPERBLOCK sl"
  "OBJWORDSPERBLOCK (heal sl) = OBJWORDSPERBLOCK sl"
  by (simp_all add: heal_def OBJSPERBLOCK_def OBJWORDSPERBLOCK_def)

lemma chain_heal: "nonfull_chain us st ks \<Longrightarrow> \<forall>k \<in> set ks. k \<noteq> n \<Longrightarrow> nonfull_chain (map (unlink_map n) us) (unlink n st) ks"
  by (induction ks arbitrary: st) (auto simp: unlink_def)

lemma slab_ok_heal:
  assumes "slab_ok sl"
  shows "slab_ok (heal sl)"
proof -
  obtain ks where ks: "nonfull_chain (maps sl) (nonfull_usemaps sl) ks" "distinct ks"
    "set ks = {k. k < blockcount sl \<and> unallocated (maps sl ! k) \<noteq> 0}" using assms by (auto simp: slab_ok_def)
  have l: "blockcount sl \<le> length (maps sl)" using assms by (simp add: slab_ok_def)
  have "nonfull_chain (maps (heal sl)) (nonfull_usemaps (heal sl)) ks"
    unfolding maps_heal heal_simps by (rule chain_heal [OF ks(1)]) (use ks(3) in auto)
  moreover have "set ks = {k. k < blockcount sl \<and> unallocated (maps (heal sl) ! k) \<noteq> 0}"
    unfolding ks(3) maps_heal using l by auto
  moreover have "\<forall>k < blockcount sl. map_ok (OBJWORDSPERBLOCK sl) (OBJSPERBLOCK sl) (maps (heal sl) ! k)"
    unfolding maps_heal using assms l by (auto simp: slab_ok_def map_ok_def)
  moreover have "geometry_ok (heal sl)" using assms by (simp add: slab_ok_def geometry_ok_def)
  ultimately show ?thesis using assms ks(2) l unfolding slab_ok_def by (simp add: maps_heal) blast
qed

lemma full_blocks:
  assumes "slab_ok sl" "nonfull_usemaps sl = None" "k < blockcount sl"
  shows "unallocated (maps sl ! k) = 0"
proof -
  obtain ks where "nonfull_chain (maps sl) None ks" "set ks = {k. k < blockcount sl \<and> unallocated (maps sl ! k) \<noteq> 0}"
    using assms(1,2) by (auto simp: slab_ok_def)
  then show ?thesis using assms(3) by (cases ks) auto
qed

lemma add_slalloc_page_spec:
  assumes ok: "slab_ok sl" "nonfull_usemaps sl = None"
  obtains (added) sl' m' where "add_slalloc_page sl addr raw m = (False, sl', m')" "slab_ok sl'"
      "blockcount sl' = blockcount sl + 1" "pages sl' = pages sl @ [addr]" "\<And>k i. live sl' k i \<longleftrightarrow> live sl k i"
      "nonfull_usemaps sl' \<noteq> None" "objsize sl' = objsize sl" "pgsize sl' = pgsize sl"
      "objsperpage sl' = objsperpage sl" "pagesperblock sl' = pagesperblock sl" "plentiful m \<longrightarrow> plentiful m'"
  | (refused) sl' m' where "add_slalloc_page sl addr raw m = (True, sl', m')" "slab_ok sl' \<and> nonfull_usemaps sl' = None \<or> dangling sl' \<and> slab_ok (heal sl') \<and> stale sl'"
      "same_shape sl sl'" "\<And>k i. live sl' k i \<longleftrightarrow> live sl k i" "\<not> plentiful m"
proof -
  let ?n = "blockcount sl + 1"
  obtain o1 m1 where r1: "Realloc (pgarray sl \<noteq> None) (8 * ?n) m = (o1, m1)"
    by (cases "Realloc (pgarray sl \<noteq> None) (8 * ?n) m")
  have p1: "o1 \<and> plentiful m1" if "plentiful m"
    using Realloc_plentiful [OF that, of "8 * ?n" "pgarray sl \<noteq> None"] r1 by auto
  define sl1 where "sl1 = sl\<lparr>pgarray := Some (pages sl)\<rparr>"
  have ok1: "slab_ok sl1" unfolding sl1_def by (rule slab_ok_reallocs(1) [OF ok(1)])
  obtain o2 m2 where r2: "Realloc (usemaps sl \<noteq> None) (24 * ?n) m1 = (o2, m2)"
    by (cases "Realloc (usemaps sl \<noteq> None) (24 * ?n) m1")
  have p2: "o2 \<and> plentiful m2" if "plentiful m1"
    using Realloc_plentiful [OF that, of "24 * ?n" "usemaps sl \<noteq> None"] r2 by auto
  define sl2 where "sl2 = sl1\<lparr>usemaps := Some (maps sl1)\<rparr>"
  have ok2: "slab_ok sl2" unfolding sl2_def by (rule slab_ok_reallocs(2) [OF ok1])
  have e2: "blockcount sl2 = blockcount sl" "pages sl2 = pages sl" "maps sl2 = maps sl" "nonfull_usemaps sl2 = None"
    "objsize sl2 = objsize sl" "pgsize sl2 = pgsize sl" "objsperpage sl2 = objsperpage sl"
    "pagesperblock sl2 = pagesperblock sl"
    using ok(2) by (simp_all add: sl2_def sl1_def)
  have lv: "live sl1 k i \<longleftrightarrow> live sl k i" "live sl2 k i \<longleftrightarrow> live sl k i" for k i
    by (simp_all add: live_def sl1_def sl2_def)
  have sh: "same_shape sl sl1" "same_shape sl sl2" by (simp_all add: same_shape_def sl1_def sl2_def)
  have g2: "geometry_ok sl2" using ok2 by (simp add: slab_ok_def)
  obtain o3 m3 where r3: "Malloc (8 * OBJWORDSPERBLOCK sl2) m2 = (o3, m3)"
    by (cases "Malloc (8 * OBJWORDSPERBLOCK sl2) m2")
  have wpos: "0 < 8 * OBJWORDSPERBLOCK sl2" using words_cover [of sl2] OBJSPERBLOCK_pos [OF g2] by simp
  have p3: "o3 \<and> plentiful m3" if "plentiful m2"
    using Malloc_plentiful [OF that wpos] r3 by auto
  define pd where "pd = \<lparr>usemap = Some (replicate (OBJWORDSPERBLOCK sl2) 0),
    unallocated = word_of_nat (OBJSPERBLOCK sl2), next_nonfull = None\<rparr>"
  define sl3 where "sl3 = (last_map sl2 pd)\<lparr>nonfull_usemaps := Some (blockcount sl2)\<rparr>"
  obtain pg m4 where r4: "fistful_of_pages addr (pgsize sl2) (uintlog2 (word_of_nat (pagesperblock sl2))) m3 = (pg, m4)"
    by (cases "fistful_of_pages addr (pgsize sl2) (uintlog2 (word_of_nat (pagesperblock sl2))) m3")
  note ord = pagesperblock_order [OF g2]
  have f4: "fistful_of_pages addr (pgsize sl2) (uintlog2 (word_of_nat (pagesperblock sl2))) m3 =
      (case Mmalloc (pgsize sl2 * pagesperblock sl2) m3 of (False, m) \<Rightarrow> (None, m) | (True, m) \<Rightarrow> (Some addr, m))"
    using ord by (simp add: fistful_of_pages_def snatch_contiguous_pages_def)
  have pz: "0 < pgsize sl2 * pagesperblock sl2"
    using g2 ord(4) by (auto simp: geometry_ok_def intro: gr0I)
  have p4: "pg = Some addr \<and> plentiful m4" if "plentiful m3"
    using Mmalloc_plentiful [OF that pz] r4 f4 by auto
  have pga: "pg = None \<or> pg = Some addr" using r4 f4 by (auto split: prod.splits bool.splits)
  have e3: "pgsize sl3 = pgsize sl2" "pagesperblock sl3 = pagesperblock sl2" "blockcount sl3 = blockcount sl2"
    "pages sl3 = pages sl2"
    by (simp_all add: sl3_def last_map_def)
  have i3: "init_usemap sl2 raw m2 = (if o3 then (False, sl3, m3) else (True, last_map sl2 (raw\<lparr>usemap := None\<rparr>), m3))"
    using r3 e2(4) by (simp add: init_usemap_def sl3_def pd_def split: bool.splits)
  have a1: "add_slalloc_page sl addr raw m = (True, sl, m1)" if "\<not> o1"
    using that r1 by (simp add: add_slalloc_page_def)
  have a2: "add_slalloc_page sl addr raw m = (True, sl1, m2)" if o1 "\<not> o2"
    using that r1 r2 by (simp add: add_slalloc_page_def sl1_def Let_def)
  have a3: "add_slalloc_page sl addr raw m = (case (if o3 then (False, sl3, m3) else (True, last_map sl2 (raw\<lparr>usemap := None\<rparr>), m3)) of
      (True, sl3, m3) \<Rightarrow> (True, sl3, m3)
    | (False, sl3, m3) \<Rightarrow>
        (case fistful_of_pages addr (pgsize sl3) (uintlog2 (word_of_nat (pagesperblock sl3))) m3 of
           (None, m4) \<Rightarrow> (case reset_usemap (maps sl3 ! blockcount sl3) m4 of (pd, m5) \<Rightarrow> (True, last_map sl3 pd, m5))
         | (Some newpages, m4) \<Rightarrow>
             (False, sl3\<lparr>pgarray := Some (take (blockcount sl3) (pages sl3) @ [newpages]), blockcount := blockcount sl3 + 1\<rparr>, m4)))"
    if o1 o2
    unfolding i3 [symmetric] using that r1 r2 by (simp add: add_slalloc_page_def sl1_def sl2_def Let_def)
  have l2: "length (take (blockcount sl) (maps sl)) = blockcount sl" using ok(1) by (simp add: slab_ok_def)
  consider "\<not> o1" | "o1" "\<not> o2" | "o1" "o2" "\<not> o3" | "o1" "o2" "o3" "pg = None" | "o1" "o2" "o3" "pg = Some addr"
    using pga by blast
  then show thesis
  proof cases
    case 1
    then show thesis using ok p1 by (intro refused [OF a1]) (auto simp: same_shape_def)
  next
    case 2
    moreover have "nonfull_usemaps sl1 = None" using ok(2) by (simp add: sl1_def)
    ultimately show thesis using ok1 p1 p2 lv sh by (intro refused [OF a2]) auto
  next
    case 3
    then have a: "add_slalloc_page sl addr raw m = (True, last_map sl2 (raw\<lparr>usemap := None\<rparr>), m3)" using a3 by simp
    have "nonfull_usemaps (last_map sl2 (raw\<lparr>usemap := None\<rparr>)) = None" using e2(4) by (simp add: last_map_def)
    show thesis
    proof (rule refused [OF a])
      show "slab_ok (last_map sl2 (raw\<lparr>usemap := None\<rparr>)) \<and> nonfull_usemaps (last_map sl2 (raw\<lparr>usemap := None\<rparr>)) = None \<or>
          dangling (last_map sl2 (raw\<lparr>usemap := None\<rparr>)) \<and> slab_ok (heal (last_map sl2 (raw\<lparr>usemap := None\<rparr>))) \<and>
          stale (last_map sl2 (raw\<lparr>usemap := None\<rparr>))"
        using last_map_full(1) [OF ok2 e2(4)] \<open>nonfull_usemaps (last_map sl2 _) = None\<close> by blast
      show "same_shape sl (last_map sl2 (raw\<lparr>usemap := None\<rparr>))"
        using last_map_full(2) [OF ok2 e2(4)] sh(2) by (simp add: same_shape_def)
    qed (use last_map_full(3) [OF ok2 e2(4)] lv p1 p2 p3 3 in auto)
  next
    case 4
    define q where "q = (maps sl3 ! blockcount sl3)\<lparr>usemap := None\<rparr>"
    have a: "add_slalloc_page sl addr raw m = (True, last_map sl3 q, Free (usemap (maps sl3 ! blockcount sl3) \<noteq> None) m4)"
      using a3 4 r4 by (simp add: e3 reset_usemap_def q_def)
    have mp: "maps (last_map sl3 q) = take (blockcount sl) (maps sl) @ [q]"
      using l2 by (simp add: last_map_def sl3_def e2)
    have "dangling (last_map sl3 q)"
      unfolding dangling_def mp
    proof (intro exI conjI)
      show "nonfull_usemaps (last_map sl3 q) = Some (blockcount sl)" by (simp add: last_map_def sl3_def e2)
      show "blockcount sl < length (take (blockcount sl) (maps sl) @ [q])" using l2 by simp
      show "usemap ((take (blockcount sl) (maps sl) @ [q]) ! blockcount sl) = None"
        using nth_append_length [of "take (blockcount sl) (maps sl)" q "[]"] unfolding l2 by (simp add: q_def)
    qed
    moreover have "slab_ok (heal (last_map sl3 q))"
    proof -
      have "heal (last_map sl3 q) = heal (last_map sl2 q)"
        using ok(1) by (simp add: heal_def sl3_def last_map_def e2 unlink_def slab_ok_def)
      then show ?thesis using slab_ok_heal [OF last_map_full(1) [OF ok2 e2(4)]] by simp
    qed
    moreover have "stale (last_map sl3 q)"
    proof -
      have "blockcount (last_map sl3 q) = blockcount sl" "nonfull_usemaps (last_map sl3 q) = Some (blockcount sl)"
        by (simp_all add: last_map_def sl3_def e2)
      moreover have "(take (blockcount sl) (maps sl) @ [q]) ! blockcount sl = q"
        using nth_append_length [of "take (blockcount sl) (maps sl)" q "[]"] unfolding l2 by simp
      ultimately show ?thesis unfolding stale_def mp using l2 full_blocks [OF ok] by (simp add: nth_append) (simp add: q_def)
    qed
    moreover have "same_shape sl (last_map sl3 q)" using sh(2) by (simp add: same_shape_def last_map_def sl3_def)
    moreover have "live (last_map sl3 q) k i \<longleftrightarrow> live sl k i" for k i
    proof (rule live_maps)
      show "\<forall>k < blockcount sl. maps (last_map sl3 q) ! k = maps sl ! k" unfolding mp using l2 by (simp add: nth_append)
      show "blockcount (last_map sl3 q) = blockcount sl" by (simp add: last_map_def sl3_def e2)
    qed
    ultimately show thesis using p1 p2 p3 p4 4 by (intro refused [OF a]) auto
  next
    case 5
    define sl' where "sl' = (last_map sl2 pd)\<lparr>nonfull_usemaps := Some (blockcount sl2),
      pgarray := Some (take (blockcount sl2) (pages sl2) @ [addr]), blockcount := blockcount sl2 + 1\<rparr>"
    have a: "add_slalloc_page sl addr raw m = (False, sl', m4)"
      using a3 5 r4 by (simp add: e3) (simp add: sl'_def sl3_def)
    have mo: "map_ok (OBJWORDSPERBLOCK sl2) (OBJSPERBLOCK sl2) pd" "unallocated pd \<noteq> 0"
      unfolding pd_def by (rule map_ok_fresh [OF g2])+
    note gr = slab_ok_grow [OF ok2 e2(4) mo, of "replicate (OBJWORDSPERBLOCK sl2) 0", folded sl'_def]
    have pdw: "next_nonfull pd = None" "usemap pd = Some (replicate (OBJWORDSPERBLOCK sl2) 0)" by (simp_all add: pd_def)
    note gr' = gr [OF pdw busy_replicate]
    have "plentiful m \<longrightarrow> plentiful m4" using p1 p2 p3 p4 by blast
    then show thesis using gr' lv e2
      by (intro added [OF a]) (simp_all add: sl'_def last_map_def)
  qed
qed

subsection \<open>Addresses\<close>

abbreviation blocksize :: "slalloc \<Rightarrow> nat" where
  "blocksize sl \<equiv> pgsize sl * pagesperblock sl"

text \<open>The blocks do not overlap each other; a new one does not overlap them.\<close>

definition pages_apart :: "slalloc \<Rightarrow> bool" where
  "pages_apart sl \<longleftrightarrow>
     sorted_wrt (\<lambda>p q. p + blocksize sl \<le> q \<or> q + blocksize sl \<le> p) (pages sl)"

definition fresh_block :: "slalloc \<Rightarrow> nat \<Rightarrow> bool" where
  "fresh_block sl addr \<longleftrightarrow> (\<forall>p \<in> set (pages sl). p + blocksize sl \<le> addr \<or> addr + blocksize sl \<le> p)"

lemma pages_apartD:
  assumes "pages_apart sl" "j < length (pages sl)" "k < length (pages sl)" "j \<noteq> k"
  shows "pages sl ! j + blocksize sl \<le> pages sl ! k \<or> pages sl ! k + blocksize sl \<le> pages sl ! j"
proof -
  have "\<And>i j. i < j \<Longrightarrow> j < length (pages sl) \<Longrightarrow>
      pages sl ! i + blocksize sl \<le> pages sl ! j \<or> pages sl ! j + blocksize sl \<le> pages sl ! i"
    using assms(1) unfolding pages_apart_def sorted_wrt_iff_nth_less by blast
  from this [of j k] this [of k j] assms(2-4) show ?thesis by (cases "j < k") auto
qed

definition offset_in :: "slalloc \<Rightarrow> nat \<Rightarrow> nat" where
  "offset_in sl i = i div objsperpage sl * pgsize sl + i mod objsperpage sl * objsize sl"

lemma obj_address_offset: "obj_address sl k i = pages sl ! k + offset_in sl i"
  by (simp add: obj_address_def offset_in_def)

lemma offset_in_page:
  assumes "geometry_ok sl"
  shows "i mod objsperpage sl * objsize sl + objsize sl \<le> pgsize sl"
    and "offset_in sl i div pgsize sl = i div objsperpage sl"
    and "offset_in sl i mod pgsize sl = i mod objsperpage sl * objsize sl"
proof -
  have g: "0 < objsize sl" "0 < objsperpage sl" "objsperpage sl * objsize sl \<le> pgsize sl"
    using assms by (auto simp: geometry_ok_def)
  have "Suc (i mod objsperpage sl) * objsize sl \<le> objsperpage sl * objsize sl"
    using g(2) by (intro mult_le_mono1) (simp add: Suc_leI)
  with g(3) show le: "i mod objsperpage sl * objsize sl + objsize sl \<le> pgsize sl" by simp
  then have lt: "i mod objsperpage sl * objsize sl < pgsize sl" using g(1) by linarith
  then show "offset_in sl i div pgsize sl = i div objsperpage sl"
    "offset_in sl i mod pgsize sl = i mod objsperpage sl * objsize sl"
    by (simp_all add: offset_in_def)
qed

lemma offset_in_block:
  assumes "geometry_ok sl" "i < OBJSPERBLOCK sl"
  shows "offset_in sl i + objsize sl \<le> blocksize sl"
proof -
  have "i div objsperpage sl < pagesperblock sl"
    using assms by (simp add: less_mult_imp_div_less OBJSPERBLOCK_def mult.commute)
  then have "(i div objsperpage sl + 1) * pgsize sl \<le> pagesperblock sl * pgsize sl"
    by (intro mult_le_mono1) simp
  with offset_in_page(1) [OF assms(1), of i] show ?thesis
    unfolding offset_in_def by (simp add: mult.commute)
qed

lemma offset_in_apart:
  assumes g: "geometry_ok sl" and "i < j"
  shows "offset_in sl i + objsize sl \<le> offset_in sl j"
proof (cases "i div objsperpage sl = j div objsperpage sl")
  case True
  then have "i mod objsperpage sl < j mod objsperpage sl" using assms(2) by (metis div_mult_mod_eq nat_add_left_cancel_less)
  then have "Suc (i mod objsperpage sl) * objsize sl \<le> j mod objsperpage sl * objsize sl"
    by (intro mult_le_mono1) simp
  with True show ?thesis by (simp add: offset_in_def)
next
  case False
  have "i div objsperpage sl \<le> j div objsperpage sl" using assms(2) by (intro div_le_mono) simp
  with False have "(i div objsperpage sl + 1) * pgsize sl \<le> j div objsperpage sl * pgsize sl"
    by (intro mult_le_mono1) simp
  with offset_in_page(1) [OF g, of i] show ?thesis unfolding offset_in_def by simp
qed

lemma obj_address_apart:
  assumes g: "geometry_ok sl" and a: "pages_apart sl" and k: "k < length (pages sl)" "k' < length (pages sl)"
    and i: "i < OBJSPERBLOCK sl" "i' < OBJSPERBLOCK sl" "(k, i) \<noteq> (k', i')"
  shows "obj_address sl k i + objsize sl \<le> obj_address sl k' i' \<or> obj_address sl k' i' + objsize sl \<le> obj_address sl k i"
proof (cases "k = k'")
  case True
  with i(3) have "i < i' \<or> i' < i" by auto
  with True offset_in_apart [OF g] show ?thesis by (auto simp: obj_address_offset)
next
  case False
  with pages_apartD [OF a k] offset_in_block [OF g i(1)] offset_in_block [OF g i(2)]
  show ?thesis unfolding obj_address_offset by linarith
qed

lemma find_block_from_nth:
  "k < length ps \<Longrightarrow> ps ! k \<le> obj \<Longrightarrow> obj < ps ! k + b \<Longrightarrow> \<forall>j < k. obj < ps ! j \<or> ps ! j + b \<le> obj \<Longrightarrow>
   find_block_from ps b obj z = Some (z + k)"
proof (induction ps arbitrary: k z)
  case (Cons p ps)
  show ?case
  proof (cases k)
    case (Suc k')
    have "obj < p \<or> p + b \<le> obj" using Cons.prems(4) Suc by auto
    moreover have "\<forall>j < k'. obj < ps ! j \<or> ps ! j + b \<le> obj" using Cons.prems(4) Suc by fastforce
    ultimately show ?thesis using Cons Suc by auto
  qed (use Cons.prems in simp)
qed simp

lemma find_block_idx_obj:
  assumes g: "geometry_ok sl" and a: "pages_apart sl" and k: "k < length (pages sl)" and i: "i < OBJSPERBLOCK sl"
  shows "find_block_idx sl (obj_address sl k i) = Some k"
proof -
  let ?o = "obj_address sl k i"
  have s: "0 < objsize sl" using g by (simp add: geometry_ok_def)
  have o: "pages sl ! k \<le> ?o" "?o < pages sl ! k + blocksize sl"
    using offset_in_block [OF g i] s unfolding obj_address_offset by linarith+
  have "\<forall>j < k. ?o < pages sl ! j \<or> pages sl ! j + blocksize sl \<le> ?o"
  proof (intro allI impI)
    fix j assume "j < k"
    with pages_apartD [OF a, of j k] k o show "?o < pages sl ! j \<or> pages sl ! j + blocksize sl \<le> ?o" by linarith
  qed
  from find_block_from_nth [OF k o this, of 0] show ?thesis by (simp add: find_block_idx_def)
qed

subsection \<open>Freeing\<close>

lemma slalloc_free_spec:
  assumes ok: "slab_ok sl" and a: "pages_apart sl" and l: "live sl k i"
  obtains sl' where "slalloc_free sl (obj_address sl k i) = Some sl'" "slab_ok sl'" "same_shape sl sl'"
    "\<And>k' i'. live sl' k' i' \<longleftrightarrow> live sl k' i' \<and> (k', i') \<noteq> (k, i)"
proof -
  obtain ws where k: "k < blockcount sl" and ws: "usemap (maps sl ! k) = Some ws" "i \<in> busy ws"
    using l by (auto simp: live_def)
  have g: "geometry_ok sl" and kp: "k < length (pages sl)" and kl: "k < length (maps sl)"
    and m: "map_ok (OBJWORDSPERBLOCK sl) (OBJSPERBLOCK sl) (maps sl ! k)"
    using ok k by (auto simp: slab_ok_def)
  from m ws have i: "i < OBJSPERBLOCK sl" by (auto simp: map_ok_def)
  define pd where "pd = maps sl ! k"
  define ws' where "ws' = ws[i div 64 := ws ! (i div 64) AND NOT (push_bit (i mod 64) 1)]"
  have lt: "OBJSPERBLOCK sl < 2 ^ 32" using g by (simp add: geometry_ok_def)
  note mc = map_ok_clear [OF m ws lt, folded ws'_def pd_def]
  have "objsize sl > 0" using g by (simp add: geometry_ok_def)
  then have idx: "(obj_address sl k i - pages sl ! k) div pgsize sl * objsperpage sl +
      (obj_address sl k i - pages sl ! k) mod pgsize sl div objsize sl = i"
    using offset_in_page(2,3) [OF g, of i] by (simp add: obj_address_offset)
  define full where "full = (unallocated pd = 0)"
  define pd' where "pd' = pd\<lparr>usemap := Some ws', unallocated := unallocated pd + 1,
    next_nonfull := (if full then nonfull_usemaps sl else next_nonfull pd)\<rparr>"
  define start where "start = (if full then Some k else nonfull_usemaps sl)"
  define sl' where "sl' = sl\<lparr>usemaps := Some ((maps sl)[k := pd']), nonfull_usemaps := start\<rparr>"
  have f: "slalloc_free sl (obj_address sl k i) = Some sl'"
  proof -
    have e: "pd\<lparr>usemap := Some ws', unallocated := unallocated pd + 1, next_nonfull := next_nonfull pd\<rparr> =
        pd\<lparr>usemap := Some ws', unallocated := unallocated pd + 1\<rparr>" by simp
    have e2: "sl\<lparr>usemaps := x, nonfull_usemaps := nonfull_usemaps sl\<rparr> = sl\<lparr>usemaps := x\<rparr>" for x by simp
    show ?thesis
      unfolding slalloc_free_def find_block_idx_obj [OF g a kp i] option.case Let_def idx OBJSPERWORD_def
        ws(1) pd_def [symmetric] ws'_def [symmetric] sl'_def start_def pd'_def
      using mc(1) ws(1) by (cases full) (simp_all add: full_def pd_def not_le ws'_def)
  qed
  obtain ks where ks: "nonfull_chain (maps sl) (nonfull_usemaps sl) ks" "distinct ks"
    "set ks = {k. k < blockcount sl \<and> unallocated (maps sl ! k) \<noteq> 0}" using ok by (auto simp: slab_ok_def)
  define ks' where "ks' = (if full then k # ks else ks)"
  have kin: "k \<in> set ks \<longleftrightarrow> \<not> full" using ks(3) k by (simp add: full_def pd_def)
  have nx: "\<forall>j \<in> set ks. next_nonfull ((maps sl)[k := pd'] ! j) = next_nonfull (maps sl ! j)"
    using kin kl by (auto simp: nth_list_update pd'_def pd_def)
  have ch: "nonfull_chain ((maps sl)[k := pd']) (nonfull_usemaps sl) ks"
    using chain_cong [OF ks(1) _ nx] by simp
  have c1: "nonfull_chain ((maps sl)[k := pd']) start ks'"
  proof (cases full)
    case True
    have "next_nonfull ((maps sl)[k := pd'] ! k) = nonfull_usemaps sl" using kl True by (simp add: pd'_def)
    with ch kl True show ?thesis by (simp add: ks'_def start_def)
  qed (use ch in \<open>simp add: ks'_def start_def\<close>)
  have c2: "distinct ks'" using ks(2) kin by (simp add: ks'_def)
  have "unallocated pd' \<noteq> 0" using mc(5) by (simp add: pd'_def)
  then have c3: "set ks' = {j. j < blockcount sl \<and> (if j = k then unallocated pd' else unallocated (maps sl ! j)) \<noteq> 0}"
    using ks(3) k kin by (auto simp: ks'_def)
  have mo: "map_ok (OBJWORDSPERBLOCK sl) (OBJSPERBLOCK sl) pd'"
    using mc(3) by (simp add: pd'_def)
  note up = slab_ok_update [OF ok k mo c1 c2 c3, folded sl'_def]
  have "live sl' k' i' \<longleftrightarrow> live sl k' i' \<and> (k', i') \<noteq> (k, i)" for k' i'
    unfolding up(3) using k ws mc(2) by (auto simp: live_def pd'_def)
  with f up(1,2) show thesis by (intro that)
qed

subsection \<open>The objects in use\<close>

lemma filter_words:
  "concat (map (\<lambda>z. map (\<lambda>y. f (z * 64 + y)) (filter (\<lambda>y. bit (ws ! z) y) [0..<64])) [0..<n]) =
   map f (filter (\<lambda>i. bit (ws ! (i div 64)) (i mod 64)) [0..<n * 64])"
proof (induction n)
  case (Suc n)
  have "[n * 64..<Suc n * 64] = map (\<lambda>y. n * 64 + y) [0..<64]"
    using map_add_upt [of "n * 64" 64] by (simp add: add.commute)
  then have "[0..<Suc n * 64] = [0..<n * 64] @ map (\<lambda>y. n * 64 + y) [0..<64]"
    by (metis upt_add_eq_append le0 mult_Suc add.commute plus_nat.add_0)
  moreover have "filter (\<lambda>y. bit (ws ! ((n * 64 + y) div 64)) ((n * 64 + y) mod 64)) [0..<64] =
      filter (\<lambda>y. bit (ws ! n) y) [0..<64]"
    by (rule filter_cong) auto
  ultimately show ?case using Suc by (simp add: filter_map comp_def)
qed simp

lemma block_objs_eq:
  assumes "usemap (maps sl ! p) = Some ws" "length ws = OBJWORDSPERBLOCK sl"
  shows "block_objs sl p = map (obj_address sl p) (filter (\<lambda>i. i \<in> busy ws) [0..<64 * OBJWORDSPERBLOCK sl])"
proof -
  have "map (\<lambda>z. word_objs sl p z (ws ! z)) [0..<OBJWORDSPERBLOCK sl] =
      map (\<lambda>z. map (\<lambda>y. obj_address sl p (z * 64 + y)) (filter (\<lambda>y. bit (ws ! z) y) [0..<64])) [0..<OBJWORDSPERBLOCK sl]"
    by (rule map_cong) (auto simp: word_objs_def OBJSPERTHISWORD_def OBJSPERWORD_def)
  then have "block_objs sl p =
      map (obj_address sl p) (filter (\<lambda>i. bit (ws ! (i div 64)) (i mod 64)) [0..<OBJWORDSPERBLOCK sl * 64])"
    using assms(1) by (simp only: block_objs_def option.case filter_words)
  also have "filter (\<lambda>i. bit (ws ! (i div 64)) (i mod 64)) [0..<OBJWORDSPERBLOCK sl * 64] =
      filter (\<lambda>i. i \<in> busy ws) [0..<OBJWORDSPERBLOCK sl * 64]"
    by (rule filter_cong) (auto simp: busy_def used_def assms(2) less_mult_imp_div_less)
  finally show ?thesis by (simp only: mult.commute)
qed

lemma live_bound:
  assumes "slab_ok sl" "live sl k i"
  shows "k < length (pages sl)" "i < OBJSPERBLOCK sl"
proof -
  obtain ws where k: "k < blockcount sl" and w: "usemap (maps sl ! k) = Some ws" "i \<in> busy ws"
    using assms(2) unfolding live_def by blast
  have "map_ok (OBJWORDSPERBLOCK sl) (OBJSPERBLOCK sl) (maps sl ! k)" using assms(1) k by (simp add: slab_ok_def)
  then have "busy ws \<subseteq> {..<OBJSPERBLOCK sl}" using w(1) by (simp add: map_ok_def)
  with w(2) show "i < OBJSPERBLOCK sl" by auto
  show "k < length (pages sl)" using assms(1) k by (simp add: slab_ok_def)
qed

lemma set_used_objs:
  assumes "slab_ok sl"
  shows "set (used_objs sl) = {obj_address sl k i | k i. live sl k i}"
proof -
  have "set (block_objs sl k) = {obj_address sl k i | i. live sl k i}" if "k < blockcount sl" for k
  proof -
    have "map_ok (OBJWORDSPERBLOCK sl) (OBJSPERBLOCK sl) (maps sl ! k)" using assms that by (simp add: slab_ok_def)
    then obtain ws where ws: "usemap (maps sl ! k) = Some ws" "length ws = OBJWORDSPERBLOCK sl" "busy ws \<subseteq> {..<OBJSPERBLOCK sl}"
      by (auto simp: map_ok_def)
    then have "busy ws \<subseteq> {..<64 * OBJWORDSPERBLOCK sl}" using words_cover [of sl] by fastforce
    then show ?thesis using ws that by (auto simp: block_objs_eq live_def)
  qed
  then have "(\<Union>k \<in> {..<blockcount sl}. set (block_objs sl k)) =
      (\<Union>k \<in> {..<blockcount sl}. {obj_address sl k i | i. live sl k i})" by (intro SUP_cong) auto
  also have "\<dots> = {obj_address sl k i | k i. live sl k i}" unfolding live_def by blast
  moreover have "set (used_objs sl) = (\<Union>k \<in> {..<blockcount sl}. set (block_objs sl k))"
    by (simp add: used_objs_def lessThan_atLeast0)
  ultimately show ?thesis by simp
qed

lemma obj_address_inj:
  assumes ok: "slab_ok sl" and a: "pages_apart sl" and l: "live sl k i" "live sl k' i'"
    and e: "obj_address sl k i = obj_address sl k' i'"
  shows "k = k' \<and> i = i'"
proof (rule ccontr)
  assume "\<not> (k = k' \<and> i = i')"
  moreover have g: "geometry_ok sl" using ok by (simp add: slab_ok_def)
  ultimately have "obj_address sl k i + objsize sl \<le> obj_address sl k' i' \<or> obj_address sl k' i' + objsize sl \<le> obj_address sl k i"
    using live_bound [OF ok l(1)] live_bound [OF ok l(2)] by (intro obj_address_apart [OF _ a]) auto
  moreover have "0 < objsize sl" using g by (simp add: geometry_ok_def)
  ultimately show False using e by linarith
qed

lemma distinct_used_objs:
  assumes ok: "slab_ok sl" and a: "pages_apart sl"
  shows "distinct (used_objs sl)"
proof -
  have m: "\<exists>ws. usemap (maps sl ! k) = Some ws \<and> length ws = OBJWORDSPERBLOCK sl" if "k < blockcount sl" for k
    using ok that by (auto simp: slab_ok_def map_ok_def)
  have d: "distinct (block_objs sl k)" if k: "k < blockcount sl" for k
  proof -
    obtain ws where ws: "usemap (maps sl ! k) = Some ws" "length ws = OBJWORDSPERBLOCK sl" using m [OF k] by blast
    have "inj_on (obj_address sl k) (busy ws)"
    proof (rule inj_onI)
      fix x y assume "x \<in> busy ws" "y \<in> busy ws" and e: "obj_address sl k x = obj_address sl k y"
      with ws(1) k have "live sl k x" "live sl k y" by (simp_all add: live_def)
      from obj_address_inj [OF ok a this e] show "x = y" ..
    qed
    then show ?thesis by (auto simp: block_objs_eq [OF ws] distinct_map intro: inj_on_subset)
  qed
  have dj: "set (block_objs sl j) \<inter> set (block_objs sl k) = {}" if jk: "j < blockcount sl" "k < blockcount sl" "j \<noteq> k" for j k
  proof -
    obtain ws ws' where ws: "usemap (maps sl ! j) = Some ws" "length ws = OBJWORDSPERBLOCK sl"
      "usemap (maps sl ! k) = Some ws'" "length ws' = OBJWORDSPERBLOCK sl" using m [OF jk(1)] m [OF jk(2)] by blast
    show ?thesis using obj_address_inj [OF ok a, of j _ k] jk ws
      by (auto simp: block_objs_eq live_def)
  qed
  have "distinct (concat (map (block_objs sl) [0..<n]))" if "n \<le> blockcount sl" for n
    using that
  proof (induction n)
    case (Suc n)
    have "\<forall>j \<in> {0..<n}. set (block_objs sl j) \<inter> set (block_objs sl n) = {}" using dj Suc.prems by simp
    then have "set (concat (map (block_objs sl) [0..<n])) \<inter> set (block_objs sl n) = {}" by auto
    moreover have "distinct (block_objs sl n)" "distinct (concat (map (block_objs sl) [0..<n]))" using Suc d by auto
    ultimately show ?case by simp
  qed simp
  then show ?thesis by (simp add: used_objs_def)
qed

subsection \<open>The interface: a pool of objects\<close>

text \<open>
  What a client of the allocator relies on: an object that is handed out was not in use, the
  rest stays in use, and freeing takes back just that object. \<open>good\<close> is the invariant,
  \<open>inuse\<close> the objects in use; \<open>fetch\<close> may also answer that there is none.
\<close>

locale object_pool =
  fixes fetch :: "'s \<Rightarrow> 'e \<Rightarrow> ('o option \<times> 's) option" and release :: "'s \<Rightarrow> 'o \<Rightarrow> 's option"
    and inuse :: "'s \<Rightarrow> 'o set" and good :: "'s \<Rightarrow> bool" and env_ok :: "'s \<Rightarrow> 'e \<Rightarrow> bool"
  assumes fetch_object: "good s \<Longrightarrow> env_ok s e \<Longrightarrow> fetch s e = Some (Some x, s') \<Longrightarrow>
      good s' \<and> x \<notin> inuse s \<and> inuse s' = insert x (inuse s)"
    and fetch_defined: "good s \<Longrightarrow> env_ok s e \<Longrightarrow> fetch s e \<noteq> None"
    and release_object: "good s \<Longrightarrow> x \<in> inuse s \<Longrightarrow>
      \<exists>s'. release s x = Some s' \<and> good s' \<and> inuse s' = inuse s - {x}"
begin

text \<open>Fetching and releasing leaves the objects in use as they were.\<close>

lemma fetch_release:
  assumes "good s" "env_ok s e" "fetch s e = Some (Some x, s1)"
  shows "\<exists>s2. release s1 x = Some s2 \<and> good s2 \<and> inuse s2 = inuse s"
proof -
  have f: "good s1" "x \<notin> inuse s" "inuse s1 = insert x (inuse s)"
    using fetch_object [OF assms] by auto
  then obtain s2 where "release s1 x = Some s2" "good s2" "inuse s2 = inuse s1 - {x}"
    using release_object [of s1 x] by auto
  with f show ?thesis by auto
qed

text \<open>Two objects fetched in a row are different.\<close>

lemma fetch_twice:
  assumes "good s" "env_ok s e" "fetch s e = Some (Some x, s1)" "env_ok s1 e1" "fetch s1 e1 = Some (Some y, s2)"
  shows "x \<noteq> y \<and> {x, y} \<subseteq> inuse s2"
proof -
  have f: "good s1" "inuse s1 = insert x (inuse s)" using fetch_object [OF assms(1-3)] by auto
  from fetch_object [OF f(1) assms(4,5)] f(2) show ?thesis by auto
qed

end

text \<open>The pages mmap answers do not overlap the blocks there are.\<close>

definition slab_good :: "slalloc \<Rightarrow> bool" where
  "slab_good sl \<longleftrightarrow> slab_ok sl \<and> pages_apart sl"

lemma fresh_block_apart:
  "slab_good sl \<Longrightarrow> fresh_block sl addr \<Longrightarrow> pages sl' = pages sl @ [addr] \<Longrightarrow> blocksize sl' = blocksize sl \<Longrightarrow>
   pages_apart sl'"
  by (auto simp: slab_good_def pages_apart_def fresh_block_def sorted_wrt_append)

lemma obj_address_same: "k < length (pages sl) \<Longrightarrow> pages sl' = pages sl @ ps \<Longrightarrow> pgsize sl' = pgsize sl \<Longrightarrow>
    objsize sl' = objsize sl \<Longrightarrow> objsperpage sl' = objsperpage sl \<Longrightarrow> obj_address sl' k i = obj_address sl k i"
  by (simp add: obj_address_def nth_append)

lemma used_objs_same:
  assumes "slab_ok sl" "slab_ok sl'" "\<And>k i. live sl' k i \<longleftrightarrow> live sl k i"
    "\<And>k i. live sl k i \<Longrightarrow> obj_address sl' k i = obj_address sl k i"
  shows "set (used_objs sl') = set (used_objs sl)"
  unfolding set_used_objs [OF assms(1)] set_used_objs [OF assms(2)] using assms(3,4) by (metis (no_types, lifting))

lemma same_shapeD:
  assumes "same_shape sl sl'"
  shows "obj_address sl' k i = obj_address sl k i" "pages_apart sl' = pages_apart sl" "pages sl' = pages sl"
    "objsize sl' = objsize sl" "blockcount sl' = blockcount sl" "OBJSPERBLOCK sl' = OBJSPERBLOCK sl"
    "blocksize sl' = blocksize sl"
  using assms by (auto simp: same_shape_def obj_address_def pages_apart_def OBJSPERBLOCK_def)

lemma take_first_unused_good:
  assumes "slab_good sl" "nonfull_usemaps sl \<noteq> None"
  obtains x sl' where "take_first_unused sl = Some (Some x, sl')" "slab_good sl'" "same_shape sl sl'"
    "x \<notin> set (used_objs sl)" "set (used_objs sl') = insert x (set (used_objs sl))"
    "\<exists>k i. k < blockcount sl \<and> i < OBJSPERBLOCK sl \<and> x = obj_address sl k i"
proof -
  have ok: "slab_ok sl" "pages_apart sl" using assms(1) by (simp_all add: slab_good_def)
  from ok(1) show thesis
  proof (cases rule: take_first_unused_spec)
    case full
    with assms(2) show thesis by simp
  next
    case (taken k i sl')
    note sh = same_shapeD [OF taken(6)]
    have g': "slab_good sl'" using taken(5) sh ok(2) by (simp add: slab_good_def)
    have u: "set (used_objs sl') = insert (obj_address sl k i) (set (used_objs sl))"
      unfolding set_used_objs [OF ok(1)] set_used_objs [OF taken(5)] sh(1) taken(7) by blast
    have "obj_address sl k i \<notin> set (used_objs sl)"
    proof
      assume "obj_address sl k i \<in> set (used_objs sl)"
      then obtain k' i' where l: "live sl k' i'" "obj_address sl k i = obj_address sl k' i'"
        unfolding set_used_objs [OF ok(1)] by blast
      have "live sl' k i" "live sl' k' i'" using taken(7) l(1) by auto
      from obj_address_inj [OF taken(5) _ this] l sh ok(2) taken(4) show False by auto
    qed
    with taken g' u show thesis by (intro that) auto
  qed
qed

lemma slalloc_new_spec:
  assumes g: "slab_good sl" and fr: "fresh_block sl addr"
  obtains (object) x sl' m' where "slalloc_new sl addr raw m = Some (Some x, sl', m')" "slab_good sl'"
      "x \<notin> set (used_objs sl)" "set (used_objs sl') = insert x (set (used_objs sl))" "objsize sl' = objsize sl"
      "plentiful m \<longrightarrow> plentiful m'" "blocksize sl' = blocksize sl"
  | (none) sl' m' where "slalloc_new sl addr raw m = Some (None, sl', m')"
      "slab_ok sl' \<or> dangling sl' \<and> slab_ok (heal sl') \<and> stale sl'" "\<And>k i. live sl' k i \<longleftrightarrow> live sl k i" "same_shape sl sl'" "\<not> plentiful m"
proof (cases "nonfull_usemaps sl")
  case (Some k)
  then have nf: "nonfull_usemaps sl \<noteq> None" by simp
  from g nf show thesis
  proof (cases rule: take_first_unused_good)
    case (1 x sl')
    have n: "slalloc_new sl addr raw m = Some (Some x, sl', m)" using 1(1) by (simp add: slalloc_new_def)
    show thesis using 1 same_shapeD(4,7) [OF 1(3)] by (intro object [OF n]) simp_all
  qed
next
  case None
  have ok: "slab_ok sl" using g by (simp add: slab_good_def)
  from ok have t: "take_first_unused sl = Some (None, sl)"
    by (cases rule: take_first_unused_spec) (use None in \<open>auto simp: take_first_unused_def\<close>)
  from ok None show thesis
  proof (cases rule: add_slalloc_page_spec [where addr = addr and raw = raw and m = m])
    case (added sl2 m2)
    have "blocksize sl2 = blocksize sl" using added by simp
    with added have g2: "slab_good sl2" using fresh_block_apart [OF g fr] by (simp add: slab_good_def)
    have oa: "obj_address sl2 k i = obj_address sl k i" if "live sl k i" for k i
      by (rule obj_address_same [OF live_bound(1) [OF ok that]]) (use added in simp_all)
    have u: "set (used_objs sl2) = set (used_objs sl)"
      by (rule used_objs_same [OF ok added(2,5) oa])
    from g2 added(6) show thesis
    proof (cases rule: take_first_unused_good)
      case (1 x sl')
      have n: "slalloc_new sl addr raw m = Some (Some x, sl', m2)" using t added(1) 1(1) by (simp add: slalloc_new_def)
      show thesis using 1(2,4,5) u added(7,11) same_shapeD(4,7) [OF 1(3)] \<open>blocksize sl2 = blocksize sl\<close>
        by (intro object [OF n]) simp_all
    qed
  next
    case (refused sl2 m2)
    then show thesis using t by (intro none [of sl2 m2]) (auto simp: slalloc_new_def)
  qed
qed

lemma slalloc_new_pages: "slalloc_new sl addr raw m = Some (r, sl', m') \<Longrightarrow> set (pages sl') \<subseteq> insert addr (set (pages sl))"
proof -
  have t: "pages s' = pages s" if "take_first_unused s = Some (x, s')" for s s' x
    using that by (auto simp: take_first_unused_def Let_def split: option.splits if_splits)
  have f: "x = addr" if "fistful_of_pages addr pgsz ord m1 = (Some x, m2)" for pgsz ord m1 x m2
    using that by (auto simp: fistful_of_pages_def snatch_contiguous_pages_def split: if_splits prod.splits bool.splits)
  have a: "set (pages s') \<subseteq> insert addr (set (pages s))" if "add_slalloc_page s addr raw m = (b, s', m1)" for s s' b m1
    using that
    by (auto simp: add_slalloc_page_def Let_def init_usemap_def last_map_def dest!: in_set_takeD f split: prod.splits bool.splits option.splits)
  assume n: "slalloc_new sl addr raw m = Some (r, sl', m')"
  then obtain x sl1 where x: "take_first_unused sl = Some (x, sl1)" by (auto simp: slalloc_new_def split: option.splits)
  show ?thesis
  proof (cases x)
    case None
    obtain b sl2 m2 where p: "add_slalloc_page sl1 addr raw m = (b, sl2, m2)" by (cases "add_slalloc_page sl1 addr raw m")
    from n x None p have "pages sl' = pages sl2"
      by (cases b) (auto simp: slalloc_new_def dest: t split: option.splits)
    with a [OF p] t [OF x] show ?thesis by simp
  next
    case (Some o1)
    with n x have "sl' = sl1" by (simp add: slalloc_new_def)
    with t [OF x] show ?thesis by auto
  qed
qed

lemma used_obj_positive:
  assumes "slab_ok sl" "\<forall>p \<in> set (pages sl). 0 < p" "x \<in> set (used_objs sl)"
  shows "0 < x"
proof -
  obtain k i where l: "live sl k i" and x: "x = obj_address sl k i" using assms(3) unfolding set_used_objs [OF assms(1)] by blast
  have "pages sl ! k \<in> set (pages sl)" by (rule nth_mem [OF live_bound(1) [OF assms(1) l]])
  with assms(2) show ?thesis unfolding x obj_address_offset by (simp add: add_pos_nonneg)
qed

lemma slalloc_free_good:
  assumes "slab_good sl" "x \<in> set (used_objs sl)"
  shows "\<exists>sl'. slalloc_free sl x = Some sl' \<and> slab_good sl' \<and> set (used_objs sl') = set (used_objs sl) - {x} \<and>
    objsize sl' = objsize sl"
proof -
  have ok: "slab_ok sl" "pages_apart sl" using assms(1) by (simp_all add: slab_good_def)
  obtain k i where l: "live sl k i" and x: "x = obj_address sl k i" using assms(2) unfolding set_used_objs [OF ok(1)] by blast
  from ok l obtain sl' where f: "slalloc_free sl (obj_address sl k i) = Some sl'" "slab_ok sl'" "same_shape sl sl'"
    "\<And>k' i'. live sl' k' i' \<longleftrightarrow> live sl k' i' \<and> (k', i') \<noteq> (k, i)" by (rule slalloc_free_spec) blast
  note sh = same_shapeD [OF f(3)]
  have "obj_address sl k' i' \<noteq> x" if "live sl k' i'" "(k', i') \<noteq> (k, i)" for k' i'
    using obj_address_inj [OF ok that(1) l] that(2) x by auto
  then have "set (used_objs sl') = set (used_objs sl) - {x}"
    unfolding set_used_objs [OF ok(1)] set_used_objs [OF f(2)] sh(1) f(4) using x by blast
  with f(1,2) sh ok x show ?thesis by (simp add: slab_good_def)
qed

lemma objects_apart:
  assumes "slab_good sl" "x \<in> set (used_objs sl)" "y \<in> set (used_objs sl)" "x \<noteq> y"
  shows "x + objsize sl \<le> y \<or> y + objsize sl \<le> x"
proof -
  have ok: "slab_ok sl" "pages_apart sl" "geometry_ok sl" using assms(1) by (simp_all add: slab_good_def slab_ok_def)
  obtain k i k' i' where l: "live sl k i" "live sl k' i'" and x: "x = obj_address sl k i" "y = obj_address sl k' i'"
    using assms(2,3) unfolding set_used_objs [OF ok(1)] by blast
  have "(k, i) \<noteq> (k', i')" using assms(4) x by auto
  with obj_address_apart [OF ok(3,2) live_bound(1) [OF ok(1) l(1)] live_bound(1) [OF ok(1) l(2)]
      live_bound(2) [OF ok(1) l(1)] live_bound(2) [OF ok(1) l(2)]]
  show ?thesis unfolding x by blast
qed

text \<open>The pool the allocator provides; the environment is the new block's address and the memory.\<close>

definition slab_fetch :: "slalloc \<Rightarrow> nat \<times> pgdata \<times> mem \<Rightarrow> (nat option \<times> slalloc) option" where
  "slab_fetch sl e =
     (case e of (addr, raw, m) \<Rightarrow> map_option (\<lambda>(x, sl', m'). (x, sl')) (slalloc_new sl addr raw m))"

interpretation slab: object_pool slab_fetch slalloc_free "\<lambda>sl. set (used_objs sl)" slab_good "\<lambda>sl e. fresh_block sl (fst e)"
proof unfold_locales
  fix s and e :: "nat \<times> pgdata \<times> mem" and x s'
  assume g: "slab_good s" "fresh_block s (fst e)" and f: "slab_fetch s e = Some (Some x, s')"
  obtain addr raw m where e: "e = (addr, raw, m)" by (cases e)
  obtain m' where n: "slalloc_new s addr raw m = Some (Some x, s', m')" using f by (auto simp: slab_fetch_def e)
  from g(2) have "fresh_block s addr" by (simp add: e)
  from g(1) this show "slab_good s' \<and> x \<notin> set (used_objs s) \<and> set (used_objs s') = insert x (set (used_objs s))"
    by (cases rule: slalloc_new_spec [where raw = raw and m = m]) (use n in auto)
next
  fix s and e :: "nat \<times> pgdata \<times> mem"
  assume g: "slab_good s" "fresh_block s (fst e)"
  obtain addr raw m where e: "e = (addr, raw, m)" by (cases e)
  from g(2) have "fresh_block s addr" by (simp add: e)
  from g(1) this show "slab_fetch s e \<noteq> None"
    by (cases rule: slalloc_new_spec [where raw = raw and m = m]) (auto simp: slab_fetch_def e)
next
  fix s x
  assume "slab_good s" "x \<in> set (used_objs s)"
  then show "\<exists>s'. slalloc_free s x = Some s' \<and> slab_good s' \<and> set (used_objs s') = set (used_objs s) - {x}"
    using slalloc_free_good by blast
qed

subsection \<open>Runs\<close>

text \<open>
  The states a client can reach: create, allocate (mmap answers a block apart from the
  others), whether an object or a null pointer comes back, free an object in use. Only an
  allocation that reads a freed map has no next state.
\<close>

inductive slab_step :: "slalloc \<times> mem \<Rightarrow> slalloc \<times> mem \<Rightarrow> bool" where
  New: "fresh_block sl addr \<Longrightarrow> slalloc_new sl addr raw m = Some (r, sl', m') \<Longrightarrow> slab_step (sl, m) (sl', m')"
| Release: "x \<in> set (used_objs sl) \<Longrightarrow> slalloc_free sl x = Some sl' \<Longrightarrow> slab_step (sl, m) (sl', m)"

inductive_cases slab_stepE: "slab_step (sl, m) (sl', m')"

inductive slab_reach :: "slalloc \<times> mem \<Rightarrow> bool" where
  Create: "create_slalloc osize pgsiz m = (Some sl, m') \<Longrightarrow> pgsiz < 2 ^ 31 \<Longrightarrow> slab_reach (sl, m')"
| Step: "slab_reach s \<Longrightarrow> slab_step s s' \<Longrightarrow> slab_reach s'"

lemma create_slalloc_good:
  assumes "create_slalloc osize pgsiz m = (Some sl, m')" "pgsiz < 2 ^ 31"
  shows "slab_good sl" "used_objs sl = []"
proof -
  define opp where "opp = nat pgsiz div osize"
  define ppb where "ppb = 64 div opp"
  have c: "0 < osize" "osize \<le> nat pgsiz" "0 < pgsiz" using assms(1) by (auto simp: create_slalloc_def split: if_splits)
  have sl: "blockcount sl = 0" "pgarray sl = None" "usemaps sl = None" "nonfull_usemaps sl = None" "objsperpage sl = opp"
    "objsize sl = osize" "pgsize sl = nat pgsiz"
    "pagesperblock sl = (if ppb = 0 then 1 else unat ((word_of_nat ppb :: u32) AND - word_of_nat ppb))"
    using assms(1) c by (auto simp: create_slalloc_def Let_def opp_def ppb_def OBJSPERWORD_def split: prod.splits bool.splits)
  have opp: "0 < opp" "opp * osize \<le> nat pgsiz" "opp \<le> nat pgsiz" using c by (simp_all add: opp_def div_greater_zero_iff)
  have "\<exists>e \<le> 6. pagesperblock sl = 2 ^ e \<and> opp * pagesperblock sl < 2 ^ 32"
  proof (cases "ppb = 0")
    case True
    with sl(8) opp(3) assms(2) show ?thesis by (intro exI [of _ 0]) simp
  next
    case False
    have le: "ppb \<le> 64" unfolding ppb_def by simp
    let ?w = "word_of_nat ppb :: u32"
    have u: "unat ?w = ppb" using le by (intro unat_word_of_nat) simp
    with False have "?w \<noteq> 0" by (metis unsigned_0)
    then obtain i where i: "i < LENGTH(32)" "bit ?w i" "?w AND - ?w = push_bit i 1" by (rule lowest_bit) blast
    have "bit ppb i" using i(2) u bit_unsigned_iff [of ?w i, where ?'a = nat] by simp
    then have p: "2 ^ i \<le> ppb" by (metis bit_above not_le order_refl)
    have "i \<le> 6"
    proof (rule ccontr)
      assume "\<not> i \<le> 6"
      then have "(2 :: nat) ^ 7 \<le> 2 ^ i" by (intro power_increasing) simp_all
      with p le show False by simp
    qed
    moreover have "pagesperblock sl = 2 ^ i"
    proof -
      have "(2 :: nat) ^ i < 2 ^ 32" using i(1) by (intro power_strict_increasing) simp_all
      then have "unat (word_of_nat (2 ^ i) :: u32) = 2 ^ i" by (intro unat_word_of_nat) simp
      moreover have "(push_bit i 1 :: u32) = word_of_nat (2 ^ i)" by simp
      ultimately show ?thesis using False by (simp only: sl(8) i(3) if_False)
    qed
    moreover have "opp * 2 ^ i \<le> 64" using p unfolding ppb_def
      by (metis mult.commute times_div_less_eq_dividend mult_le_mono2 order_trans)
    ultimately show ?thesis by (intro exI [of _ i]) simp
  qed
  then have "geometry_ok sl" unfolding geometry_ok_def OBJSPERBLOCK_def sl using c opp by blast
  then have "slab_ok sl" unfolding slab_ok_def sl by (intro conjI exI [of _ "[]"]) simp_all
  then show "slab_good sl" by (simp add: slab_good_def pages_apart_def sl)
  show "used_objs sl = []" by (simp add: used_objs_def sl)
qed

subsection \<open>After a failed page mapping\<close>

text \<open>
  The operations on a state with a freed map are those on the healed state, as long as the
  allocation does not start at the freed map.
\<close>

lemma pages_heal [simp]: "pages (heal sl) = pages sl"
  by simp

lemma obj_address_heal [simp]: "obj_address (heal sl) = obj_address sl"
  by (intro ext) (simp add: obj_address_def)

lemma OBJSPERTHISWORD_heal [simp]: "OBJSPERTHISWORD (heal sl) = OBJSPERTHISWORD sl"
proof
  fix z show "OBJSPERTHISWORD (heal sl) z = OBJSPERTHISWORD sl z"
    by (cases "z < OBJWORDSPERBLOCK sl") (simp_all add: OBJSPERTHISWORD_def)
qed

lemma pgdata_order: "pd\<lparr>next_nonfull := x, usemap := w, unallocated := u\<rparr> = pd\<lparr>usemap := w, unallocated := u, next_nonfull := x\<rparr>"
  by simp

lemma slalloc_order: "sl\<lparr>usemaps := u, nonfull_usemaps := n\<rparr> = sl\<lparr>nonfull_usemaps := n, usemaps := u\<rparr>" for sl :: slalloc
  by simp

lemma offset_in_heal [simp]: "offset_in (heal sl) = offset_in sl"
  by (intro ext) (simp add: offset_in_def)

lemma live_heal:
  assumes "blockcount sl \<le> length (maps sl)"
  shows "live (heal sl) k i \<longleftrightarrow> live sl k i"
  using assms by (auto simp: live_def maps_heal)

lemma used_objs_heal:
  assumes "blockcount sl \<le> length (maps sl)"
  shows "used_objs (heal sl) = used_objs sl"
proof -
  have "block_objs (heal sl) k = block_objs sl k" if "k < blockcount sl" for k
    using that assms by (simp add: block_objs_def maps_heal word_objs_def cong: option.case_cong)
  then have "map (block_objs (heal sl)) [0..<blockcount sl] = map (block_objs sl) [0..<blockcount sl]" by (intro map_cong) auto
  then show ?thesis by (simp only: used_objs_def heal_simps)
qed

lemma take_first_unused_links:
  assumes "take_first_unused sl = Some (Some x, sl')" "nonfull_usemaps sl = Some k"
  shows "\<exists>pd. maps sl' = (maps sl)[k := pd] \<and> next_nonfull pd = next_nonfull (maps sl ! k) \<and> blockcount sl' = blockcount sl \<and>
    (nonfull_usemaps sl' = Some k \<or> nonfull_usemaps sl' = next_nonfull (maps sl ! k))"
proof -
  obtain ws z rmost where w: "usemap (maps sl ! k) = Some ws" "first_unset ws 0 = Some (z, rmost)" "k < length (maps sl)"
    using assms by (auto simp: take_first_unused_def split: option.splits if_splits)
  define pd where "pd = (maps sl ! k)\<lparr>usemap := Some (ws[z := ws ! z OR rmost]), unallocated := unallocated (maps sl ! k) - 1\<rparr>"
  have "sl' = (if unallocated pd = 0 then sl\<lparr>usemaps := Some ((maps sl)[k := pd]), nonfull_usemaps := next_nonfull pd\<rparr>
      else sl\<lparr>usemaps := Some ((maps sl)[k := pd])\<rparr>)"
    using assms w by (simp add: take_first_unused_def Let_def pd_def split: if_splits)
  then show ?thesis using assms(2) by (intro exI [of _ pd]) (simp add: pd_def)
qed

lemma take_first_unused_heal:
  assumes "nonfull_usemaps sl = Some k" "k \<noteq> blockcount sl" "k < length (maps sl)"
  shows "take_first_unused (heal sl) = map_option (map_prod id heal) (take_first_unused sl)"
proof -
  have n: "nonfull_usemaps (heal sl) = Some k" using assms(1,2) by (simp add: unlink_def)
  obtain us where us: "usemaps sl = Some us" "k < length us" using assms(3) by (cases "usemaps sl") auto
  show ?thesis
  proof (cases "usemap (us ! k)")
    case None
    with us assms n show ?thesis by (simp add: take_first_unused_def maps_heal)
  next
    case (Some ws)
    show ?thesis
    proof (cases "first_unset ws 0")
      case None
      with us assms n Some show ?thesis by (simp add: take_first_unused_def maps_heal)
    next
      case (Some zr)
      obtain z rmost where "zr = (z, rmost)" by (rule prod.exhaust)
      with us assms n \<open>usemap (us ! k) = Some ws\<close> Some show ?thesis
        by (simp add: take_first_unused_def maps_heal Let_def) (auto simp: heal_def map_update pgdata_order slalloc_order)
    qed
  qed
qed

lemma slalloc_free_heal:
  assumes "length (pages sl) = blockcount sl" "blockcount sl \<le> length (maps sl)" "find_block_idx sl x = Some k" "k < blockcount sl"
  shows "slalloc_free (heal sl) x = map_option heal (slalloc_free sl x)"
proof -
  have f: "find_block_idx (heal sl) x = Some k" using assms(3) by (simp add: find_block_idx_def)
  obtain us where us: "usemaps sl = Some us" "k < length us" using assms(2,4) by (cases "usemaps sl") auto
  have u: "unlink (blockcount sl) (Some k) = Some k" using assms(4) by (simp add: unlink_def)
  show ?thesis
  proof (cases "usemap (us ! k)")
    case None
    with us f assms(3) show ?thesis by (simp add: slalloc_free_def maps_heal Let_def)
  next
    case (Some ws)
    with us f assms(3) u show ?thesis
      by (simp add: slalloc_free_def maps_heal Let_def) (auto simp: heal_def map_update pgdata_order slalloc_order)
  qed
qed


text \<open>What holds in every reachable state: it is good, or it was until a mapping failed.\<close>

definition orderly :: "slalloc \<Rightarrow> bool" where
  "orderly sl \<longleftrightarrow> slab_good sl \<or> slab_good (heal sl) \<and> stale sl"

lemma healed_good:
  assumes "slab_good (heal sl)"
  shows "length (pages sl) = blockcount sl" "blockcount sl \<le> length (maps sl)" "used_objs (heal sl) = used_objs sl" "pages_apart sl"
    "geometry_ok sl"
proof -
  have h: "slab_ok (heal sl)" "pages_apart (heal sl)" using assms by (simp_all add: slab_good_def)
  show l: "length (pages sl) = blockcount sl" "blockcount sl \<le> length (maps sl)" using h(1) by (simp_all add: slab_ok_def maps_heal)
  show "used_objs (heal sl) = used_objs sl" by (rule used_objs_heal [OF l(2)])
  show "pages_apart sl" using h(2) by (simp add: pages_apart_def)
  show "geometry_ok sl" using h(1) by (simp add: slab_ok_def geometry_ok_def)
qed

lemma orderly_healed:
  assumes "orderly sl"
  shows "slab_good (heal sl)"
proof (cases "slab_good sl")
  case True
  then have "slab_ok (heal sl)" "pages_apart sl" using slab_ok_heal by (simp_all add: slab_good_def)
  then show ?thesis by (simp add: slab_good_def pages_apart_def)
qed (use assms in \<open>simp add: orderly_def\<close>)

lemma good_not_dangling: "slab_good sl \<Longrightarrow> \<not> dangling sl"
proof -
  assume "slab_good sl"
  then have ok: "slab_ok sl" by (simp add: slab_good_def)
  then obtain ks where ks: "nonfull_chain (maps sl) (nonfull_usemaps sl) ks"
    "set ks = {k. k < blockcount sl \<and> unallocated (maps sl ! k) \<noteq> 0}" by (auto simp: slab_ok_def)
  show ?thesis
  proof
    assume "dangling sl"
    then obtain k where k: "nonfull_usemaps sl = Some k" "usemap (maps sl ! k) = None" by (auto simp: dangling_def)
    with ks(1) have "k \<in> set ks" by (cases ks) auto
    with ks(2) have "k < blockcount sl" by simp
    with ok k(2) show False by (auto simp: slab_ok_def map_ok_def)
  qed
qed

lemma dangling_undefined: "dangling sl \<Longrightarrow> slalloc_new sl addr raw m = None"
  by (auto simp: dangling_def slalloc_new_def take_first_unused_def)

text \<open>Beyond the failure: an allocation starts at the freed map, or serves an object from a block.\<close>

lemma slalloc_new_stale:
  assumes "slab_good (heal sl)" "stale sl"
  obtains (freed) "dangling sl"
  | (object) x sl' where "\<not> dangling sl" "slalloc_new sl addr raw m = Some (Some x, sl', m)" "slab_good (heal sl')" "stale sl'"
      "x \<notin> set (used_objs sl)" "set (used_objs sl') = insert x (set (used_objs sl))" "objsize sl' = objsize sl"
proof -
  note hg = healed_good [OF assms(1)]
  obtain k where k: "nonfull_usemaps sl = Some k" using assms(2) by (auto simp: stale_def)
  show thesis
  proof (cases "k = blockcount sl")
    case True
    with k assms(2) have "dangling sl" by (simp add: dangling_def stale_def)
    then show thesis by (rule freed)
  next
    case False
    have n: "nonfull_usemaps (heal sl) = Some k" using k False by (simp add: unlink_def)
    have ok: "slab_ok (heal sl)" using assms(1) by (simp add: slab_good_def)
    then obtain ks where ks: "nonfull_chain (maps (heal sl)) (Some k) ks"
      "set ks = {k. k < blockcount sl \<and> unallocated (maps (heal sl) ! k) \<noteq> 0}" using n by (auto simp: slab_ok_def)
    have "k \<in> set ks" using ks(1) by (cases ks) auto
    then have ku: "k < blockcount sl" "unallocated (maps (heal sl) ! k) \<noteq> 0" using ks(2) by blast+
    then have kl: "k < length (maps sl)" using hg(2) by simp
    have "unallocated (maps sl ! k) \<noteq> 0" using ku(2) kl by (simp add: maps_heal)
    note kb = ku(1) kl this
    have nd: "\<not> dangling sl"
      using ok k kb(1) hg(2) by (auto simp: dangling_def slab_ok_def map_ok_def maps_heal)
    have "nonfull_usemaps (heal sl) \<noteq> None" using n by simp
    with assms(1) show thesis
    proof (cases rule: take_first_unused_good)
      case (1 x hl)
      then have t: "map_option (map_prod id heal) (take_first_unused sl) = Some (Some x, hl)"
        using take_first_unused_heal [OF k False kb(2)] by simp
      then obtain sl' where s: "take_first_unused sl = Some (Some x, sl')" "hl = heal sl'" by auto
      have st: "stale sl'"
      proof -
        obtain pd where pd: "maps sl' = (maps sl)[k := pd]" "next_nonfull pd = next_nonfull (maps sl ! k)"
          "blockcount sl' = blockcount sl" "nonfull_usemaps sl' = Some k \<or> nonfull_usemaps sl' = next_nonfull (maps sl ! k)"
          using take_first_unused_links [OF s(1) k] by blast
        have kn: "next_nonfull (maps sl ! k) \<noteq> None" using assms(2) kb(1,3) by (simp add: stale_def)
        then have "nonfull_usemaps sl' \<noteq> None" using pd(4) by auto
        moreover have "blockcount sl < length (maps sl)" "usemap (maps sl ! blockcount sl) = None" using assms(2) by (simp_all add: stale_def)
        moreover have "next_nonfull ((maps sl)[k := pd] ! j) \<noteq> None"
          if "j < blockcount sl" "unallocated ((maps sl)[k := pd] ! j) \<noteq> 0" for j
          using that assms(2) kb(2) kn pd(2) by (cases "j = k") (simp_all add: stale_def)
        ultimately show ?thesis unfolding stale_def pd(1,3) using kb(1) by simp
      qed
      have hg': "slab_good (heal sl')" using 1(2) s(2) by simp
      have "slalloc_new sl addr raw m = Some (Some x, sl', m)" using s(1) by (simp add: slalloc_new_def)
      moreover have "objsize sl' = objsize sl" using same_shapeD(4) [OF 1(3)] s(2) by simp
      ultimately show thesis using 1(4,5) s(2) hg(3) healed_good(3) [OF hg'] by (intro object [OF nd _ hg' st]) simp_all
    qed
  qed
qed


lemma find_block_from_bound: "find_block_from ps b x z = Some k \<Longrightarrow> k < z + length ps"
  by (induction ps b x z rule: find_block_from.induct) (auto split: if_splits)

lemma slalloc_free_links:
  assumes "slalloc_free sl x = Some sl'" "find_block_idx sl x = Some k"
  shows "\<exists>pd. maps sl' = (maps sl)[k := pd] \<and> blockcount sl' = blockcount sl \<and>
    (unallocated (maps sl ! k) = 0 \<and> nonfull_usemaps sl' = Some k \<and> next_nonfull pd = nonfull_usemaps sl \<or>
     unallocated (maps sl ! k) \<noteq> 0 \<and> nonfull_usemaps sl' = nonfull_usemaps sl \<and> next_nonfull pd = next_nonfull (maps sl ! k))"
proof -
  obtain ws where ws: "usemap (maps sl ! k) = Some ws" using assms by (auto simp: slalloc_free_def Let_def split: option.splits)
  define objidx where "objidx = (x - pages sl ! k) div pgsize sl * objsperpage sl + (x - pages sl ! k) mod pgsize sl div objsize sl"
  define w' where "w' = ws[objidx div OBJSPERWORD := ws ! (objidx div OBJSPERWORD) AND NOT (push_bit (objidx mod OBJSPERWORD) 1)]"
  define pd where "pd = (maps sl ! k)\<lparr>usemap := Some w', unallocated := unallocated (maps sl ! k) + 1\<rparr>"
  have "slalloc_free sl x = (if objidx div OBJSPERWORD \<ge> length ws then None
      else if unallocated (maps sl ! k) = 0 then Some (sl\<lparr>usemaps := Some ((maps sl)[k := pd\<lparr>next_nonfull := nonfull_usemaps sl\<rparr>]), nonfull_usemaps := Some k\<rparr>)
      else Some (sl\<lparr>usemaps := Some ((maps sl)[k := pd])\<rparr>))"
    unfolding slalloc_free_def assms(2) option.case Let_def ws w'_def pd_def objidx_def by (rule refl)
  with assms(1) have "sl' = (if unallocated (maps sl ! k) = 0
      then sl\<lparr>usemaps := Some ((maps sl)[k := pd\<lparr>next_nonfull := nonfull_usemaps sl\<rparr>]), nonfull_usemaps := Some k\<rparr>
      else sl\<lparr>usemaps := Some ((maps sl)[k := pd])\<rparr>)" by (simp split: if_splits)
  then show ?thesis by (cases "unallocated (maps sl ! k) = 0") (auto simp: pd_def)
qed

lemma slalloc_free_stale:
  assumes "slab_good (heal sl)" "stale sl" "x \<in> set (used_objs sl)"
  shows "\<exists>sl'. slalloc_free sl x = Some sl' \<and> slab_good (heal sl') \<and> stale sl' \<and> set (used_objs sl') = set (used_objs sl) - {x} \<and>
    objsize sl' = objsize sl"
proof -
  note hg = healed_good [OF assms(1)]
  have "x \<in> set (used_objs (heal sl))" using assms(3) hg(3) by simp
  from slalloc_free_good [OF assms(1) this] obtain hl where hl: "slalloc_free (heal sl) x = Some hl" "slab_good hl"
    "set (used_objs hl) = set (used_objs (heal sl)) - {x}" "objsize hl = objsize (heal sl)" by blast
  obtain k where k: "find_block_idx sl x = Some k"
    using hl(1) by (auto simp: slalloc_free_def find_block_idx_def split: option.splits)
  then have kb: "k < blockcount sl" using find_block_from_bound hg(1) by (fastforce simp: find_block_idx_def)
  have "map_option heal (slalloc_free sl x) = Some hl" using slalloc_free_heal [OF hg(1,2) k kb] hl(1) by simp
  then obtain sl' where s: "slalloc_free sl x = Some sl'" "hl = heal sl'" by auto
  obtain pd where pd: "maps sl' = (maps sl)[k := pd]" "blockcount sl' = blockcount sl"
    "unallocated (maps sl ! k) = 0 \<and> nonfull_usemaps sl' = Some k \<and> next_nonfull pd = nonfull_usemaps sl \<or>
     unallocated (maps sl ! k) \<noteq> 0 \<and> nonfull_usemaps sl' = nonfull_usemaps sl \<and> next_nonfull pd = next_nonfull (maps sl ! k)"
    using slalloc_free_links [OF s(1) k] by blast
  have nn: "nonfull_usemaps sl \<noteq> None" using assms(2) by (simp add: stale_def)
  have kn: "next_nonfull pd \<noteq> None" using pd(3) nn assms(2) kb by (auto simp: stale_def)
  have "nonfull_usemaps sl' \<noteq> None" using pd(3) nn by auto
  moreover have "blockcount sl < length (maps sl)" "usemap (maps sl ! blockcount sl) = None" using assms(2) by (simp_all add: stale_def)
  moreover have "next_nonfull ((maps sl)[k := pd] ! j) \<noteq> None"
    if "j < blockcount sl" "unallocated ((maps sl)[k := pd] ! j) \<noteq> 0" for j
    using that assms(2) kb kn hg(2) by (cases "j = k") (simp_all add: stale_def)
  ultimately have "stale sl'" unfolding stale_def pd(1,2) using kb by simp
  with hl s hg(3) healed_good(3) [of sl'] show ?thesis by (intro exI [of _ sl']) simp
qed

lemma orderly_step:
  assumes "slab_step s s'" "orderly (fst s)"
  shows "orderly (fst s')"
  using assms
proof (induction rule: slab_step.induct)
  case (New sl addr raw m r sl' m')
  show ?case
  proof (cases "slab_good sl")
    case True
    then show ?thesis
    proof (cases rule: slalloc_new_spec [OF True New(1), of raw m])
      case (2 sl2 m2)
      then show ?thesis using New(2) True same_shapeD(2) [OF 2(4)] by (auto simp: orderly_def slab_good_def pages_apart_def)
    qed (use New(2) in \<open>auto simp: orderly_def\<close>)
  next
    case False
    then have st: "slab_good (heal sl)" "stale sl" using New(3) by (simp_all add: orderly_def)
    then show ?thesis
      by (cases rule: slalloc_new_stale [where addr = addr and raw = raw and m = m])
        (use New(2) dangling_undefined [of sl addr raw m] in \<open>auto simp: orderly_def\<close>)
  qed
next
  case (Release x sl sl' m)
  then show ?case using slalloc_free_good [of sl x] slalloc_free_stale [of sl x] by (auto simp: orderly_def)
qed

lemma reach_orderly: "slab_reach s \<Longrightarrow> orderly (fst s)"
proof (induction rule: slab_reach.induct)
  case (Create osize pgsiz m sl m')
  then show ?case using create_slalloc_good by (simp add: orderly_def)
next
  case (Step s s')
  then show ?case using orderly_step by blast
qed

subsection \<open>Properties\<close>

lemma null_used:
  assumes g: "slab_good sl" and l: "\<And>k i. live sl' k i \<longleftrightarrow> live sl k i" and sh: "same_shape sl sl'"
    and ok: "slab_ok sl' \<or> dangling sl' \<and> slab_ok (heal sl') \<and> stale sl'"
  shows "set (used_objs sl') = set (used_objs sl)"
proof -
  have s: "set (used_objs sl) = {x. \<exists>k i. live sl k i \<and> x = obj_address sl k i}"
    using set_used_objs [of sl] g unfolding slab_good_def by blast
  show ?thesis
  proof (cases "slab_ok sl'")
    case True
    show ?thesis unfolding s unfolding set_used_objs [OF True] l same_shapeD(1) [OF sh] by blast
  next
    case False
    with ok have h: "slab_ok (heal sl')" by blast
    then have len: "blockcount sl' \<le> length (maps sl')" by (simp add: slab_ok_def maps_heal)
    show ?thesis unfolding s unfolding used_objs_heal [OF len, symmetric]
      unfolding set_used_objs [OF h] live_heal [OF len] l obj_address_heal same_shapeD(1) [OF sh] by blast
  qed
qed

text \<open>
  C3: Allocation from any state a client can reach, failed allocations included, with a block
  from mmap that does not overlap the others. \<open>slalloc_new\<close> is defined unless the list of blocks
  with room starts at a map that was freed when the pages of a new block could not be had
  (\<open>dangling\<close>); that is the only way it reads a freed map or leaves an array. Otherwise what it
  hands out was not in use, everything else stays in use, and freeing it restores the objects in
  use; it answers null only when the system lacks memory, and changes no object then. In
  particular the search takes no bit of the last map word that stands for no object, as the
  comment in \<open>take_first_unused\<close> argues.
\<close>

theorem slalloc_new_fresh:
  assumes "slab_reach (sl, m0)" "fresh_block sl addr"
  shows "case slalloc_new sl addr raw m of
      None \<Rightarrow> dangling sl
    | Some (None, sl', m') \<Rightarrow> \<not> dangling sl \<and> \<not> plentiful m \<and> set (used_objs sl') = set (used_objs sl)
    | Some (Some x, sl', m') \<Rightarrow> \<not> dangling sl \<and> x \<notin> set (used_objs sl) \<and> set (used_objs sl') = insert x (set (used_objs sl)) \<and>
        (\<exists>sl2. slalloc_free sl' x = Some sl2 \<and> set (used_objs sl2) = set (used_objs sl))"
proof (cases "slab_good sl")
  case g: True
  note nd = good_not_dangling [OF g]
  from g assms(2) show ?thesis
  proof (cases rule: slalloc_new_spec [where raw = raw and m = m])
    case (object x sl' m')
    have "slab_fetch sl (addr, raw, m) = Some (Some x, sl')" using object(1) by (simp add: slab_fetch_def)
    from slab.fetch_release [OF g _ this] assms(2) object nd show ?thesis by auto
  next
    case (none sl' m')
    with nd null_used [OF g none(3,4,2)] show ?thesis by simp
  qed
next
  case False
  then have st: "slab_good (heal sl)" "stale sl" using reach_orderly [OF assms(1)] by (simp_all add: orderly_def)
  then show ?thesis
  proof (cases rule: slalloc_new_stale [where addr = addr and raw = raw and m = m])
    case freed
    then show ?thesis using dangling_undefined by simp
  next
    case (object x sl')
    then have "x \<in> set (used_objs sl')" by simp
    with slalloc_free_stale [OF object(3,4) this] object show ?thesis by auto
  qed
qed

definition slab8 :: slalloc where
  "slab8 = \<lparr>blockcount = 0, pagesperblock = 1, pgarray = None, usemaps = None, nonfull_usemaps = None,
     objsperpage = 512, objsize = 8, pgsize = 4096\<rparr>"

lemma slab8_made: "\<exists>m. create_slalloc 8 4096 plenty_mem = (Some slab8, m) \<and> plentiful m"
proof -
  obtain m1 where m1: "Malloc 56 plenty_mem = (True, m1)" "plentiful m1" using Malloc_plentiful [of plenty_mem 56] by auto
  then have "create_slalloc 8 4096 plenty_mem = (Some slab8, m1)"
    by (simp add: create_slalloc_def slab8_def OBJSPERWORD_def Let_def)
  with m1(2) show ?thesis by blast
qed

lemma slab8_reach: obtains m where "slab_reach (slab8, m)" "plentiful m"
  using slab8_made slab_reach.Create [of 8 4096 plenty_mem slab8] by auto

theorem slalloc_new_fresh_witness:
  "\<exists>x sl' m'. slalloc_new slab8 65536 \<lparr>usemap = None, unallocated = 0, next_nonfull = None\<rparr> plenty_mem = Some (Some x, sl', m') \<and> set (used_objs sl') = {x}"
proof -
  obtain m0 where r: "slab_reach (slab8, m0)" by (rule slab8_reach)
  have "fresh_block slab8 65536" "\<not> dangling slab8" "used_objs slab8 = []" by (simp_all add: fresh_block_def slab8_def dangling_def used_objs_def)
  with slalloc_new_fresh [OF r, where raw = "\<lparr>usemap = None, unallocated = 0, next_nonfull = None\<rparr>" and m = plenty_mem and addr = 65536] show ?thesis
    by (auto split: option.splits)
qed

text \<open>
  C19: In every state a client can reach, also after a failed page mapping, the iterators visit
  each object in use exactly once, and the objects in use never overlap: any two are at least the
  object size apart, and each lies within one block.
\<close>

theorem slab_objects_apart:
  assumes "slab_reach (sl, m)"
  shows "distinct (used_objs sl) \<and>
    (\<forall>x \<in> set (used_objs sl). \<forall>y \<in> set (used_objs sl). x = y \<or> x + objsize sl \<le> y \<or> y + objsize sl \<le> x) \<and>
    (\<forall>x \<in> set (used_objs sl). \<exists>p \<in> set (pages sl). p \<le> x \<and> x + objsize sl \<le> p + pgsize sl * pagesperblock sl) \<and>
    slalloc_void_foreach (\<lambda>n x. n + 1) 0 sl = card (set (used_objs sl))"
proof -
  have "orderly sl" using reach_orderly [OF assms] by simp
  then have g: "slab_good (heal sl)" by (rule orderly_healed)
  note hu = healed_good(3) [OF g]
  have ok: "slab_ok (heal sl)" "pages_apart (heal sl)" "geometry_ok (heal sl)" using g by (simp_all add: slab_good_def slab_ok_def)
  have d: "distinct (used_objs sl)" using distinct_used_objs [OF ok(1,2)] hu by simp
  have b: "\<exists>p \<in> set (pages sl). p \<le> x \<and> x + objsize sl \<le> p + blocksize sl" if x: "x \<in> set (used_objs sl)" for x
  proof -
    have "x \<in> set (used_objs (heal sl))" using x hu by simp
    then obtain k i where l: "live (heal sl) k i" "x = obj_address (heal sl) k i" unfolding set_used_objs [OF ok(1)] by blast
    note lb = live_bound [OF ok(1) l(1)]
    have "k < length (pages sl)" using lb(1) by simp
    then show ?thesis using offset_in_block [OF ok(3) lb(2)]
      by (intro bexI [OF _ nth_mem [of k "pages sl"]]) (simp_all add: l(2) obj_address_offset)
  qed
  have a: "x = y \<or> x + objsize sl \<le> y \<or> y + objsize sl \<le> x" if "x \<in> set (used_objs sl)" "y \<in> set (used_objs sl)" for x y
    using objects_apart [OF g, of x y] that hu by auto
  have "foldl (\<lambda>n x. n + 1) c xs = c + length xs" for c and xs :: "nat list" by (induction xs arbitrary: c) simp_all
  then have "slalloc_void_foreach (\<lambda>n x. n + 1) 0 sl = card (set (used_objs sl))"
    using distinct_card [OF d] by (simp add: slalloc_void_foreach_def)
  with d a b show ?thesis by blast
qed

text \<open>Two objects of eight bytes.\<close>

theorem slab_objects_apart_witness:
  "\<exists>m0 x y sl1 m1 sl2 m2. slalloc_new slab8 65536 \<lparr>usemap = None, unallocated = 0, next_nonfull = None\<rparr> m0 = Some (Some x, sl1, m1) \<and>
     slalloc_new sl1 131072 \<lparr>usemap = None, unallocated = 0, next_nonfull = None\<rparr> m1 = Some (Some y, sl2, m2) \<and>
     set (used_objs sl2) = {x, y} \<and> (x + 8 \<le> y \<or> y + 8 \<le> x) \<and> slalloc_void_foreach (\<lambda>n x. n + 1) 0 sl2 = (2 :: nat)"
proof -
  let ?raw = "\<lparr>usemap = None, unallocated = 0, next_nonfull = None\<rparr>"
  obtain m0 where r0: "slab_reach (slab8, m0)" and p0: "plentiful m0" by (rule slab8_reach)
  have g: "slab_good slab8" "used_objs slab8 = []" using slab8_made create_slalloc_good [of 8 4096 plenty_mem slab8] by auto
  have f: "fresh_block slab8 65536" by (simp add: fresh_block_def slab8_def)
  obtain x sl1 m1 where n1: "slalloc_new slab8 65536 ?raw m0 = Some (Some x, sl1, m1)" "slab_good sl1"
    "set (used_objs sl1) = {x}" "objsize sl1 = 8" "plentiful m1" "blocksize sl1 = 4096"
    by (rule slalloc_new_spec [OF g(1) f, of ?raw m0]) (use g(2) p0 in \<open>simp_all add: slab8_def\<close>)
  have "set (pages sl1) \<subseteq> {65536}" using slalloc_new_pages [OF n1(1)] by (simp add: slab8_def)
  then have f1: "fresh_block sl1 131072" unfolding fresh_block_def n1(6) by auto
  obtain y sl2 m2 where n2: "slalloc_new sl1 131072 ?raw m1 = Some (Some y, sl2, m2)" "set (used_objs sl2) = {y, x}" "y \<noteq> x" "objsize sl2 = 8"
    by (rule slalloc_new_spec [OF n1(2) f1, of ?raw m1]) (use n1(3-5) in simp_all)
  have "slab_reach (sl2, m2)" by (rule slab_reach.Step [OF slab_reach.Step [OF r0 slab_step.New [OF f n1(1)]] slab_step.New [OF f1 n2(1)]])
  from slab_objects_apart [OF this] have "x + 8 \<le> y \<or> y + 8 \<le> x" "slalloc_void_foreach (\<lambda>n x. n + 1) 0 sl2 = (2 :: nat)"
    using n2(2-4) by auto
  with n1(1) n2(1,2) show ?thesis by (intro exI [of _ m0]) (auto simp: insert_commute)
qed

text \<open>
  When the pages of a new block cannot be had, \<open>add_slalloc_page\<close> frees the new block's map
  but leaves it at the head of the list of blocks with room: the next \<open>slalloc_new\<close> reads the
  freed map, whatever memory there is then.
\<close>

lemma slalloc_new_after_failed_pages:
  assumes "slab_ok sl" "nonfull_usemaps sl = None"
    "slalloc_new sl addr raw m = Some (None, sl1, m1)" "nonfull_usemaps sl1 \<noteq> None"
  shows "slalloc_new sl1 addr' raw' m' = None"
proof -
  have t: "take_first_unused sl = Some (None, sl)" using assms(2) by (simp add: take_first_unused_def)
  from assms(1,2) have "dangling sl1"
  proof (cases rule: add_slalloc_page_spec [where addr = addr and raw = raw and m = m])
    case (added sl' m')
    then have "take_first_unused sl' = Some (None, sl1)"
      using assms(3) t by (auto simp: slalloc_new_def split: option.splits)
    with added(2,6) show ?thesis by (cases rule: take_first_unused_spec) auto
  next
    case (refused sl' m')
    then have "sl1 = sl'" using assms(3) t by (simp add: slalloc_new_def)
    with refused(2) assms(4) show ?thesis by auto
  qed
  then obtain k where "nonfull_usemaps sl1 = Some k" "k < length (maps sl1)" "usemap (maps sl1 ! k) = None"
    by (auto simp: dangling_def)
  then have "take_first_unused sl1 = None" by (simp add: take_first_unused_def)
  then show ?thesis by (simp add: slalloc_new_def)
qed

text \<open>An operating system that serves everything but requests for whole pages.\<close>

definition pageless :: mem where
  "pageless = init_mem (\<lambda>n s. s \<noteq> 4096)"

lemma slalloc_new_after_failed_pages_example:
  "\<exists>sl1 m1. slalloc_new slab8 65536 \<lparr>usemap = None, unallocated = 0, next_nonfull = None\<rparr> pageless = Some (None, sl1, m1) \<and> slalloc_new sl1 65536 \<lparr>usemap = None, unallocated = 0, next_nonfull = None\<rparr> plenty_mem = None"
proof -
  have "slab_ok slab8" using slab8_made create_slalloc_good(1) [of 8 4096 plenty_mem slab8] by (auto simp: slab_good_def)
  moreover have "\<exists>sl1 m1. slalloc_new slab8 65536 \<lparr>usemap = None, unallocated = 0, next_nonfull = None\<rparr> pageless = Some (None, sl1, m1) \<and> nonfull_usemaps sl1 \<noteq> None"
    using uintlog2_push_bit [of 0]
    by (simp add: slalloc_new_def take_first_unused_def add_slalloc_page_def slab8_def pageless_def init_mem_def
        mem_op_defs Let_def init_usemap_def OBJWORDSPERBLOCK_def OBJSPERBLOCK_def OBJSPERWORD_def last_map_def
        fistful_of_pages_def snatch_contiguous_pages_def reset_usemap_def)
  then obtain sl1 m1 where n: "slalloc_new slab8 65536 \<lparr>usemap = None, unallocated = 0, next_nonfull = None\<rparr> pageless = Some (None, sl1, m1)" "nonfull_usemaps sl1 \<noteq> None"
    by blast
  ultimately show ?thesis
    using slalloc_new_after_failed_pages [of slab8 65536 "\<lparr>usemap = None, unallocated = 0, next_nonfull = None\<rparr>" pageless sl1 m1] by (auto simp: slab8_def)
qed

end
