(* ===== verification/Lrupat.thy ===== *)
theory Lrupat
  imports Slalloc Strings
begin

text \<open>
  The patricia trie of libdank/objects/lrupat.c on top of the slab allocator: its nodes are
  objects of a slab, and \<open>heap\<close> says what each holds. A pointer to a node is its address,
  0 the null pointer; a pointer to a pointer (\<open>lpatnode **\<close>) is a \<open>slot\<close>. Memory that is not
  in use by the slab holds zeros: the pages come zeroed from mmap, and \<open>slalloc_free\<close> clears
  what it takes back.

  The case-blind functions are the same code with \<open>tolower\<close> on every character they store or
  branch on. Each pair is one definition with that fold \<open>cf\<close> as a parameter and two instances.
  Where mmap puts the pages of a new block is a field of the state; an operation answers
  an outer \<open>None\<close> where the slab's code is undefined.
\<close>

subsection \<open>State\<close>

record 'o lpatnode =
  arr :: "char \<Rightarrow> nat"
  obj :: "'o option"
  patstr :: "string option"

record 'o lrupat =
  nodes :: nat
  slab :: slalloc
  heap :: "nat \<Rightarrow> 'o lpatnode"
  nwatchcb :: bool
  watched :: "'o option list"           \<comment> \<open>the arguments the callback was called with\<close>
  os_page :: "slalloc \<Rightarrow> nat"           \<comment> \<open>where mmap puts the next block\<close>
  os_raw :: pgdata                      \<comment> \<open>what unwritten memory holds\<close>

definition zero_node :: "'o lpatnode" where
  "zero_node = \<lparr>arr = (\<lambda>_. 0), obj = None, patstr = None\<rparr>"

datatype slot = Root | Slot nat char

definition write_node :: "'o lrupat \<Rightarrow> nat \<Rightarrow> 'o lpatnode \<Rightarrow> 'o lrupat" where
  "write_node lp x n = lp\<lparr>heap := (heap lp)(x := n)\<rparr>"

fun deref :: "'o lrupat \<Rightarrow> slot \<Rightarrow> nat" where
  "deref lp Root = nodes lp"
| "deref lp (Slot q c) = arr (heap lp q) c"

fun store :: "slot \<Rightarrow> nat \<Rightarrow> 'o lrupat \<Rightarrow> 'o lrupat" where
  "store Root x lp = lp\<lparr>nodes := x\<rparr>"
| "store (Slot q c) x lp = write_node lp q (heap lp q \<lparr>arr := (arr (heap lp q))(c := x)\<rparr>)"

definition lpatnode_new :: "'o lrupat \<Rightarrow> mem \<Rightarrow> (nat \<times> 'o lrupat \<times> mem) option" where
  "lpatnode_new lp m =
     (case slalloc_new (slab lp) (os_page lp (slab lp)) (os_raw lp) m of
        None \<Rightarrow> None
      | Some (x, sl, m1) \<Rightarrow> Some (case x of None \<Rightarrow> 0 | Some a \<Rightarrow> a, lp\<lparr>slab := sl\<rparr>, m1))"

definition lpatnode_free :: "'o lrupat \<Rightarrow> nat \<Rightarrow> 'o lrupat option" where
  "lpatnode_free lp x =
     (case slalloc_free (slab lp) x of
        None \<Rightarrow> None
      | Some sl \<Rightarrow> Some (write_node (lp\<lparr>slab := sl\<rparr>) x zero_node))"

text \<open>\<open>sizeof (lpatnode)\<close>: 256 pointers and two more.\<close>

definition create_lrupat :: "bool \<Rightarrow> int \<Rightarrow> (slalloc \<Rightarrow> nat) \<Rightarrow> pgdata \<Rightarrow> mem \<Rightarrow> 'o lrupat option \<times> mem" where
  "create_lrupat cb pgsiz page raw m =
     (case Malloc 24 m of
        (False, m1) \<Rightarrow> (None, m1)
      | (True, m1) \<Rightarrow>
          (case create_slalloc 2064 pgsiz m1 of
             (None, m2) \<Rightarrow> (None, Free True m2)
           | (Some sl, m2) \<Rightarrow>
               (Some \<lparr>nodes = 0, slab = sl, heap = (\<lambda>_. zero_node), nwatchcb = cb, watched = [],
                      os_page = page, os_raw = raw\<rparr>, m2)))"

subsection \<open>Taking a tail apart\<close>

text \<open>The tree below a pointer, to a depth of at most \<open>fuel\<close>.\<close>

fun free_lrupat_chain :: "nat \<Rightarrow> nat \<Rightarrow> 'o lrupat \<Rightarrow> 'o lrupat option" where
  "free_lrupat_chain 0 l lp = (if l = 0 then Some lp else None)"
| "free_lrupat_chain (Suc fuel) l lp =
     (if l = 0 then Some lp
      else case foldl (\<lambda>acc z. case acc of None \<Rightarrow> None
                         | Some lp1 \<Rightarrow> free_lrupat_chain fuel (arr (heap lp1 l) (char_of z)) lp1)
             (Some lp) [0..<256] of
        None \<Rightarrow> None
      | Some lp1 \<Rightarrow> lpatnode_free lp1 l)"

text \<open>The \<open>do\<close> loop: one node for every character of the suffix. It answers the last one.\<close>

function expand :: "(char \<Rightarrow> char) \<Rightarrow> string \<Rightarrow> nat \<Rightarrow> 'o lrupat \<Rightarrow> mem \<Rightarrow> (nat \<times> 'o lrupat \<times> mem) option" where
  "expand cf suffix chain lp m =
     (case lpatnode_new lp m of
        None \<Rightarrow> None
      | Some (x, lp1, m1) \<Rightarrow>
          let lp2 = store (Slot chain (cf (peek suffix))) x lp1 in
          if x = 0 then Some (0, lp2, m1)
          else if peek (tl suffix) \<noteq> NUL then expand cf (tl suffix) x lp2 m1
          else Some (x, lp2, m1))"
  by pat_completeness auto
termination
proof (relation "measure (\<lambda>(cf, suffix, chain, lp, m). length suffix)", goal_cases)
  case (2 cf suffix chain lp m)
  then show ?case using peek_nonempty by (cases suffix) auto
qed simp

declare expand.simps [simp del]

definition decay_tail :: "(char \<Rightarrow> char) \<Rightarrow> 'o lrupat \<Rightarrow> slot \<Rightarrow> mem \<Rightarrow> (bool \<times> 'o lrupat \<times> mem) option" where
  "decay_tail cf lp lps m =
     (let l = deref lp lps in
      case patstr (heap lp l) of
        None \<Rightarrow> Some (True, lp, m)
      | Some suffix \<Rightarrow>
          if peek suffix = NUL then Some (True, lp, m)
          else case lpatnode_new lp m of
            None \<Rightarrow> None
          | Some (chainhead, lp1, m1) \<Rightarrow>
              if chainhead = 0 then Some (True, lp1, m1)
              else case expand cf suffix chainhead lp1 m1 of
                None \<Rightarrow> None
              | Some (lst, lp2, m2) \<Rightarrow>
                  if lst = 0 then map_option (\<lambda>lp3. (True, lp3, m2)) (free_lrupat_chain (length suffix + 1) chainhead lp2)
                  else case Strdup (Some []) m2 of
                    (None, m3) \<Rightarrow> map_option (\<lambda>lp3. (True, lp3, m3)) (free_lrupat_chain (length suffix + 1) chainhead lp2)
                  | (Some s, m3) \<Rightarrow>
                      let lp3 = write_node lp2 lst (heap lp2 lst \<lparr>patstr := Some (map cf s), obj := obj (heap lp2 l)\<rparr>);
                          lp4 = write_node lp3 l (heap lp3 l \<lparr>obj := None, patstr := None\<rparr>)
                      in Some (False, store lps chainhead lp4, Free True m3))"

definition decay_lrupat_tail :: "'o lrupat \<Rightarrow> slot \<Rightarrow> mem \<Rightarrow> (bool \<times> 'o lrupat \<times> mem) option" where
  "decay_lrupat_tail = decay_tail (\<lambda>c. c)"

definition decay_lrupat_tail_nocase :: "'o lrupat \<Rightarrow> slot \<Rightarrow> mem \<Rightarrow> (bool \<times> 'o lrupat \<times> mem) option" where
  "decay_lrupat_tail_nocase = decay_tail tolower"

subsection \<open>Adding\<close>

definition tail_new :: "(char \<Rightarrow> char) \<Rightarrow> 'o lrupat \<Rightarrow> string \<Rightarrow> 'o option \<Rightarrow> mem \<Rightarrow> (nat \<times> 'o lrupat \<times> mem) option" where
  "tail_new cf lp key ob m =
     (case lpatnode_new lp m of
        None \<Rightarrow> None
      | Some (lpn, lp1, m1) \<Rightarrow>
          if lpn = 0 then Some (0, lp1, m1)
          else case Strdup (Some key) m1 of
            (None, m2) \<Rightarrow> map_option (\<lambda>lp2. (0, lp2, m2)) (lpatnode_free lp1 lpn)
          | (Some s, m2) \<Rightarrow> Some (lpn, write_node lp1 lpn (heap lp1 lpn \<lparr>patstr := Some (map cf s), obj := ob\<rparr>), m2))"

definition lpatchain_new :: "'o lrupat \<Rightarrow> string \<Rightarrow> 'o option \<Rightarrow> mem \<Rightarrow> (nat \<times> 'o lrupat \<times> mem) option" where
  "lpatchain_new = tail_new (\<lambda>c. c)"

definition lpatchain_nocase_new :: "'o lrupat \<Rightarrow> string \<Rightarrow> 'o option \<Rightarrow> mem \<Rightarrow> (nat \<times> 'o lrupat \<times> mem) option" where
  "lpatchain_nocase_new = tail_new tolower"

text \<open>A nonempty tail in the way is taken apart first.\<close>

definition clear_way :: "(char \<Rightarrow> char) \<Rightarrow> 'o lrupat \<Rightarrow> slot \<Rightarrow> mem \<Rightarrow> (bool \<times> 'o lrupat \<times> mem) option" where
  "clear_way cf lp lps m =
     (case patstr (heap lp (deref lp lps)) of
        None \<Rightarrow> Some (False, lp, m)
      | Some s \<Rightarrow> if peek s \<noteq> NUL then decay_tail cf lp lps m else Some (False, lp, m))"

definition set_key :: "(char \<Rightarrow> char) \<Rightarrow> 'o lrupat \<Rightarrow> slot \<Rightarrow> string \<Rightarrow> 'o option \<Rightarrow> mem \<Rightarrow> (bool \<times> 'o lrupat \<times> mem) option" where
  "set_key cf lp lps key ob m =
     (case Strdup (Some key) m of
        (None, m1) \<Rightarrow> Some (True, lp, m1)
      | (Some s, m1) \<Rightarrow>
          let tmp = map cf s;
              put = (\<lambda>lp m. let l = deref lp lps in
                       Some (False, write_node lp l (heap lp l \<lparr>patstr := Some tmp, obj := ob\<rparr>), m))
          in case patstr (heap lp (deref lp lps)) of
               None \<Rightarrow> put lp m1
             | Some old \<Rightarrow>
                 if peek old \<noteq> NUL then
                   (case decay_tail cf lp lps m1 of
                      None \<Rightarrow> None
                    | Some (True, lp1, m2) \<Rightarrow> Some (True, lp1, m2)
                    | Some (False, lp1, m2) \<Rightarrow> put lp1 m2)
                 else
                   put (if nwatchcb lp then lp\<lparr>watched := watched lp @ [obj (heap lp (deref lp lps))]\<rparr> else lp)
                     (Free True m1))"

function add_key :: "(char \<Rightarrow> char) \<Rightarrow> 'o lrupat \<Rightarrow> slot \<Rightarrow> string \<Rightarrow> 'o option \<Rightarrow> mem \<Rightarrow> (bool \<times> 'o lrupat \<times> mem) option" where
  "add_key cf lp lps key ob m =
     (if deref lp lps = 0 then
        (case tail_new cf lp key ob m of
           None \<Rightarrow> None
         | Some (x, lp1, m1) \<Rightarrow> Some (x = 0, store lps x lp1, m1))
      else if peek key \<noteq> NUL then
        (case clear_way cf lp lps m of
           None \<Rightarrow> None
         | Some (True, lp1, m1) \<Rightarrow> Some (True, lp1, m1)
         | Some (False, lp1, m1) \<Rightarrow> add_key cf lp1 (Slot (deref lp1 lps) (cf (peek key))) (tl key) ob m1)
      else set_key cf lp lps key ob m)"
  by pat_completeness auto
termination
  by (relation "measure (\<lambda>(cf, lp, lps, key, ob, m). length key)") (auto dest!: peek_nonempty)

declare add_key.simps [simp del]

definition add_lrupat_helper :: "'o lrupat \<Rightarrow> slot \<Rightarrow> string \<Rightarrow> 'o option \<Rightarrow> mem \<Rightarrow> (bool \<times> 'o lrupat \<times> mem) option" where
  "add_lrupat_helper = add_key (\<lambda>c. c)"

definition add_lrupat_nocase_helper :: "'o lrupat \<Rightarrow> slot \<Rightarrow> string \<Rightarrow> 'o option \<Rightarrow> mem \<Rightarrow> (bool \<times> 'o lrupat \<times> mem) option" where
  "add_lrupat_nocase_helper = add_key tolower"

definition add_lrupat :: "'o lrupat \<Rightarrow> string \<Rightarrow> 'o option \<Rightarrow> mem \<Rightarrow> (bool \<times> 'o lrupat \<times> mem) option" where
  "add_lrupat lp key ob m = add_lrupat_helper lp Root key ob m"

definition add_lrupat_nocase :: "'o lrupat \<Rightarrow> string \<Rightarrow> 'o option \<Rightarrow> mem \<Rightarrow> (bool \<times> 'o lrupat \<times> mem) option" where
  "add_lrupat_nocase lp key ob m = add_lrupat_nocase_helper lp Root key ob m"

subsection \<open>Looking up\<close>

text \<open>\<open>strncmp (key, pat, strlen (pat)) == 0\<close>, or \<open>strncasecmp\<close> for the fold \<open>tolower\<close>.\<close>

fun starts :: "(char \<Rightarrow> char) \<Rightarrow> string \<Rightarrow> string \<Rightarrow> bool" where
  "starts cf key [] \<longleftrightarrow> True"
| "starts cf key (p # ps) \<longleftrightarrow> cf (peek key) = cf p \<and> (p = NUL \<or> starts cf (tl key) ps)"

text \<open>The object found, which may be a null pointer.\<close>

function lookup_key :: "(char \<Rightarrow> char) \<Rightarrow> (nat \<Rightarrow> 'o lpatnode) \<Rightarrow> nat \<Rightarrow> string \<Rightarrow> char \<Rightarrow> 'o option option" where
  "lookup_key cf h lps key term =
     (if lps = 0 then None
      else
        let deeper = (if peek key \<noteq> NUL \<and> peek key \<noteq> term
                      then lookup_key cf h (arr (h lps) (cf (peek key))) (tl key) term else None)
        in case patstr (h lps) of
             None \<Rightarrow> deeper
           | Some pat \<Rightarrow>
               if starts cf key pat \<and> peek (drop (length pat) key) = term then Some (obj (h lps)) else deeper)"
  by pat_completeness auto
termination
  by (relation "measure (\<lambda>(cf, h, lps, key, term). length key)") (auto dest!: peek_nonempty)

declare lookup_key.simps [simp del]

definition lookup_lrupat_helper :: "(nat \<Rightarrow> 'o lpatnode) \<Rightarrow> nat \<Rightarrow> string \<Rightarrow> char \<Rightarrow> 'o option option" where
  "lookup_lrupat_helper = lookup_key (\<lambda>c. c)"

definition lookup_lrupat_nocase_helper :: "(nat \<Rightarrow> 'o lpatnode) \<Rightarrow> nat \<Rightarrow> string \<Rightarrow> char \<Rightarrow> 'o option option" where
  "lookup_lrupat_nocase_helper = lookup_key tolower"

definition lookup_lrupat :: "'o lrupat \<Rightarrow> string \<Rightarrow> 'o option option" where
  "lookup_lrupat lp key = lookup_lrupat_helper (heap lp) (nodes lp) key NUL"

definition lookup_lrupat_term :: "'o lrupat \<Rightarrow> string \<Rightarrow> char \<Rightarrow> 'o option option" where
  "lookup_lrupat_term lp key term = lookup_lrupat_helper (heap lp) (nodes lp) key term"

definition lookup_lrupat_nocase :: "'o lrupat \<Rightarrow> string \<Rightarrow> 'o option option" where
  "lookup_lrupat_nocase lp key = lookup_lrupat_nocase_helper (heap lp) (nodes lp) key NUL"

definition lookup_lrupat_term_nocase :: "'o lrupat \<Rightarrow> string \<Rightarrow> char \<Rightarrow> 'o option option" where
  "lookup_lrupat_term_nocase lp key term = lookup_lrupat_nocase_helper (heap lp) (nodes lp) key term"

text \<open>\<open>len\<close> bounds the descent, \<open>strcmp\<close> reads the whole text.\<close>

fun lookup_lrupat_blob_helper :: "(nat \<Rightarrow> 'o lpatnode) \<Rightarrow> nat \<Rightarrow> string \<Rightarrow> nat \<Rightarrow> 'o option option" where
  "lookup_lrupat_blob_helper h lps key 0 =
     (if lps = 0 then None
      else case patstr (h lps) of Some pat \<Rightarrow> if pat \<noteq> cpart key then None else Some (obj (h lps)) | None \<Rightarrow> None)"
| "lookup_lrupat_blob_helper h lps key (Suc len) =
     (if lps = 0 then None
      else case patstr (h lps) of
        Some pat \<Rightarrow> if pat \<noteq> cpart key then None else Some (obj (h lps))
      | None \<Rightarrow> lookup_lrupat_blob_helper h (arr (h lps) (peek key)) (tl key) len)"

definition lookup_lrupat_blob :: "'o lrupat \<Rightarrow> string \<Rightarrow> nat \<Rightarrow> 'o option option" where
  "lookup_lrupat_blob lp key len = lookup_lrupat_blob_helper (heap lp) (nodes lp) key len"

subsection \<open>Taking down and printing\<close>

definition free_lpatnode :: "'o lrupat \<times> mem \<Rightarrow> nat \<Rightarrow> 'o lrupat \<times> mem" where
  "free_lpatnode s lps =
     (case s of (lp, m) \<Rightarrow>
        let lp1 = (if nwatchcb lp then lp\<lparr>watched := watched lp @ [obj (heap lp lps)]\<rparr> else lp)
        in (write_node lp1 lps (heap lp1 lps \<lparr>patstr := None\<rparr>), Free (patstr (heap lp1 lps) \<noteq> None) m))"

text \<open>The arguments of the callback and the allocator afterwards.\<close>

definition destroy_lrupat :: "'o lrupat option \<Rightarrow> (nat \<Rightarrow> bool) \<Rightarrow> mem \<Rightarrow> 'o option list \<times> mem" where
  "destroy_lrupat lpo unmapped m =
     (case lpo of None \<Rightarrow> ([], m)
      | Some lp \<Rightarrow>
          (case slalloc_void_foreach free_lpatnode (lp, m) (slab lp) of (lp1, m1) \<Rightarrow>
             (watched lp1, Free True (destroy_slalloc (Some (slab lp1)) unmapped m1))))"

definition stringize_lrupat :: "ustring \<Rightarrow> 'o lrupat \<Rightarrow> mem \<Rightarrow> bool \<times> ustring \<times> mem" where
  "stringize_lrupat u lp m =
     (case print_step ''<lrupat>'' u m of
        (True, u1, m1) \<Rightarrow> (True, u1, m1)
      | (False, u1, m1) \<Rightarrow>
          (case stringize_slalloc u1 (slab lp) m1 of
             (True, u2, m2) \<Rightarrow> (True, u2, m2)
           | (False, u2, m2) \<Rightarrow> print_step ''</lrupat>'' u2 m2))"

subsection \<open>What is stored below a pointer\<close>

fun stored :: "(nat \<Rightarrow> 'o lpatnode) \<Rightarrow> nat \<Rightarrow> string \<Rightarrow> 'o option option" where
  "stored h p [] = (if p \<noteq> 0 \<and> patstr (h p) = Some [] then Some (obj (h p)) else None)"
| "stored h p (c # k) =
     (if p = 0 then None else if patstr (h p) = Some (c # k) then Some (obj (h p)) else stored h (arr (h p) c) k)"

text \<open>
  A tree of nodes with the set of its addresses: no sharing, suffixes that are C strings and
  folded, and no children below a nonempty suffix.
\<close>

definition tail_ok :: "(char \<Rightarrow> char) \<Rightarrow> 'o lpatnode \<Rightarrow> bool" where
  "tail_ok cf n \<longleftrightarrow> (\<forall>s. patstr n = Some s \<longrightarrow> cstr s \<and> map cf s = s \<and> (s \<noteq> [] \<longrightarrow> arr n = (\<lambda>_. 0)))"

inductive tree :: "(char \<Rightarrow> char) \<Rightarrow> (nat \<Rightarrow> 'o lpatnode) \<Rightarrow> nat \<Rightarrow> nat set \<Rightarrow> bool" for cf h where
  Null: "tree cf h 0 {}"
| Node: "p \<noteq> 0 \<Longrightarrow> (\<forall>c. tree cf h (arr (h p) c) (F c)) \<Longrightarrow> (\<forall>c. p \<notin> F c) \<Longrightarrow> (\<forall>c d. c \<noteq> d \<longrightarrow> F c \<inter> F d = {}) \<Longrightarrow>
    tail_ok cf (h p) \<Longrightarrow> (\<forall>c. arr (h p) c \<noteq> 0 \<longrightarrow> cf c = c \<and> c \<noteq> NUL) \<Longrightarrow> tree cf h p (insert p (\<Union>c. F c))"

inductive_cases treeE: "tree cf h p S"

inductive_simps tree_null: "tree cf h 0 S"

lemma tree_not_null: "tree cf h p S \<Longrightarrow> 0 \<notin> S \<and> (p \<noteq> 0 \<longrightarrow> p \<in> S)"
  by (induction rule: tree.induct) auto

lemma stored_null [simp]: "stored h 0 k = None"
  by (cases k) auto

lemma tree_frame: "tree cf h p S \<Longrightarrow> (\<forall>x \<in> S. h' x = h x) \<Longrightarrow> tree cf h' p S \<and> stored h' p k = stored h p k"
proof (induction arbitrary: k rule: tree.induct)
  case Null
  then show ?case by (simp add: tree.Null)
next
  case (Node p F)
  have p: "h' p = h p" using Node.prems by simp
  have c: "tree cf h' (arr (h p) c) (F c)" "stored h' (arr (h p) c) k = stored h (arr (h p) c) k" for c k
    using Node.IH(1) Node.prems by blast+
  have "tree cf h' p (insert p (\<Union>c. F c))" by (rule tree.Node) (use p Node.hyps c(1) in auto)
  moreover have "stored h' p k = stored h p k" by (cases k) (use p c(2) in auto)
  ultimately show ?case by simp
qed

lemma stored_folded: "tree cf h p S \<Longrightarrow> stored h p k = Some ob \<Longrightarrow> map cf k = k \<and> cstr k"
proof (induction arbitrary: k rule: tree.induct)
  case (Node p F)
  show ?case
  proof (cases k)
    case (Cons c k')
    show ?thesis
    proof (cases "patstr (h p) = Some k")
      case True
      with Node.hyps show ?thesis by (simp add: tail_ok_def)
    next
      case False
      with Cons Node.prems Node.hyps(1) have s: "stored h (arr (h p) c) k' = Some ob" by simp
      then have "arr (h p) c \<noteq> 0" by (cases "arr (h p) c = 0") simp_all
      with Node.hyps Node.IH(1) s Cons show ?thesis by auto
    qed
  qed simp
qed simp

lemma stored_leaf: "p \<noteq> 0 \<Longrightarrow> arr (h p) = (\<lambda>_. 0) \<Longrightarrow> patstr (h p) = Some s \<Longrightarrow> stored h p = [s \<mapsto> obj (h p)]"
  by (rule ext, rename_tac k, case_tac k) auto

lemma tree_leaf:
  "p \<noteq> 0 \<Longrightarrow> arr (h p) = (\<lambda>_. 0) \<Longrightarrow> patstr (h p) = Some s \<Longrightarrow> map cf s = s \<Longrightarrow> cstr s \<Longrightarrow> tree cf h p {p}"
  using tree.Node [of p cf h "\<lambda>_. {}"] by (simp add: tree.Null tail_ok_def)

text \<open>Replacing one child of a node that has no nonempty suffix.\<close>

lemma tree_child:
  assumes t: "tree cf h p S" and p: "p \<noteq> 0" and c: "cf c = c" "c \<noteq> NUL" and s: "\<And>s. patstr (h p) = Some s \<Longrightarrow> s = []"
  obtains F rest where "tree cf h (arr (h p) c) F" "S = insert p (F \<union> rest)" "p \<notin> F" "p \<notin> rest" "F \<inter> rest = {}"
    "\<And>h' x F'. h' p = h p \<lparr>arr := (arr (h p))(c := x)\<rparr> \<Longrightarrow> (\<forall>y \<in> rest. h' y = h y) \<Longrightarrow> tree cf h' x F' \<Longrightarrow> p \<notin> F' \<Longrightarrow>
       F' \<inter> rest = {} \<Longrightarrow> tree cf h' p (insert p (F' \<union> rest)) \<and> stored h' p [] = stored h p [] \<and>
         (\<forall>d k. stored h' p (d # k) = (if d = c then stored h' x k else stored h p (d # k)))"
    "\<And>d k. stored h p (d # k) = stored h (arr (h p) d) k"
  using t
proof (cases rule: tree.cases)
  case Null
  with p show thesis by simp
next
  case (Node F)
  define rest where "rest = (\<Union>d \<in> - {c}. F d)"
  have U: "(\<Union>d. F d) = F c \<union> rest" by (auto simp: rest_def)
  show thesis
  proof (rule that [of "F c" rest])
    show "tree cf h (arr (h p) c) (F c)" using Node by blast
    show "S = insert p (F c \<union> rest)" using Node(1) U by simp
    show "p \<notin> F c" "p \<notin> rest" using Node(4) by (auto simp: rest_def)
    show "F c \<inter> rest = {}" using Node(5) unfolding rest_def by blast
    show st: "stored h p (d # k) = stored h (arr (h p) d) k" for d k using p s [of "d # k"] by auto
    fix h' x F'
    assume h': "h' p = h p \<lparr>arr := (arr (h p))(c := x)\<rparr>" "\<forall>y \<in> rest. h' y = h y" and x: "tree cf h' x F'" "p \<notin> F'" "F' \<inter> rest = {}"
    have dj: "F' \<inter> F d = {}" if "d \<noteq> c" for d using x(3) that unfolding rest_def by blast
    have d: "tree cf h' (arr (h p) d) (F d) \<and> stored h' (arr (h p) d) k = stored h (arr (h p) d) k" if "d \<noteq> c" for d k
      by (rule tree_frame) (use Node(3) h'(2) that in \<open>auto simp: rest_def\<close>)
    define G where "G = F(c := F')"
    have G: "(\<Union>d. G d) = F' \<union> rest" by (auto simp: G_def rest_def)
    have "tree cf h' p (insert p (\<Union>d. G d))"
    proof (rule tree.Node)
      show "\<forall>e. tree cf h' (arr (h' p) e) (G e)" using d x(1) by (simp add: G_def h'(1))
      show "\<forall>e. p \<notin> G e" using x(2) Node(4) by (simp add: G_def)
      show "\<forall>e f. e \<noteq> f \<longrightarrow> G e \<inter> G f = {}" using dj Node(5) by (auto simp: G_def)
      show "tail_ok cf (h' p)" using Node(6) s by (auto simp: tail_ok_def h'(1))
      show "\<forall>e. arr (h' p) e \<noteq> 0 \<longrightarrow> cf e = e \<and> e \<noteq> NUL" using Node(7) c by (simp add: h'(1))
    qed (rule p)
    then have "tree cf h' p (insert p (F' \<union> rest))" by (simp only: G)
    moreover have "stored h' p (e # k) = (if e = c then stored h' x k else stored h p (e # k))" for e k
    proof -
      have "stored h' p (e # k) = stored h' (arr (h' p) e) k" using p s [of "e # k"] by (auto simp: h'(1))
      also have "\<dots> = (if e = c then stored h' x k else stored h (arr (h p) e) k)" using d [of e k] by (simp add: h'(1))
      finally show ?thesis using st [of e k] by simp
    qed
    ultimately show "tree cf h' p (insert p (F' \<union> rest)) \<and> stored h' p [] = stored h p [] \<and>
         (\<forall>d k. stored h' p (d # k) = (if d = c then stored h' x k else stored h p (d # k)))"
      by (simp add: h'(1))
  qed
qed

text \<open>A path of nodes that hold nothing but the way to the next.\<close>

fun chain :: "(nat \<Rightarrow> 'o lpatnode) \<Rightarrow> nat \<Rightarrow> string \<Rightarrow> nat \<Rightarrow> nat set \<Rightarrow> bool" where
  "chain h x [] y V \<longleftrightarrow> x = y \<and> V = {} \<and> h x = zero_node"
| "chain h x (c # w) y V \<longleftrightarrow>
     (\<exists>z W. h x = zero_node \<lparr>arr := (\<lambda>_. 0)(c := z)\<rparr> \<and> z \<noteq> 0 \<and> V = insert z W \<and> x \<notin> V \<and> z \<notin> W \<and> chain h z w y W)"

lemma chain_last: "chain h x w y V \<Longrightarrow> y \<in> insert x V \<and> (w \<noteq> [] \<longrightarrow> y \<in> V)"
proof (induction w arbitrary: x V)
  case (Cons c w)
  from Cons.prems obtain z W where z: "V = insert z W" "chain h z w y W" by auto
  from Cons.IH [OF z(2)] z(1) show ?case by auto
qed simp

lemma chain_frame: "chain h x w y V \<Longrightarrow> (\<forall>z \<in> insert x V. h' z = h z) \<Longrightarrow> chain h' x w y V"
proof (induction w arbitrary: x V)
  case (Cons c w)
  from Cons.prems(1) obtain z W where z: "h x = zero_node \<lparr>arr := (\<lambda>_. 0)(c := z)\<rparr>" "z \<noteq> 0" "V = insert z W" "x \<notin> V" "z \<notin> W" "chain h z w y W"
    by auto
  have "chain h' z w y W" by (rule Cons.IH [OF z(6)]) (use Cons.prems(2) z(3) in auto)
  then show ?case using z Cons.prems(2) by auto
qed simp

lemma chain_tree:
  assumes "chain h x w y V" "x \<noteq> 0" "map cf w = w" "cstr w" "h' = h(y := (h y)\<lparr>patstr := Some [], obj := ob\<rparr>)"
  shows "tree cf h' x (insert x V) \<and> stored h' x = [w \<mapsto> ob]"
  using assms
proof (induction w arbitrary: x V)
  case Nil
  then have "h' x = zero_node \<lparr>patstr := Some [], obj := ob\<rparr>" "V = {}" by auto
  with Nil.prems(2) tree_leaf [of x h' "[]" cf] stored_leaf [of x h' "[]"] show ?case
    by (simp add: zero_node_def)
next
  case (Cons c w)
  from Cons.prems(1) obtain z W where z: "h x = zero_node \<lparr>arr := (\<lambda>_. 0)(c := z)\<rparr>" "z \<noteq> 0" "V = insert z W" "x \<notin> V" "z \<notin> W"
    "chain h z w y W" by auto
  have y: "y \<noteq> x" using chain_last [OF Cons.prems(1)] z(4) by auto
  from Cons.IH [OF z(6,2)] Cons.prems have t: "tree cf h' z (insert z W)" "stored h' z = [w \<mapsto> ob]" by auto
  have hx: "h' x = zero_node \<lparr>arr := (\<lambda>_. 0)(c := z)\<rparr>" using y z(1) Cons.prems(5) by simp
  have "tree cf h' x (insert x (\<Union>d. if d = c then insert z W else {}))"
    by (rule tree.Node) (use t(1) z hx Cons.prems(2-4) in \<open>auto simp: tree.Null zero_node_def tail_ok_def\<close>)
  moreover have "(\<Union>d. if d = c then insert z W else {}) = V" using z(3) by auto
  moreover have "stored h' x = [c # w \<mapsto> ob]"
  proof
    fix k
    show "stored h' x k = [c # w \<mapsto> ob] k"
      using t(2) Cons.prems(2) by (cases k) (auto simp: hx zero_node_def)
  qed
  ultimately show ?case by simp
qed

subsection \<open>The pool of nodes\<close>

definition inuse :: "'o lrupat \<Rightarrow> nat set" where
  "inuse lp = set (used_objs (slab lp))"

text \<open>mmap answers pages that are free, and never the null page.\<close>

definition os_ok :: "'o lrupat \<Rightarrow> bool" where
  "os_ok lp \<longleftrightarrow> (\<forall>s. slab_good s \<longrightarrow> fresh_block s (os_page lp s) \<and> 0 < os_page lp s)"

definition pool_ok :: "'o lrupat \<Rightarrow> bool" where
  "pool_ok lp \<longleftrightarrow> slab_good (slab lp) \<and> (\<forall>p \<in> set (pages (slab lp)). 0 < p) \<and> os_ok lp \<and>
     (\<forall>x. x \<notin> inuse lp \<longrightarrow> heap lp x = zero_node)"

text \<open>What no operation on nodes changes.\<close>

definition same_frame :: "'o lrupat \<Rightarrow> 'o lrupat \<Rightarrow> bool" where
  "same_frame lp lp' \<longleftrightarrow> lp' = lp\<lparr>slab := slab lp', heap := heap lp'\<rparr>"

lemma same_frameD:
  assumes "same_frame lp lp'"
  shows "nodes lp' = nodes lp" "nwatchcb lp' = nwatchcb lp" "watched lp' = watched lp" "os_page lp' = os_page lp"
    "os_raw lp' = os_raw lp" "os_ok lp' = os_ok lp"
  using arg_cong [of _ _ nodes, OF assms [unfolded same_frame_def]] arg_cong [of _ _ nwatchcb, OF assms [unfolded same_frame_def]]
    arg_cong [of _ _ watched, OF assms [unfolded same_frame_def]] arg_cong [of _ _ os_page, OF assms [unfolded same_frame_def]]
    arg_cong [of _ _ os_raw, OF assms [unfolded same_frame_def]]
  by (simp_all add: os_ok_def)

lemma same_frame_trans: "same_frame a b \<Longrightarrow> same_frame b c \<Longrightarrow> same_frame a c"
  unfolding same_frame_def
  by (metis (no_types, lifting) lrupat.surjective lrupat.update_convs(2,3))

lemma same_frame_write [simp]: "same_frame lp (write_node lp x n)"
  by (simp add: same_frame_def write_node_def)

lemma write_node_simps [simp]:
  "heap (write_node lp x n) = (heap lp)(x := n)" "slab (write_node lp x n) = slab lp"
  "inuse (write_node lp x n) = inuse lp"
  by (simp_all add: write_node_def inuse_def)

lemma pool_ok_write: "pool_ok lp \<Longrightarrow> x \<in> inuse lp \<Longrightarrow> pool_ok (write_node lp x n)"
  by (auto simp: pool_ok_def inuse_def os_ok_def write_node_def)

lemma lpatnode_new_spec:
  assumes ok: "pool_ok lp"
  obtains (object) x lp' m' where "lpatnode_new lp m = Some (x, lp', m')" "pool_ok lp'" "same_frame lp lp'" "heap lp' = heap lp"
      "x \<noteq> 0" "x \<notin> inuse lp" "inuse lp' = insert x (inuse lp)" "heap lp x = zero_node" "plentiful m \<longrightarrow> plentiful m'"
  | (none) lp' m' where "lpatnode_new lp m = Some (0, lp', m')" "same_frame lp lp'" "heap lp' = heap lp" "\<not> plentiful m"
      "orderly (slab lp')" "inuse lp' = inuse lp"
proof -
  have g: "slab_good (slab lp)" "fresh_block (slab lp) (os_page lp (slab lp))" "0 < os_page lp (slab lp)"
    using ok by (simp_all add: pool_ok_def os_ok_def)
  from g(1,2) show thesis
  proof (cases rule: slalloc_new_spec [where raw = "os_raw lp" and m = m])
    case (object x sl m')
    have "set (pages sl) \<subseteq> insert (os_page lp (slab lp)) (set (pages (slab lp)))" by (rule slalloc_new_pages [OF object(1)])
    with ok g(3) have p: "\<forall>p \<in> set (pages sl). 0 < p" by (auto simp: pool_ok_def)
    have "slab_ok sl" using object(2) by (simp add: slab_good_def)
    from used_obj_positive [OF this p] object(4) have "x \<noteq> 0" by auto
    moreover have "pool_ok (lp\<lparr>slab := sl\<rparr>)" using ok p object(2,4) by (simp add: pool_ok_def inuse_def os_ok_def)
    moreover have "heap lp x = zero_node" using ok object(3) by (simp add: pool_ok_def inuse_def)
    ultimately show thesis using object
      by (intro that(1) [of x "lp\<lparr>slab := sl\<rparr>" m']) (simp_all add: lpatnode_new_def inuse_def same_frame_def)
  next
    case (none sl m')
    have "orderly sl" using none(2) g(1) same_shapeD(2) [OF none(4)] none(4)
      by (auto simp: orderly_def slab_good_def pages_apart_def same_shape_def)
    moreover have "set (used_objs sl) = set (used_objs (slab lp))" by (rule null_used [OF g(1) none(3,4,2)])
    ultimately show thesis using none
      by (intro that(2) [of "lp\<lparr>slab := sl\<rparr>" m']) (simp_all add: lpatnode_new_def same_frame_def inuse_def)
  qed
qed

lemma lpatnode_free_frame: "lpatnode_free lp x = Some lp' \<Longrightarrow> same_frame lp lp' \<and> heap lp' = (heap lp)(x := zero_node)"
  by (auto simp: lpatnode_free_def same_frame_def write_node_def split: option.splits)

lemma lpatnode_free_good:
  assumes "pool_ok lp" "x \<in> inuse lp"
  shows "\<exists>lp'. lpatnode_free lp x = Some lp'"
  using slalloc_free_good [of "slab lp" x] assms by (auto simp: pool_ok_def inuse_def lpatnode_free_def)

lemma lpatnode_free_orderly:
  assumes "orderly (slab lp)" "x \<in> inuse lp"
  shows "\<exists>lp'. lpatnode_free lp x = Some lp' \<and> orderly (slab lp') \<and> inuse lp' = inuse lp - {x} \<and>
    heap lp' = (heap lp)(x := zero_node)"
proof -
  have "\<exists>sl'. slalloc_free (slab lp) x = Some sl' \<and> orderly sl' \<and> set (used_objs sl') = set (used_objs (slab lp)) - {x}"
    using assms slalloc_free_good [of "slab lp" x] slalloc_free_stale [of "slab lp" x] by (auto simp: orderly_def inuse_def)
  then show ?thesis by (auto simp: lpatnode_free_def inuse_def write_node_def)
qed

text \<open>
  A path of \<open>n\<close> links from a node: every node on it has at most the one child. What a decay that
  fails has to give back is such a path, so the depth \<open>n + 1\<close> is enough to free it.
\<close>

fun path :: "(nat \<Rightarrow> 'o lpatnode) \<Rightarrow> nat \<Rightarrow> nat \<Rightarrow> nat set \<Rightarrow> bool" where
  "path h x 0 V \<longleftrightarrow> V = {} \<and> arr (h x) = (\<lambda>_. 0)"
| "path h x (Suc n) V \<longleftrightarrow>
     (\<exists>c z W. arr (h x) = (\<lambda>_. 0)(c := z) \<and> z \<noteq> 0 \<and> V = insert z W \<and> x \<notin> V \<and> z \<notin> W \<and> path h z n W)"

lemma path_frame: "path h x n V \<Longrightarrow> (\<forall>z \<in> insert x V. arr (h' z) = arr (h z)) \<Longrightarrow> path h' x n V"
proof (induction n arbitrary: x V)
  case (Suc n)
  from Suc.prems(1) obtain c z W where z: "arr (h x) = (\<lambda>_. 0)(c := z)" "z \<noteq> 0" "V = insert z W" "x \<notin> V" "z \<notin> W" "path h z n W"
    by auto
  have "path h' z n W" by (rule Suc.IH [OF z(6)]) (use Suc.prems(2) z(3) in auto)
  then show ?case using z Suc.prems(2) by auto
qed simp

lemma chain_path: "chain h x w y V \<Longrightarrow> path h x (length w) V"
  by (induction w arbitrary: x V) (fastforce simp: zero_node_def)+

lemma free_null [simp]: "free_lrupat_chain fuel 0 lp = Some lp"
  by (cases fuel) simp_all

lemma char_split:
  fixes c :: char
  shows "[0..<256] = [0..<of_char c] @ of_char c # [Suc (of_char c)..<(256 :: nat)]"
proof -
  have "of_char c < (256 :: nat)" by simp
  then show ?thesis by (metis upt_conv_Cons upt_add_eq_append le_add1 zero_le less_imp_le add_diff_inverse_nat not_less)
qed

lemma free_lrupat_chain_path:
  assumes "path (heap lp) x n V" "x \<noteq> 0" "orderly (slab lp)" "insert x V \<subseteq> inuse lp" "n < fuel"
  shows "\<exists>lp'. free_lrupat_chain fuel x lp = Some lp' \<and> orderly (slab lp') \<and> inuse lp' = inuse lp - insert x V \<and>
    (\<forall>y. heap lp' y = (if y \<in> insert x V then zero_node else heap lp y))"
  using assms
proof (induction n arbitrary: x V lp fuel)
  case (0)
  then obtain f where fuel: "fuel = Suc f" by (cases fuel) auto
  let ?f = "\<lambda>acc z. case acc of None \<Rightarrow> None | Some lp1 \<Rightarrow> free_lrupat_chain f (arr (heap lp1 x) (char_of (z :: nat))) lp1"
  have "foldl ?f (Some lp) zs = Some lp" for zs using 0 by (induction zs) simp_all
  with 0 lpatnode_free_orderly [of lp x] show ?case by (auto simp: fuel)
next
  case (Suc n)
  then obtain f where fuel: "fuel = Suc f" "n < f" by (cases fuel) auto
  from Suc.prems(1) obtain c z W where z: "arr (heap lp x) = (\<lambda>_. 0)(c := z)" "z \<noteq> 0" "V = insert z W" "x \<notin> V" "z \<notin> W"
    "path (heap lp) z n W" by auto
  let ?f = "\<lambda>acc z. case acc of None \<Rightarrow> None | Some lp1 \<Rightarrow> free_lrupat_chain f (arr (heap lp1 x) (char_of (z :: nat))) lp1"
  have skip: "foldl ?f (Some lp1) zs = Some lp1"
    if "\<forall>k \<in> set zs. char_of k \<noteq> c" "arr (heap lp1 x) = (\<lambda>_. 0)(c := z)" for zs :: "nat list" and lp1
    using that by (induction zs) simp_all
  from Suc.IH [OF z(6,2) Suc.prems(3) _ fuel(2)] Suc.prems(4) z(3) obtain lp1 where
    l1: "free_lrupat_chain f z lp = Some lp1" "orderly (slab lp1)" "inuse lp1 = inuse lp - V"
      "\<forall>y. heap lp1 y = (if y \<in> V then zero_node else heap lp y)" by auto
  have ne: "char_of k \<noteq> c" if "k < 256" "k \<noteq> of_char c" for k :: nat
    using that by (metis of_char_of mod_less)
  have "of_char c < (256 :: nat)" by simp
  with ne have far: "\<forall>k \<in> set [0..<of_char c]. char_of k \<noteq> c" "\<forall>k \<in> set [Suc (of_char c)..<256]. char_of k \<noteq> c"
    by auto
  have "foldl ?f (Some lp) [0..<256] = Some lp1"
    unfolding char_split [of c] foldl_append foldl.simps skip [OF far(1) z(1)]
    using skip [OF far(2), of lp1] l1(1,4) z(1,4) by simp
  moreover have "x \<in> inuse lp1" using l1(3) Suc.prems(4) z(4) by auto
  moreover note lpatnode_free_orderly [OF l1(2) this]
  ultimately show ?case using Suc.prems(2) l1(3,4) by (auto simp: fuel(1))
qed

text \<open>A set of nodes that point nowhere else.\<close>

definition closed :: "(nat \<Rightarrow> 'o lpatnode) \<Rightarrow> nat set \<Rightarrow> bool" where
  "closed h C \<longleftrightarrow> (\<forall>x \<in> C. \<forall>c. arr (h x) c \<in> insert 0 C)"

lemma free_lrupat_chain_frame:
  assumes "closed (heap lp) C" "l \<in> insert 0 C" "free_lrupat_chain fuel l lp = Some lp'"
  shows "same_frame lp lp' \<and> closed (heap lp') C \<and> (\<forall>x. x \<notin> C \<longrightarrow> heap lp' x = heap lp x)"
  using assms
proof (induction fuel arbitrary: l lp lp')
  case 0
  then show ?case by (auto simp: same_frame_def split: if_splits)
next
  case (Suc fuel)
  show ?case
  proof (cases "l = 0")
    case True
    with Suc.prems show ?thesis by (simp add: same_frame_def)
  next
    case False
    let ?f = "\<lambda>acc z. case acc of None \<Rightarrow> None
                         | Some lp1 \<Rightarrow> free_lrupat_chain fuel (arr (heap lp1 l) (char_of (z :: nat))) lp1"
    have l: "l \<in> C" using False Suc.prems(2) by simp
    have none: "foldl ?f None zs = None" for zs by (induction zs) simp_all
    have fold: "same_frame lp lp1 \<and> closed (heap lp1) C \<and> (\<forall>x. x \<notin> C \<longrightarrow> heap lp1 x = heap lp x)"
      if "foldl ?f (Some lp0) zs = Some lp1" "same_frame lp lp0" "closed (heap lp0) C" "\<forall>x. x \<notin> C \<longrightarrow> heap lp0 x = heap lp x" for zs lp0 lp1
      using that
    proof (induction zs arbitrary: lp0)
      case (Cons z zs)
      obtain lp2 where e: "free_lrupat_chain fuel (arr (heap lp0 l) (char_of z)) lp0 = Some lp2"
      proof (cases "free_lrupat_chain fuel (arr (heap lp0 l) (char_of z)) lp0")
        case None
        then have "foldl ?f None zs = Some lp1" using Cons.prems(1) by simp
        then show thesis unfolding none by simp
      qed
      have "arr (heap lp0 l) (char_of z) \<in> insert 0 C" using Cons.prems(3) l unfolding closed_def by blast
      from Suc.IH [OF Cons.prems(3) this e] Cons.prems(2,4) have "same_frame lp lp2" "closed (heap lp2) C" "\<forall>x. x \<notin> C \<longrightarrow> heap lp2 x = heap lp x"
        by (auto intro: same_frame_trans)
      moreover have "foldl ?f (Some lp2) zs = Some lp1" using Cons.prems(1) e by simp
      ultimately show ?case by (intro Cons.IH)
    qed simp
    from Suc.prems(3) False obtain lp1 where f: "foldl ?f (Some lp) [0..<256] = Some lp1" and r: "lpatnode_free lp1 l = Some lp'"
      by (auto split: option.splits)
    have f1: "same_frame lp lp1 \<and> closed (heap lp1) C \<and> (\<forall>x. x \<notin> C \<longrightarrow> heap lp1 x = heap lp x)"
      by (rule fold [OF f]) (use Suc.prems(1) in \<open>simp_all add: same_frame_def\<close>)
    from lpatnode_free_frame [OF r] f1 l show ?thesis
      by (auto simp: closed_def zero_node_def intro: same_frame_trans)
  qed
qed

declare free_lrupat_chain.simps [simp del]

lemma closed_insert: "closed h V \<Longrightarrow> (\<And>c. arr (h x) c \<in> insert 0 V) \<Longrightarrow> closed h (insert x V)"
  unfolding closed_def by (metis insert_iff)

lemma expand_spec:
  assumes "pool_ok lp" "cur \<noteq> 0" "cur \<in> inuse lp" "heap lp cur = zero_node" "suffix \<noteq> []" "cstr suffix"
  shows "\<exists>lst lp' m' V. expand cf suffix cur lp m = Some (lst, lp', m') \<and> same_frame lp lp' \<and> V \<inter> inuse lp = {} \<and>
      (\<forall>x. x \<notin> insert cur V \<longrightarrow> heap lp' x = heap lp x) \<and>
      (if lst = 0 then closed (heap lp') (insert cur V) \<and> \<not> plentiful m \<and> orderly (slab lp') \<and>
         inuse lp' = inuse lp \<union> V \<and> (\<exists>n < length suffix. path (heap lp') cur n V)
       else pool_ok lp' \<and> inuse lp' = inuse lp \<union> V \<and> chain (heap lp') cur (map cf suffix) lst V \<and> (plentiful m \<longrightarrow> plentiful m'))"
    (is "\<exists>lst lp' m' V. ?P suffix cur lp m lst lp' m' V")
  using assms
proof (induction suffix arbitrary: cur lp m)
  case (Cons c w)
  from Cons.prems(1) show ?case
  proof (cases rule: lpatnode_new_spec [where m = m])
    case (none lp1 m1)
    define lp2 where "lp2 = store (Slot cur (cf c)) 0 lp1"
    have e: "expand cf (c # w) cur lp m = Some (0, lp2, m1)"
      by (subst expand.simps) (use none(1) in \<open>simp add: lp2_def Let_def\<close>)
    have "same_frame lp lp2" unfolding lp2_def by (auto intro: same_frame_trans [OF none(2)])
    then have "?P (c # w) cur lp m 0 lp2 m1 {}"
      using e none(3-6) Cons.prems(4) by (auto simp: lp2_def closed_def zero_node_def intro!: exI [of _ "0 :: nat"])
    then show ?thesis by blast
  next
    case (object x lp1 m1)
    define n where "n = (zero_node :: 'a lpatnode) \<lparr>arr := (\<lambda>_. 0)(cf c := x)\<rparr>"
    define lp2 where "lp2 = write_node lp1 cur n"
    have st: "store (Slot cur (cf c)) x lp1 = lp2"
      using Cons.prems(4) object(4) by (simp add: lp2_def n_def zero_node_def)
    have ne: "x \<noteq> cur" using object(6) Cons.prems(3) by blast
    have ok2: "pool_ok lp2" unfolding lp2_def by (rule pool_ok_write [OF object(2)]) (use object(7) Cons.prems(3) in simp)
    have sf: "same_frame lp lp2" unfolding lp2_def by (rule same_frame_trans [OF object(3) same_frame_write])
    have i2: "inuse lp2 = insert x (inuse lp)" and h2: "heap lp2 = (heap lp)(cur := n)"
      using object(4,7) by (simp_all add: lp2_def)
    show ?thesis
    proof (cases "w = []")
      case True
      have e: "expand cf (c # w) cur lp m = Some (x, lp2, m1)"
        by (subst expand.simps) (use object(1,5) True st in \<open>simp add: Let_def del: store.simps\<close>)
      have "?P (c # w) cur lp m x lp2 m1 {x}"
        using e sf ok2 i2 h2 object(5,6,8,9) ne True by (auto simp: n_def)
      then show ?thesis by blast
    next
      case False
      then have pk: "peek w \<noteq> NUL" using Cons.prems(6) by (cases w) auto
      have e: "expand cf (c # w) cur lp m = expand cf w x lp2 m1"
        by (subst expand.simps) (use object(1,5) pk st in \<open>simp add: Let_def del: store.simps\<close>)
      have "\<exists>lst lp' m' V. ?P w x lp2 m1 lst lp' m' V"
        by (rule Cons.IH [OF ok2 object(5)]) (use False Cons.prems(6) i2 h2 object(8) ne in simp_all)
      then obtain lst lp' m' V where r: "expand cf w x lp2 m1 = Some (lst, lp', m')" "same_frame lp2 lp'" "V \<inter> inuse lp2 = {}"
        "\<forall>y. y \<notin> insert x V \<longrightarrow> heap lp' y = heap lp2 y"
        "if lst = 0 then closed (heap lp') (insert x V) \<and> \<not> plentiful m1 \<and> orderly (slab lp') \<and>
           inuse lp' = inuse lp2 \<union> V \<and> (\<exists>n < length w. path (heap lp') x n V)
         else pool_ok lp' \<and> inuse lp' = inuse lp2 \<union> V \<and> chain (heap lp') x (map cf w) lst V \<and> (plentiful m1 \<longrightarrow> plentiful m')"
        by blast
      have cV: "cur \<notin> insert x V" using r(3) i2 Cons.prems(3) ne by auto
      then have hc: "heap lp' cur = n" using r(4) h2 by simp
      have "?P (c # w) cur lp m lst lp' m' (insert x V)"
      proof (intro conjI)
        show "expand cf (c # w) cur lp m = Some (lst, lp', m')" using e r(1) by simp
        show "same_frame lp lp'" by (rule same_frame_trans [OF sf r(2)])
        show "insert x V \<inter> inuse lp = {}" using r(3) i2 object(6) by auto
        show "\<forall>y. y \<notin> insert cur (insert x V) \<longrightarrow> heap lp' y = heap lp y" using r(4) h2 by simp
        show "if lst = 0 then closed (heap lp') (insert cur (insert x V)) \<and> \<not> plentiful m \<and> orderly (slab lp') \<and>
            inuse lp' = inuse lp \<union> insert x V \<and> (\<exists>n < length (c # w). path (heap lp') cur n (insert x V))
          else pool_ok lp' \<and> inuse lp' = inuse lp \<union> insert x V \<and> chain (heap lp') cur (map cf (c # w)) lst (insert x V) \<and> (plentiful m \<longrightarrow> plentiful m')"
        proof (cases "lst = 0")
          case True
          with r(5) have "closed (heap lp') (insert x V)" by simp
          then have "closed (heap lp') (insert cur (insert x V))"
            by (rule closed_insert) (simp add: hc n_def zero_node_def)
          moreover obtain n' where n': "n' < length w" "path (heap lp') x n' V" using r(5) True by auto
          have "x \<notin> V" using r(3) i2 by auto
          then have "path (heap lp') cur (Suc n') (insert x V)" using n'(2) object(5) cV hc by (auto simp: n_def zero_node_def)
          with n'(1) have "\<exists>n < length (c # w). path (heap lp') cur n (insert x V)" by (intro exI [of _ "Suc n'"]) simp
          ultimately show ?thesis using True r(5) object(9) i2 by auto
        next
          case False
          have "x \<notin> V" using r(3) i2 by auto
          with False r(5) object(5,9) hc cV i2 show ?thesis by (auto simp: n_def)
        qed
      qed
      then show ?thesis by blast
    qed
  qed
qed simp

lemma chain_closed: "chain h x w y V \<Longrightarrow> closed h (insert x V)"
proof (induction w arbitrary: x V)
  case (Cons c w)
  from Cons.prems obtain z W where z: "h x = zero_node \<lparr>arr := (\<lambda>_. 0)(c := z)\<rparr>" "V = insert z W" "chain h z w y W" by auto
  from Cons.IH [OF z(3)] show ?case unfolding z(2) by (rule closed_insert) (simp add: z(1) zero_node_def)
qed (simp add: closed_def zero_node_def)

lemma chain_patstr: "chain h x w y V \<Longrightarrow> w \<noteq> [] \<Longrightarrow> patstr (h x) = None"
  by (cases w) (auto simp: zero_node_def)

lemma pool_ok_store: "pool_ok lp \<Longrightarrow> (\<And>q c. lps = Slot q c \<Longrightarrow> q \<in> inuse lp) \<Longrightarrow> pool_ok (store lps x lp)"
proof (cases lps)
  case Root
  then show "pool_ok lp \<Longrightarrow> pool_ok (store lps x lp)" by (simp add: pool_ok_def os_ok_def inuse_def)
next
  case (Slot q c)
  then show "pool_ok lp \<Longrightarrow> (\<And>q c. lps = Slot q c \<Longrightarrow> q \<in> inuse lp) \<Longrightarrow> pool_ok (store lps x lp)"
    by (simp add: pool_ok_write)
qed

text \<open>What an operation on one slot may change: the tree below it, fresh nodes, and the slot.\<close>

fun slot_ok :: "'o lrupat \<Rightarrow> nat set \<Rightarrow> slot \<Rightarrow> bool" where
  "slot_ok lp S Root \<longleftrightarrow> True"
| "slot_ok lp S (Slot q c) \<longleftrightarrow> q \<in> inuse lp \<and> q \<notin> S"

definition outcome :: "(char \<Rightarrow> char) \<Rightarrow> 'o lrupat \<Rightarrow> slot \<Rightarrow> nat set \<Rightarrow> 'o lrupat \<Rightarrow> nat set \<Rightarrow> nat set \<Rightarrow> bool" where
  "outcome cf lp lps S lp' V S' \<longleftrightarrow> V \<inter> inuse lp = {} \<and> S' \<subseteq> S \<union> V \<and> tree cf (heap lp') (deref lp' lps) S' \<and>
     (\<forall>x. x \<notin> S \<union> V \<longrightarrow> heap lp' x = heap (store lps (deref lp' lps) lp) x) \<and> nodes lp' = nodes (store lps (deref lp' lps) lp)"

lemma deref_store [simp]: "deref (store lps x lp) lps = x"
  by (cases lps) simp_all

lemma store_deref [simp]: "heap (store lps (deref lp lps) lp) = heap lp" "nodes (store lps (deref lp lps) lp) = nodes lp"
proof -
  have n: "n\<lparr>arr := arr n\<rparr> = n" for n :: "'a lpatnode" by simp
  show "heap (store lps (deref lp lps) lp) = heap lp" by (cases lps) (simp_all add: n)
  show "nodes (store lps (deref lp lps) lp) = nodes lp" by (cases lps) (simp_all add: write_node_def)
qed

lemma store_simps [simp]: "slab (store lps x lp) = slab lp" "inuse (store lps x lp) = inuse lp" "nwatchcb (store lps x lp) = nwatchcb lp"
    "watched (store lps x lp) = watched lp"
  by (cases lps; simp add: write_node_def inuse_def)+

definition same_watch :: "'o lrupat \<Rightarrow> 'o lrupat \<Rightarrow> bool" where
  "same_watch lp lp' \<longleftrightarrow> nwatchcb lp' = nwatchcb lp \<and> watched lp' = watched lp"

text \<open>A failed step leaves everything but fresh nodes alone.\<close>

definition untouched :: "'o lrupat \<Rightarrow> 'o lrupat \<Rightarrow> bool" where
  "untouched lp lp' \<longleftrightarrow> same_frame lp lp' \<and> (\<exists>V. V \<inter> inuse lp = {} \<and> (\<forall>x. x \<notin> V \<longrightarrow> heap lp' x = heap lp x))"

lemma tree_nonempty_tail:
  "tree cf h p S \<Longrightarrow> p \<noteq> 0 \<Longrightarrow> patstr (h p) = Some s \<Longrightarrow> s \<noteq> [] \<Longrightarrow> arr (h p) = (\<lambda>_. 0) \<and> map cf s = s \<and> cstr s \<and> p \<in> S"
  by (erule tree.cases) (auto simp: tail_ok_def)

lemma heap_store_other: "(\<And>q c. lps = Slot q c \<Longrightarrow> x \<noteq> q) \<Longrightarrow> heap (store lps y lp) x = heap lp x"
  by (cases lps) auto

lemma decay_failed:
  assumes "untouched lp lp2" "closed (heap lp2) C" "l \<in> C" "C \<inter> inuse lp = {}"
    "map_option (\<lambda>lp3. (True, lp3, m2)) (free_lrupat_chain fuel l lp2) = Some (r, lp', m')"
  shows "r \<and> untouched lp lp'"
proof -
  obtain lp3 where f: "free_lrupat_chain fuel l lp2 = Some lp3" "r" "lp' = lp3" using assms(5) by auto
  have "l \<in> insert 0 C" using assms(3) by simp
  from free_lrupat_chain_frame [OF assms(2) this f(1)]
  have c: "same_frame lp2 lp3" "\<forall>x. x \<notin> C \<longrightarrow> heap lp3 x = heap lp2 x" by simp_all
  from assms(1) obtain V where V: "same_frame lp lp2" "V \<inter> inuse lp = {}" "\<forall>x. x \<notin> V \<longrightarrow> heap lp2 x = heap lp x"
    by (auto simp: untouched_def)
  have "(V \<union> C) \<inter> inuse lp = {}" using V(2) assms(4) by auto
  moreover have "\<forall>x. x \<notin> V \<union> C \<longrightarrow> heap lp3 x = heap lp x" using V(3) c(2) by simp
  ultimately show ?thesis using f same_frame_trans [OF V(1) c(1)] unfolding untouched_def by blast
qed

lemma decay_spec:
  assumes ok: "pool_ok lp" and t: "tree cf (heap lp) (deref lp lps) S" and l: "deref lp lps \<noteq> 0" and S: "S \<subseteq> inuse lp"
    and so: "slot_ok lp S lps" and p: "patstr (heap lp (deref lp lps)) = Some suffix" "suffix \<noteq> []"
  obtains (decayed) lp' m' V where "decay_tail cf lp lps m = Some (False, lp', m')" "pool_ok lp'" "inuse lp' = inuse lp \<union> V"
      "outcome cf lp lps S lp' V V" "deref lp' lps \<noteq> 0" "patstr (heap lp' (deref lp' lps)) = None" "same_watch lp lp'"
      "stored (heap lp') (deref lp' lps) = stored (heap lp) (deref lp lps)" "plentiful m \<longrightarrow> plentiful m'"
  | (failed) "\<And>r lp' m'. decay_tail cf lp lps m = Some (r, lp', m') \<Longrightarrow> r \<and> untouched lp lp'" "\<not> plentiful m" "decay_tail cf lp lps m \<noteq> None"
proof -
  define p where "p = deref lp lps"
  note tl = tree_nonempty_tail [OF t l p, folded p_def]
  have pk: "peek suffix \<noteq> NUL" using tl p(2) by (cases suffix) auto
  have st0: "stored (heap lp) p = [suffix \<mapsto> obj (heap lp p)]" by (rule stored_leaf) (use l tl p(1) in \<open>simp_all add: p_def\<close>)
  note ev = decay_tail_def [of cf lp lps m, unfolded Let_def, folded p_def]
  from ok show thesis
  proof (cases rule: lpatnode_new_spec [where m = m])
    case (none lp1 m1)
    then have "decay_tail cf lp lps m = Some (True, lp1, m1)" using p(1) pk by (simp add: ev p_def)
    with none that(2) show thesis by (auto simp: untouched_def)
  next
    case (object hd lp1 m1)
    have h1: "hd \<in> inuse lp1" "heap lp1 hd = zero_node" using object by simp_all
    have cs: "cstr suffix" using tl by simp
    from expand_spec [OF object(2,5) h1 p(2) cs, of cf m1] obtain lst lp2 m2 V
      where x: "expand cf suffix hd lp1 m1 = Some (lst, lp2, m2)" "same_frame lp1 lp2" "V \<inter> inuse lp1 = {}"
        "\<forall>x. x \<notin> insert hd V \<longrightarrow> heap lp2 x = heap lp1 x"
        "if lst = 0 then closed (heap lp2) (insert hd V) \<and> \<not> plentiful m1 \<and> orderly (slab lp2) \<and>
           inuse lp2 = inuse lp1 \<union> V \<and> (\<exists>n < length suffix. path (heap lp2) hd n V)
         else pool_ok lp2 \<and> inuse lp2 = inuse lp1 \<union> V \<and> chain (heap lp2) hd (map cf suffix) lst V \<and> (plentiful m1 \<longrightarrow> plentiful m2)"
      by blast
    define W where "W = insert hd V"
    have W: "W \<inter> inuse lp = {}" using x(3) object(6,7) by (auto simp: W_def)
    have hW: "hd \<in> W" by (simp add: W_def)
    have "\<forall>x. x \<notin> W \<longrightarrow> heap lp2 x = heap lp x" using x(4) object(4) by (simp add: W_def)
    with W same_frame_trans [OF object(3) x(2)] have u2: "untouched lp lp2" unfolding untouched_def by blast
    show thesis
    proof (cases "lst = 0")
      case True
      have "decay_tail cf lp lps m = map_option (\<lambda>lp3. (True, lp3, m2)) (free_lrupat_chain (length suffix + 1) hd lp2)"
        using object(1,5) x(1) True p(1) pk by (simp add: ev p_def)
      note e = this
      have cl: "closed (heap lp2) W" using x(5) True by (simp add: W_def)
      show thesis
      proof (rule that(2))
        show "\<not> plentiful m" using x(5) True object(9) by simp
        obtain n where n: "n < length suffix" "path (heap lp2) hd n V" using x(5) True by auto
        have "insert hd V \<subseteq> inuse lp2" "orderly (slab lp2)" using x(5) True h1(1) by auto
        from free_lrupat_chain_path [OF n(2) object(5) this(2,1), of "length suffix + 1"] n(1)
        show "decay_tail cf lp lps m \<noteq> None" unfolding e by auto
        fix r lp' m'
        assume "decay_tail cf lp lps m = Some (r, lp', m')"
        then show "r \<and> untouched lp lp'" unfolding e by (rule decay_failed [OF u2 cl hW W])
      qed
    next
      case False
      have ch: "chain (heap lp2) hd suffix lst V" and ok2: "pool_ok lp2" and i2: "inuse lp2 = inuse lp \<union> W" and pl: "plentiful m1 \<longrightarrow> plentiful m2"
        using x(5) False tl object(7) by (auto simp: W_def)
      obtain so2 m3 where sd: "Strdup (Some []) m2 = (so2, m3)" by (cases "Strdup (Some []) m2")
      have sd2: "so2 = None \<or> so2 = Some []" using sd by (auto simp: Strdup_def cpart_def split: prod.splits bool.splits)
      have pm3: "so2 \<noteq> None \<and> plentiful m3" if "plentiful m2"
        using Malloc_plentiful [OF that, of "length (cpart []) + 1"] sd by (auto simp: Strdup_def split: prod.splits bool.splits)
      show thesis
      proof (cases so2)
        case None
        have e: "decay_tail cf lp lps m = map_option (\<lambda>lp3. (True, lp3, m3)) (free_lrupat_chain (length suffix + 1) hd lp2)"
          using object(1,5) x(1) False p(1) pk sd None by (simp add: ev p_def)
        have "closed (heap lp2) W" using chain_closed [OF ch] by (simp add: W_def)
        note cl = this
        show thesis
        proof (rule that(2))
          show "\<not> plentiful m" using None pm3 pl object(9) by auto
          have "insert hd V \<subseteq> inuse lp2" "orderly (slab lp2)" using i2 ok2 by (auto simp: W_def pool_ok_def orderly_def)
          from free_lrupat_chain_path [OF chain_path [OF ch] object(5) this(2,1), of "length suffix + 1"]
          show "decay_tail cf lp lps m \<noteq> None" unfolding e by auto
          fix r lp' m'
        assume "decay_tail cf lp lps m = Some (r, lp', m')"
        then show "r \<and> untouched lp lp'" unfolding e by (rule decay_failed [OF u2 cl hW W])
      qed
      next
        case (Some s)
        with sd2 have s: "s = []" by simp
        define lp3 where "lp3 = write_node lp2 lst (heap lp2 lst \<lparr>patstr := Some [], obj := obj (heap lp2 p)\<rparr>)"
        define lp4 where "lp4 = write_node lp3 p (heap lp3 p \<lparr>obj := None, patstr := None\<rparr>)"
        define lp5 where "lp5 = store lps hd lp4"
        have e: "decay_tail cf lp lps m = Some (False, lp5, Free True m3)"
          using object(1,5) x(1) False p(1) pk sd Some s by (simp add: ev lp5_def lp4_def lp3_def p_def)
        have pin: "p \<in> inuse lp" "p \<notin> W" using tl S W by auto
        have lw: "lst \<in> W" using chain_last [OF ch] by (simp add: W_def)
        have hp: "heap lp2 p = heap lp p" using x(4) object(4) pin(2) by (simp add: W_def)
        have "tree cf (heap lp3) hd (insert hd V) \<and> stored (heap lp3) hd = [suffix \<mapsto> obj (heap lp2 p)]"
          by (rule chain_tree [OF ch object(5)]) (use tl in \<open>simp_all add: lp3_def\<close>)
        then have t3: "tree cf (heap lp3) hd W" "stored (heap lp3) hd = [suffix \<mapsto> obj (heap lp p)]" by (simp_all add: W_def hp)
        have qW: "q \<in> inuse lp" "q \<notin> W" "q \<noteq> p" if "lps = Slot q c" for q c
          using so that W tl by auto
        have h5: "\<forall>x \<in> W. heap lp5 x = heap lp3 x"
        proof
          fix x assume x: "x \<in> W"
          have "heap lp5 x = heap lp4 x" unfolding lp5_def by (rule heap_store_other) (use qW(2) x in blast)
          then show "heap lp5 x = heap lp3 x" using pin(2) x by (auto simp: lp4_def)
        qed
        from tree_frame [OF t3(1) h5] t3(2) have t5: "tree cf (heap lp5) hd W" "stored (heap lp5) hd = [suffix \<mapsto> obj (heap lp p)]"
          by (auto simp: fun_eq_iff)
        have d5: "deref lp5 lps = hd" by (simp add: lp5_def)
        have n4: "nodes lp4 = nodes lp" using same_frameD(1) [OF object(3)] same_frameD(1) [OF x(2)] by (simp add: lp4_def lp3_def write_node_def)
        have fr: "heap lp5 y = heap (store lps hd lp) y" if "y \<notin> S \<union> W" for y
        proof -
          have yp: "y \<noteq> p" "y \<noteq> lst" "y \<notin> insert hd V" using that tl lw by (auto simp: W_def)
          then have "heap lp4 y = heap lp y" using x(4) object(4) by (simp add: lp4_def lp3_def)
          moreover have "heap lp4 q = heap lp q" if "lps = Slot q c" for q c
            using qW [OF that] lw x(4) object(4) by (auto simp: lp4_def lp3_def W_def)
          ultimately show ?thesis unfolding lp5_def by (cases lps) auto
        qed
        have oc: "outcome cf lp lps S lp5 W W" unfolding outcome_def d5
          using W t5(1) fr n4 by (cases lps) (auto simp: lp5_def write_node_def)
        have ok3: "pool_ok lp3" unfolding lp3_def by (rule pool_ok_write [OF ok2]) (use i2 lw in simp)
        have ok4: "pool_ok lp4" unfolding lp4_def by (rule pool_ok_write [OF ok3]) (use i2 pin(1) in \<open>simp add: lp3_def\<close>)
        have i4: "inuse lp4 = inuse lp \<union> W" using i2 by (simp add: lp4_def lp3_def)
        have ok5: "pool_ok lp5" unfolding lp5_def by (rule pool_ok_store [OF ok4]) (use qW(1) i4 in auto)
        have pt: "patstr (heap lp5 hd) = None"
        proof -
          have "lst \<noteq> hd" using chain_last [OF ch] p(2) x(3) h1(1) by auto
          with h5 chain_patstr [OF ch p(2)] show ?thesis by (simp add: W_def lp3_def)
        qed
        have sw: "same_watch lp lp5" using same_frameD(2,3) [OF object(3)] same_frameD(2,3) [OF x(2)]
          by (simp add: same_watch_def lp5_def lp4_def lp3_def) (simp add: write_node_def)
        show thesis
          by (rule that(1) [OF e ok5 _ oc]) (use i4 d5 object(5,9) pt sw t5(2) st0 pm3 pl in \<open>simp_all add: lp5_def p_def\<close>)
      qed
    qed
  qed
qed

lemma tree_set_key:
  assumes t: "tree cf h p S" "p \<noteq> 0" and s: "\<And>s. patstr (h p) = Some s \<Longrightarrow> s = []"
    and h': "h' = h(p := (h p)\<lparr>patstr := Some [], obj := ob\<rparr>)"
  shows "tree cf h' p S \<and> stored h' p = (stored h p)([] \<mapsto> ob)"
  using t(1)
proof (cases rule: tree.cases)
  case Null
  with t(2) show ?thesis by simp
next
  case (Node F)
  have c: "tree cf h' (arr (h p) c) (F c) \<and> stored h' (arr (h p) c) k = stored h (arr (h p) c) k" for c k
    by (rule tree_frame) (use Node h' in auto)
  have "tree cf h' p (insert p (\<Union>c. F c))"
    by (rule tree.Node) (use Node c h' in \<open>simp_all add: tail_ok_def\<close>)
  moreover have "stored h' p k = ((stored h p)([] \<mapsto> ob)) k" for k
  proof (cases k)
    case (Cons d w)
    have "patstr (h p) \<noteq> Some (d # w)" using s by blast
    with Cons c [of d w] t(2) h' show ?thesis by simp
  qed (use t(2) h' in simp)
  ultimately show ?thesis using Node(1) by auto
qed

lemma outcome_refl:
  "tree cf (heap lp) (deref lp lps) S \<Longrightarrow> outcome cf lp lps S lp {} S"
  by (simp add: outcome_def)

lemma outcome_untouched:
  assumes "untouched lp lp'" "tree cf (heap lp) (deref lp lps) S" "S \<subseteq> inuse lp" "slot_ok lp S lps"
  shows "\<exists>V. outcome cf lp lps S lp' V S \<and> deref lp' lps = deref lp lps \<and>
    stored (heap lp') (deref lp' lps) = stored (heap lp) (deref lp lps) \<and> same_watch lp lp'"
proof -
  from assms(1) obtain V where V: "same_frame lp lp'" "V \<inter> inuse lp = {}" "\<forall>x. x \<notin> V \<longrightarrow> heap lp' x = heap lp x"
    by (auto simp: untouched_def)
  have d: "deref lp' lps = deref lp lps"
    using assms(4) V(2,3) same_frameD(1) [OF V(1)] by (cases lps) auto
  have S: "\<forall>x \<in> S. heap lp' x = heap lp x" using assms(3) V(2,3) by blast
  have st: "heap (store lps (deref lp lps) lp) = heap lp" "nodes (store lps (deref lp lps) lp) = nodes lp" by simp_all
  have "outcome cf lp lps S lp' V S"
    using V(2,3) tree_frame [OF assms(2) S] same_frameD(1) [OF V(1)] unfolding outcome_def d st by auto
  moreover have "stored (heap lp') (deref lp lps) = stored (heap lp) (deref lp lps)"
    using tree_frame [OF assms(2) S] by (auto simp: fun_eq_iff)
  ultimately show ?thesis using d same_frameD(2,3) [OF V(1)] by (auto simp: same_watch_def)
qed

lemma clear_way_spec:
  assumes ok: "pool_ok lp" and t: "tree cf (heap lp) (deref lp lps) S" and l: "deref lp lps \<noteq> 0" and S: "S \<subseteq> inuse lp"
    and so: "slot_ok lp S lps"
  obtains (cleared) lp' m' V S' where "clear_way cf lp lps m = Some (False, lp', m')" "pool_ok lp'" "inuse lp' = inuse lp \<union> V"
      "outcome cf lp lps S lp' V S'" "deref lp' lps \<noteq> 0" "\<And>s. patstr (heap lp' (deref lp' lps)) = Some s \<Longrightarrow> s = []" "same_watch lp lp'"
      "stored (heap lp') (deref lp' lps) = stored (heap lp) (deref lp lps)" "plentiful m \<longrightarrow> plentiful m'"
  | (failed) "\<And>r lp' m'. clear_way cf lp lps m = Some (r, lp', m') \<Longrightarrow> r \<and> untouched lp lp'" "\<not> plentiful m" "clear_way cf lp lps m \<noteq> None"
proof (cases "\<exists>s. patstr (heap lp (deref lp lps)) = Some s \<and> s \<noteq> []")
  case True
  then obtain s where s: "patstr (heap lp (deref lp lps)) = Some s" "s \<noteq> []" by blast
  then have "peek s \<noteq> NUL" using tree_nonempty_tail [OF t l s] by (cases s) auto
  with s have e: "clear_way cf lp lps m = decay_tail cf lp lps m" by (simp add: clear_way_def)
  from ok t l S so s show thesis
  proof (cases rule: decay_spec [where m = m])
    case (decayed lp' m' V)
    then show thesis by (intro that(1) [of lp' m' V V]) (simp_all add: e)
  next
    case failed
    then show thesis by (intro that(2)) (simp_all add: e)
  qed
next
  case False
  then have "clear_way cf lp lps m = Some (False, lp, m)"
    by (auto simp: clear_way_def split: option.splits)
  then show thesis
    by (rule that(1) [OF _ ok _ outcome_refl [OF t] l]) (use False in \<open>auto simp: same_watch_def\<close>)
qed

text \<open>A step below the node that the slot points to, as a step at the slot.\<close>

lemma outcome_child:
  assumes oc: "outcome cf lp lps S lp1 V S1" and ok: "pool_ok lp1" "inuse lp1 = inuse lp \<union> V" and so: "slot_ok lp S lps" "S \<subseteq> inuse lp"
    and p: "p = deref lp1 lps" "p \<noteq> 0" "\<And>s. patstr (heap lp1 p) = Some s \<Longrightarrow> s = []" and c: "cf c = c" "c \<noteq> NUL"
  obtains F where "tree cf (heap lp1) (deref lp1 (Slot p c)) F" "F \<subseteq> inuse lp1" "slot_ok lp1 F (Slot p c)"
    "\<And>lp2 V2 F'. outcome cf lp1 (Slot p c) F lp2 V2 F' \<Longrightarrow>
      deref lp2 lps = p \<and> (\<exists>S2. outcome cf lp lps S lp2 (V \<union> V2) S2) \<and> stored (heap lp2) p [] = stored (heap lp1) p [] \<and>
      (\<forall>d k. stored (heap lp2) p (d # k) = (if d = c then stored (heap lp2) (deref lp2 (Slot p c)) k else stored (heap lp1) p (d # k)))"
    "\<And>k. stored (heap lp1) p (c # k) = stored (heap lp1) (deref lp1 (Slot p c)) k"
proof -
  note o = oc [unfolded outcome_def, folded p(1)]
  have t1: "tree cf (heap lp1) p S1" using o by simp
  obtain F rest where F: "tree cf (heap lp1) (arr (heap lp1 p) c) F" "S1 = insert p (F \<union> rest)" "p \<notin> F" "p \<notin> rest" "F \<inter> rest = {}"
    and up: "\<And>h' x F'. h' p = heap lp1 p \<lparr>arr := (arr (heap lp1 p))(c := x)\<rparr> \<Longrightarrow> (\<forall>y \<in> rest. h' y = heap lp1 y) \<Longrightarrow> tree cf h' x F' \<Longrightarrow>
       p \<notin> F' \<Longrightarrow> F' \<inter> rest = {} \<Longrightarrow> tree cf h' p (insert p (F' \<union> rest)) \<and> stored h' p [] = stored (heap lp1) p [] \<and>
         (\<forall>d k. stored h' p (d # k) = (if d = c then stored h' x k else stored (heap lp1) p (d # k)))"
    and st: "\<And>d k. stored (heap lp1) p (d # k) = stored (heap lp1) (arr (heap lp1 p) d) k"
    by (rule tree_child [OF t1 p(2) c p(3)]) (assumption, rule that, assumption+)
  have S1: "S1 \<subseteq> inuse lp1" using o so(2) ok(2) by auto
  show thesis
  proof (rule that)
    show "tree cf (heap lp1) (deref lp1 (Slot p c)) F" using F(1) by simp
    show "F \<subseteq> inuse lp1" using S1 F(2) by auto
    show "slot_ok lp1 F (Slot p c)" using S1 F(2,3) by auto
    show "stored (heap lp1) p (c # k) = stored (heap lp1) (deref lp1 (Slot p c)) k" for k using st by simp
    fix lp2 V2 F'
    assume oc2: "outcome cf lp1 (Slot p c) F lp2 V2 F'"
    define x where "x = deref lp2 (Slot p c)"
    note o2 = oc2 [unfolded outcome_def, folded x_def]
    have V2: "V2 \<inter> inuse lp1 = {}" and FF: "F' \<subseteq> F \<union> V2" and t2: "tree cf (heap lp2) x F'" using o2 by simp_all
    have h2: "heap lp2 y = (if y = p then heap lp1 p \<lparr>arr := (arr (heap lp1 p))(c := x)\<rparr> else heap lp1 y)" if "y \<notin> F \<union> V2" for y
      using o2 that by simp
    have pV: "p \<notin> V2" "rest \<inter> V2 = {}" using V2 S1 F(2) by auto
    have u: "tree cf (heap lp2) p (insert p (F' \<union> rest)) \<and> stored (heap lp2) p [] = stored (heap lp1) p [] \<and>
         (\<forall>d k. stored (heap lp2) p (d # k) = (if d = c then stored (heap lp2) x k else stored (heap lp1) p (d # k)))"
    proof (rule up [OF _ _ t2])
      show "heap lp2 p = heap lp1 p \<lparr>arr := (arr (heap lp1 p))(c := x)\<rparr>" using h2 [of p] F(3) pV(1) by simp
      have "heap lp2 y = heap lp1 y" if y: "y \<in> rest" for y
      proof -
        have "y \<notin> F \<union> V2" "y \<noteq> p" using y F(4,5) pV(2) by auto
        then show ?thesis using h2 [of y] by simp
      qed
      then show "\<forall>y \<in> rest. heap lp2 y = heap lp1 y" by blast
      show "p \<notin> F'" using FF F(3) pV(1) by auto
      show "F' \<inter> rest = {}" using FF F(5) pV(2) by auto
    qed
    have q: "q \<in> inuse lp1 \<and> q \<notin> S1 \<and> q \<notin> V2 \<and> q \<noteq> p \<and> q \<notin> V" if "lps = Slot q e" for q e
      using so that ok(2) o V2 F(2) by auto
    have d: "deref lp2 lps = p"
    proof (cases lps)
      case Root
      then show ?thesis using o2 p(1) by (simp add: write_node_def)
    next
      case (Slot q e)
      then have "q \<notin> F \<union> V2" "q \<noteq> p" using q [OF Slot] F(2) by auto
      then show ?thesis using h2 [of q] p(1) Slot by simp
    qed
    have "outcome cf lp lps S lp2 (V \<union> V2) (insert p (F' \<union> rest))"
      unfolding outcome_def d
    proof (intro conjI)
      show "(V \<union> V2) \<inter> inuse lp = {}" using o V2 ok(2) by auto
      show "insert p (F' \<union> rest) \<subseteq> S \<union> (V \<union> V2)" using o FF F(2) by auto
      show "tree cf (heap lp2) p (insert p (F' \<union> rest))" using u by simp
      show "nodes lp2 = nodes (store lps p lp)" using o o2 by (simp add: write_node_def)
      have "heap lp2 y = heap (store lps p lp) y" if y: "y \<notin> S \<union> (V \<union> V2)" for y
      proof -
        have "y \<notin> S1" using o y by auto
        then have "y \<noteq> p" "y \<notin> F \<union> V2" using F(2) y by auto
        with h2 [of y] have "heap lp2 y = heap lp1 y" by simp
        with o y show ?thesis by simp
      qed
      then show "\<forall>y. y \<notin> S \<union> (V \<union> V2) \<longrightarrow> heap lp2 y = heap (store lps p lp) y" by blast
    qed
    with d u show "deref lp2 lps = p \<and> (\<exists>S2. outcome cf lp lps S lp2 (V \<union> V2) S2) \<and> stored (heap lp2) p [] = stored (heap lp1) p [] \<and>
      (\<forall>d k. stored (heap lp2) p (d # k) = (if d = c then stored (heap lp2) (deref lp2 (Slot p c)) k else stored (heap lp1) p (d # k)))"
      unfolding x_def by blast
  qed
qed

end
