(* ===== verification/Lrupat_Map.thy ===== *)
theory Lrupat_Map
  imports Lrupat
begin

text \<open>
  The trie of libdank/objects/lrupat.c as a map: adding updates what is stored at the folded
  key and nothing else, looking up reads it. Both are proved once for every fold of the
  characters that the algorithm works with (locale \<open>char_fold\<close>) and interpreted for the
  case-sensitive and the case-blind functions.
\<close>

subsection \<open>Adding, for a fold of the characters\<close>

text \<open>What adding promises: the map below the slot updated at the folded key, or unchanged.\<close>

definition added :: "(char \<Rightarrow> char) \<Rightarrow> 'o lrupat \<Rightarrow> slot \<Rightarrow> nat set \<Rightarrow> string \<Rightarrow> 'o option \<Rightarrow> mem \<Rightarrow> bool \<Rightarrow> 'o lrupat \<Rightarrow> mem \<Rightarrow> bool" where
  "added cf lp lps S key ob m r lp' m' \<longleftrightarrow>
     (let old = stored (heap lp) (deref lp lps) in
      (\<exists>V S'. outcome cf lp lps S lp' V S' \<and> (\<not> r \<longrightarrow> pool_ok lp' \<and> inuse lp' = inuse lp \<union> V)) \<and>
      stored (heap lp') (deref lp' lps) = (if r then old else old(map cf key \<mapsto> ob)) \<and>
      nwatchcb lp' = nwatchcb lp \<and>
      watched lp' = watched lp @ (if \<not> r \<and> nwatchcb lp then (case old (map cf key) of None \<Rightarrow> [] | Some o1 \<Rightarrow> [o1]) else []) \<and>
      (if r then \<not> plentiful m else plentiful m \<longrightarrow> plentiful m'))"

lemma added_untouched:
  assumes "untouched lp lp'" "tree cf (heap lp) (deref lp lps) S" "S \<subseteq> inuse lp" "slot_ok lp S lps" "\<not> plentiful m"
  shows "added cf lp lps S key ob m True lp' m'"
  using outcome_untouched [OF assms(1-4)] assms(5) by (auto simp: added_def Let_def same_watch_def)

text \<open>
  What the algorithm needs of the fold: it can be repeated, and it keeps the terminating NUL
  apart. The identity and \<open>tolower\<close> are the two folds of the code.
\<close>

locale char_fold =
  fixes cf :: "char \<Rightarrow> char"
  assumes fold_fold: "cf (cf c) = cf c" and fold_NUL: "cf c = NUL \<longleftrightarrow> c = NUL"
begin

lemma map_fold: "map cf (map cf w) = map cf w"
  by (simp add: fold_fold)

lemma cstr_fold [simp]: "cstr (map cf w) = cstr w"
  by (induction w) (simp_all add: fold_NUL)

lemma tail_new_spec:
  assumes ok: "pool_ok lp" and key: "cstr key"
  obtains (made) x lp' m' where "tail_new cf lp key ob m = Some (x, lp', m')" "x \<noteq> 0" "pool_ok lp'" "x \<notin> inuse lp"
      "inuse lp' = insert x (inuse lp)" "same_frame lp lp'" "plentiful m \<longrightarrow> plentiful m'"
      "heap lp' = (heap lp)(x := zero_node \<lparr>patstr := Some (map cf key), obj := ob\<rparr>)"
  | (failed) "\<And>x lp' m'. tail_new cf lp key ob m = Some (x, lp', m') \<Longrightarrow> x = 0 \<and> untouched lp lp'" "\<not> plentiful m" "tail_new cf lp key ob m \<noteq> None"
proof -
  note ev = tail_new_def [of cf lp key ob m]
  from ok show thesis
  proof (cases rule: lpatnode_new_spec [where m = m])
    case (none lp1 m1)
    show thesis by (rule that(2)) (use none in \<open>auto simp: ev untouched_def\<close>)
  next
    case (object x lp1 m1)
    obtain so m2 where sd: "Strdup (Some key) m1 = (so, m2)" by (cases "Strdup (Some key) m1")
    have pm: "so \<noteq> None \<and> plentiful m2" if "plentiful m1"
      using Malloc_plentiful [OF that, of "length (cpart key) + 1"] sd by (auto simp: Strdup_def split: prod.splits bool.splits)
    show thesis
    proof (cases so)
      case None
      show thesis
      proof (rule that(2))
        show "\<not> plentiful m" using pm None object(9) by auto
        show "tail_new cf lp key ob m \<noteq> None"
          using lpatnode_free_good [OF object(2), of x] object(1,5,7) sd None by (auto simp: ev)
        fix y lp' m'
        assume "tail_new cf lp key ob m = Some (y, lp', m')"
        then have f: "y = 0" "lpatnode_free lp1 x = Some lp'" using object(1,5) sd None by (auto simp: ev)
        from lpatnode_free_frame [OF f(2)] object(3,4,8) f(1) show "y = 0 \<and> untouched lp lp'"
          unfolding untouched_def by (auto intro: same_frame_trans intro!: exI [of _ "{}"])
      qed
    next
      case (Some t)
      have t: "t = key" using sd Some key by (auto simp: Strdup_def cpart_cstr split: prod.splits bool.splits)
      define lp2 where "lp2 = write_node lp1 x (heap lp1 x \<lparr>patstr := Some (map cf key), obj := ob\<rparr>)"
      show thesis
      proof (rule that(1) [of x lp2 m2])
        show "tail_new cf lp key ob m = Some (x, lp2, m2)" using object(1,5) sd Some t by (simp add: ev lp2_def)
        show "pool_ok lp2" unfolding lp2_def by (rule pool_ok_write [OF object(2)]) (simp add: object(7))
        show "same_frame lp lp2" unfolding lp2_def by (rule same_frame_trans [OF object(3) same_frame_write])
        show "plentiful m \<longrightarrow> plentiful m2" using pm object(9) by simp
      qed (use object in \<open>simp_all add: lp2_def\<close>)
    qed
  qed
qed

lemma add_null:
  assumes ok: "pool_ok lp" and t: "tree cf (heap lp) (deref lp lps) S" and S: "S \<subseteq> inuse lp" and so: "slot_ok lp S lps" and key: "cstr key"
    and l: "deref lp lps = 0" and e: "add_key cf lp lps key ob m = Some (r, lp', m')"
  shows "added cf lp lps S key ob m r lp' m'"
proof -
  from t l have S0: "S = {}" by (simp add: tree_null)
  obtain x lp1 where tn: "tail_new cf lp key ob m = Some (x, lp1, m')" "r = (x = 0)" "lp' = store lps x lp1"
    using e l by (subst (asm) add_key.simps) (auto split: option.splits)
  from ok key show ?thesis
  proof (cases rule: tail_new_spec [where ob = ob and m = m])
    case (made y lp2 m2)
    with tn have y: "lp1 = lp2" "x = y" "m' = m2" "\<not> r" by auto
    have q: "q \<noteq> y" if "lps = Slot q c" for q c using so that made(4) by auto
    have h: "heap lp' y = zero_node \<lparr>patstr := Some (map cf key), obj := ob\<rparr>"
      using heap_store_other [of lps y y lp2] q made(8) tn(3) y by auto
    have d: "deref lp' lps = y" using tn(3) y by simp
    have tr: "tree cf (heap lp') y {y}"
      by (rule tree_leaf [where s = "map cf key"]) (use made(2) h key in \<open>simp_all add: zero_node_def fold_fold\<close>)
    have st: "stored (heap lp') y = [map cf key \<mapsto> ob]"
      using stored_leaf [of y "heap lp'" "map cf key"] made(2) h by (simp add: zero_node_def)
    have fr: "heap lp' z = heap (store lps y lp) z" if "z \<noteq> y" for z
      using that q made(8) tn(3) y by (cases lps) auto
    have oc: "outcome cf lp lps S lp' {y} {y}" unfolding outcome_def d
      using made(4) tr fr same_frameD(1) [OF made(6)] tn(3) y by (cases lps) (auto simp: write_node_def)
    have "pool_ok lp'" unfolding tn(3) y by (rule pool_ok_store [OF made(3)]) (use so made(5) in auto)
    moreover have "inuse lp' = inuse lp \<union> {y}" using made(5) tn(3) y by simp
    moreover have "stored (heap lp) (deref lp lps) = (\<lambda>_. None)" using l by (simp add: fun_eq_iff)
    ultimately show ?thesis unfolding added_def Let_def d
      using oc st made(7) same_frameD(2,3) [OF made(6)] tn(3) y by auto
  next
    case failed
    from failed(1) [OF tn(1)] have u: "x = 0" "untouched lp lp1" by simp_all
    from outcome_untouched [OF u(2) t S so] have "deref lp1 lps = 0" using l by auto
    then have hs: "heap lp' = heap lp1" "nodes lp' = nodes lp1" using store_deref [of lps lp1] u(1) tn(3) by simp_all
    have "same_frame lp1 lp'" unfolding tn(3) u(1) using hs tn(3) u(1) by (cases lps) (auto simp: same_frame_def write_node_def)
    with u(2) hs(1) have "untouched lp lp'" by (auto simp: untouched_def intro: same_frame_trans)
    from added_untouched [OF this t S so failed(2)] u(1) tn(2) show ?thesis by simp
  qed
qed

lemma set_key_spec:
  assumes ok: "pool_ok lp" and t: "tree cf (heap lp) (deref lp lps) S" and l: "deref lp lps \<noteq> 0" and S: "S \<subseteq> inuse lp"
    and so: "slot_ok lp S lps" and e: "set_key cf lp lps [] ob m = Some (r, lp', m')"
  shows "added cf lp lps S [] ob m r lp' m'"
proof -
  obtain so m1 where sd: "Strdup (Some []) m = (so, m1)" by (cases "Strdup (Some []) m")
  have pm: "so = Some [] \<and> plentiful m1" if "plentiful m"
    using Malloc_plentiful [OF that, of "length (cpart []) + 1"] sd by (auto simp: Strdup_def split: prod.splits bool.splits)
  show ?thesis
  proof (cases so)
    case None
    then have "r" "lp' = lp" using e sd by (auto simp: set_key_def)
    moreover have "untouched lp lp" by (auto simp: untouched_def same_frame_def)
    moreover have "\<not> plentiful m" using pm None by auto
    ultimately show ?thesis using added_untouched [OF _ t S so] by simp
  next
    case (Some tmp)
    then have tmp: "tmp = []" using sd by (auto simp: Strdup_def split: prod.splits bool.splits)
    define put where "put lp = write_node lp (deref lp lps) (heap lp (deref lp lps) \<lparr>patstr := Some [], obj := ob\<rparr>)" for lp :: "'a lrupat"
    have fin: "added cf lp lps S [] ob m False (put lp1) m2"
      if oc: "outcome cf lp lps S lp1 V S1" and p1: "deref lp1 lps \<noteq> 0" "\<And>s. patstr (heap lp1 (deref lp1 lps)) = Some s \<Longrightarrow> s = []"
        and ok1: "pool_ok lp1" "inuse lp1 = inuse lp \<union> V" and st: "stored (heap lp1) (deref lp1 lps) = stored (heap lp) (deref lp lps)"
        and w: "nwatchcb lp1 = nwatchcb lp" "watched lp1 = watched lp @ (if nwatchcb lp then (case stored (heap lp) (deref lp lps) [] of None \<Rightarrow> [] | Some o1 \<Rightarrow> [o1]) else [])"
        and pl: "plentiful m \<longrightarrow> plentiful m2" for lp1 V S1 m2
    proof -
      define p where "p = deref lp1 lps"
      note o = oc [unfolded outcome_def, folded p_def]
      have pS: "p \<in> S1" using o p1(1) tree_not_null by (auto simp: p_def)
      have pin: "p \<in> inuse lp1" using pS o S ok1(2) by auto
      have hq: "heap (put lp1) = (heap lp1)(p := (heap lp1 p)\<lparr>patstr := Some [], obj := ob\<rparr>)" by (simp add: put_def p_def)
      have tk: "tree cf (heap (put lp1)) p S1 \<and> stored (heap (put lp1)) p = (stored (heap lp1) p)([] \<mapsto> ob)"
        by (rule tree_set_key [OF _ _ _ hq]) (use o p1 in \<open>simp_all add: p_def\<close>)
      have qp: "q \<noteq> p" if "lps = Slot q c" for q c
      proof -
        have "q \<in> inuse lp" "q \<notin> S" using so that by simp_all
        moreover have "p \<in> S \<union> V" "V \<inter> inuse lp = {}" using o pS by auto
        ultimately show ?thesis by auto
      qed
      have d: "deref (put lp1) lps = p"
      proof (cases lps)
        case (Slot q c)
        with qp [OF Slot] show ?thesis using hq by (simp add: p_def)
      qed (simp add: p_def put_def write_node_def)
      have "outcome cf lp lps S (put lp1) V S1" unfolding outcome_def d
        using o tk pS by (auto simp: hq) (simp add: put_def write_node_def)
      moreover have "pool_ok (put lp1)" unfolding put_def by (rule pool_ok_write [OF ok1(1)]) (use pin in \<open>simp add: p_def\<close>)
      moreover have "inuse (put lp1) = inuse lp \<union> V" by (simp add: put_def ok1(2))
      moreover have "nwatchcb (put lp1) = nwatchcb lp1" "watched (put lp1) = watched lp1" by (simp_all add: put_def write_node_def)
      ultimately show ?thesis using tk st w pl by (auto simp: added_def Let_def d p_def)
    qed
    show ?thesis
    proof (cases "patstr (heap lp (deref lp lps))")
      case None
      then have "r = False" "lp' = put lp" "m' = m1" using e sd Some tmp by (auto simp: set_key_def put_def Let_def)
      moreover have "stored (heap lp) (deref lp lps) [] = None" using None by simp
      ultimately show ?thesis
        using fin [OF outcome_refl [OF t] l _ ok] pm None by (simp del: stored.simps)
    next
      case old: (Some old)
      show ?thesis
      proof (cases "old = []")
        case True
        define lp1 where "lp1 = (if nwatchcb lp then lp\<lparr>watched := watched lp @ [obj (heap lp (deref lp lps))]\<rparr> else lp)"
        have d1: "deref lp1 lps = deref lp lps" "heap lp1 = heap lp" "inuse lp1 = inuse lp" "nodes lp1 = nodes lp"
          by (cases lps; simp add: lp1_def inuse_def)+
        have "r = False" "lp' = put lp1" "m' = Free True m1"
          using e sd Some tmp old True by (auto simp: set_key_def put_def lp1_def Let_def)
        moreover have "outcome cf lp lps S lp1 {} S" using outcome_refl [OF t] by (simp add: outcome_def d1)
        moreover have "pool_ok lp1" using ok by (simp add: pool_ok_def lp1_def inuse_def os_ok_def)
        moreover have "stored (heap lp) (deref lp lps) [] = Some (obj (heap lp (deref lp lps)))" using old True l by simp
        ultimately show ?thesis
          using fin [of lp1 "{}" S] pm l old True by (simp add: d1 del: stored.simps) (simp add: lp1_def)
      next
        case False
        then have pk: "peek old \<noteq> NUL" using tree_nonempty_tail [OF t l old] by (cases old) auto
        have none: "stored (heap lp) (deref lp lps) [] = None" using old False by simp
        from ok t l S so old False show ?thesis
        proof (cases rule: decay_spec [where m = m1])
          case (decayed lp1 m2 V)
          have "r = False" "lp' = put lp1" "m' = m2"
            using e sd Some tmp old pk decayed(1) by (auto simp: set_key_def put_def Let_def)
          then show ?thesis
            using fin [OF decayed(4,5) _ decayed(2,3,8)] decayed(6,7,9) pm none by (simp add: same_watch_def del: stored.simps)
        next
          case failed
          obtain r1 lp1 m2 where dt: "decay_tail cf lp lps m1 = Some (r1, lp1, m2)" using e sd Some tmp old pk
            by (auto simp: set_key_def Let_def split: option.splits)
          with failed(1) have "r1" "untouched lp lp1" by auto
          moreover have "r" "lp' = lp1" using e sd Some tmp old pk dt \<open>r1\<close> by (auto simp: set_key_def Let_def)
          moreover have "\<not> plentiful m" using pm failed(2) by auto
          ultimately show ?thesis using added_untouched [OF _ t S so] by simp
        qed
      qed
    qed
  qed
qed

lemma add_key_spec:
  assumes "pool_ok lp" "tree cf (heap lp) (deref lp lps) S" "S \<subseteq> inuse lp" "slot_ok lp S lps" "cstr key"
    "add_key cf lp lps key ob m = Some (r, lp', m')"
  shows "added cf lp lps S key ob m r lp' m'"
  using assms
proof (induction key arbitrary: lp lps S m)
  case Nil
  show ?case
  proof (cases "deref lp lps = 0")
    case True
    with add_null [OF Nil.prems(1-5) True Nil.prems(6)] show ?thesis by simp
  next
    case False
    with Nil.prems(6) have "set_key cf lp lps [] ob m = Some (r, lp', m')" by (subst (asm) add_key.simps) simp
    with set_key_spec [OF Nil.prems(1,2) False Nil.prems(3,4)] show ?thesis by simp
  qed
next
  case (Cons c key)
  show ?case
  proof (cases "deref lp lps = 0")
    case True
    with add_null [OF Cons.prems(1-5) True Cons.prems(6)] show ?thesis by simp
  next
    case False
    have cN: "c \<noteq> NUL" "cstr key" using Cons.prems(5) by simp_all
    note e = Cons.prems(6) [unfolded add_key.simps [of cf lp lps "c # key"], simplified False if_False]
    from Cons.prems(1,2) False Cons.prems(3,4) show ?thesis
    proof (cases rule: clear_way_spec [where m = m])
      case (cleared lp1 m1 V S1)
      define p where "p = deref lp1 lps"
      have r: "add_key cf lp1 (Slot p (cf c)) key ob m1 = Some (r, lp', m')"
        using e cN(1) cleared(1) by (simp add: p_def)
      have c: "cf (cf c) = cf c" "cf c \<noteq> NUL" using cN(1) by (simp_all add: fold_fold fold_NUL)
      have p0: "p \<noteq> 0" and ps: "\<And>s. patstr (heap lp1 p) = Some s \<Longrightarrow> s = []" using cleared(5,6) by (auto simp: p_def)
      obtain F where
        F: "tree cf (heap lp1) (deref lp1 (Slot p (cf c))) F" "F \<subseteq> inuse lp1" "slot_ok lp1 F (Slot p (cf c))"
        and up: "\<And>lp2 V2 F'. outcome cf lp1 (Slot p (cf c)) F lp2 V2 F' \<Longrightarrow>
          deref lp2 lps = p \<and> (\<exists>S2. outcome cf lp lps S lp2 (V \<union> V2) S2) \<and> stored (heap lp2) p [] = stored (heap lp1) p [] \<and>
          (\<forall>d k. stored (heap lp2) p (d # k) = (if d = cf c then stored (heap lp2) (deref lp2 (Slot p (cf c))) k else stored (heap lp1) p (d # k)))"
        and st: "\<And>k. stored (heap lp1) p (cf c # k) = stored (heap lp1) (deref lp1 (Slot p (cf c))) k"
        by (rule outcome_child [OF cleared(4,2,3) Cons.prems(4,3) p_def p0 ps c]) (assumption, rule that, assumption+)
      from Cons.IH [OF cleared(2) F cN(2) r] have a: "added cf lp1 (Slot p (cf c)) F key ob m1 r lp' m'" .
      then obtain V2 F' where oc: "outcome cf lp1 (Slot p (cf c)) F lp' V2 F'" "\<not> r \<longrightarrow> pool_ok lp' \<and> inuse lp' = inuse lp1 \<union> V2"
        by (auto simp: added_def Let_def)
      from up [OF oc(1)] obtain S2 where u: "deref lp' lps = p" "outcome cf lp lps S lp' (V \<union> V2) S2" "stored (heap lp') p [] = stored (heap lp1) p []"
        "\<And>d k. stored (heap lp') p (d # k) = (if d = cf c then stored (heap lp') (deref lp' (Slot p (cf c))) k else stored (heap lp1) p (d # k))"
        by blast
      have old: "stored (heap lp1) p = stored (heap lp) (deref lp lps)" using cleared(8) by (simp add: p_def)
      have new: "stored (heap lp') p = (if r then stored (heap lp1) p else (stored (heap lp1) p)(map cf (c # key) \<mapsto> ob))"
      proof
        fix k
        have "stored (heap lp') (deref lp' (Slot p (cf c))) = (if r then stored (heap lp1) (deref lp1 (Slot p (cf c)))
            else (stored (heap lp1) (deref lp1 (Slot p (cf c))))(map cf key \<mapsto> ob))" using a by (simp add: added_def Let_def)
        then show "stored (heap lp') p k = (if r then stored (heap lp1) p else (stored (heap lp1) p)(map cf (c # key) \<mapsto> ob)) k"
          using u(3,4) st by (cases k) (auto simp del: stored.simps deref.simps)
      qed
      show ?thesis unfolding added_def Let_def u(1)
        using u(2) oc(2) new a cleared(3,7,9) st [of "map cf key"] unfolding old
        by (auto simp: added_def Let_def same_watch_def simp del: stored.simps deref.simps split: if_splits)
    next
      case failed
      obtain r1 lp1 m1 where cw: "clear_way cf lp lps m = Some (r1, lp1, m1)"
        using e cN(1) by (auto split: option.splits)
      with failed(1) have "r1" "untouched lp lp1" by auto
      moreover have "r" "lp' = lp1" using e cN(1) cw \<open>r1\<close> by auto
      ultimately show ?thesis using added_untouched [OF _ Cons.prems(2-4) failed(2)] by simp
    qed
  qed
qed

text \<open>
  Adding is defined, whatever memory there is: the slab's code never leaves its arrays, every node
  that a failure gives back is in use, and the depth that the decay frees to is enough.
\<close>

lemma add_key_defined:
  assumes "pool_ok lp" "tree cf (heap lp) (deref lp lps) S" "S \<subseteq> inuse lp" "slot_ok lp S lps" "cstr key"
  shows "add_key cf lp lps key ob m \<noteq> None"
  using assms
proof (induction key arbitrary: lp lps S m)
  case Nil
  show ?case
  proof (cases "deref lp lps = 0")
    case True
    from Nil.prems(1,5) show ?thesis
      by (cases rule: tail_new_spec [where ob = ob and m = m]) (use True in \<open>auto simp: add_key.simps [of cf lp lps]\<close>)
  next
    case False
    obtain so m1 where sd: "Strdup (Some []) m = (so, m1)" by (cases "Strdup (Some []) m")
    have "set_key cf lp lps [] ob m \<noteq> None"
    proof (cases "\<exists>s. patstr (heap lp (deref lp lps)) = Some s \<and> s \<noteq> []")
      case True
      then obtain s where s: "patstr (heap lp (deref lp lps)) = Some s" "s \<noteq> []" by blast
      from Nil.prems(1,2) False Nil.prems(3,4) s show ?thesis
        by (cases rule: decay_spec [where m = m1])
          (use sd s in \<open>auto simp: set_key_def Let_def split: option.split bool.split\<close>)
    next
      case no: False
      then show ?thesis using sd by (auto simp: set_key_def Let_def split: option.splits)
    qed
    then show ?thesis using False by (simp add: add_key.simps [of cf lp lps "[]"])
  qed
next
  case (Cons c key)
  show ?case
  proof (cases "deref lp lps = 0")
    case True
    from Cons.prems(1,5) show ?thesis
      by (cases rule: tail_new_spec [where ob = ob and m = m]) (use True in \<open>auto simp: add_key.simps [of cf lp lps]\<close>)
  next
    case False
    have cN: "c \<noteq> NUL" "cstr key" using Cons.prems(5) by simp_all
    from Cons.prems(1,2) False Cons.prems(3,4) show ?thesis
    proof (cases rule: clear_way_spec [where m = m])
      case (cleared lp1 m1 V S1)
      define p where "p = deref lp1 lps"
      have c: "cf (cf c) = cf c" "cf c \<noteq> NUL" using cN(1) by (simp_all add: fold_fold fold_NUL)
      have p0: "p \<noteq> 0" and ps: "\<And>s. patstr (heap lp1 p) = Some s \<Longrightarrow> s = []" using cleared(5,6) by (auto simp: p_def)
      obtain F where F: "tree cf (heap lp1) (deref lp1 (Slot p (cf c))) F" "F \<subseteq> inuse lp1" "slot_ok lp1 F (Slot p (cf c))"
        by (rule outcome_child [OF cleared(4,2,3) Cons.prems(4,3) p_def p0 ps c]) (assumption, rule that, assumption+)
      from Cons.IH [OF cleared(2) F cN(2)] show ?thesis
        using False cN(1) cleared(1) by (simp add: add_key.simps [of cf lp lps "c # key"] p_def)
    next
      case failed
      then obtain r1 lp1 m1 where "clear_way cf lp lps m = Some (r1, lp1, m1)" "r1" by fastforce
      with False cN(1) show ?thesis by (simp add: add_key.simps [of cf lp lps "c # key"])
    qed
  qed
qed

subsection \<open>Looking up, for a fold of the characters\<close>

lemma starts_iff: "cstr pat \<Longrightarrow> starts cf key pat \<longleftrightarrow> length pat \<le> length key \<and> map cf (take (length pat) key) = map cf pat"
proof (induction pat arbitrary: key)
  case (Cons c pat)
  then show ?case using fold_NUL [of c] fold_NUL [of NUL] by (cases key) auto
qed simp

lemma takeWhile_at:
  assumes "n \<le> length key" "peek (drop n key) = t" "t \<notin> set (take n key)" "cstr key"
  shows "takeWhile (\<lambda>c. c \<noteq> t) key = take n key \<and> (t = NUL \<or> t \<in> set key)"
proof -
  have k: "key = take n key @ drop n key" by simp
  have tw: "takeWhile (\<lambda>c. c \<noteq> t) (drop n key) = []" using assms(2) by (cases "drop n key") auto
  have "takeWhile (\<lambda>c. c \<noteq> t) (take n key @ drop n key) = take n key @ takeWhile (\<lambda>c. c \<noteq> t) (drop n key)"
    by (rule takeWhile_append2) (use assms(3) in auto)
  then have "takeWhile (\<lambda>c. c \<noteq> t) key = take n key" using k tw by simp
  moreover have "t = NUL \<or> t \<in> set key"
  proof (cases "drop n key")
    case Nil
    with assms(2) show ?thesis by simp
  next
    case (Cons d ds)
    then have "d = t" using assms(2) by simp
    moreover have "d \<in> set (drop n key)" using Cons by simp
    ultimately show ?thesis using in_set_dropD by fast
  qed
  ultimately show ?thesis by simp
qed

lemma lookup_key_spec:
  assumes "\<And>k ob. stored h p k = Some ob \<Longrightarrow> map cf k = k \<and> cstr k \<and> cf t \<notin> set k" "cstr key"
  shows "lookup_key cf h p key t =
    (if t = NUL \<or> t \<in> set key then stored h p (map cf (takeWhile (\<lambda>c. c \<noteq> t) key)) else None)"
  using assms
proof (induction key arbitrary: p)
  case Nil
  have "patstr (h p) = Some pat \<Longrightarrow> p \<noteq> 0 \<Longrightarrow> cstr pat" for pat
    using Nil.prems(1) [of pat "obj (h p)"] by (cases pat) auto
  then show ?case
    by (auto simp: lookup_key.simps [of cf h p "[]"] starts_iff split: option.splits)
next
  case (Cons c key)
  show ?case
  proof (cases "p = 0")
    case True
    then show ?thesis by (subst lookup_key.simps) simp
  next
    case False
    define w where "w = map cf (takeWhile (\<lambda>c. c \<noteq> t) (c # key))"
    have c: "c \<noteq> NUL" "cstr key" using Cons.prems(2) by simp_all
    define deeper where "deeper = (if c \<noteq> t then lookup_key cf h (arr (h p) (cf c)) key t else None)"
    have l: "lookup_key cf h p (c # key) t = (case patstr (h p) of None \<Rightarrow> deeper
       | Some pat \<Rightarrow> if starts cf (c # key) pat \<and> peek (drop (length pat) (c # key)) = t then Some (obj (h p)) else deeper)"
      unfolding deeper_def using False c(1) by (simp add: lookup_key.simps [of cf h p "c # key"] Let_def split: option.split)
    have child: "stored h p (cf c # k) \<noteq> None" if "stored h (arr (h p) (cf c)) k = Some ob" for k ob
      using False that by simp
    have deep: "deeper = (if c \<noteq> t \<and> (t = NUL \<or> t \<in> set key) then stored h (arr (h p) (cf c)) (map cf (takeWhile (\<lambda>c. c \<noteq> t) key)) else None)"
    proof -
      have "lookup_key cf h (arr (h p) (cf c)) key t =
          (if t = NUL \<or> t \<in> set key then stored h (arr (h p) (cf c)) (map cf (takeWhile (\<lambda>c. c \<noteq> t) key)) else None)"
      proof (rule Cons.IH [OF _ c(2)])
        fix k ob
        assume "stored h (arr (h p) (cf c)) k = Some ob"
        then obtain ob' where "stored h p (cf c # k) = Some ob'" using child by blast
        from Cons.prems(1) [OF this] show "map cf k = k \<and> cstr k \<and> cf t \<notin> set k" by simp
      qed
      then show ?thesis by (simp add: deeper_def)
    qed
    have pat: "map cf q = q \<and> cstr q \<and> cf t \<notin> set q" if "patstr (h p) = Some q" for q
      using Cons.prems(1) [of q "obj (h p)"] that False by (cases q) auto
    have hit: "starts cf (c # key) q \<and> peek (drop (length q) (c # key)) = t \<longleftrightarrow> (t = NUL \<or> t \<in> set (c # key)) \<and> q = w"
      if "patstr (h p) = Some q" for q
    proof
      assume a: "starts cf (c # key) q \<and> peek (drop (length q) (c # key)) = t"
      with pat [OF that] have b: "length q \<le> length (c # key)" "map cf (take (length q) (c # key)) = q" by (simp_all add: starts_iff)
      have "t \<notin> set (take (length q) (c # key))"
      proof
        assume "t \<in> set (take (length q) (c # key))"
        then have "cf t \<in> set (map cf (take (length q) (c # key)))" by (simp only: set_map imageI)
        with b(2) pat [OF that] show False by simp
      qed
      from takeWhile_at [OF b(1) _ this Cons.prems(2)] a b(2)
      show "(t = NUL \<or> t \<in> set (c # key)) \<and> q = w" by (simp only: w_def simp_thms)
    next
      assume a: "(t = NUL \<or> t \<in> set (c # key)) \<and> q = w"
      define n where "n = length (takeWhile (\<lambda>c. c \<noteq> t) (c # key))"
      have n: "length q = n" "n \<le> length (c # key)" using a length_takeWhile_le by (simp_all only: w_def n_def length_map)
      have tk: "take n (c # key) = takeWhile (\<lambda>c. c \<noteq> t) (c # key)" unfolding n_def by (rule takeWhile_eq_take [symmetric])
      then have "map cf (take (length q) (c # key)) = q" using a n(1) by (simp only: w_def)
      then have "starts cf (c # key) q" using n pat [OF that] by (simp add: starts_iff)
      moreover have "peek (drop n (c # key)) = t"
      proof (cases "t \<in> set (c # key)")
        case True
        then have "takeWhile (\<lambda>c. c \<noteq> t) (c # key) \<noteq> c # key" by (simp only: takeWhile_eq_all_conv) blast
        then have "take n (c # key) \<noteq> c # key" unfolding tk .
        then have "n < length (c # key)" using n(2) by (metis le_neq_implies_less order_refl take_all)
        then show ?thesis using nth_length_takeWhile [of "\<lambda>c. c \<noteq> t" "c # key"] hd_drop_conv_nth [of n "c # key"]
          by (cases "drop n (c # key)") (simp_all add: n_def)
      next
        case False
        then have "takeWhile (\<lambda>c. c \<noteq> t) (c # key) = c # key" by (intro takeWhile_eq_all_conv [THEN iffD2]) auto
        then have "drop n (c # key) = []" by (simp only: n_def drop_all le_refl)
        with a False show ?thesis by simp
      qed
      ultimately show "starts cf (c # key) q \<and> peek (drop (length q) (c # key)) = t" using n(1) by simp
    qed
    show ?thesis
    proof (cases "\<exists>q. patstr (h p) = Some q \<and> (t = NUL \<or> t \<in> set (c # key)) \<and> q = w")
      case True
      then have q: "patstr (h p) = Some w" "t = NUL \<or> t \<in> set (c # key)" by auto
      then have "stored h p w = Some (obj (h p))" using False by (cases w) auto
      then show ?thesis using l q hit [OF q(1)] by (simp only: option.case if_True w_def simp_thms)
    next
      case no: False
      then have "lookup_key cf h p (c # key) t = deeper" unfolding l using hit by (auto split: option.split)
      moreover have "deeper = (if t = NUL \<or> t \<in> set (c # key) then stored h p w else None)"
      proof (cases "c = t")
        case True
        then have "w = []" "t \<in> set (c # key)" by (simp_all add: w_def)
        with no show ?thesis using True deep by auto
      next
        case ct: False
        then have w: "w = cf c # map cf (takeWhile (\<lambda>c. c \<noteq> t) key)" by (simp add: w_def)
        show ?thesis using no False ct c(1) unfolding deep w by auto
      qed
      ultimately show ?thesis by (simp only: w_def)
    qed
  qed
qed

end

interpretation exact: char_fold "\<lambda>c. c"
  by unfold_locales simp_all

interpretation nocase: char_fold tolower
  by unfold_locales simp_all

subsection \<open>Tries a client can build\<close>

definition lrupat_ok :: "(char \<Rightarrow> char) \<Rightarrow> 'o lrupat \<Rightarrow> bool" where
  "lrupat_ok cf lp \<longleftrightarrow> pool_ok lp \<and> (\<exists>S. tree cf (heap lp) (nodes lp) S \<and> S \<subseteq> inuse lp)"

definition honest :: "(slalloc \<Rightarrow> nat) \<Rightarrow> bool" where
  "honest page \<longleftrightarrow> (\<forall>s. slab_good s \<longrightarrow> fresh_block s (page s) \<and> 0 < page s)"

lemma create_lrupat_ok:
  assumes "create_lrupat cb pgsiz page raw m = (Some lp, m')" "pgsiz < 2 ^ 31" "honest page"
  shows "lrupat_ok cf lp \<and> stored (heap lp) (nodes lp) = (\<lambda>_. None) \<and> nwatchcb lp = cb \<and> watched lp = []"
proof -
  obtain sl m1 m2 where c: "create_slalloc 2064 pgsiz m1 = (Some sl, m2)" and
    lp: "lp = \<lparr>nodes = 0, slab = sl, heap = (\<lambda>_. zero_node), nwatchcb = cb, watched = [], os_page = page, os_raw = raw\<rparr>"
    using assms(1) by (auto simp: create_lrupat_def split: prod.splits bool.splits option.splits)
  have "pages sl = []" using c by (auto simp: create_slalloc_def Let_def split: if_splits prod.splits bool.splits)
  with create_slalloc_good(1) [OF c assms(2)] assms(3) have "pool_ok lp"
    by (simp add: lp pool_ok_def os_ok_def honest_def)
  moreover have "tree cf (heap lp) (nodes lp) {}" by (simp add: lp tree.Null)
  ultimately show ?thesis by (auto simp: lrupat_ok_def lp fun_eq_iff)
qed

lemma stored_lookup_exact: "tree (\<lambda>c. c) (heap lp) (nodes lp) S \<Longrightarrow> cstr k \<Longrightarrow> lookup_lrupat lp k = stored (heap lp) (nodes lp) k"
proof -
  assume t: "tree (\<lambda>c. c) (heap lp) (nodes lp) S" and k: "cstr k"
  have "takeWhile (\<lambda>c. c \<noteq> NUL) k = k" using k by (auto simp: takeWhile_eq_all_conv cstr_def)
  with exact.lookup_key_spec [of "heap lp" "nodes lp" NUL k] stored_folded [OF t] k show ?thesis
    by (auto simp: lookup_lrupat_def lookup_lrupat_helper_def cstr_def)
qed

lemma stored_lookup_nocase: "tree tolower (heap lp) (nodes lp) S \<Longrightarrow> cstr k \<Longrightarrow> lookup_lrupat_nocase lp k = stored (heap lp) (nodes lp) (map tolower k)"
proof -
  assume t: "tree tolower (heap lp) (nodes lp) S" and k: "cstr k"
  have "takeWhile (\<lambda>c. c \<noteq> NUL) k = k" using k by (auto simp: takeWhile_eq_all_conv cstr_def)
  moreover have lower_NUL: "tolower NUL = NUL" by (simp only: tolower_NUL_iff)
  moreover have "lookup_key tolower (heap lp) (nodes lp) k NUL =
      (if NUL = NUL \<or> NUL \<in> set k then stored (heap lp) (nodes lp) (map tolower (takeWhile (\<lambda>c. c \<noteq> NUL) k)) else None)"
    by (rule nocase.lookup_key_spec [OF _ k]) (use stored_folded [OF t] in \<open>auto simp: cstr_def lower_NUL\<close>)
  ultimately show ?thesis by (simp only: lookup_lrupat_nocase_def lookup_lrupat_nocase_helper_def simp_thms if_True)
qed

context char_fold begin

lemma add_root:
  assumes "lrupat_ok cf lp" "cstr key" "add_key cf lp Root key ob m = Some (r, lp', m')"
  shows "stored (heap lp') (nodes lp') = (if r then stored (heap lp) (nodes lp) else (stored (heap lp) (nodes lp))(map cf key \<mapsto> ob)) \<and>
    (\<not> r \<longrightarrow> lrupat_ok cf lp') \<and> (\<exists>S. tree cf (heap lp') (nodes lp') S) \<and>
    watched lp' = watched lp @ (if \<not> r \<and> nwatchcb lp then (case stored (heap lp) (nodes lp) (map cf key) of None \<Rightarrow> [] | Some o1 \<Rightarrow> [o1]) else []) \<and>
    (if r then \<not> plentiful m else plentiful m \<longrightarrow> plentiful m')"
proof -
  from assms(1) obtain S where S: "pool_ok lp" "tree cf (heap lp) (deref lp Root) S" "S \<subseteq> inuse lp" by (auto simp: lrupat_ok_def)
  from add_key_spec [OF S _ assms(2,3)] have a: "added cf lp Root S key ob m r lp' m'" by simp
  then obtain V S' where V: "outcome cf lp Root S lp' V S'" "\<not> r \<longrightarrow> pool_ok lp' \<and> inuse lp' = inuse lp \<union> V" by (auto simp: added_def Let_def)
  have "tree cf (heap lp') (nodes lp') S'" "\<not> r \<longrightarrow> S' \<subseteq> inuse lp'" using V S(3) by (auto simp: outcome_def)
  with a V(2) show ?thesis by (auto simp: added_def Let_def lrupat_ok_def)
qed

end

lemma lrupat_okE: "lrupat_ok cf lp \<Longrightarrow> (\<And>S. pool_ok lp \<Longrightarrow> tree cf (heap lp) (nodes lp) S \<Longrightarrow> S \<subseteq> inuse lp \<Longrightarrow> thesis) \<Longrightarrow> thesis"
  by (auto simp: lrupat_ok_def)

lemma add_exact:
  assumes ok: "lrupat_ok (\<lambda>c. c) lp" and key: "cstr key" and m: "plentiful m"
  shows "\<exists>lp' m'. add_lrupat lp key ob m = Some (False, lp', m') \<and> lrupat_ok (\<lambda>c. c) lp' \<and> plentiful m' \<and>
    stored (heap lp') (nodes lp') = (stored (heap lp) (nodes lp))(key \<mapsto> ob) \<and>
    watched lp' = watched lp @ (if nwatchcb lp then (case stored (heap lp) (nodes lp) key of None \<Rightarrow> [] | Some o1 \<Rightarrow> [o1]) else [])"
proof -
  from ok obtain S where S: "pool_ok lp" "tree (\<lambda>c. c) (heap lp) (deref lp Root) S" "S \<subseteq> inuse lp" by (auto elim: lrupat_okE)
  from exact.add_key_defined [OF S _ key, of ob m] obtain r lp' m' where a: "add_key (\<lambda>c. c) lp Root key ob m = Some (r, lp', m')" by auto
  from exact.add_root [OF ok key a] m a show ?thesis
    by (cases r) (auto simp: add_lrupat_def add_lrupat_helper_def)
qed

lemma add_nocase:
  assumes ok: "lrupat_ok tolower lp" and key: "cstr key" and m: "plentiful m"
  shows "\<exists>lp' m'. add_lrupat_nocase lp key ob m = Some (False, lp', m') \<and> lrupat_ok tolower lp' \<and> plentiful m' \<and>
    stored (heap lp') (nodes lp') = (stored (heap lp) (nodes lp))(map tolower key \<mapsto> ob) \<and>
    watched lp' = watched lp @ (if nwatchcb lp then (case stored (heap lp) (nodes lp) (map tolower key) of None \<Rightarrow> [] | Some o1 \<Rightarrow> [o1]) else [])"
proof -
  from ok obtain S where S: "pool_ok lp" "tree tolower (heap lp) (deref lp Root) S" "S \<subseteq> inuse lp" by (auto elim: lrupat_okE)
  from nocase.add_key_defined [OF S _ key, of ob m] obtain r lp' m' where a: "add_key tolower lp Root key ob m = Some (r, lp', m')" by auto
  from nocase.add_root [OF ok key a] m a show ?thesis
    by (cases r) (auto simp: add_lrupat_nocase_def add_lrupat_nocase_helper_def)
qed

lemma stored_one_tail:
  "tree cf h p S \<Longrightarrow> stored h p k \<noteq> None \<Longrightarrow> patstr (h p) = Some pat \<Longrightarrow> p \<noteq> 0 \<Longrightarrow> pat = k \<or> pat = []"
  using tree_nonempty_tail [of cf h p S pat] stored_leaf [of p h pat] by (auto split: if_splits)

text \<open>The blob lookup stops at the first key on its way.\<close>

lemma blob_stops:
  assumes "tree cf h p S" "stored h p k \<noteq> None" "w \<noteq> []" "cstr (k @ w)"
  shows "lookup_lrupat_blob_helper h p (k @ w) len = None"
  using assms
proof (induction len arbitrary: p k S)
  case 0
  then show ?case using stored_one_tail [OF 0(1,2)] by (cases "p = 0") (auto split: option.splits)
next
  case (Suc len)
  show ?case
  proof (cases "patstr (h p)")
    case (Some pat)
    with stored_one_tail [OF Suc.prems(1,2)] Suc.prems(3,4) show ?thesis by (cases "p = 0") auto
  next
    case None
    then obtain c k' where k: "k = c # k'" using Suc.prems(2) by (cases k) auto
    have p: "p \<noteq> 0" using Suc.prems(2) by (cases "p = 0") simp_all
    obtain F where F: "tree cf h (arr (h p) c) F" using Suc.prems(1) p by (cases rule: tree.cases) auto
    have "stored h (arr (h p) c) k' \<noteq> None" using Suc.prems(2) None k p by simp
    from Suc.IH [OF F this Suc.prems(3)] Suc.prems(4) None k p show ?thesis by simp
  qed
qed

text \<open>An mmap that always answers the address after the last block.\<close>

definition page_after :: "slalloc \<Rightarrow> nat" where
  "page_after s = Suc (sum_list (map (\<lambda>p. p + blocksize s) (pages s)))"

lemma honest_page_after: "honest page_after"
proof -
  have "p + blocksize s \<le> sum_list (map (\<lambda>p. p + blocksize s) (pages s))" if "p \<in> set (pages s)" for s p
    by (rule member_le_sum_list) (use that in \<open>auto simp: image_iff\<close>)
  then show ?thesis by (fastforce simp: honest_def page_after_def fresh_block_def)
qed

definition raw_map :: pgdata where
  "raw_map = \<lparr>usemap = None, unallocated = 0, next_nonfull = None\<rparr>"

definition empty_trie :: "nat lrupat" where
  "empty_trie = the (fst (create_lrupat True 4096 page_after raw_map plenty_mem))"

lemma create_empty_trie: "\<exists>m. create_lrupat True 4096 page_after raw_map plenty_mem = (Some empty_trie, m) \<and> plentiful m"
  unfolding empty_trie_def
  by (simp add: create_lrupat_def create_slalloc_def Malloc_def check_alloc_req_def init_mem_def Let_def plentiful_def)

lemma empty_trie_ok: "lrupat_ok cf empty_trie" "stored (heap empty_trie) (nodes empty_trie) = (\<lambda>_. None)" "nwatchcb empty_trie"
    "watched empty_trie = []"
proof -
  from create_empty_trie obtain m where m: "create_lrupat True 4096 page_after raw_map plenty_mem = (Some empty_trie, m)" by blast
  from create_lrupat_ok [OF m _ honest_page_after, of cf]
  show "lrupat_ok cf empty_trie" "stored (heap empty_trie) (nodes empty_trie) = (\<lambda>_. None)" "nwatchcb empty_trie" "watched empty_trie = []"
    by simp_all
qed

subsection \<open>Properties\<close>

text \<open>
  C1: The trie is a map. From any trie that a client has built, with memory to be had, adding
  a key is defined, succeeds, and gives a trie whose lookups are those of the old one updated
  at that key, whatever tails had to be taken apart on the way; the callback is called
  on the object that was there before and on no other. The same for the case-blind
  functions, where keys that differ in case only are one.
\<close>

theorem add_lrupat_refines_map:
  assumes "lrupat_ok (\<lambda>c. c) lp" "lrupat_ok tolower lpn" "cstr key" "plentiful m"
  shows "(\<exists>lp' m'. add_lrupat lp key ob m = Some (False, lp', m') \<and> lrupat_ok (\<lambda>c. c) lp' \<and>
      (\<forall>k. cstr k \<longrightarrow> lookup_lrupat lp' k = (if k = key then Some ob else lookup_lrupat lp k)) \<and>
      watched lp' = watched lp @ (if nwatchcb lp then (case lookup_lrupat lp key of None \<Rightarrow> [] | Some o1 \<Rightarrow> [o1]) else [])) \<and>
    (\<exists>lp' m'. add_lrupat_nocase lpn key ob m = Some (False, lp', m') \<and> lrupat_ok tolower lp' \<and>
      (\<forall>k. cstr k \<longrightarrow> lookup_lrupat_nocase lp' k =
         (if map tolower k = map tolower key then Some ob else lookup_lrupat_nocase lpn k)) \<and>
      watched lp' = watched lpn @ (if nwatchcb lpn then (case lookup_lrupat_nocase lpn key of None \<Rightarrow> [] | Some o1 \<Rightarrow> [o1]) else []))"
proof
  from add_exact [OF assms(1,3,4), of ob] obtain lp' m' where a: "add_lrupat lp key ob m = Some (False, lp', m')" "lrupat_ok (\<lambda>c. c) lp'"
    "stored (heap lp') (nodes lp') = (stored (heap lp) (nodes lp))(key \<mapsto> ob)"
    "watched lp' = watched lp @ (if nwatchcb lp then (case stored (heap lp) (nodes lp) key of None \<Rightarrow> [] | Some o1 \<Rightarrow> [o1]) else [])" by blast
  have "lookup_lrupat lp k = stored (heap lp) (nodes lp) k" "lookup_lrupat lp' k = stored (heap lp') (nodes lp') k" if "cstr k" for k
    using assms(1) a(2) that by (auto elim!: lrupat_okE intro: stored_lookup_exact)
  with a assms(3) show "\<exists>lp' m'. add_lrupat lp key ob m = Some (False, lp', m') \<and> lrupat_ok (\<lambda>c. c) lp' \<and>
      (\<forall>k. cstr k \<longrightarrow> lookup_lrupat lp' k = (if k = key then Some ob else lookup_lrupat lp k)) \<and>
      watched lp' = watched lp @ (if nwatchcb lp then (case lookup_lrupat lp key of None \<Rightarrow> [] | Some o1 \<Rightarrow> [o1]) else [])" by simp
next
  from add_nocase [OF assms(2,3,4), of ob] obtain lp' m' where a: "add_lrupat_nocase lpn key ob m = Some (False, lp', m')" "lrupat_ok tolower lp'"
    "stored (heap lp') (nodes lp') = (stored (heap lpn) (nodes lpn))(map tolower key \<mapsto> ob)"
    "watched lp' = watched lpn @ (if nwatchcb lpn then (case stored (heap lpn) (nodes lpn) (map tolower key) of None \<Rightarrow> [] | Some o1 \<Rightarrow> [o1]) else [])"
    by blast
  have "lookup_lrupat_nocase lpn k = stored (heap lpn) (nodes lpn) (map tolower k)"
    "lookup_lrupat_nocase lp' k = stored (heap lp') (nodes lp') (map tolower k)" if "cstr k" for k
    using assms(2) a(2) that by (auto elim!: lrupat_okE intro: stored_lookup_nocase)
  with a assms(3) show "\<exists>lp' m'. add_lrupat_nocase lpn key ob m = Some (False, lp', m') \<and> lrupat_ok tolower lp' \<and>
      (\<forall>k. cstr k \<longrightarrow> lookup_lrupat_nocase lp' k =
         (if map tolower k = map tolower key then Some ob else lookup_lrupat_nocase lpn k)) \<and>
      watched lp' = watched lpn @ (if nwatchcb lpn then (case lookup_lrupat_nocase lpn key of None \<Rightarrow> [] | Some o1 \<Rightarrow> [o1]) else [])" by simp
qed

theorem add_lrupat_refines_map_witness:
  "\<exists>lp' m'. add_lrupat empty_trie ''abc'' (Some 7) plenty_mem = Some (False, lp', m') \<and> lookup_lrupat lp' ''abc'' = Some (Some 7)"
proof -
  have k: "cstr ''abc''" by (simp add: NUL_def)
  from add_lrupat_refines_map [OF empty_trie_ok(1) empty_trie_ok(1) k init_mem_plentiful, of "Some 7"] k show ?thesis by auto
qed


text \<open>
  Lookup up to a terminator: in a trie whose keys do not hold the terminating character,
  \<open>lookup_lrupat_term\<close> finds the part of the text before its first occurrence, and nothing
  when the text does not hold it.
\<close>

lemma lookup_lrupat_term_correct:
  assumes "lrupat_ok (\<lambda>c. c) lp" "cstr key" "t \<noteq> NUL" "\<forall>k. cstr k \<and> lookup_lrupat lp k \<noteq> None \<longrightarrow> t \<notin> set k"
  shows "lookup_lrupat_term lp key t =
    (if t \<in> set key then lookup_lrupat lp (takeWhile (\<lambda>c. c \<noteq> t) key) else None)"
proof -
  from assms(1) obtain S where S: "tree (\<lambda>c. c) (heap lp) (nodes lp) S" by (rule lrupat_okE)
  have "cstr (takeWhile (\<lambda>c. c \<noteq> t) key)" using assms(2) by (auto simp: cstr_def dest: set_takeWhileD)
  moreover have "lookup_key (\<lambda>c. c) (heap lp) (nodes lp) key t =
      (if t = NUL \<or> t \<in> set key then stored (heap lp) (nodes lp) (map (\<lambda>c. c) (takeWhile (\<lambda>c. c \<noteq> t) key)) else None)"
    by (rule exact.lookup_key_spec [OF _ assms(2)]) (use stored_folded [OF S] assms(4) stored_lookup_exact [OF S] in force)
  ultimately show ?thesis using assms(3) stored_lookup_exact [OF S] by (simp add: lookup_lrupat_term_def lookup_lrupat_helper_def)
qed

text \<open>
  \<open>lookup_lrupat_blob\<close> does not find a key that extends another one: it gives up at the first
  node on its way that holds a key, although \<open>lookup_lrupat\<close> goes on there.
\<close>

lemma blob_misses_longer_keys:
  assumes "lrupat_ok (\<lambda>c. c) lp" "cstr (k @ w)" "w \<noteq> []" "lookup_lrupat lp k \<noteq> None"
  shows "lookup_lrupat_blob lp (k @ w) len = None"
proof -
  from assms(1) obtain S where S: "tree (\<lambda>c. c) (heap lp) (nodes lp) S" by (rule lrupat_okE)
  have "stored (heap lp) (nodes lp) k \<noteq> None" using stored_lookup_exact [OF S, of k] assms(2,4) by simp
  from blob_stops [OF S this assms(3,2)] show ?thesis by (simp add: lookup_lrupat_blob_def)
qed

lemma two_keys:
  "\<exists>lp :: nat lrupat. lrupat_ok (\<lambda>c. c) lp \<and> (\<forall>k. cstr k \<longrightarrow> lookup_lrupat lp k =
     (if k = ''ab'' then Some (Some 2) else if k = ''a'' then Some (Some 3) else None))"
proof -
  have k: "cstr ''a''" "cstr ''ab''" by (simp_all add: NUL_def)
  from add_exact [OF empty_trie_ok(1) k(1) init_mem_plentiful, of "Some 3"] obtain lp1 :: "nat lrupat" and m1 where
    a: "lrupat_ok (\<lambda>c. c) lp1" "plentiful m1" "stored (heap lp1) (nodes lp1) = [''a'' \<mapsto> Some 3]"
    by (auto simp: empty_trie_ok(2))
  from add_exact [OF a(1) k(2) a(2), of "Some 2"] obtain lp2 :: "nat lrupat" where
    b: "lrupat_ok (\<lambda>c. c) lp2" "stored (heap lp2) (nodes lp2) = [''a'' \<mapsto> Some 3, ''ab'' \<mapsto> Some 2]"
    by (auto simp: a(3))
  from b(1) obtain S where "tree (\<lambda>c. c) (heap lp2) (nodes lp2) S" by (rule lrupat_okE)
  from stored_lookup_exact [OF this] b show ?thesis by auto
qed

lemma lookup_lrupat_term_correct_example:
  "\<exists>lp :: nat lrupat. lookup_lrupat_term lp ''ab.c'' CHR ''.'' = Some (Some 2) \<and> lookup_lrupat_term lp ''ab'' CHR ''.'' = None"
proof -
  from two_keys obtain lp :: "nat lrupat" where lp: "lrupat_ok (\<lambda>c. c) lp"
    "\<And>k. cstr k \<Longrightarrow> lookup_lrupat lp k = (if k = ''ab'' then Some (Some 2) else if k = ''a'' then Some (Some 3) else None)" by blast
  have k: "cstr ''ab.c''" "cstr ''ab''" "CHR ''.'' \<noteq> NUL" by (simp_all add: NUL_def)
  have free: "\<forall>k. cstr k \<and> lookup_lrupat lp k \<noteq> None \<longrightarrow> CHR ''.'' \<notin> set k"
    using lp(2) by (auto split: if_splits)
  from lookup_lrupat_term_correct [OF lp(1) k(1,3) free] lookup_lrupat_term_correct [OF lp(1) k(2,3) free] lp(2) [OF k(2)]
  have "lookup_lrupat_term lp ''ab.c'' CHR ''.'' = Some (Some 2) \<and> lookup_lrupat_term lp ''ab'' CHR ''.'' = None" by simp
  then show ?thesis by blast
qed

lemma blob_misses_longer_keys_example:
  "\<exists>lp :: nat lrupat. lookup_lrupat lp ''ab'' = Some (Some 2) \<and> lookup_lrupat_blob lp ''ab'' 2 = None"
proof -
  from two_keys obtain lp :: "nat lrupat" where lp: "lrupat_ok (\<lambda>c. c) lp"
    "\<And>k. cstr k \<Longrightarrow> lookup_lrupat lp k = (if k = ''ab'' then Some (Some 2) else if k = ''a'' then Some (Some 3) else None)" by blast
  have k: "cstr (''a'' @ ''b'')" "cstr ''a''" "cstr ''ab''" by (simp_all add: NUL_def)
  from blob_misses_longer_keys [OF lp(1) k(1), of 2] lp(2) [OF k(2)] lp(2) [OF k(3)] show ?thesis by auto
qed


end
