(* ===== verification/Hexmac.thy ===== *)
theory Hexmac
  imports Parse Ustring
begin

text \<open>
  Hexadecimal text and MAC addresses: libdank/utils/hex.c and mac.c. The separator argument,
  an int that may be EOF, is a \<^typ>\<open>char option\<close>. A byte buffer is the list of the bytes
  written to it. Reading behind the end of a text reads its NUL (\<open>peek\<close>).
\<close>

subsection \<open>hex.c\<close>

text \<open>The two switches: the digit's value, for the high and for the low half of the byte.\<close>

definition hexdigit :: "char \<Rightarrow> u8 option" where
  "hexdigit c =
     (if c = CHR ''F'' \<or> c = CHR ''f'' then Some 0xF else if c = CHR ''E'' \<or> c = CHR ''e'' then Some 0xE
      else if c = CHR ''D'' \<or> c = CHR ''d'' then Some 0xD else if c = CHR ''C'' \<or> c = CHR ''c'' then Some 0xC
      else if c = CHR ''B'' \<or> c = CHR ''b'' then Some 0xB else if c = CHR ''A'' \<or> c = CHR ''a'' then Some 0xA
      else if c = CHR ''9'' then Some 9 else if c = CHR ''8'' then Some 8
      else if c = CHR ''7'' then Some 7 else if c = CHR ''6'' then Some 6
      else if c = CHR ''5'' then Some 5 else if c = CHR ''4'' then Some 4
      else if c = CHR ''3'' then Some 3 else if c = CHR ''2'' then Some 2
      else if c = CHR ''1'' then Some 1 else if c = CHR ''0'' then Some 0
      else None)"

text \<open>
  \<open>hextoascii\<close> advances \<open>buf\<close> and leaves \<open>off\<close> at 0, so the pointer it returns is the end of
  what it wrote: the answer is its offset in the buffer, or \<open>None\<close> for a null pointer.
\<close>

fun hextoascii_loop :: "string \<Rightarrow> char option \<Rightarrow> nat \<Rightarrow> bool \<times> u8 list" where
  "hextoascii_loop hex sep 0 = (True, [])"
| "hextoascii_loop hex sep (Suc len) =
     (case hexdigit (peek hex) of
        None \<Rightarrow> (False, [])
      | Some hi \<Rightarrow>
          (case hexdigit (peek (tl hex)) of
             None \<Rightarrow> (False, [push_bit 4 hi])
           | Some lo \<Rightarrow>
               let byte = push_bit 4 hi OR lo; hex2 = tl (tl hex);
                   rest = (\<lambda>h. case hextoascii_loop h sep len of (ok, bs) \<Rightarrow> (ok, byte # bs))
               in (case sep of
                     Some c \<Rightarrow> if len \<noteq> 0 then (if peek hex2 \<noteq> c then (False, [byte]) else rest (tl hex2)) else rest hex2
                   | None \<Rightarrow> rest hex2)))"

definition hextoascii :: "string \<Rightarrow> char option \<Rightarrow> nat \<Rightarrow> nat option \<times> u8 list" where
  "hextoascii hex sep len =
     (case hextoascii_loop hex sep len of (ok, bs) \<Rightarrow> (if ok then Some (length bs) else None, bs))"

definition hexdig :: string where "hexdig = ''0123456789ABCDEF''"

definition hexpair :: "u8 \<Rightarrow> string" where
  "hexpair b = [hexdig ! unat (drop_bit 4 b), hexdig ! unat (b AND 0x0f)]"

fun asciitohex :: "u8 list \<Rightarrow> char option \<Rightarrow> string" where
  "asciitohex [] sep = []"
| "asciitohex [b] sep = hexpair b"
| "asciitohex (b # c # bs) sep =
     hexpair b @ (case sep of Some s \<Rightarrow> [s] | None \<Rightarrow> []) @ asciitohex (c # bs) sep"

text \<open>\<open>%02hhX\<close> prints the two digits of \<open>hexpair\<close>. The answer is whether printing failed.\<close>

fun us_asciitohex :: "u8 list \<Rightarrow> ustring \<Rightarrow> char option \<Rightarrow> mem \<Rightarrow> bool \<times> ustring \<times> mem" where
  "us_asciitohex [] u sep m = (False, u, m)"
| "us_asciitohex [b] u sep m = print_step (hexpair b) u m"
| "us_asciitohex (b # c # bs) u sep m =
     (case print_step (hexpair b @ (case sep of Some s \<Rightarrow> [s] | None \<Rightarrow> [])) u m of
        (True, u1, m1) \<Rightarrow> (True, u1, m1)
      | (False, u1, m1) \<Rightarrow> us_asciitohex (c # bs) u1 sep m1)"

subsection \<open>mac.c\<close>

definition ETH_ALEN :: nat where "ETH_ALEN = 6"

definition ETH_ADDRSTRLEN :: nat where "ETH_ADDRSTRLEN = ETH_ALEN * 2 + ETH_ALEN"

definition maccmp :: "u8 list \<Rightarrow> u8 list \<Rightarrow> int" where
  "maccmp m1 m2 =
     (case filter (\<lambda>(a, b). a \<noteq> b) (zip (take ETH_ALEN m1) (take ETH_ALEN m2)) of
        [] \<Rightarrow> 0 | (a, b) # _ \<Rightarrow> uint a - uint b)"

datatype mac_format_e = MAC_STD | MAC_HP | MAC_CISCO

definition mactoascii :: "u8 list \<Rightarrow> char option \<Rightarrow> mac_format_e \<Rightarrow> string" where
  "mactoascii mac sep fmt =
     (let h = (\<lambda>i. hexpair (mac ! i)) in
      case sep of
        None \<Rightarrow> h 0 @ h 1 @ h 2 @ h 3 @ h 4 @ h 5
      | Some s \<Rightarrow>
          (case fmt of
             MAC_CISCO \<Rightarrow> h 0 @ h 1 @ [s] @ h 2 @ h 3 @ [s] @ h 4 @ h 5
           | MAC_HP \<Rightarrow> h 0 @ h 1 @ h 2 @ [s] @ h 3 @ h 4 @ h 5
           | MAC_STD \<Rightarrow> h 0 @ [s] @ h 1 @ [s] @ h 2 @ [s] @ h 3 @ [s] @ h 4 @ [s] @ h 5))"

text \<open>
  \<open>asciitomac\<close> fails when \<open>hextoascii\<close> answers a pointer. When it goes on, the pointer may be
  beyond the end of the text, where the read is undefined: that is the outer \<open>None\<close>.
\<close>

definition asciitomac :: "string \<Rightarrow> char option \<Rightarrow> int option" where
  "asciitomac text sep =
     (let ret = parse_whitespace text; buf = drop ret text in
      case hextoascii buf sep ETH_ALEN of
        (Some _, _) \<Rightarrow> Some (-1)
      | (None, _) \<Rightarrow>
          let b = ETH_ADDRSTRLEN - 1 in
          if b > length buf then None
          else let c = peek (drop b buf) in
            if c \<noteq> NUL \<and> c \<noteq> CHR '' '' \<and> c \<noteq> CHR 0x09 \<and> c \<noteq> CHR '','' then Some (-1)
            else Some (int (ret + ETH_ADDRSTRLEN)))"

definition uprintf_mac :: "ustring \<Rightarrow> u8 list \<Rightarrow> char option \<Rightarrow> mem \<Rightarrow> bool \<times> ustring \<times> mem" where
  "uprintf_mac u mac sep m = print_step (mactoascii mac sep MAC_STD) u m"

definition xmlize_mac :: "ustring \<Rightarrow> u8 list \<Rightarrow> mem \<Rightarrow> bool \<times> ustring \<times> mem" where
  "xmlize_mac u mac m = print_step (''<mac>'' @ mactoascii mac (Some CHR '':'') MAC_STD @ ''</mac>'') u m"

subsection \<open>Lemmas\<close>

lemma hexdigit_hexdig: "n < 16 \<Longrightarrow> hexdigit (hexdig ! n) = Some (word_of_nat n)"
proof -
  have "map (\<lambda>n. hexdigit (hexdig ! n)) [0..<16] = map (\<lambda>n. Some (word_of_nat n)) [0..<16]"
    by (simp add: upt_rec hexdig_def hexdigit_def)
  then have "\<forall>n \<in> set [0..<16]. hexdigit (hexdig ! n) = Some (word_of_nat n)" by (simp only: map_eq_conv)
  then show "n < 16 \<Longrightarrow> ?thesis" by simp
qed

lemma halves: "unat (drop_bit 4 b) < 16" "unat (b AND 0x0f) < 16"
  "push_bit 4 (drop_bit 4 b) OR (b AND 0x0f) = b" for b :: u8
proof -
  have m: "b AND 0x0f = take_bit 4 b" by (simp add: take_bit_eq_mask mask_eq_exp_minus_1)
  show "unat (drop_bit 4 b) < 16"
  proof -
    have "unat b < 256" using unsigned_less [of b, where ?'a = nat] by simp
    then have "unat (drop_bit 4 b) = unat b div 16"
      by (simp only: unsigned_drop_bit_eq) (simp add: take_bit_nat_eq_self drop_bit_eq_div)
    with \<open>unat b < 256\<close> show ?thesis by simp
  qed
  show "unat (b AND 0x0f) < 16" unfolding m by (simp only: unsigned_take_bit_eq) (simp add: take_bit_eq_mod)
  show "push_bit 4 (drop_bit 4 b) OR (b AND 0x0f) = b" unfolding m
    by (rule bit_word_eqI) (auto simp: bit_or_iff bit_push_bit_iff bit_drop_bit_eq bit_take_bit_iff)
qed

lemma hexpair_digits:
  "hexdigit (peek (hexpair b @ t)) = Some (drop_bit 4 b)" "hexdigit (peek (tl (hexpair b @ t))) = Some (b AND 0x0f)"
  "tl (tl (hexpair b @ t)) = t" "hexpair b \<noteq> []"
  by (simp_all add: hexpair_def hexdigit_hexdig halves)

lemma hextoascii_step:
  "hextoascii_loop (hexpair b @ t) sep (Suc n) =
     (let rest = (\<lambda>h. case hextoascii_loop h sep n of (ok, bs) \<Rightarrow> (ok, b # bs)) in
      case sep of Some c \<Rightarrow> if n \<noteq> 0 then (if peek t \<noteq> c then (False, [b]) else rest (tl t)) else rest t
      | None \<Rightarrow> rest t)"
  by (simp only: hextoascii_loop.simps hexpair_digits option.case halves Let_def)

lemma hextoascii_loop_hex: "hextoascii_loop (asciitohex bs sep @ t) sep (length bs) = (True, bs)"
proof (induction bs sep rule: asciitohex.induct)
  case (2 b sep)
  show ?case by (simp add: hextoascii_step del: hextoascii_loop.simps(2) split: option.splits)
next
  case (3 b c bs sep)
  have "hextoascii_loop (asciitohex (b # c # bs) sep @ t) sep (length (b # c # bs)) =
      hextoascii_loop (hexpair b @ (case sep of Some s \<Rightarrow> [s] | None \<Rightarrow> []) @ asciitohex (c # bs) sep @ t) sep (Suc (length (c # bs)))"
    by simp
  also have "\<dots> = (True, b # c # bs)"
    unfolding hextoascii_step using 3 by (cases sep) simp_all
  finally show ?case .
qed simp

lemma asciitohex_length:
  "length (asciitohex bs sep) = (if sep = None then 2 * length bs else 3 * length bs - 1)"
  by (induction bs sep rule: asciitohex.induct) (auto simp: hexpair_def split: option.splits)

lemma us_asciitohex_prints:
  "\<exists>ts. concat ts = asciitohex bs sep \<and> us_asciitohex bs u sep m = for_each print_step ts u m"
proof (induction bs u sep m rule: us_asciitohex.induct)
  case (2 b u sep m)
  then show ?case by (intro exI [of _ "[hexpair b]"]) (simp split: prod.splits bool.splits)
next
  case (3 b c bs u sep m)
  let ?p = "hexpair b @ (case sep of Some s \<Rightarrow> [s] | None \<Rightarrow> [])"
  obtain e u1 m1 where st: "print_step ?p u m = (e, u1, m1)" by (cases "print_step ?p u m")
  show ?case
  proof (cases e)
    case True
    with st show ?thesis by (intro exI [of _ "[?p, asciitohex (c # bs) sep]"]) simp
  next
    case False
    with 3 st obtain ts where "concat ts = asciitohex (c # bs) sep"
      "us_asciitohex (c # bs) u1 sep m1 = for_each print_step ts u1 m1" by (metis (full_types))
    with False st show ?thesis by (intro exI [of _ "?p # ts"]) simp
  qed
qed (auto intro: exI [of _ "[]"])

lemma mactoascii_hex: "length mac = 6 \<Longrightarrow> mactoascii mac sep MAC_STD = asciitohex mac sep"
  by (auto simp: length_Suc_conv numeral_eq_Suc mactoascii_def Let_def split: option.splits)

subsection \<open>Properties\<close>



text \<open>
  \<open>asciitomac\<close> rejects every MAC address: the text that \<open>mactoascii\<close> prints in the standard
  format with the same separator, behind white space and in front of anything, gives -1.
\<close>

lemma asciitomac_rejects:
  assumes "length mac = 6" "\<forall>c \<in> set ws. isspace c"
  shows "asciitomac (ws @ mactoascii mac sep MAC_STD @ t) sep = Some (-1)"
proof -
  have ne: "mac \<noteq> []" using assms(1) by auto
  then obtain b bs where mac: "mac = b # bs" by (cases mac) auto
  have "\<not> isspace (hexdig ! n)" if "n < 16" for n
  proof -
    have "\<forall>c \<in> set hexdig. \<not> isspace c" by (simp add: hexdig_def isspace_def ccode_def)
    moreover have "n < length hexdig" using that by (simp add: hexdig_def)
    ultimately show ?thesis using nth_mem by blast
  qed
  then have "\<not> isspace (peek (hexpair b @ s))" for s using halves(1) [of b] by (simp add: hexpair_def)
  moreover have "\<exists>s. asciitohex mac sep = hexpair b @ s" unfolding mac by (cases bs) auto
  ultimately have "\<not> isspace (peek (asciitohex mac sep @ t))" by (metis append_assoc)
  then have "drop (parse_whitespace (ws @ asciitohex mac sep @ t)) (ws @ asciitohex mac sep @ t) = asciitohex mac sep @ t"
    by (intro parse_whitespace_append [OF assms(2)])
  moreover have "hextoascii (asciitohex mac sep @ t) sep ETH_ALEN = (Some 6, mac)"
    using hextoascii_loop_hex [of mac sep t] assms(1) by (simp add: hextoascii_def ETH_ALEN_def)
  ultimately show ?thesis using mactoascii_hex [OF assms(1)] by (simp add: asciitomac_def Let_def)
qed

lemma asciitomac_rejects_example:
  "asciitomac ([CHR '' ''] @ mactoascii [0xde, 0xad, 0xbe, 0xef, 0xf0, 0x0f] (Some CHR '':'') MAC_STD @ [])
     (Some CHR '':'') = Some (-1)"
  by (rule asciitomac_rejects) (simp_all add: isspace_def ccode_def)

end
