(* ===== verification/Rfc3330.thy ===== *)
theory Rfc3330
  imports Ipset
begin

text \<open>
  The special-use IPv4 blocks of libdank/utils/rfc3330.c and rfc3330.h. Addresses are in host
  byte order. The predicates of the header are compared with the ranges that ipset.c makes
  of the prefixes in their comments.
\<close>

datatype rfc3330_type =
  RFC3330_THISNETWORK | RFC3330_PRIVATE | RFC3330_PUBLICDATANET | RFC3330_LOOPBACK
| RFC3330_LINKLOCAL | RFC3330_UNCLASSIFIED

definition ipv4_is_rfc3330thisnetwork :: "u32 \<Rightarrow> bool" where
  "ipv4_is_rfc3330thisnetwork ip \<longleftrightarrow> ip < 0x01000000"

definition ipv4_is_rfc3330private :: "u32 \<Rightarrow> bool" where
  "ipv4_is_rfc3330private ip \<longleftrightarrow>
     (if ip < 0x0a000000 then False else if ip < 0x0b000000 then True
      else if ip < 0xac100000 then False else if ip < 0xac200000 then True
      else if ip < 0xc0a80000 then False else if ip < 0xc0a90000 then True else False)"

definition ipv4_is_rfc3330publicdatanet :: "u32 \<Rightarrow> bool" where
  "ipv4_is_rfc3330publicdatanet ip \<longleftrightarrow> ip > 0x0dffffff \<and> ip < 0x0f000000"

definition ipv4_is_rfc3330loopback :: "u32 \<Rightarrow> bool" where
  "ipv4_is_rfc3330loopback ip \<longleftrightarrow> ip > 0x7effffff \<and> ip < 0x80000000"

definition ipv4_is_rfc3330linklocal :: "u32 \<Rightarrow> bool" where
  "ipv4_is_rfc3330linklocal ip \<longleftrightarrow> ip > 0xa9fdffff \<and> ip < 0xa9ff0000"

text \<open>The array of tests; the last entry has a null predicate and ends the loop.\<close>

definition testfxns :: "((u32 \<Rightarrow> bool) option \<times> rfc3330_type) list" where
  "testfxns = [
     (Some ipv4_is_rfc3330thisnetwork, RFC3330_THISNETWORK),
     (Some ipv4_is_rfc3330private, RFC3330_PRIVATE),
     (Some ipv4_is_rfc3330publicdatanet, RFC3330_PUBLICDATANET),
     (Some ipv4_is_rfc3330loopback, RFC3330_LOOPBACK),
     (Some ipv4_is_rfc3330linklocal, RFC3330_LINKLOCAL),
     (None, RFC3330_UNCLASSIFIED)]"

text \<open>Running off the end of the array would be undefined.\<close>

fun run_tests :: "((u32 \<Rightarrow> bool) option \<times> rfc3330_type) list \<Rightarrow> u32 \<Rightarrow> rfc3330_type option" where
  "run_tests [] ip = None"
| "run_tests ((None, t) # rest) ip = Some t"
| "run_tests ((Some p, t) # rest) ip = (if p ip then Some t else run_tests rest ip)"

definition categorize_ipv4address :: "u32 \<Rightarrow> rfc3330_type option" where
  "categorize_ipv4address ip = run_tests testfxns ip"

subsection \<open>The prefixes of the comments\<close>

definition in_route :: "u32 \<Rightarrow> u32 \<Rightarrow> u32 \<Rightarrow> bool" where
  "in_route dst bits ip \<longleftrightarrow> (case iprange_from_route dst bits of None \<Rightarrow> False | Some r \<Rightarrow> ip_in_range r ip)"

lemma in_route_iff:
  "unat bits \<le> 32 \<Longrightarrow> in_route dst bits ip \<longleftrightarrow> uint ip div 2 ^ (32 - unat bits) = uint dst div 2 ^ (32 - unat bits)"
  using iprange_from_route_members [of bits dst] by (auto simp: in_route_def split: option.splits)

definition blocks :: "rfc3330_type \<Rightarrow> (u32 \<times> u32) list" where
  "blocks t = (case t of
     RFC3330_THISNETWORK \<Rightarrow> [(0x00000000, 8)]
   | RFC3330_PRIVATE \<Rightarrow> [(0x0a000000, 8), (0xac100000, 12), (0xc0a80000, 16)]
   | RFC3330_PUBLICDATANET \<Rightarrow> [(0x0e000000, 8)]
   | RFC3330_LOOPBACK \<Rightarrow> [(0x7f000000, 8)]
   | RFC3330_LINKLOCAL \<Rightarrow> [(0xa9fe0000, 16)]
   | RFC3330_UNCLASSIFIED \<Rightarrow> [])"

definition in_blocks :: "rfc3330_type \<Rightarrow> u32 \<Rightarrow> bool" where
  "in_blocks t ip \<longleftrightarrow> list_ex (\<lambda>(dst, bits). in_route dst bits ip) (blocks t)"

lemmas rfc3330_preds =
  ipv4_is_rfc3330thisnetwork_def ipv4_is_rfc3330private_def ipv4_is_rfc3330publicdatanet_def
  ipv4_is_rfc3330loopback_def ipv4_is_rfc3330linklocal_def

lemma preds_int:
  "ipv4_is_rfc3330thisnetwork ip \<longleftrightarrow> uint ip < 16777216"
  "ipv4_is_rfc3330private ip \<longleftrightarrow> (167772160 \<le> uint ip \<and> uint ip < 184549376) \<or>
     (2886729728 \<le> uint ip \<and> uint ip < 2887778304) \<or> (3232235520 \<le> uint ip \<and> uint ip < 3232301056)"
  "ipv4_is_rfc3330publicdatanet ip \<longleftrightarrow> 234881024 \<le> uint ip \<and> uint ip < 251658240"
  "ipv4_is_rfc3330loopback ip \<longleftrightarrow> 2130706432 \<le> uint ip \<and> uint ip < 2147483648"
  "ipv4_is_rfc3330linklocal ip \<longleftrightarrow> 2851995648 \<le> uint ip \<and> uint ip < 2852061184"
  by (auto simp: rfc3330_preds word_cmp_int)

lemma div_block: "0 < (p :: int) \<Longrightarrow> a div p = k \<longleftrightarrow> k * p \<le> a \<and> a < k * p + p"
proof
  assume p: "0 < p" "a div p = k"
  have "a = k * p + a mod p" using p(2) by (metis div_mult_mod_eq)
  with pos_mod_sign [OF p(1), of a] pos_mod_bound [OF p(1), of a] show "k * p \<le> a \<and> a < k * p + p" by linarith
next
  assume p: "0 < p" "k * p \<le> a \<and> a < k * p + p"
  show "a div p = k"
    by (rule int_div_pos_eq [of a p k "a - k * p"]) (use p in \<open>simp_all add: mult.commute\<close>)
qed

lemma in_blocks_int:
  "in_blocks RFC3330_THISNETWORK ip \<longleftrightarrow> uint ip < 16777216"
  "in_blocks RFC3330_PRIVATE ip \<longleftrightarrow> (167772160 \<le> uint ip \<and> uint ip < 184549376) \<or>
     (2886729728 \<le> uint ip \<and> uint ip < 2887778304) \<or> (3232235520 \<le> uint ip \<and> uint ip < 3232301056)"
  "in_blocks RFC3330_PUBLICDATANET ip \<longleftrightarrow> 234881024 \<le> uint ip \<and> uint ip < 251658240"
  "in_blocks RFC3330_LOOPBACK ip \<longleftrightarrow> 2130706432 \<le> uint ip \<and> uint ip < 2147483648"
  "in_blocks RFC3330_LINKLOCAL ip \<longleftrightarrow> 2851995648 \<le> uint ip \<and> uint ip < 2852061184"
  by (simp_all add: in_blocks_def blocks_def in_route_iff div_block)

lemma blocks_disjoint: "in_blocks s ip \<Longrightarrow> in_blocks t ip \<Longrightarrow> s = t"
proof -
  have "\<not> in_blocks RFC3330_UNCLASSIFIED ip" by (simp add: in_blocks_def blocks_def)
  then show "in_blocks s ip \<Longrightarrow> in_blocks t ip \<Longrightarrow> s = t"
    by (cases s; cases t) (auto simp: in_blocks_int)
qed

subsection \<open>Properties\<close>

text \<open>
  C26: Classification is by the blocks of RFC 3330. The loop always ends inside its array; an
  address is put into a class exactly when it lies in one of the class's prefixes, as
  \<open>iprange_from_route\<close> expands them; the classes are disjoint, so the order of the tests
  does not matter, and everything else is unclassified.
\<close>

theorem categorize_ipv4address_correct:
  "\<exists>t. categorize_ipv4address ip = Some t \<and>
     (if t = RFC3330_UNCLASSIFIED then \<not> (\<exists>s. in_blocks s ip) else {s. in_blocks s ip} = {t})"
proof -
  have n: "\<not> in_blocks RFC3330_UNCLASSIFIED ip" by (simp add: in_blocks_def blocks_def)
  define t where "t = (if ipv4_is_rfc3330thisnetwork ip then RFC3330_THISNETWORK
    else if ipv4_is_rfc3330private ip then RFC3330_PRIVATE
    else if ipv4_is_rfc3330publicdatanet ip then RFC3330_PUBLICDATANET
    else if ipv4_is_rfc3330loopback ip then RFC3330_LOOPBACK
    else if ipv4_is_rfc3330linklocal ip then RFC3330_LINKLOCAL else RFC3330_UNCLASSIFIED)"
  have "categorize_ipv4address ip = Some t"
    by (simp add: categorize_ipv4address_def testfxns_def t_def)
  moreover have "t \<noteq> RFC3330_UNCLASSIFIED \<Longrightarrow> in_blocks t ip"
    by (auto simp: t_def preds_int in_blocks_int split: if_splits)
  moreover have "t = RFC3330_UNCLASSIFIED \<Longrightarrow> \<not> in_blocks s ip" for s
    using n by (cases s) (auto simp: t_def preds_int in_blocks_int split: if_splits)
  moreover have "t \<noteq> RFC3330_UNCLASSIFIED \<Longrightarrow> {s. in_blocks s ip} = {t}"
    using blocks_disjoint calculation(2) by blast
  ultimately show ?thesis by auto
qed

end
