(* ===== verification/Timeval.thy ===== *)
theory Timeval
  imports Prelude "HOL-Library.Monad_Syntax"
begin

text \<open>
  The subtraction of times of libdank/utils/time.c. The members of struct timeval are signed
  64-bit numbers, \<open>nsec\<close> is a signed 32-bit one: every result of an arithmetic operation is checked
  against the width the C code computes it in, and a signed overflow, which is undefined, answers
  \<open>None\<close>. Storing a 64-bit value in \<open>nsec\<close> keeps its low 32 bits, as the compilers the code is for
  do. C's division truncates, but is only used on positive numbers here. Times are ordered the
  way timercmp orders them, by seconds and then by microseconds.
\<close>

datatype timeval = Timeval (tv_sec: int) (tv_usec: int)

instantiation timeval :: linorder
begin

definition less_eq_timeval :: "timeval \<Rightarrow> timeval \<Rightarrow> bool" where
  "less_eq_timeval s t \<longleftrightarrow> tv_sec s < tv_sec t \<or> tv_sec s = tv_sec t \<and> tv_usec s \<le> tv_usec t"

definition less_timeval :: "timeval \<Rightarrow> timeval \<Rightarrow> bool" where
  "less_timeval s t \<longleftrightarrow> tv_sec s < tv_sec t \<or> tv_sec s = tv_sec t \<and> tv_usec s < tv_usec t"

instance
  by standard (auto simp: less_eq_timeval_def less_timeval_def intro: timeval.expand)

end

text \<open>The widths: the value when it fits, and what an int keeps of a long.\<close>

definition s64 :: "int \<Rightarrow> int option" where
  "s64 x = (if - (2 ^ 63) \<le> x \<and> x < 2 ^ 63 then Some x else None)"

definition s32 :: "int \<Rightarrow> int option" where
  "s32 x = (if - (2 ^ 31) \<le> x \<and> x < 2 ^ 31 then Some x else None)"

definition as_int :: "int \<Rightarrow> int" where
  "as_int x = (x + 2 ^ 31) mod 2 ^ 32 - 2 ^ 31"

definition timeval_subtract :: "timeval \<Rightarrow> timeval \<Rightarrow> timeval option" where
  "timeval_subtract minuend subtrahend = do {
     elapsed1 \<leftarrow>
       (if tv_usec minuend < tv_usec subtrahend then do {
          d \<leftarrow> s64 (tv_usec subtrahend - tv_usec minuend);
          let nsec = as_int (d div 100000 + 1);
          p \<leftarrow> s32 (1000000 * nsec);
          usec \<leftarrow> s64 (tv_usec minuend + p);
          sec \<leftarrow> s64 (tv_sec minuend - nsec);
          Some (Timeval sec usec)
        } else Some minuend);
     d \<leftarrow> s64 (tv_usec elapsed1 - tv_usec subtrahend);
     elapsed2 \<leftarrow>
       (if d > 1000000 then do {
          let nsec = as_int (d div 1000000);
          p \<leftarrow> s32 (1000000 * nsec);
          usec \<leftarrow> s64 (tv_usec elapsed1 - p);
          sec \<leftarrow> s64 (tv_sec elapsed1 + nsec);
          Some (Timeval sec usec)
        } else Some elapsed1);
     sec \<leftarrow> s64 (tv_sec elapsed2 - tv_sec subtrahend);
     usec \<leftarrow> s64 (tv_usec elapsed2 - tv_usec subtrahend);
     Some (Timeval sec usec)
   }"

definition timeval_subtract_usec :: "timeval \<Rightarrow> timeval \<Rightarrow> int option" where
  "timeval_subtract_usec minuend subtrahend = do {
     result \<leftarrow> timeval_subtract minuend subtrahend;
     p \<leftarrow> s64 (tv_sec result * 1000000);
     s64 (p + tv_usec result)
   }"

subsection \<open>Lemmas\<close>

definition usecs :: "timeval \<Rightarrow> int" where
  "usecs t = tv_sec t * 1000000 + tv_usec t"

definition normal :: "timeval \<Rightarrow> bool" where
  "normal t \<longleftrightarrow> 0 \<le> tv_usec t \<and> tv_usec t < 1000000"

lemma usecs_less_eq: "normal s \<Longrightarrow> normal t \<Longrightarrow> s \<le> t \<longleftrightarrow> usecs s \<le> usecs t"
  by (auto simp: less_eq_timeval_def usecs_def normal_def)

lemma s64_fits: "- (2 ^ 63) \<le> x \<Longrightarrow> x < 2 ^ 63 \<Longrightarrow> s64 x = Some x"
  by (simp add: s64_def)

lemma s32_fits: "- (2 ^ 31) \<le> x \<Longrightarrow> x < 2 ^ 31 \<Longrightarrow> s32 x = Some x"
  by (simp add: s32_def)

lemma s64_Some: "s64 x = Some y \<longleftrightarrow> y = x \<and> - (2 ^ 63) \<le> x \<and> x < 2 ^ 63"
  by (auto simp: s64_def)

lemma s32_Some: "s32 x = Some y \<longleftrightarrow> y = x \<and> - (2 ^ 31) \<le> x \<and> x < 2 ^ 31"
  by (auto simp: s32_def)

lemma as_int_fits: "0 \<le> x \<Longrightarrow> x < 2 ^ 31 \<Longrightarrow> as_int x = x"
  by (simp add: as_int_def)

text \<open>What one borrows the other gives back, even where \<open>nsec\<close> does not hold the quotient.\<close>

lemma usecs_borrow:
  "do { d \<leftarrow> a; let n = f d; p \<leftarrow> s32 (1000000 * n); u \<leftarrow> s64 (usec + p); v \<leftarrow> s64 (sec - n); Some (Timeval v u) } = Some e \<Longrightarrow>
   usecs e = sec * 1000000 + usec"
  by (auto simp: Let_def Option.bind_eq_Some_conv s64_Some s32_Some usecs_def)

lemma usecs_carry:
  "do { let n = f; p \<leftarrow> s32 (1000000 * n); u \<leftarrow> s64 (usec - p); v \<leftarrow> s64 (sec + n); Some (Timeval v u) } = Some e \<Longrightarrow>
   usecs e = sec * 1000000 + usec"
  by (auto simp: Let_def Option.bind_eq_Some_conv s64_Some s32_Some usecs_def)

lemma usecs_subtract:
  assumes "timeval_subtract m s = Some r"
  shows "usecs r = usecs m - usecs s"
proof -
  obtain e1 where e1: "(if tv_usec m < tv_usec s then do {
          d \<leftarrow> s64 (tv_usec s - tv_usec m);
          let nsec = as_int (d div 100000 + 1);
          p \<leftarrow> s32 (1000000 * nsec);
          usec \<leftarrow> s64 (tv_usec m + p);
          sec \<leftarrow> s64 (tv_sec m - nsec);
          Some (Timeval sec usec)
        } else Some m) = Some e1"
    and r1: "do { d \<leftarrow> s64 (tv_usec e1 - tv_usec s);
     e2 \<leftarrow> (if d > 1000000 then do {
          let nsec = as_int (d div 1000000);
          p \<leftarrow> s32 (1000000 * nsec);
          usec \<leftarrow> s64 (tv_usec e1 - p);
          sec \<leftarrow> s64 (tv_sec e1 + nsec);
          Some (Timeval sec usec)
        } else Some e1);
     sec \<leftarrow> s64 (tv_sec e2 - tv_sec s);
     usec \<leftarrow> s64 (tv_usec e2 - tv_usec s);
     Some (Timeval sec usec) } = Some r"
    using assms unfolding timeval_subtract_def Option.bind_eq_Some_conv by blast
  have u1: "usecs e1 = usecs m" using e1 usecs_borrow [of _ _ "tv_usec m" "tv_sec m" e1] by (auto simp: usecs_def split: if_splits)
  obtain d e2 where e2: "(if d > 1000000 then do {
          let nsec = as_int (d div 1000000);
          p \<leftarrow> s32 (1000000 * nsec);
          usec \<leftarrow> s64 (tv_usec e1 - p);
          sec \<leftarrow> s64 (tv_sec e1 + nsec);
          Some (Timeval sec usec)
        } else Some e1) = Some e2"
    and r2: "do { sec \<leftarrow> s64 (tv_sec e2 - tv_sec s); usec \<leftarrow> s64 (tv_usec e2 - tv_usec s); Some (Timeval sec usec) } = Some r"
    using r1 unfolding Option.bind_eq_Some_conv by blast
  have u2: "usecs e2 = usecs e1" using e2 usecs_carry [of "as_int (d div 1000000)" "tv_usec e1" "tv_sec e1" e2]
    by (cases "d > 1000000") (simp_all add: usecs_def)
  show ?thesis using r2 u1 u2 by (auto simp: Option.bind_eq_Some_conv s64_Some usecs_def)
qed

lemma subtract_normal:
  assumes "normal m" "normal s" "\<bar>tv_sec m\<bar> < 2 ^ 61" "\<bar>tv_sec s\<bar> < 2 ^ 61"
  shows "\<exists>r. timeval_subtract m s = Some r \<and> normal r"
proof -
  have n: "0 \<le> tv_usec m" "tv_usec m < 1000000" "0 \<le> tv_usec s" "tv_usec s < 1000000"
    using assms(1,2) by (simp_all add: normal_def)
  have b: "- (2 ^ 61) < tv_sec m" "tv_sec m < 2 ^ 61" "- (2 ^ 61) < tv_sec s" "tv_sec s < 2 ^ 61" using assms(3,4) by simp_all
  show ?thesis
  proof (cases "tv_usec m < tv_usec s")
    case False
    then show ?thesis using n b by (simp add: timeval_subtract_def s64_fits normal_def)
  next
    case True
    define d where "d = tv_usec s - tv_usec m"
    define k where "k = d div 100000 + 1"
    define x where "x = 1000000 * k - d"
    have d: "0 < d" "d < 1000000" using n True by (simp_all add: d_def)
    have k: "1 \<le> k" "k \<le> 10" using d by (simp_all add: k_def)
    have x: "0 < x" "x < 10000000" using k d by (simp_all add: x_def)
    have x1: "x \<noteq> 1000000"
    proof
      assume "x = 1000000"
      then have e: "d = 1000000 * (k - 1)" by (simp add: x_def)
      then have "k \<noteq> 1" using d(1) by auto
      then have "1000000 \<le> 1000000 * (k - 1)" using k(1) by simp
      with e d(2) show False by simp
    qed
    have dk: "as_int (d div 100000 + 1) = k" unfolding k_def [symmetric] using k by (intro as_int_fits) simp_all
    have dx: "tv_usec m + 1000000 * k - tv_usec s = x" by (simp add: x_def d_def)
    define e where "e = Timeval (tv_sec m - k) (tv_usec m + 1000000 * k)"
    have "s64 (tv_usec s - tv_usec m) = Some d" "s32 (1000000 * k) = Some (1000000 * k)"
      "s64 (tv_usec m + 1000000 * k) = Some (tv_usec m + 1000000 * k)" "s64 (tv_sec m - k) = Some (tv_sec m - k)" "s64 x = Some x"
      using d k n b x by (simp_all add: s64_fits s32_fits d_def)
    then have st: "timeval_subtract m s = do {
       elapsed2 \<leftarrow>
         (if x > 1000000 then do {
            p \<leftarrow> s32 (1000000 * as_int (x div 1000000));
            usec \<leftarrow> s64 (tv_usec m + 1000000 * k - p);
            sec \<leftarrow> s64 (tv_sec m - k + as_int (x div 1000000));
            Some (Timeval sec usec)
          } else Some e);
       sec \<leftarrow> s64 (tv_sec elapsed2 - tv_sec s);
       usec \<leftarrow> s64 (tv_usec elapsed2 - tv_usec s);
       Some (Timeval sec usec)
     }" using True dk dx by (simp add: timeval_subtract_def Let_def e_def)
    show ?thesis
    proof (cases "x > 1000000")
      case False
      have "s64 (tv_sec m - k - tv_sec s) = Some (tv_sec m - k - tv_sec s)" using k b by (intro s64_fits) simp_all
      with st False x x1 dx show ?thesis by (simp add: e_def s64_fits normal_def)
    next
      case big: True
      define q where "q = x div 1000000"
      have q: "0 \<le> q" "q \<le> 10" using x by (simp_all add: q_def)
      have qx: "x - 1000000 * q = x mod 1000000" by (simp add: q_def minus_mult_div_eq_mod)
      have md: "0 \<le> x mod 1000000" "x mod 1000000 < 1000000" by simp_all
      have a: "as_int (x div 1000000) = q" unfolding q_def [symmetric] using q by (intro as_int_fits) simp_all
      have "tv_usec m + 1000000 * k - 1000000 * q - tv_usec s = x mod 1000000" using qx dx by simp
      moreover have "s32 (1000000 * q) = Some (1000000 * q)" "s64 (tv_usec m + 1000000 * k - 1000000 * q) = Some (tv_usec m + 1000000 * k - 1000000 * q)"
        "s64 (tv_sec m - k + q) = Some (tv_sec m - k + q)" "s64 (tv_sec m - k + q - tv_sec s) = Some (tv_sec m - k + q - tv_sec s)"
        using q k n b by (simp_all add: s64_fits s32_fits)
      ultimately show ?thesis using st big md by (simp add: a s64_fits normal_def)
    qed
  qed
qed

subsection \<open>Properties\<close>

text \<open>
  C27: Wherever the subtraction of two times is defined, also on unnormalised members, it is exact:
  in microseconds it is the difference of the two values. It is defined for normalised times of
  less than \<open>2 ^ 42\<close> seconds (either sign); their difference is normalised, the number of
  microseconds is the exact one, and its sign tells the order of the times. (The loop-free borrow
  divides by 100000, so it borrows more seconds than needed; the carry gives them back.)
\<close>

theorem timeval_subtract_exact:
  "(\<forall>r. timeval_subtract m s = Some r \<longrightarrow> usecs r = usecs m - usecs s) \<and>
   (normal m \<and> normal s \<and> \<bar>tv_sec m\<bar> < 2 ^ 42 \<and> \<bar>tv_sec s\<bar> < 2 ^ 42 \<longrightarrow>
      (\<exists>r. timeval_subtract m s = Some r \<and> normal r) \<and>
      timeval_subtract_usec m s = Some (usecs m - usecs s) \<and> (0 \<le> usecs m - usecs s \<longleftrightarrow> s \<le> m))"
proof (intro conjI impI allI)
  assume n: "normal m \<and> normal s \<and> \<bar>tv_sec m\<bar> < 2 ^ 42 \<and> \<bar>tv_sec s\<bar> < 2 ^ 42"
  then obtain r where r: "timeval_subtract m s = Some r" "normal r" using subtract_normal [of m s] by auto
  then show "\<exists>r. timeval_subtract m s = Some r \<and> normal r" by blast
  have u: "usecs r = usecs m - usecs s" by (rule usecs_subtract [OF r(1)])
  have b: "\<bar>usecs r\<bar> < 9000000000000000000" using n unfolding u abs_less_iff by (simp add: usecs_def normal_def)
  from r b show "timeval_subtract_usec m s = Some (usecs m - usecs s)"
    unfolding u [symmetric] timeval_subtract_usec_def r(1) abs_less_iff by (simp add: s64_def usecs_def normal_def)
  show "0 \<le> usecs m - usecs s \<longleftrightarrow> s \<le> m" using n usecs_less_eq [of s m] by simp
qed (use usecs_subtract in blast)

theorem timeval_subtract_exact_witness:
  "timeval_subtract_usec (Timeval 5 100) (Timeval 3 999999) = Some 1000101 \<and>
   timeval_subtract (Timeval 5 100) (Timeval 3 999999) = Some (Timeval 1 101)"
proof -
  have d: "timeval_subtract (Timeval 5 100) (Timeval 3 999999) = Some (Timeval 1 101)"
    by (simp add: timeval_subtract_def s64_def s32_def as_int_def)
  with timeval_subtract_exact [of "Timeval 5 100" "Timeval 3 999999"] show ?thesis by (simp add: normal_def usecs_def)
qed

text \<open>
  On unnormalised members the borrow overflows: once the subtrahend has 214.7 million microseconds
  more, the product of a million and \<open>nsec\<close> leaves an int.
\<close>

lemma timeval_subtract_overflows: "timeval_subtract (Timeval 300 0) (Timeval 0 214700000) = None"
  by (simp add: timeval_subtract_def s64_def s32_def as_int_def)

end
