(* ===== verification/Spec2Isabelle.thy ===== *)
theory Spec2Isabelle
  imports Portset_Text Ipset_Text Intervaltree Lexers Uri Windows Ctlserver Crlfreader Lrupat_Map Hexmac Rfc3330 Timeval
begin

text \<open>
  libdank is a C library of objects, parsers and system helpers for network daemons. This
  development models its objects (libdank/objects), its parsing and arithmetic helpers
  (libdank/utils), and of its modules the event core and the control server. Almost every file of the library rests on the accounting allocator, so the
  model threads the allocator's state through every operation that allocates, and every
  allocation may fail.

  \<^bold>\<open>How the parts interact.\<close> The allocator (Memlimit) is called by the growing strings
  (Ustring), the copies of strings (Strings), the port sets, the IPv4 sets, the interval trees,
  the line reader and the slab allocator; the trie (Lrupat) takes its nodes from the slab
  allocator and its keys from the copies. The parsers (Parse) read ports and addresses and serve
  the text forms of the two sets (Portset_Text, Ipset_Text), whose printers write into
  growing strings. The slab allocator takes logarithms and coprimes from Magic. The event core
  serves the control server, whose start builds a handler (create_evhandler), puts its signals and
  its listening socket there and spawns threads, and whose stop destroys it.

  \<^bold>\<open>Theories and the files they model.\<close>
  \<^item> Prelude: C strings (a \<^typ>\<open>string\<close>, the byte behind its end reads as NUL), the ctype
    predicates, memmove, loops with an early exit; the lemma collections.
  \<^item> Memlimit: utils/memlimit.c. The static counters are the record \<open>mem\<close>; \<open>os_alloc\<close> says
    which requests libc serves, \<open>rnd\<close> what random answers. \<open>plentiful m\<close>: no limit is set and
    every request is served, the hypothesis of the theorems that say an operation succeeds.
  \<^item> Allocsteps: the locales of what an allocating step promises (an invariant, the balance of
    live blocks, success when memory is plentiful), and of the loops and of the "clone, work,
    commit" shape made of such steps. Interpreted by Ustring, Portset and Ipset.
  \<^item> Ranges: the sets of integers that both range sets implement, as canonical lists of disjoint,
    non-adjacent intervals with \<open>ins\<close> and \<open>del\<close>; the abstract specification.
  \<^item> Portset and Ipset: objects/portset.c, objects/ipset.c. An array of ranges with its capacity
    is a record with a list. Each operation refines \<open>ins\<close> or \<open>del\<close> on the list of integers
    and keeps the array well formed; a failure changes nothing and leaks nothing.
  \<^item> Parse, Portset_Text, Ipset_Text: utils/parse.c and the printers and parsers of the two
    sets. Printing and then parsing is the identity; parsing anything at all leaves a well-formed
    set or nothing.
  \<^item> Intervaltree: objects/intervaltree.c, a binary tree as a datatype. Its operations against
    the list of its entries, and the balancing against the tree of least depth.
  \<^item> Lexers: objects/lexers.c, one function for all widths: the number denoted, overflow, prefixes.
  \<^item> Text: utils/text.c, the parsers that write NULs into the buffer they read.
  \<^item> Crlfreader: objects/crlfreader.c, lines off a non-blocking socket. The socket is the list of
    the answers that read will give.
  \<^item> Slalloc: objects/slalloc.c and slalloc.h. Blocks, their bit maps and the list of blocks
    with room. \<open>slab_good\<close> is the invariant as long as no page mapping has failed. After a failure
    a freed map is in that list (a defect named in the findings): \<open>orderly\<close>, which says that
    the state is good but for that one link, holds in every reachable state, and \<open>dangling\<close> are
    the states in which the next allocation reads the freed map.
  \<^item> Lrupat, Lrupat_Map: objects/lrupat.c. A heap of nodes at the addresses the slab hands out. The
    inductive \<open>tree\<close> says that the nodes below a pointer form a tree; \<open>stored\<close> is the map
    the tree stands for. Adding is all or nothing whatever allocation fails. The locale \<open>char_fold\<close> is instantiated for the case-sensitive and the
    case-blind functions.
  \<^item> Uri: utils/rfc2396.c. The parsers of the parts of a URI, and printing back.
  \<^item> Windows: utils/mmap.c, objects/filewindow.h, objects/ringbufs.h. The kernel's side is the record
    \<open>vm\<close> (what is mapped where, and the file); the answer of every mapping call is an argument,
    also which pages a failed remapping has lost.
  \<^item> Events: modules/events and utils/maxfds.c, the Linux branches. The kernel's side of epoll is part
    of the state; one turn of the loop of a thread is a definition, and the answers of the
    system are arguments. The relation \<open>ev_step\<close> is what can happen to a handler.
  \<^item> Ctlserver: modules/ctlserver and objects/cmdstate.c. Commands with their reference counts, the
    queue, the drones and the requests of clients; \<open>srv_step\<close> interleaves them, with what a client
    may send as a parameter. \<open>init_ctlserver\<close> and \<open>stop_ctlserver\<close> run on the handler of Events.
  \<^item> Magic, Hexmac, Rfc3330, Timeval: utils/magic.c, hex.c, mac.c, rfc3330.c, time.c. In Timeval every
    result is checked against the width that the code computes it in.

  \<^bold>\<open>Conventions.\<close> A fixed-width integer is a word of its width where the code's arithmetic on it
  can wrap, and \<^typ>\<open>nat\<close> or \<^typ>\<open>int\<close> for counts that are bounded by memory. A C
  return of -1 is a boolean that is true for failure, or \<^const>\<open>None\<close>. Where the C code would
  read or write outside an object, use freed memory or go through a dangling pointer, the
  operation answers an (outer) \<^const>\<open>None\<close>, so that a theorem that it answers \<^const>\<open>Some\<close>
  is a theorem of memory safety. Logging, which changes no state, is left out. Parameters stand
  for inet_pton, inet_ntop and for the pages of mmap; what is assumed of them
  is a hypothesis of the theorem that needs it, with a witness.

  \<^bold>\<open>Fuel and termination.\<close> One definition has fuel, \<open>free_lrupat_chain\<close>, the recursive release of a
  partly decayed tail: it is called with one more than the length of the tail, and
  \<open>free_lrupat_chain_path\<close> shows that this is enough, so that adding is defined. Other loops whose recursion is not structural
  (the line reader, the lexers, the trie, the sieve) have a termination proof with a measure:
  what is left of the text, of the answers of the socket, of the key or below the bound.

  \<^bold>\<open>Not modelled.\<close> System call wrappers, logging, tracing, process start, netlink, ethtool,
  curses and the unit tests: their substance is the behaviour of the kernel or of
  another library. PROJECT.json lists each with its reason.
\<close>

end
